(* ===== verification/Prelude.thy ===== *)
theory Prelude
  imports Main "HOL-Library.AList"
begin

text \<open>
  Shared vocabulary of the development: Python exceptions as values, the result type of
  fallible operations with its sequencing operator, dynamically typed Python values (the
  dictionaries that travel over the control plane) and the generic lemmas on maps, sets and
  lists that the component theories use.
\<close>

section \<open>Exceptions and results\<close>

text \<open>
  One constructor per exception class the sources raise; the string is the message (or the
  missing key). A fallible operation returns \<open>'a result\<close>: \<open>Inl\<close> is a raise and
  \<open>Inr\<close> a normal return, so every early exit of the source is a branch of the model.
\<close>

datatype py_error =
    TypeError string
  | ValueError string
  | KeyError string
  | IndexError string
  | RuntimeError string
  | AttributeError string
  | CancelledError string
  | TimeoutError string
  | AssertionError string

type_synonym 'a result = "py_error + 'a"

fun error_message :: "py_error \<Rightarrow> string" where
  "error_message (TypeError m) = m"
| "error_message (ValueError m) = m"
| "error_message (KeyError m) = m"
| "error_message (IndexError m) = m"
| "error_message (RuntimeError m) = m"
| "error_message (AttributeError m) = m"
| "error_message (CancelledError m) = m"
| "error_message (TimeoutError m) = m"
| "error_message (AssertionError m) = m"

definition is_ok :: "'a result \<Rightarrow> bool" where
  "is_ok r \<longleftrightarrow> (case r of Inl _ \<Rightarrow> False | Inr _ \<Rightarrow> True)"

text \<open>\<open>bindE m f\<close> runs \<open>f\<close> on the value of \<open>m\<close>; a raise of \<open>m\<close> skips \<open>f\<close>.\<close>

definition bindE :: "'a result \<Rightarrow> ('a \<Rightarrow> 'b result) \<Rightarrow> 'b result" where
  "bindE m f = (case m of Inl e \<Rightarrow> Inl e | Inr x \<Rightarrow> f x)"

text \<open>\<open>guardE ok e\<close> raises \<open>e\<close> unless \<open>ok\<close> holds.\<close>

definition guardE :: "bool \<Rightarrow> py_error \<Rightarrow> unit result" where
  "guardE ok e = (if ok then Inr () else Inl e)"

fun mapE :: "('a \<Rightarrow> 'b result) \<Rightarrow> 'a list \<Rightarrow> 'b list result" where
  "mapE f [] = Inr []"
| "mapE f (x # xs) = bindE (f x) (\<lambda>y. bindE (mapE f xs) (\<lambda>ys. Inr (y # ys)))"

named_theorems py_simps \<open>unfolding of the Python value layer\<close>
named_theorems inv_intros \<open>preservation of component invariants\<close>

lemma is_ok_simps [simp]:
  "is_ok (Inl e) = False"
  "is_ok (Inr x) = True"
  by (simp_all add: is_ok_def)

lemma is_ok_iff: "is_ok r \<longleftrightarrow> (\<exists>x. r = Inr x)"
  by (cases r) auto

lemma bindE_simps [simp]:
  "bindE (Inl e) f = Inl e"
  "bindE (Inr x) f = f x"
  by (simp_all add: bindE_def)

lemma bindE_eq_Inr [simp]: "bindE m f = Inr y \<longleftrightarrow> (\<exists>x. m = Inr x \<and> f x = Inr y)"
  by (cases m) auto

lemma bindE_eq_Inl: "bindE m f = Inl e \<longleftrightarrow> m = Inl e \<or> (\<exists>x. m = Inr x \<and> f x = Inl e)"
  by (cases m) auto

lemma bindE_cong [fundef_cong]:
  "m = m' \<Longrightarrow> (\<And>x. m' = Inr x \<Longrightarrow> f x = g x) \<Longrightarrow> bindE m f = bindE m' g"
  by (cases m') auto

text \<open>
  The simplifier evaluates the first operand before it looks at the continuation, as it does
  for the condition of an \<open>if\<close>.
\<close>

lemma bindE_weak_cong [cong]: "m = m' \<Longrightarrow> bindE m f = bindE m' f"
  by simp

lemma bindE_assoc: "bindE (bindE m f) g = bindE m (\<lambda>x. bindE (f x) g)"
  by (cases m) auto

lemma guardE_eq_Inr [simp]: "guardE ok e = Inr u \<longleftrightarrow> ok"
  by (simp add: guardE_def)

lemma guardE_eq_Inl [simp]: "guardE ok e = Inl e' \<longleftrightarrow> \<not> ok \<and> e' = e"
  by (auto simp: guardE_def)

lemma guardE_simps [simp]:
  "guardE True e = Inr ()"
  "guardE False e = Inl e"
  by (simp_all add: guardE_def)

lemma mapE_cong [fundef_cong]:
  "xs = ys \<Longrightarrow> (\<And>x. x \<in> set ys \<Longrightarrow> f x = g x) \<Longrightarrow> mapE f xs = mapE g ys"
  by (induction ys arbitrary: xs) (auto cong: bindE_cong)

lemma mapE_all_Inr: "(\<And>x. x \<in> set xs \<Longrightarrow> f x = Inr (g x)) \<Longrightarrow> mapE f xs = Inr (map g xs)"
  by (induction xs) auto

lemma mapE_map: "mapE f (map g xs) = mapE (\<lambda>x. f (g x)) xs"
  by (induction xs) (auto cong: bindE_cong)

lemma mapE_Inr_length: "mapE f xs = Inr ys \<Longrightarrow> length ys = length xs"
  by (induction xs arbitrary: ys) auto

lemma mapE_Inr_image: "mapE f xs = Inr ys \<Longrightarrow> x \<in> set xs \<Longrightarrow> \<exists>y \<in> set ys. f x = Inr y"
  by (induction xs arbitrary: ys) auto

lemma mapE_Inr_elem: "mapE f xs = Inr ys \<Longrightarrow> y \<in> set ys \<Longrightarrow> \<exists>x \<in> set xs. f x = Inr y"
  by (induction xs arbitrary: ys) auto

section \<open>Python values\<close>

text \<open>
  The values that travel in control-plane dictionaries. A dictionary is an association list
  in insertion order; \<open>PObj\<close> stands for an object the code only passes on (a float, a
  tensor, a callable): its class name, its identity and its truth value.
\<close>

datatype pyval =
    PNone
  | PBool bool
  | PInt int
  | PStr string
  | PList "pyval list"
  | PDict "(string \<times> pyval) list"
  | PObj string nat bool

type_synonym pydict = "(string \<times> pyval) list"

text \<open>\<open>bool(x)\<close> and \<open>type(x).__name__\<close>.\<close>

fun truthy :: "pyval \<Rightarrow> bool" where
  "truthy PNone = False"
| "truthy (PBool b) = b"
| "truthy (PInt i) = (i \<noteq> 0)"
| "truthy (PStr s) = (s \<noteq> [])"
| "truthy (PList xs) = (xs \<noteq> [])"
| "truthy (PDict d) = (d \<noteq> [])"
| "truthy (PObj c i b) = b"

fun type_name :: "pyval \<Rightarrow> string" where
  "type_name PNone = ''NoneType''"
| "type_name (PBool b) = ''bool''"
| "type_name (PInt i) = ''int''"
| "type_name (PStr s) = ''str''"
| "type_name (PList xs) = ''list''"
| "type_name (PDict d) = ''dict''"
| "type_name (PObj c i b) = c"

fun is_dict :: "pyval \<Rightarrow> bool" where
  "is_dict (PDict d) = True"
| "is_dict v = False"

text \<open>\<open>d.get(k)\<close>, \<open>d.get(k, default)\<close>, \<open>d[k]\<close>, \<open>k in d\<close> and \<open>d[k] = v\<close>.\<close>

definition dget_default :: "pydict \<Rightarrow> string \<Rightarrow> pyval \<Rightarrow> pyval" where
  "dget_default d k v = (case map_of d k of None \<Rightarrow> v | Some w \<Rightarrow> w)"

definition dget :: "pydict \<Rightarrow> string \<Rightarrow> pyval" where
  "dget d k = dget_default d k PNone"

definition dindex :: "pydict \<Rightarrow> string \<Rightarrow> pyval result" where
  "dindex d k = (case map_of d k of None \<Rightarrow> Inl (KeyError k) | Some v \<Rightarrow> Inr v)"

definition dhas :: "pydict \<Rightarrow> string \<Rightarrow> bool" where
  "dhas d k \<longleftrightarrow> map_of d k \<noteq> None"

definition dset :: "pydict \<Rightarrow> string \<Rightarrow> pyval \<Rightarrow> pydict" where
  "dset d k v = AList.update k v d"

text \<open>\<open>if v is not None: d[k] = v\<close>, the idiom of the optional fields.\<close>

definition dset_opt :: "pydict \<Rightarrow> string \<Rightarrow> pyval \<Rightarrow> pydict" where
  "dset_opt d k v = (if v = PNone then d else dset d k v)"

text \<open>
  \<open>str(x)\<close>: the identity on a \<open>str\<close>; the rendering of any other object is the
  parameter \<open>rp\<close>.
\<close>

fun py_str :: "(pyval \<Rightarrow> string) \<Rightarrow> pyval \<Rightarrow> string" where
  "py_str rp (PStr s) = s"
| "py_str rp v = rp v"

text \<open>\<open>sub in s\<close> on strings.\<close>

definition substring :: "string \<Rightarrow> string \<Rightarrow> bool" where
  "substring sub s = list_ex (\<lambda>i. take (length sub) (drop i s) = sub) [0..<Suc (length s)]"

text \<open>
  \<open>list(x)\<close> and \<open>dict(x)\<close>: iteration over a list, the characters of a string or the
  keys of a dictionary; a dictionary is built from a dictionary or from an iterable of
  two-element lists or two-character strings whose first component is a string.
\<close>

fun py_list :: "pyval \<Rightarrow> pyval list result" where
  "py_list (PList xs) = Inr xs"
| "py_list (PStr s) = Inr (map (\<lambda>c. PStr [c]) s)"
| "py_list (PDict d) = Inr (map (\<lambda>(k, v). PStr k) d)"
| "py_list v = Inl (TypeError (type_name v @ '' object is not iterable''))"

fun key_value :: "pyval \<Rightarrow> (string \<times> pyval) result" where
  "key_value (PList [PStr k, v]) = Inr (k, v)"
| "key_value (PStr [a, b]) = Inr ([a], PStr [b])"
| "key_value v = Inl (ValueError ''dictionary update sequence element has the wrong shape'')"

fun py_dict :: "pyval \<Rightarrow> pydict result" where
  "py_dict (PDict d) = Inr d"
| "py_dict v = bindE (py_list v) (\<lambda>xs. bindE (mapE key_value xs)
     (\<lambda>kvs. Inr (foldl (\<lambda>d (k, w). dset d k w) [] kvs)))"

text \<open>\<open>dict(x or {})\<close>.\<close>

definition py_dict_or_empty :: "pyval \<Rightarrow> pydict result" where
  "py_dict_or_empty v = (if truthy v then py_dict v else Inr [])"

lemma map_of_dset [py_simps]: "map_of (dset d k v) = (map_of d)(k \<mapsto> v)"
  by (simp add: dset_def update_conv')

lemma map_of_dset_opt [py_simps]:
  "map_of (dset_opt d k v) = (if v = PNone then map_of d else (map_of d)(k \<mapsto> v))"
  by (simp add: dset_opt_def map_of_dset)

lemmas dict_defs [py_simps] = dget_default_def dget_def dindex_def dhas_def

lemma dget_absent: "\<not> dhas d k \<Longrightarrow> dget d k = PNone"
  by (simp add: py_simps)

lemma py_dict_or_empty_PDict [simp]: "py_dict_or_empty (PDict d) = Inr d"
  by (cases d) (simp_all add: py_dict_or_empty_def)

section \<open>Maps, sets and lists\<close>

lemma dom_map_upd_subset: "dom m \<subseteq> A \<Longrightarrow> k \<in> A \<Longrightarrow> dom (m(k \<mapsto> v)) \<subseteq> A"
  by auto

lemma dom_delete: "dom (m(k := None)) = dom m - {k}"
  by (auto simp: dom_def)

lemma finite_dom_delete: "finite (dom m) \<Longrightarrow> finite (dom (m(k := None)))"
  by (simp add: dom_delete)

lemma card_le_1_iff_singleton: "finite A \<Longrightarrow> x \<in> A \<Longrightarrow> card A \<le> 1 \<Longrightarrow> A = {x}"
  by (metis card_le_Suc0_iff_eq One_nat_def is_singletonI' is_singleton_the_elem
      singletonD empty_iff)

text \<open>
  Removing arbitrary elements from a set that has grown past a cap: the sources write
  \<open>it = iter(s); drop = [next(it) for _ in range(excess)]; s -= set(drop)\<close>. The order in
  which a Python set is iterated is not specified, so it is an argument: a function that
  lists every finite set without repetition.
\<close>

definition set_order :: "('a set \<Rightarrow> 'a list) \<Rightarrow> bool" where
  "set_order ord \<longleftrightarrow> (\<forall>S. finite S \<longrightarrow> set (ord S) = S \<and> distinct (ord S))"

definition cap_set :: "('a set \<Rightarrow> 'a list) \<Rightarrow> nat \<Rightarrow> nat \<Rightarrow> 'a set \<Rightarrow> 'a set" where
  "cap_set ord cap keep S =
     (if card S > cap then S - set (take (card S - keep) (ord S)) else S)"

lemma set_order_sorted: "set_order (sorted_list_of_set :: 'a::linorder set \<Rightarrow> 'a list)"
  by (simp add: set_order_def)

lemma cap_set_subset: "cap_set ord cap keep S \<subseteq> S"
  by (auto simp: cap_set_def)

lemma cap_set_finite: "finite S \<Longrightarrow> finite (cap_set ord cap keep S)"
  using cap_set_subset by (rule finite_subset)

lemma card_cap_set:
  assumes "set_order ord" and "finite S" and "keep \<le> cap"
  shows "card (cap_set ord cap keep S) = (if card S > cap then keep else card S)"
proof (cases "card S > cap")
  case True
  have ord: "set (ord S) = S" "distinct (ord S)"
    using assms by (auto simp: set_order_def)
  have len: "length (ord S) = card S"
    using ord by (metis distinct_card)
  have "card (set (take (card S - keep) (ord S))) = card S - keep"
    using ord len by (simp add: distinct_card)
  moreover have "set (take (card S - keep) (ord S)) \<subseteq> S"
    using ord set_take_subset by fastforce
  ultimately have "card (S - set (take (card S - keep) (ord S))) = card S - (card S - keep)"
    using assms(2) by (simp add: card_Diff_subset)
  with True assms(3) show ?thesis
    by (simp add: cap_set_def)
qed (simp add: cap_set_def)

lemma cap_set_id: "card S \<le> cap \<Longrightarrow> cap_set ord cap keep S = S"
  by (simp add: cap_set_def)

section \<open>Decimal numbers\<close>

text \<open>\<open>str(n)\<close>.\<close>

fun digits :: "nat \<Rightarrow> string" where
  "digits n = (if n < 10 then [char_of (48 + n)] else digits (n div 10) @ [char_of (48 + n mod 10)])"

declare digits.simps [simp del]

definition decimal :: "int \<Rightarrow> string" where
  "decimal i = (if i < 0 then ''-'' @ digits (nat (- i)) else digits (nat i))"

definition undigits :: "string \<Rightarrow> nat" where
  "undigits s = foldl (\<lambda>a c. 10 * a + (of_char c - 48)) 0 s"

lemma undigits_digits: "undigits (digits n) = n"
proof (induction n rule: digits.induct)
  case (1 n)
  show ?case
  proof (cases "n < 10")
    case True
    then show ?thesis by (subst digits.simps) (simp add: undigits_def)
  next
    case False
    with 1 have "undigits (digits (n div 10)) = n div 10" by simp
    moreover have "digits n = digits (n div 10) @ [char_of (48 + n mod 10)]"
      using False by (subst digits.simps) simp
    ultimately show ?thesis by (simp add: undigits_def)
  qed
qed

lemma digits_inject: "digits m = digits n \<longleftrightarrow> m = n"
  by (metis undigits_digits)

lemma digits_chars: "c \<in> set (digits n) \<Longrightarrow> 48 \<le> (of_char c :: nat) \<and> (of_char c :: nat) \<le> 57"
proof (induction n rule: digits.induct)
  case (1 n)
  show ?case
  proof (cases "n < 10")
    case True
    then have "digits n = [char_of (48 + n)]" by (subst digits.simps) simp
    with 1(2) True show ?thesis by simp
  next
    case False
    then have "digits n = digits (n div 10) @ [char_of (48 + n mod 10)]"
      by (subst digits.simps) simp
    with 1 False show ?thesis by auto
  qed
qed

lemma decimal_chars: "c \<in> set (decimal i) \<Longrightarrow> c = CHR ''-'' \<or> 48 \<le> (of_char c :: nat) \<and> (of_char c :: nat) \<le> 57"
  by (auto simp: decimal_def split: if_splits dest: digits_chars)

section \<open>Letters and blanks\<close>

text \<open>\<open>str.lower\<close> on ASCII letters.\<close>

definition lower_char :: "char \<Rightarrow> char" where
  "lower_char c = (if 65 \<le> (of_char c :: nat) \<and> (of_char c :: nat) \<le> 90 then char_of (of_char c + 32 :: nat) else c)"

definition lower :: "string \<Rightarrow> string" where
  "lower s = map lower_char s"

text \<open>\<open>str.strip()\<close> and \<open>str.split(sep)\<close>, on Latin-1 characters.\<close>

definition is_space :: "char \<Rightarrow> bool" where
  "is_space c \<longleftrightarrow> (let n = (of_char c :: nat) in 9 \<le> n \<and> n \<le> 13 \<or> 28 \<le> n \<and> n \<le> 32 \<or> n = 133 \<or> n = 160)"

definition strip :: "string \<Rightarrow> string" where
  "strip s = rev (dropWhile is_space (rev (dropWhile is_space s)))"

fun split_on :: "char \<Rightarrow> string \<Rightarrow> string list" where
  "split_on sep [] = [[]]"
| "split_on sep (c # s) = (if c = sep then [] # split_on sep s else (case split_on sep s of
     p # ps \<Rightarrow> (c # p) # ps | [] \<Rightarrow> [[c]]))"

section \<open>Stateful operations\<close>

text \<open>
  An operation that reads and writes a component's state and may raise: the state changes
  made before a raise stay, as they do in Python.
\<close>

type_synonym ('s, 'a) oper = "'s \<Rightarrow> 'a result \<times> 's"

definition ret :: "'a \<Rightarrow> ('s, 'a) oper" where
  "ret x s = (Inr x, s)"

definition raise :: "py_error \<Rightarrow> ('s, 'a) oper" where
  "raise e s = (Inl e, s)"

definition lift :: "'a result \<Rightarrow> ('s, 'a) oper" where
  "lift r s = (r, s)"

definition modify :: "('s \<Rightarrow> 's) \<Rightarrow> ('s, unit) oper" where
  "modify f s = (Inr (), f s)"

definition andthen :: "('s, 'a) oper \<Rightarrow> ('a \<Rightarrow> ('s, 'b) oper) \<Rightarrow> ('s, 'b) oper" where
  "andthen m f s = (case m s of (Inl e, s') \<Rightarrow> (Inl e, s') | (Inr x, s') \<Rightarrow> f x s')"

text \<open>\<open>with_state f\<close> lets the next step look at the state.\<close>

definition with_state :: "('s \<Rightarrow> ('s, 'a) oper) \<Rightarrow> ('s, 'a) oper" where
  "with_state f s = f s s"

fun for_each :: "('x \<Rightarrow> ('s, unit) oper) \<Rightarrow> 'x list \<Rightarrow> ('s, unit) oper" where
  "for_each f [] = ret ()"
| "for_each f (x # xs) = andthen (f x) (\<lambda>_. for_each f xs)"

text \<open>
  \<open>await asyncio.gather(..)\<close>: every branch runs; the first error is raised at the end.
\<close>

fun gather :: "('x \<Rightarrow> ('s, unit) oper) \<Rightarrow> 'x list \<Rightarrow> ('s, unit) oper" where
  "gather f [] s = (Inr (), s)"
| "gather f (x # xs) s = (case f x s of
     (Inl e, s') \<Rightarrow> (Inl e, snd (gather f xs s'))
   | (Inr _, s') \<Rightarrow> gather f xs s')"

text \<open>\<open>with suppress(Exception)\<close>.\<close>

definition suppress :: "('s, unit) oper \<Rightarrow> ('s, unit) oper" where
  "suppress m s = (Inr (), snd (m s))"

text \<open>\<open>try: m except Exception as exc: f\<close>.\<close>

definition catch :: "('s, 'a) oper \<Rightarrow> (py_error \<Rightarrow> ('s, 'a) oper) \<Rightarrow> ('s, 'a) oper" where
  "catch m f s = (case m s of (Inl e, s') \<Rightarrow> f e s' | (Inr u, s') \<Rightarrow> (Inr u, s'))"

named_theorems oper_simps \<open>evaluation of stateful operations\<close>

lemma oper_eval [oper_simps, simp]:
  "ret x s = (Inr x, s)"
  "raise e s = (Inl e, s)"
  "lift r s = (r, s)"
  "modify f s = (Inr (), f s)"
  "with_state g s = g s s"
  "suppress m s = (Inr (), snd (m s))"
  by (simp_all add: ret_def raise_def lift_def modify_def with_state_def suppress_def)

lemma andthen_eval [oper_simps, simp]:
  "m s = (Inl e, s') \<Longrightarrow> andthen m f s = (Inl e, s')"
  "m s = (Inr x, s') \<Longrightarrow> andthen m f s = f x s'"
  by (simp_all add: andthen_def)

lemma andthen_prim [oper_simps, simp]:
  "andthen (ret x) f = f x"
  "andthen (raise e) f = raise e"
  "andthen (modify g) f s = f () (g s)"
  "andthen (with_state k) f s = andthen (k s) f s"
  "andthen (lift (Inl e)) f = raise e"
  "andthen (lift (Inr x)) f = f x"
  by (simp_all add: andthen_def fun_eq_iff)

lemma andthen_assoc [oper_simps]: "andthen (andthen m f) g = andthen m (\<lambda>x. andthen (f x) g)"
  by (auto simp: andthen_def fun_eq_iff split: sum.split prod.split)

text \<open>
  \<open>keeps P m\<close>: the state after \<open>m\<close> satisfies \<open>P\<close> if the state before did, whether or not \<open>m\<close>
  raises.
\<close>

definition keeps :: "('s \<Rightarrow> bool) \<Rightarrow> ('s, 'a) oper \<Rightarrow> bool" where
  "keeps P m \<longleftrightarrow> (\<forall>s. P s \<longrightarrow> P (snd (m s)))"

named_theorems keeps_intros \<open>structural rules for \<^const>\<open>keeps\<close>\<close>

lemma keepsD: "keeps P m \<Longrightarrow> P s \<Longrightarrow> P (snd (m s))"
  by (simp add: keeps_def)

lemma keeps_prim [keeps_intros]:
  "keeps P (ret x)"
  "keeps P (raise e)"
  "keeps P (lift r)"
  "(\<And>s. P s \<Longrightarrow> P (f s)) \<Longrightarrow> keeps P (modify f)"
  by (simp_all add: keeps_def)

lemma keeps_andthen [keeps_intros]:
  "keeps P m \<Longrightarrow> (\<And>x. keeps P (f x)) \<Longrightarrow> keeps P (andthen m f)"
  by (auto simp: keeps_def andthen_def split: sum.split prod.split)

lemma keeps_with_state [keeps_intros]: "(\<And>s. keeps P (f s)) \<Longrightarrow> keeps P (with_state f)"
  by (simp add: keeps_def)

lemma keeps_suppress [keeps_intros]: "keeps P m \<Longrightarrow> keeps P (suppress m)"
  by (simp add: keeps_def)

lemma keeps_for_each [keeps_intros]: "(\<And>x. keeps P (f x)) \<Longrightarrow> keeps P (for_each f xs)"
  by (induction xs) (auto intro: keeps_intros)

lemma keeps_gather [keeps_intros]: "(\<And>x. keeps P (f x)) \<Longrightarrow> keeps P (gather f xs)"
proof (induction xs)
  case (Cons x xs)
  then have "keeps P (gather f xs)" "keeps P (f x)" by auto
  then show ?case by (auto simp: keeps_def split: sum.split prod.split)
qed (simp add: keeps_def)

lemma keeps_if [keeps_intros]:
  "(b \<Longrightarrow> keeps P m) \<Longrightarrow> (\<not> b \<Longrightarrow> keeps P m') \<Longrightarrow> keeps P (if b then m else m')"
  by simp

lemma keeps_option [keeps_intros]:
  "keeps P n \<Longrightarrow> (\<And>x. keeps P (f x)) \<Longrightarrow> keeps P (case v of None \<Rightarrow> n | Some x \<Rightarrow> f x)"
  by (cases v) simp_all

lemma keeps_conj: "keeps P m \<Longrightarrow> keeps Q m \<Longrightarrow> keeps (\<lambda>s. P s \<and> Q s) m"
  by (simp add: keeps_def)

text \<open>\<open>ends P m Q\<close>: from \<open>P\<close> the operation always ends, normally or by a raise, in \<open>Q\<close>.\<close>

definition ends :: "('s \<Rightarrow> bool) \<Rightarrow> ('s, 'a) oper \<Rightarrow> ('s \<Rightarrow> bool) \<Rightarrow> bool" where
  "ends P m Q \<longleftrightarrow> (\<forall>s. P s \<longrightarrow> Q (snd (m s)))"

lemma ends_keeps: "keeps P m \<Longrightarrow> (\<And>s. P' s \<Longrightarrow> P s) \<Longrightarrow> (\<And>s. P s \<Longrightarrow> Q s) \<Longrightarrow> ends P' m Q"
  by (auto simp: ends_def keeps_def)

lemma keeps_ends: "ends P m P \<Longrightarrow> keeps P m"
  by (simp add: ends_def keeps_def)

lemma ends_modify: "(\<And>s. P s \<Longrightarrow> Q (f s)) \<Longrightarrow> ends P (modify f) Q"
  by (simp add: ends_def)

lemma ends_andthen:
  "ends P m Q \<Longrightarrow> (\<And>x. ends Q (f x) R) \<Longrightarrow> (\<And>s. Q s \<Longrightarrow> R s) \<Longrightarrow> ends P (andthen m f) R"
  by (auto simp: ends_def andthen_def split: sum.split prod.split)

lemma ends_with_state: "(\<And>t. P t \<Longrightarrow> ends (\<lambda>s. s = t) (f t) Q) \<Longrightarrow> ends P (with_state f) Q"
  by (auto simp: ends_def)

end
