(* ===== verification/Messages.thy ===== *)
theory Messages
  imports Prelude
begin

text \<open>
  The control-plane protocol: \<open>sglang_omni/proto/messages.py\<close>, \<open>proto/admin.py\<close> and
  \<open>proto/request.py\<close>. Each message class is a record, its \<open>to_dict\<close> and \<open>from_dict\<close>
  are functions into and out of Python dictionaries with every validation as a raise, and
  \<open>parse_message\<close> dispatches on the \<open>type\<close> key. Fields whose decoder checks nothing hold
  any Python value. The locale \<open>wire_codec\<close> is the contract of one message class.
\<close>

section \<open>Requests and payloads\<close>

datatype request_state = PENDING | RUNNING | COMPLETED | FAILED | ABORTED

record omni_request =
  or_inputs :: pyval
  or_params :: pyval
  or_metadata :: pyval

record stage_payload =
  sp_request_id :: pyval
  sp_request :: omni_request
  sp_data :: pyval

definition omni_request_to_dict :: "omni_request \<Rightarrow> pydict" where
  "omni_request_to_dict r =
     [(''_type'', PStr ''OmniRequest''), (''inputs'', or_inputs r),
      (''params'', or_params r), (''metadata'', or_metadata r)]"

definition omni_request_from_dict :: "pyval \<Rightarrow> omni_request result" where
  "omni_request_from_dict v = (case v of
     PDict d \<Rightarrow> Inr \<lparr>or_inputs = dget d ''inputs'',
                    or_params = dget_default d ''params'' (PDict []),
                    or_metadata = dget_default d ''metadata'' (PDict [])\<rparr>
   | _ \<Rightarrow> Inl (AttributeError (type_name v @ '' object has no attribute get'')))"

definition stage_payload_to_dict :: "stage_payload \<Rightarrow> pydict" where
  "stage_payload_to_dict p =
     [(''_type'', PStr ''StagePayload''), (''request_id'', sp_request_id p),
      (''request'', PDict (omni_request_to_dict (sp_request p))), (''data'', sp_data p)]"

definition stage_payload_from_dict :: "pydict \<Rightarrow> stage_payload result" where
  "stage_payload_from_dict d =
     bindE (omni_request_from_dict (dget_default d ''request'' (PDict []))) (\<lambda>req.
       Inr \<lparr>sp_request_id = dget_default d ''request_id'' (PStr []),
            sp_request = req, sp_data = dget d ''data''\<rparr>)"

lemma omni_request_roundtrip: "omni_request_from_dict (PDict (omni_request_to_dict r)) = Inr r"
  by (simp add: omni_request_from_dict_def omni_request_to_dict_def py_simps)

lemma stage_payload_roundtrip: "stage_payload_from_dict (stage_payload_to_dict p) = Inr p"
  by (simp add: stage_payload_from_dict_def stage_payload_to_dict_def py_simps
      omni_request_roundtrip)

section \<open>Field checks\<close>

fun require_str :: "pyval \<Rightarrow> string \<Rightarrow> string result" where
  "require_str (PStr s) name =
     (if s = [] then Inl (TypeError (name @ '' must be a non-empty str'')) else Inr s)"
| "require_str v name = Inl (TypeError (name @ '' must be a non-empty str''))"

fun require_bool :: "pyval \<Rightarrow> string \<Rightarrow> bool result" where
  "require_bool (PBool b) name = Inr b"
| "require_bool v name = Inl (TypeError (name @ '' must be bool''))"

fun require_non_negative_int :: "pyval \<Rightarrow> string \<Rightarrow> int result" where
  "require_non_negative_int (PInt i) name =
     (if i < 0 then Inl (TypeError (name @ '' must be a non-negative int'')) else Inr i)"
| "require_non_negative_int v name = Inl (TypeError (name @ '' must be a non-negative int''))"

lemma require_str_Inr [simp]: "require_str v n = Inr s \<longleftrightarrow> v = PStr s \<and> s \<noteq> []"
  by (cases "(v, n)" rule: require_str.cases) auto

lemma require_bool_Inr [simp]: "require_bool v n = Inr b \<longleftrightarrow> v = PBool b"
  by (cases "(v, n)" rule: require_bool.cases) auto

lemma require_non_negative_int_Inr [simp]:
  "require_non_negative_int v n = Inr i \<longleftrightarrow> v = PInt i \<and> 0 \<le> i"
  by (cases "(v, n)" rule: require_non_negative_int.cases) auto

section \<open>DataReadyMessage\<close>

record data_ready =
  dr_request_id :: pyval
  dr_from_stage :: pyval
  dr_to_stage :: pyval
  dr_data_ref :: pyval
  dr_chunk_id :: pyval
  dr_is_done :: pyval
  dr_error :: pyval

text \<open>
  The shape check both directions share: a signal (done or error, not both) carries neither a
  data reference nor a chunk id, anything else carries a dictionary. \<open>no_chunk\<close> and \<open>what\<close>
  are how the encoder and the decoder phrase the chunk test and the type error.
\<close>

definition check_signal_shape :: "bool \<Rightarrow> pyval \<Rightarrow> pyval \<Rightarrow> bool \<Rightarrow> string \<Rightarrow> unit result" where
  "check_signal_shape done err ref no_chunk what =
     bindE (guardE (\<not> (done \<and> err \<noteq> PNone))
       (ValueError ''stream signal cannot be both done and error'')) (\<lambda>_.
     if done \<or> err \<noteq> PNone then
       bindE (guardE (ref = PNone) (ValueError ''stream signal must not carry data_ref'')) (\<lambda>_.
       guardE no_chunk (ValueError ''stream signal must not carry chunk_id''))
     else guardE (is_dict ref)
       (TypeError (what @ '' must be dict for data messages, got '' @ type_name ref)))"

definition put_chunk_id :: "pydict \<Rightarrow> pyval \<Rightarrow> pydict result" where
  "put_chunk_id d v =
     (if v \<noteq> PNone
      then bindE (require_non_negative_int v ''chunk_id'') (\<lambda>i. Inr (dset d ''chunk_id'' (PInt i)))
      else Inr d)"

definition put_error :: "pydict \<Rightarrow> pyval \<Rightarrow> pydict result" where
  "put_error d v =
     (if v \<noteq> PNone
      then bindE (require_str v ''error'') (\<lambda>e. Inr (dset d ''error'' (PStr e)))
      else Inr d)"

definition data_ready_to_dict :: "data_ready \<Rightarrow> pydict result" where
  "data_ready_to_dict m =
     bindE (require_str (dr_request_id m) ''request_id'') (\<lambda>rid.
     bindE (require_str (dr_from_stage m) ''from_stage'') (\<lambda>fs.
     bindE (require_str (dr_to_stage m) ''to_stage'') (\<lambda>ts.
     bindE (require_bool (dr_is_done m) ''is_done'') (\<lambda>done.
     bindE (check_signal_shape done (dr_error m) (dr_data_ref m) (dr_chunk_id m = PNone)
              ''DataReadyMessage.data_ref'') (\<lambda>_.
     bindE (put_chunk_id
             (dset_opt [(''type'', PStr ''data_ready''), (''request_id'', PStr rid),
                        (''from_stage'', PStr fs), (''to_stage'', PStr ts)]
               ''data_ref'' (dr_data_ref m)) (dr_chunk_id m)) (\<lambda>d.
     put_error (if done then dset d ''is_done'' (PBool True) else d) (dr_error m)))))))"

text \<open>\<open>if v is not None: check(v)\<close>.\<close>

definition check_optional :: "('a result) \<Rightarrow> pyval \<Rightarrow> unit result" where
  "check_optional chk v = (if v \<noteq> PNone then bindE chk (\<lambda>_. Inr ()) else Inr ())"

definition data_ready_from_dict :: "pydict \<Rightarrow> data_ready result" where
  "data_ready_from_dict d =
     bindE (require_str (dget d ''request_id'') ''request_id'') (\<lambda>rid.
     bindE (require_str (dget d ''from_stage'') ''from_stage'') (\<lambda>fs.
     bindE (require_str (dget d ''to_stage'') ''to_stage'') (\<lambda>ts.
     bindE (require_bool (dget_default d ''is_done'' (PBool False)) ''is_done'') (\<lambda>done.
     bindE (check_optional (require_str (dget d ''error'') ''error'') (dget d ''error'')) (\<lambda>_.
     bindE (check_signal_shape done (dget d ''error'') (dget d ''data_ref'')
              (\<not> dhas d ''chunk_id'') ''data_ready data_ref'') (\<lambda>_.
     bindE (check_optional (require_non_negative_int (dget d ''chunk_id'') ''chunk_id'')
              (dget d ''chunk_id'')) (\<lambda>_.
     Inr \<lparr>dr_request_id = PStr rid, dr_from_stage = PStr fs, dr_to_stage = PStr ts,
          dr_data_ref = dget d ''data_ref'', dr_chunk_id = dget d ''chunk_id'',
          dr_is_done = PBool done, dr_error = dget d ''error''\<rparr>)))))))"

lemma is_dict_iff: "is_dict v \<longleftrightarrow> (\<exists>d. v = PDict d)"
  by (cases v) auto

lemma check_signal_shape_Inr [simp]:
  "check_signal_shape done err ref no_chunk what = Inr u \<longleftrightarrow>
     (if done \<or> err \<noteq> PNone then \<not> (done \<and> err \<noteq> PNone) \<and> ref = PNone \<and> no_chunk
      else is_dict ref)"
  by (auto simp: check_signal_shape_def)

lemma put_chunk_id_Inr [simp]:
  "put_chunk_id d v = Inr d' \<longleftrightarrow>
     (v = PNone \<or> (\<exists>i\<ge>0. v = PInt i)) \<and> d' = dset_opt d ''chunk_id'' v"
  by (auto simp: put_chunk_id_def dset_opt_def)

lemma put_error_Inr [simp]:
  "put_error d v = Inr d' \<longleftrightarrow>
     (v = PNone \<or> (\<exists>e. e \<noteq> [] \<and> v = PStr e)) \<and> d' = dset_opt d ''error'' v"
  by (auto simp: put_error_def dset_opt_def)

lemma check_optional_Inr [simp]: "check_optional chk v = Inr u \<longleftrightarrow> v = PNone \<or> is_ok chk"
  by (auto simp: check_optional_def is_ok_iff)

text \<open>What the encoder accepts, in closed form: data, done signal or error signal.\<close>

definition data_ready_valid :: "data_ready \<Rightarrow> bool" where
  "data_ready_valid m \<longleftrightarrow>
     (\<exists>r f t. r \<noteq> [] \<and> f \<noteq> [] \<and> t \<noteq> [] \<and> dr_request_id m = PStr r \<and> dr_from_stage m = PStr f
        \<and> dr_to_stage m = PStr t) \<and>
     (dr_is_done m = PBool False \<and> dr_error m = PNone \<and> is_dict (dr_data_ref m)
        \<and> (dr_chunk_id m = PNone \<or> (\<exists>i\<ge>0. dr_chunk_id m = PInt i))
      \<or> dr_data_ref m = PNone \<and> dr_chunk_id m = PNone
        \<and> (dr_is_done m = PBool True \<and> dr_error m = PNone
           \<or> dr_is_done m = PBool False \<and> (\<exists>e. e \<noteq> [] \<and> dr_error m = PStr e)))"

lemma data_ready_to_dict_iff:
  "data_ready_to_dict m = Inr d \<longleftrightarrow> data_ready_valid m \<and>
     d = dset_opt (let d = dset_opt (dset_opt
             [(''type'', PStr ''data_ready''), (''request_id'', dr_request_id m),
              (''from_stage'', dr_from_stage m), (''to_stage'', dr_to_stage m)]
             ''data_ref'' (dr_data_ref m)) ''chunk_id'' (dr_chunk_id m)
           in if dr_is_done m = PBool True then dset d ''is_done'' (PBool True) else d)
         ''error'' (dr_error m)"
  by (auto simp: data_ready_to_dict_def data_ready_valid_def Let_def)

lemma data_ready_from_dict_iff:
  "data_ready_from_dict d = Inr m \<longleftrightarrow> data_ready_valid m \<and>
     dr_request_id m = dget d ''request_id'' \<and> dr_from_stage m = dget d ''from_stage'' \<and>
     dr_to_stage m = dget d ''to_stage'' \<and> dr_data_ref m = dget d ''data_ref'' \<and>
     dr_chunk_id m = dget d ''chunk_id'' \<and>
     dr_is_done m = dget_default d ''is_done'' (PBool False) \<and> dr_error m = dget d ''error'' \<and>
     (dr_data_ref m = PNone \<longrightarrow> \<not> dhas d ''chunk_id'')"
  by (cases m) (auto simp: data_ready_from_dict_def data_ready_valid_def is_ok_iff dget_absent)

lemma data_ready_roundtrip:
  assumes "data_ready_to_dict m = Inr d"
  shows "data_ready_from_dict d = Inr m"
proof -
  have v: "data_ready_valid m"
    using assms by (simp add: data_ready_to_dict_iff)
  then have b: "dr_is_done m = PBool True \<or> dr_is_done m = PBool False"
    and c: "dr_data_ref m = PNone \<longrightarrow> dr_chunk_id m = PNone"
    by (auto simp: data_ready_valid_def)
  show ?thesis
    using assms v b c
    by (simp add: data_ready_to_dict_iff data_ready_from_dict_iff Let_def py_simps) metis
qed

section \<open>DataAckMessage\<close>

record data_ack =
  da_request_id :: pyval
  da_from_stage :: pyval
  da_to_stage :: pyval
  da_object_id :: pyval
  da_success :: pyval
  da_error :: pyval

definition data_ack_to_dict :: "data_ack \<Rightarrow> pydict result" where
  "data_ack_to_dict m =
     bindE (require_str (da_request_id m) ''request_id'') (\<lambda>rid.
     bindE (require_str (da_from_stage m) ''from_stage'') (\<lambda>fs.
     bindE (require_str (da_to_stage m) ''to_stage'') (\<lambda>ts.
     bindE (require_str (da_object_id m) ''object_id'') (\<lambda>oid.
     bindE (require_bool (da_success m) ''success'') (\<lambda>ok.
     bindE (if ok then guardE (da_error m = PNone)
                         (ValueError ''successful data ack must not carry error'')
            else bindE (require_str (da_error m) ''error'') (\<lambda>_. Inr ())) (\<lambda>_.
     Inr (dset_opt [(''type'', PStr ''data_ack''), (''request_id'', PStr rid),
                    (''from_stage'', PStr fs), (''to_stage'', PStr ts),
                    (''object_id'', PStr oid), (''success'', PBool ok)]
            ''error'' (da_error m))))))))"

definition data_ack_from_dict :: "pydict \<Rightarrow> data_ack result" where
  "data_ack_from_dict d =
     bindE (require_bool (dget d ''success'') ''data_ack success'') (\<lambda>ok.
     bindE (if ok then guardE (dget d ''error'' = PNone)
                         (ValueError ''successful data_ack must not carry error'')
            else bindE (require_str (dget d ''error'') ''error'') (\<lambda>_. Inr ())) (\<lambda>_.
     bindE (require_str (dget d ''request_id'') ''request_id'') (\<lambda>rid.
     bindE (require_str (dget d ''from_stage'') ''from_stage'') (\<lambda>fs.
     bindE (require_str (dget d ''to_stage'') ''to_stage'') (\<lambda>ts.
     bindE (require_str (dget d ''object_id'') ''object_id'') (\<lambda>oid.
     Inr \<lparr>da_request_id = PStr rid, da_from_stage = PStr fs, da_to_stage = PStr ts,
          da_object_id = PStr oid, da_success = PBool ok, da_error = dget d ''error''\<rparr>))))))"

section \<open>The unvalidated messages\<close>

record complete_msg =
  cm_request_id :: pyval
  cm_from_stage :: pyval
  cm_success :: pyval
  cm_result :: pyval
  cm_error :: pyval

definition abort_to_dict :: "pyval \<Rightarrow> pydict result" where
  "abort_to_dict rid = Inr [(''type'', PStr ''abort''), (''request_id'', rid)]"

definition abort_from_dict :: "pydict \<Rightarrow> pyval result" where
  "abort_from_dict d = dindex d ''request_id''"

definition complete_to_dict :: "complete_msg \<Rightarrow> pydict result" where
  "complete_to_dict m =
     Inr [(''type'', PStr ''complete''), (''request_id'', cm_request_id m),
          (''from_stage'', cm_from_stage m), (''success'', cm_success m),
          (''result'', cm_result m), (''error'', cm_error m)]"

definition complete_from_dict :: "pydict \<Rightarrow> complete_msg result" where
  "complete_from_dict d =
     bindE (dindex d ''request_id'') (\<lambda>rid.
     bindE (dindex d ''from_stage'') (\<lambda>fs.
     bindE (dindex d ''success'') (\<lambda>ok.
     Inr \<lparr>cm_request_id = rid, cm_from_stage = fs, cm_success = ok,
          cm_result = dget d ''result'', cm_error = dget d ''error''\<rparr>)))"

record stream_msg =
  sm_request_id :: pyval
  sm_from_stage :: pyval
  sm_chunk :: pyval
  sm_stage_id :: pyval
  sm_stage_name :: pyval
  sm_modality :: pyval
  sm_chunk_id :: pyval

definition stream_to_dict :: "stream_msg \<Rightarrow> pydict result" where
  "stream_to_dict m =
     Inr (dset_opt [(''type'', PStr ''stream''), (''request_id'', sm_request_id m),
            (''from_stage'', sm_from_stage m), (''chunk'', sm_chunk m),
            (''stage_id'', sm_stage_id m), (''stage_name'', sm_stage_name m),
            (''modality'', sm_modality m)] ''chunk_id'' (sm_chunk_id m))"

definition stream_from_dict :: "pydict \<Rightarrow> stream_msg result" where
  "stream_from_dict d =
     bindE (dindex d ''request_id'') (\<lambda>rid.
     bindE (dindex d ''from_stage'') (\<lambda>fs.
     Inr \<lparr>sm_request_id = rid, sm_from_stage = fs, sm_chunk = dget d ''chunk'',
          sm_stage_id = dget d ''stage_id'', sm_stage_name = dget d ''stage_name'',
          sm_modality = dget d ''modality'', sm_chunk_id = dget d ''chunk_id''\<rparr>))"

text \<open>\<open>SubmitMessage.data\<close> is a \<open>StagePayload\<close> object or anything else.\<close>

datatype submit_data = SubmitPayload stage_payload | SubmitRaw pyval

record submit_msg =
  su_request_id :: pyval
  su_data :: submit_data

definition submit_to_dict :: "submit_msg \<Rightarrow> pydict result" where
  "submit_to_dict m =
     Inr [(''type'', PStr ''submit''), (''request_id'', su_request_id m),
          (''data'', case su_data m of SubmitPayload p \<Rightarrow> PDict (stage_payload_to_dict p)
                                     | SubmitRaw v \<Rightarrow> v)]"

fun payload_tagged :: "pyval \<Rightarrow> bool" where
  "payload_tagged (PDict d) \<longleftrightarrow> dget d ''_type'' = PStr ''StagePayload''"
| "payload_tagged v \<longleftrightarrow> False"

definition submit_data_from :: "pyval \<Rightarrow> submit_data result" where
  "submit_data_from v = (case v of
     PDict d \<Rightarrow> if dget d ''_type'' = PStr ''StagePayload''
                then bindE (stage_payload_from_dict d) (\<lambda>p. Inr (SubmitPayload p))
                else Inr (SubmitRaw v)
   | _ \<Rightarrow> Inr (SubmitRaw v))"

definition submit_from_dict :: "pydict \<Rightarrow> submit_msg result" where
  "submit_from_dict d =
     bindE (dindex d ''data'') (\<lambda>v.
     bindE (submit_data_from v) (\<lambda>data.
     bindE (dindex d ''request_id'') (\<lambda>rid.
     Inr \<lparr>su_request_id = rid, su_data = data\<rparr>)))"

definition submit_wf :: "submit_msg \<Rightarrow> bool" where
  "submit_wf m \<longleftrightarrow> (case su_data m of SubmitPayload _ \<Rightarrow> True | SubmitRaw v \<Rightarrow> \<not> payload_tagged v)"

record profiler_start =
  ps_run_id :: pyval
  ps_trace_path_template :: pyval
  ps_event_dir :: pyval
  ps_enable_torch :: bool

definition shutdown_to_dict :: "unit \<Rightarrow> pydict result" where
  "shutdown_to_dict u = Inr [(''type'', PStr ''shutdown'')]"

definition shutdown_from_dict :: "pydict \<Rightarrow> unit result" where
  "shutdown_from_dict d = Inr ()"

definition profiler_start_to_dict :: "profiler_start \<Rightarrow> pydict result" where
  "profiler_start_to_dict m =
     Inr [(''type'', PStr ''profiler_start''), (''run_id'', ps_run_id m),
          (''trace_path_template'', ps_trace_path_template m),
          (''event_dir'', ps_event_dir m), (''enable_torch'', PBool (ps_enable_torch m))]"

definition profiler_start_from_dict :: "pydict \<Rightarrow> profiler_start result" where
  "profiler_start_from_dict d =
     bindE (dindex d ''run_id'') (\<lambda>run.
     bindE (dindex d ''trace_path_template'') (\<lambda>tpl.
     Inr \<lparr>ps_run_id = run, ps_trace_path_template = tpl, ps_event_dir = dget d ''event_dir'',
          ps_enable_torch = truthy (dget_default d ''enable_torch'' (PBool True))\<rparr>))"

definition profiler_stop_to_dict :: "pyval \<Rightarrow> pydict result" where
  "profiler_stop_to_dict run = Inr [(''type'', PStr ''profiler_stop''), (''run_id'', run)]"

definition profiler_stop_from_dict :: "pydict \<Rightarrow> pyval result" where
  "profiler_stop_from_dict d = Inr (dget d ''run_id'')"

section \<open>Administrative operations\<close>

record admin_operation =
  ao_op_id :: string
  ao_action :: string
  ao_payload :: pydict
  ao_target_stages :: "pyval list option"
  ao_timeout_s :: pyval

record admin_result =
  ar_op_id :: string
  ar_stage :: string
  ar_action :: string
  ar_success :: bool
  ar_message :: string
  ar_data :: pydict
  ar_error :: pyval
  ar_rank :: pyval
  ar_role :: pyval

definition admin_operation_to_dict :: "admin_operation \<Rightarrow> pydict" where
  "admin_operation_to_dict op =
     [(''op_id'', PStr (ao_op_id op)), (''action'', PStr (ao_action op)),
      (''payload'', PDict (ao_payload op)),
      (''target_stages'', case ao_target_stages op of None \<Rightarrow> PNone | Some xs \<Rightarrow> PList xs),
      (''timeout_s'', ao_timeout_s op)]"

definition admin_operation_from_dict ::
    "(pyval \<Rightarrow> string) \<Rightarrow> pydict \<Rightarrow> admin_operation result" where
  "admin_operation_from_dict rp d =
     bindE (dindex d ''op_id'') (\<lambda>op_id.
     bindE (dindex d ''action'') (\<lambda>action.
     bindE (py_dict_or_empty (dget d ''payload'')) (\<lambda>payload.
     bindE (if dget d ''target_stages'' = PNone then Inr None
            else bindE (py_list (dget d ''target_stages'')) (\<lambda>xs. Inr (Some xs))) (\<lambda>stages.
     Inr \<lparr>ao_op_id = py_str rp op_id, ao_action = py_str rp action, ao_payload = payload,
          ao_target_stages = stages, ao_timeout_s = dget d ''timeout_s''\<rparr>))))"

definition admin_result_to_dict :: "admin_result \<Rightarrow> pydict" where
  "admin_result_to_dict r =
     [(''op_id'', PStr (ar_op_id r)), (''stage'', PStr (ar_stage r)),
      (''action'', PStr (ar_action r)), (''success'', PBool (ar_success r)),
      (''message'', PStr (ar_message r)), (''data'', PDict (ar_data r)),
      (''error'', ar_error r), (''rank'', ar_rank r), (''role'', ar_role r)]"

definition admin_result_from_dict :: "(pyval \<Rightarrow> string) \<Rightarrow> pydict \<Rightarrow> admin_result result" where
  "admin_result_from_dict rp d =
     bindE (dindex d ''op_id'') (\<lambda>op_id.
     bindE (dindex d ''stage'') (\<lambda>stage.
     bindE (dindex d ''action'') (\<lambda>action.
     bindE (dindex d ''success'') (\<lambda>ok.
     bindE (py_dict_or_empty (dget d ''data'')) (\<lambda>data.
     Inr \<lparr>ar_op_id = py_str rp op_id, ar_stage = py_str rp stage,
          ar_action = py_str rp action, ar_success = truthy ok,
          ar_message = (if truthy (dget d ''message'') then py_str rp (dget d ''message'') else []),
          ar_data = data, ar_error = dget d ''error'', ar_rank = dget d ''rank'',
          ar_role = dget d ''role''\<rparr>)))))"

definition update_actions :: "string set" where
  "update_actions =
     {''init_weights_update_group'', ''destroy_weights_update_group'',
      ''update_weights_from_disk'', ''update_weights_from_tensor'',
      ''update_weights_from_distributed''}"

definition is_update_action :: "string \<Rightarrow> bool" where
  "is_update_action action \<longleftrightarrow> action \<in> update_actions"

definition admin_msg_to_dict :: "admin_operation \<Rightarrow> pydict result" where
  "admin_msg_to_dict op =
     Inr [(''type'', PStr ''admin''), (''operation'', PDict (admin_operation_to_dict op))]"

text \<open>\<open>data["op_id"]\<close> on a value that is not a dictionary raises \<open>TypeError\<close>.\<close>

definition admin_msg_from_dict :: "(pyval \<Rightarrow> string) \<Rightarrow> pydict \<Rightarrow> admin_operation result" where
  "admin_msg_from_dict rp d =
     bindE (dindex d ''operation'') (\<lambda>v. case v of
       PDict op \<Rightarrow> admin_operation_from_dict rp op
     | PObj c i b \<Rightarrow> Inl (TypeError (c @ '' object is not subscriptable''))
     | PNone \<Rightarrow> Inl (AttributeError ''NoneType object has no attribute get'')
     | _ \<Rightarrow> Inl (AttributeError (type_name v @ '' object has no attribute get'')))"

definition admin_result_msg_to_dict :: "admin_result \<Rightarrow> pydict result" where
  "admin_result_msg_to_dict r =
     Inr [(''type'', PStr ''admin_result''), (''result'', PDict (admin_result_to_dict r))]"

definition admin_result_msg_from_dict :: "(pyval \<Rightarrow> string) \<Rightarrow> pydict \<Rightarrow> admin_result result" where
  "admin_result_msg_from_dict rp d =
     bindE (dindex d ''result'') (\<lambda>v. case v of
       PDict r \<Rightarrow> admin_result_from_dict rp r
     | _ \<Rightarrow> Inl (TypeError (type_name v @ '' is not indexed by str'')))"

section \<open>The codec contract\<close>

text \<open>
  What every message class promises: its encoder writes its tag, and its decoder inverts the
  encoder on well-formed messages. Two well-formed messages with one encoding are equal.
\<close>

locale wire_codec =
  fixes tag :: string
    and wf :: "'m \<Rightarrow> bool"
    and enc :: "'m \<Rightarrow> pydict result"
    and dec :: "pydict \<Rightarrow> 'm result"
  assumes enc_tag: "enc m = Inr d \<Longrightarrow> dget d ''type'' = PStr tag"
    and dec_enc: "wf m \<Longrightarrow> enc m = Inr d \<Longrightarrow> dec d = Inr m"
begin

lemma enc_inj: "wf m \<Longrightarrow> wf m' \<Longrightarrow> enc m = Inr d \<Longrightarrow> enc m' = Inr d \<Longrightarrow> m = m'"
  by (metis dec_enc sum.inject(2))

lemma tagged_dec: "wf m \<Longrightarrow> enc m = Inr d \<Longrightarrow> dget d ''type'' = PStr tag \<and> dec d = Inr m"
  using enc_tag dec_enc by blast

end

lemmas codec_defs =
  data_ack_to_dict_def data_ack_from_dict_def abort_to_dict_def abort_from_dict_def
  complete_to_dict_def complete_from_dict_def stream_to_dict_def stream_from_dict_def
  submit_to_dict_def submit_from_dict_def shutdown_to_dict_def shutdown_from_dict_def
  profiler_start_to_dict_def profiler_start_from_dict_def profiler_stop_to_dict_def
  profiler_stop_from_dict_def admin_msg_to_dict_def admin_msg_from_dict_def
  admin_result_msg_to_dict_def admin_result_msg_from_dict_def

lemma admin_operation_roundtrip:
  "admin_operation_from_dict rp (admin_operation_to_dict op) = Inr op"
  by (cases op; cases "ao_target_stages op")
    (simp_all add: admin_operation_from_dict_def admin_operation_to_dict_def py_simps)

lemma admin_result_roundtrip: "admin_result_from_dict rp (admin_result_to_dict r) = Inr r"
  by (cases r) (simp add: admin_result_from_dict_def admin_result_to_dict_def py_simps)

lemma data_ack_enc:
  "data_ack_to_dict m = Inr d \<Longrightarrow>
     data_ack_from_dict d = Inr m \<and> dget d ''type'' = PStr ''data_ack''"
proof -
  assume enc: "data_ack_to_dict m = Inr d"
  then obtain r f t oid ok where
      m: "da_request_id m = PStr r" "da_from_stage m = PStr f" "da_to_stage m = PStr t"
         "da_object_id m = PStr oid" "da_success m = PBool ok"
    and ne: "r \<noteq> []" "f \<noteq> []" "t \<noteq> []" "oid \<noteq> []"
    and err: "if ok then da_error m = PNone else \<exists>e. e \<noteq> [] \<and> da_error m = PStr e"
    and d: "d = dset_opt [(''type'', PStr ''data_ack''), (''request_id'', PStr r),
              (''from_stage'', PStr f), (''to_stage'', PStr t), (''object_id'', PStr oid),
              (''success'', PBool ok)] ''error'' (da_error m)"
    by (auto simp: data_ack_to_dict_def split: if_splits)
  show ?thesis
    using m ne err by (cases m) (auto simp: data_ack_from_dict_def d py_simps split: if_splits)
qed

lemma payload_tag: "dget (stage_payload_to_dict p) ''_type'' = PStr ''StagePayload''"
  by (simp add: stage_payload_to_dict_def py_simps)

lemma submit_data_roundtrip:
  "submit_wf m \<Longrightarrow> submit_data_from (case su_data m of
       SubmitPayload p \<Rightarrow> PDict (stage_payload_to_dict p) | SubmitRaw v \<Rightarrow> v) = Inr (su_data m)"
  by (auto simp: submit_wf_def submit_data_from_def stage_payload_roundtrip payload_tag
      split: submit_data.splits pyval.splits)

interpretation data_ready: wire_codec "''data_ready''" "\<lambda>_. True"
    data_ready_to_dict data_ready_from_dict
  by unfold_locales (auto simp: data_ready_roundtrip data_ready_to_dict_iff Let_def py_simps)

interpretation data_ack: wire_codec "''data_ack''" "\<lambda>_. True" data_ack_to_dict data_ack_from_dict
  by unfold_locales (auto dest: data_ack_enc)

interpretation abort: wire_codec "''abort''" "\<lambda>_. True" abort_to_dict abort_from_dict
  by unfold_locales (auto simp: codec_defs py_simps)

interpretation complete: wire_codec "''complete''" "\<lambda>_. True" complete_to_dict complete_from_dict
  by unfold_locales (auto simp: codec_defs py_simps)

interpretation stream: wire_codec "''stream''" "\<lambda>_. True" stream_to_dict stream_from_dict
  by unfold_locales (auto simp: codec_defs py_simps)

interpretation submit: wire_codec "''submit''" submit_wf submit_to_dict submit_from_dict
  by unfold_locales (auto simp: codec_defs py_simps submit_data_roundtrip)

interpretation shutdown: wire_codec "''shutdown''" "\<lambda>_. True" shutdown_to_dict shutdown_from_dict
  by unfold_locales (auto simp: codec_defs py_simps)

interpretation profiler_start: wire_codec "''profiler_start''" "\<lambda>_. True"
    profiler_start_to_dict profiler_start_from_dict
  by unfold_locales (auto simp: codec_defs py_simps)

interpretation profiler_stop: wire_codec "''profiler_stop''" "\<lambda>_. True"
    profiler_stop_to_dict profiler_stop_from_dict
  by unfold_locales (auto simp: codec_defs py_simps)

interpretation admin: wire_codec "''admin''" "\<lambda>_. True" admin_msg_to_dict "admin_msg_from_dict rp"
  for rp
  by unfold_locales (auto simp: codec_defs py_simps admin_operation_roundtrip)

interpretation admin_result: wire_codec "''admin_result''" "\<lambda>_. True"
    admin_result_msg_to_dict "admin_result_msg_from_dict rp"
  for rp
  by unfold_locales (auto simp: codec_defs py_simps admin_result_roundtrip)

section \<open>Dispatch\<close>

datatype control_msg =
    MDataReady data_ready
  | MDataAck data_ack
  | MAbort pyval
  | MComplete complete_msg
  | MStream stream_msg
  | MSubmit submit_msg
  | MShutdown unit
  | MProfilerStart profiler_start
  | MProfilerStop pyval
  | MAdmin admin_operation
  | MAdminResult admin_result

fun message_to_dict :: "control_msg \<Rightarrow> pydict result" where
  "message_to_dict (MDataReady m) = data_ready_to_dict m"
| "message_to_dict (MDataAck m) = data_ack_to_dict m"
| "message_to_dict (MAbort m) = abort_to_dict m"
| "message_to_dict (MComplete m) = complete_to_dict m"
| "message_to_dict (MStream m) = stream_to_dict m"
| "message_to_dict (MSubmit m) = submit_to_dict m"
| "message_to_dict (MShutdown m) = shutdown_to_dict m"
| "message_to_dict (MProfilerStart m) = profiler_start_to_dict m"
| "message_to_dict (MProfilerStop m) = profiler_stop_to_dict m"
| "message_to_dict (MAdmin m) = admin_msg_to_dict m"
| "message_to_dict (MAdminResult m) = admin_result_msg_to_dict m"

definition parse_message :: "(pyval \<Rightarrow> string) \<Rightarrow> pydict \<Rightarrow> control_msg result" where
  "parse_message rp d = (let t = dget d ''type'' in
     if t = PStr ''data_ready'' then bindE (data_ready_from_dict d) (\<lambda>m. Inr (MDataReady m))
     else if t = PStr ''data_ack'' then bindE (data_ack_from_dict d) (\<lambda>m. Inr (MDataAck m))
     else if t = PStr ''abort'' then bindE (abort_from_dict d) (\<lambda>m. Inr (MAbort m))
     else if t = PStr ''complete'' then bindE (complete_from_dict d) (\<lambda>m. Inr (MComplete m))
     else if t = PStr ''stream'' then bindE (stream_from_dict d) (\<lambda>m. Inr (MStream m))
     else if t = PStr ''submit'' then bindE (submit_from_dict d) (\<lambda>m. Inr (MSubmit m))
     else if t = PStr ''shutdown'' then bindE (shutdown_from_dict d) (\<lambda>m. Inr (MShutdown m))
     else if t = PStr ''profiler_start''
       then bindE (profiler_start_from_dict d) (\<lambda>m. Inr (MProfilerStart m))
     else if t = PStr ''profiler_stop''
       then bindE (profiler_stop_from_dict d) (\<lambda>m. Inr (MProfilerStop m))
     else if t = PStr ''admin'' then bindE (admin_msg_from_dict rp d) (\<lambda>m. Inr (MAdmin m))
     else if t = PStr ''admin_result''
       then bindE (admin_result_msg_from_dict rp d) (\<lambda>m. Inr (MAdminResult m))
     else Inl (ValueError (''Unknown message type: '' @ py_str rp t)))"

fun message_wf :: "control_msg \<Rightarrow> bool" where
  "message_wf (MSubmit m) = submit_wf m"
| "message_wf m = True"

lemmas codec_laws =
  data_ready.tagged_dec [OF TrueI] data_ack.tagged_dec [OF TrueI] abort.tagged_dec [OF TrueI]
  complete.tagged_dec [OF TrueI] stream.tagged_dec [OF TrueI] shutdown.tagged_dec [OF TrueI]
  profiler_start.tagged_dec [OF TrueI] profiler_stop.tagged_dec [OF TrueI]

text \<open>
  C7: whatever control message is sent, the receiver of its dictionary decodes exactly that
  message: \<open>parse_message(m.to_dict())\<close> is \<open>m\<close> for every message class, whenever the
  encoder accepts \<open>m\<close>. The one exception the code has is excluded by \<open>message_wf\<close>: a raw
  submit whose data is a plain dictionary that calls itself a \<open>StagePayload\<close>.
\<close>

theorem parse_message_roundtrip:
  assumes "message_wf m" and "message_to_dict m = Inr d"
  shows "parse_message rp d = Inr m"
  by (insert assms, (cases m; simp), ((drule codec_laws | drule (1) submit.tagged_dec
      | drule admin.tagged_dec [OF TrueI, where rp = rp]
      | drule admin_result.tagged_dec [OF TrueI, where rp = rp]), simp add: parse_message_def)+)

theorem parse_message_roundtrip_witness:
  "parse_message (\<lambda>_. ''?'')
     [(''type'', PStr ''data_ready''), (''request_id'', PStr ''r''), (''from_stage'', PStr ''a''),
      (''to_stage'', PStr ''b''), (''data_ref'', PDict []), (''chunk_id'', PInt 3)]
   = Inr (MDataReady \<lparr>dr_request_id = PStr ''r'', dr_from_stage = PStr ''a'',
       dr_to_stage = PStr ''b'', dr_data_ref = PDict [], dr_chunk_id = PInt 3,
       dr_is_done = PBool False, dr_error = PNone\<rparr>)"
  by (rule parse_message_roundtrip)
    (simp_all add: data_ready_to_dict_iff data_ready_valid_def dset_opt_def dset_def)

text \<open>
  the encoder and the decoder of the data-plane notification accept exactly the same
  messages. A dictionary the decoder accepts can be encoded again and decodes to the same
  message, and what the encoder accepts is either a payload or chunk with a dictionary
  reference, a bare done signal or a bare error signal, never a mixture.
\<close>

theorem data_ready_accepts_same:
  "is_ok (data_ready_to_dict m) = (\<exists>d. data_ready_from_dict d = Inr m)
   \<and> is_ok (data_ready_to_dict m) = data_ready_valid m"
proof -
  have "is_ok (data_ready_to_dict m) = data_ready_valid m"
    by (simp add: is_ok_iff data_ready_to_dict_iff)
  moreover have "(\<exists>d. data_ready_from_dict d = Inr m) = data_ready_valid m"
    using data_ready_roundtrip [of m]
    by (auto simp: data_ready_from_dict_iff data_ready_to_dict_iff)
  ultimately show ?thesis by simp
qed

end
