(* ===== verification/Coordinator.thy ===== *)
theory Coordinator
  imports Messages "HOL-Library.List_Lexorder" "HOL-Library.Char_ord"
begin

text \<open>
  The request router of \<open>sglang_omni/pipeline/coordinator.py\<close>: its state and its handlers.
  A coroutine runs without interruption between two \<open>await\<close>s that can suspend, so a handler
  with such an \<open>await\<close> inside is cut there into a \<open>_begin\<close> and a \<open>_finish\<close> part;
  the theory \<open>Coordinator_Steps\<close> interleaves the parts. Completion futures are objects:
  they live in a heap, and the dictionary of the code maps a request id to a future's address,
  because a caller keeps its reference after the dictionary has dropped it. An
  \<open>asyncio.Queue\<close> without bound is a list whose \<open>put\<close> never suspends.
\<close>

section \<open>State\<close>

datatype outcome = Single pyval | Merged "string \<rightharpoonup> pyval"

datatype fut = FPending | FResult outcome | FException py_error | FCancelled

record completion =
  c_request_id :: string
  c_from_stage :: string
  c_success :: bool
  c_result :: pyval
  c_error :: "string option"

record chunk =
  k_request_id :: string
  k_from_stage :: string
  k_chunk :: pyval
  k_chunk_id :: "int option"

datatype stream_event = SComplete completion | SChunk chunk

record request_info =
  ri_state :: request_state
  ri_current_stage :: string
  ri_terminal_stages :: "string set"

record admin_pending =
  ap_expected :: "string set"
  ap_action :: string
  ap_results :: "(string \<times> admin_result) list"
  ap_future :: "(string \<times> admin_result) list option"

datatype wire =
    WSubmit string string string stage_payload
  | WAbort string
  | WAdmin string string admin_operation
  | WShutdown string string

record coord =
  entry_stage :: string
  terminal_stages :: "string set"
  resolver :: "(omni_request \<Rightarrow> pyval) option"
  stages :: "(string \<times> string) list"
  requests :: "(string \<times> request_info) list"
  partial_results :: "string \<rightharpoonup> (string \<rightharpoonup> pyval)"
  completion_futures :: "string \<rightharpoonup> nat"
  futures :: "nat \<rightharpoonup> fut"
  next_future :: nat
  stream_queues :: "string \<rightharpoonup> stream_event list"
  admin_ops :: "string \<rightharpoonup> admin_pending"
  running :: bool
  fatal_error :: "string option"
  sent :: "wire list"

definition new_coord ::
    "string \<Rightarrow> string set \<Rightarrow> (omni_request \<Rightarrow> pyval) option \<Rightarrow> coord" where
  "new_coord entry terms rslv =
     \<lparr>entry_stage = entry, terminal_stages = terms, resolver = rslv, stages = [],
      requests = [], partial_results = Map.empty, completion_futures = Map.empty,
      futures = Map.empty, next_future = 0, stream_queues = Map.empty,
      admin_ops = Map.empty, running = False, fatal_error = None, sent = []\<rparr>"

definition request_of :: "coord \<Rightarrow> string \<Rightarrow> request_info option" where
  "request_of c rid = map_of (requests c) rid"

definition pop_request :: "string \<Rightarrow> coord \<Rightarrow> coord" where
  "pop_request rid c = c\<lparr>requests := AList.delete rid (requests c)\<rparr>"

definition send :: "wire \<Rightarrow> coord \<Rightarrow> coord" where
  "send w c = c\<lparr>sent := sent c @ [w]\<rparr>"

definition queue_put :: "string \<Rightarrow> stream_event \<Rightarrow> coord \<Rightarrow> coord" where
  "queue_put rid ev c = (case stream_queues c rid of
     None \<Rightarrow> c
   | Some q \<Rightarrow> c\<lparr>stream_queues := (stream_queues c)(rid \<mapsto> q @ [ev])\<rparr>)"

section \<open>Futures\<close>

text \<open>\<open>future.done()\<close>; a settled future keeps its value.\<close>

definition fut_done :: "coord \<Rightarrow> nat \<Rightarrow> bool" where
  "fut_done c f \<longleftrightarrow> futures c f \<noteq> Some FPending"

definition settle :: "nat \<Rightarrow> fut \<Rightarrow> coord \<Rightarrow> coord" where
  "settle f v c = (if fut_done c f then c else c\<lparr>futures := (futures c)(f \<mapsto> v)\<rparr>)"

definition resolve_completion_future :: "string \<Rightarrow> outcome \<Rightarrow> coord \<Rightarrow> coord" where
  "resolve_completion_future rid v c = (case completion_futures c rid of
     None \<Rightarrow> c
   | Some f \<Rightarrow> settle f (FResult v) c)"

definition reject_completion_future :: "string \<Rightarrow> py_error \<Rightarrow> coord \<Rightarrow> coord" where
  "reject_completion_future rid e c = (case completion_futures c rid of
     None \<Rightarrow> c
   | Some f \<Rightarrow> if fut_done c f then c
               else if stream_queues c rid \<noteq> None then settle f FCancelled c
               else settle f (FException e) c)"

section \<open>Registration and lifecycle\<close>

definition register_stage :: "string \<Rightarrow> string \<Rightarrow> coord \<Rightarrow> coord" where
  "register_stage name endpoint c = c\<lparr>stages := AList.update name endpoint (stages c)\<rparr>"

definition start_coord :: "coord \<Rightarrow> coord" where
  "start_coord c = c\<lparr>running := True\<rparr>"

definition stop_coord :: "coord \<Rightarrow> coord" where
  "stop_coord c = c\<lparr>running := False\<rparr>"

definition coordinator_failure :: "string \<Rightarrow> string \<Rightarrow> completion" where
  "coordinator_failure rid message =
     \<lparr>c_request_id = rid, c_from_stage = ''coordinator'', c_success = False,
      c_result = PNone, c_error = Some message\<rparr>"

definition fail_request :: "string \<Rightarrow> string \<Rightarrow> coord \<Rightarrow> coord" where
  "fail_request message rid c =
     queue_put rid (SComplete (coordinator_failure rid message))
       (reject_completion_future rid (RuntimeError message) c)"

definition fail_pending_requests :: "string \<Rightarrow> coord \<Rightarrow> coord" where
  "fail_pending_requests message c =
     (fold (fail_request message) (map fst (requests c))
        (c\<lparr>running := False, fatal_error := Some message\<rparr>))
     \<lparr>requests := [], partial_results := Map.empty\<rparr>"

text \<open>
  \<open>shutdown_stages\<close> sends to every registered stage; a send that raises is logged and
  skipped, so the argument lists the stages whose send succeeds.
\<close>

definition shutdown_stages :: "string set \<Rightarrow> coord \<Rightarrow> coord" where
  "shutdown_stages reachable c =
     fold (\<lambda>(name, ep). if name \<in> reachable then send (WShutdown name ep) else id) (stages c) c"

section \<open>Terminal stages\<close>

text \<open>The resolver's answer is any Python value; a list stands for any sequence.\<close>

fun str_of :: "pyval \<Rightarrow> string" where
  "str_of (PStr s) = s"
| "str_of v = []"

fun is_str :: "pyval \<Rightarrow> bool" where
  "is_str (PStr s) = True"
| "is_str v = False"

definition resolve_terminal_stages :: "coord \<Rightarrow> omni_request \<Rightarrow> string set result" where
  "resolve_terminal_stages c req = (case resolver c of
     None \<Rightarrow> Inr (terminal_stages c)
   | Some f \<Rightarrow> (case f req of
       PNone \<Rightarrow> Inr (terminal_stages c)
     | PList xs \<Rightarrow>
         if \<not> list_all is_str xs
         then Inl (ValueError ''terminal_stages_resolver must return terminal stage names'')
         else if xs = []
         then Inl (ValueError ''terminal_stages_resolver returned no terminal stages'')
         else if \<not> set (map str_of xs) \<subseteq> terminal_stages c
         then Inl (ValueError ''terminal_stages_resolver returned stages outside the static terminal stages'')
         else Inr (set (map str_of xs))
     | _ \<Rightarrow> Inl (ValueError ''terminal_stages_resolver must return a sequence of terminal stage names or None'')))"

definition expected_terminal_stages :: "coord \<Rightarrow> string \<Rightarrow> string set" where
  "expected_terminal_stages c rid = (case request_of c rid of
     None \<Rightarrow> terminal_stages c
   | Some info \<Rightarrow> ri_terminal_stages info)"

section \<open>Submission\<close>

datatype client_request = COmni omni_request | CRaw pyval

fun omni_of :: "client_request \<Rightarrow> omni_request" where
  "omni_of (COmni r) = r"
| "omni_of (CRaw v) = \<lparr>or_inputs = v, or_params = PDict [], or_metadata = PDict []\<rparr>"

definition submit_payload :: "string \<Rightarrow> omni_request \<Rightarrow> stage_payload" where
  "submit_payload rid req =
     \<lparr>sp_request_id = PStr rid, sp_request = req,
      sp_data = PDict [(''raw_inputs'', or_inputs req)]\<rparr>"

text \<open>
  \<open>_submit_request\<close> up to its send: the checks, the tracking entry and the future. The send
  is the suspension point; \<open>submit_finish\<close> is what follows it, and raises \<open>KeyError\<close> when
  the entry has gone in the meantime.
\<close>

definition submit_begin :: "string \<Rightarrow> client_request \<Rightarrow> coord \<Rightarrow> coord result" where
  "submit_begin rid creq c =
     bindE (case fatal_error c of None \<Rightarrow> Inr () | Some m \<Rightarrow> Inl (RuntimeError m)) (\<lambda>_.
     bindE (guardE (request_of c rid = None)
       (ValueError (''Request '' @ rid @ '' already exists''))) (\<lambda>_.
     case map_of (stages c) (entry_stage c) of
       None \<Rightarrow> Inl (ValueError (''Entry stage '' @ entry_stage c @ '' not registered''))
     | Some endpoint \<Rightarrow>
         bindE (resolve_terminal_stages c (omni_of creq)) (\<lambda>terms.
         Inr (send (WSubmit (entry_stage c) endpoint rid (submit_payload rid (omni_of creq)))
           (c\<lparr>requests := AList.update rid
                 \<lparr>ri_state = PENDING, ri_current_stage = entry_stage c,
                  ri_terminal_stages = terms\<rparr> (requests c),
              futures := (futures c)(next_future c \<mapsto> FPending),
              completion_futures := (completion_futures c)(rid \<mapsto> next_future c),
              next_future := Suc (next_future c)\<rparr>)))))"

definition submit_finish :: "string \<Rightarrow> coord \<Rightarrow> coord result" where
  "submit_finish rid c = (case request_of c rid of
     None \<Rightarrow> Inl (KeyError rid)
   | Some info \<Rightarrow> Inr (c\<lparr>requests :=
       AList.update rid (info\<lparr>ri_state := RUNNING\<rparr>) (requests c)\<rparr>))"

text \<open>
  \<open>submit\<close>: read the future after the send, await it, and drop the dictionary entry in the
  \<open>finally\<close> clause.
\<close>

definition submit_future :: "string \<Rightarrow> coord \<Rightarrow> nat result" where
  "submit_future rid c = (case completion_futures c rid of
     None \<Rightarrow> Inl (KeyError rid)
   | Some f \<Rightarrow> Inr f)"

fun await_result :: "fut option \<Rightarrow> outcome result option" where
  "await_result None = None"
| "await_result (Some FPending) = None"
| "await_result (Some (FResult v)) = Some (Inr v)"
| "await_result (Some (FException e)) = Some (Inl e)"
| "await_result (Some FCancelled) = Some (Inl (CancelledError []))"

definition drop_future :: "string \<Rightarrow> coord \<Rightarrow> coord" where
  "drop_future rid c = c\<lparr>completion_futures := (completion_futures c)(rid := None)\<rparr>"

section \<open>Streaming consumers\<close>

text \<open>
  \<open>stream\<close>: refuse an id that is already streaming, register a queue, submit. The
  \<open>finally\<close> clause drops both dictionary entries, also when the submission itself raised.
\<close>

definition stream_cleanup :: "string \<Rightarrow> coord \<Rightarrow> coord" where
  "stream_cleanup rid c =
     c\<lparr>stream_queues := (stream_queues c)(rid := None),
       completion_futures := (completion_futures c)(rid := None)\<rparr>"

definition stream_begin ::
    "string \<Rightarrow> client_request \<Rightarrow> coord \<Rightarrow> (py_error + unit) \<times> coord" where
  "stream_begin rid creq c =
     (if stream_queues c rid \<noteq> None
      then (Inl (ValueError (''Request '' @ rid @ '' already streaming'')), c)
      else let c1 = c\<lparr>stream_queues := (stream_queues c)(rid \<mapsto> [])\<rparr> in
        case submit_begin rid creq c1 of
          Inl e \<Rightarrow> (Inl e, stream_cleanup rid c1)
        | Inr c2 \<Rightarrow> (Inr (), c2))"

text \<open>One turn of the consumer's loop on the message at the head of its queue.\<close>

datatype turn = Raise py_error | Yield stream_event bool

definition stream_turn :: "string set \<Rightarrow> string set \<Rightarrow> stream_event \<Rightarrow> turn \<times> string set" where
  "stream_turn expected completed ev = (case ev of
     SChunk k \<Rightarrow> (Yield ev False, completed)
   | SComplete m \<Rightarrow>
       if \<not> c_success m
       then (Raise (RuntimeError (case c_error m of
                None \<Rightarrow> ''Unknown error''
              | Some e \<Rightarrow> if e = [] then ''Unknown error'' else e)), completed)
       else let completed' = insert (c_from_stage m) completed in
         (Yield ev (expected = {} \<or> expected \<subseteq> completed'), completed'))"

text \<open>The whole loop over the messages that arrive, until it returns, raises or starves.\<close>

datatype stream_result = Returned | Raised py_error | Waiting

fun stream_loop ::
    "string set \<Rightarrow> string set \<Rightarrow> stream_event list \<Rightarrow> stream_event list \<times> stream_result" where
  "stream_loop expected completed [] = ([], Waiting)"
| "stream_loop expected completed (ev # q) =
     (case stream_turn expected completed ev of
        (Raise e, _) \<Rightarrow> ([], Raised e)
      | (Yield y fin, completed') \<Rightarrow>
          if fin then ([y], Returned)
          else (let (ys, r) = stream_loop expected completed' q in (y # ys, r)))"

section \<open>Abort\<close>

definition is_settled :: "request_state \<Rightarrow> bool" where
  "is_settled st \<longleftrightarrow> st = COMPLETED \<or> st = FAILED \<or> st = ABORTED"

text \<open>
  \<open>abort\<close> up to its broadcast: \<open>None\<close> is the \<open>return False\<close> of an unknown or settled
  request. \<open>abort_finish\<close> runs after the broadcast.
\<close>

definition abort_begin :: "string \<Rightarrow> coord \<Rightarrow> coord option" where
  "abort_begin rid c = (case request_of c rid of
     None \<Rightarrow> None
   | Some info \<Rightarrow> if is_settled (ri_state info) then None else Some (send (WAbort rid) c))"

definition drop_partials :: "string \<Rightarrow> coord \<Rightarrow> coord" where
  "drop_partials rid c = c\<lparr>partial_results := (partial_results c)(rid := None)\<rparr>"

definition abort_finish :: "string \<Rightarrow> coord \<Rightarrow> coord" where
  "abort_finish rid c =
     drop_partials rid (pop_request rid
       (queue_put rid (SComplete (coordinator_failure rid ''aborted''))
         (reject_completion_future rid
           (CancelledError (''Request '' @ rid @ '' aborted'')) c)))"

section \<open>Events from the stages\<close>

text \<open>
  A failed completion marks the request and broadcasts an abort (the suspension point); the
  rest is \<open>failure_finish\<close>. A successful one runs to its end in one go.
\<close>

definition or_unknown :: "string option \<Rightarrow> string" where
  "or_unknown e = (case e of None \<Rightarrow> ''Unknown error''
                   | Some m \<Rightarrow> if m = [] then ''Unknown error'' else m)"

definition failure_begin :: "completion \<Rightarrow> coord \<Rightarrow> coord option" where
  "failure_begin m c = (case request_of c (c_request_id m) of
     None \<Rightarrow> None
   | Some info \<Rightarrow> Some (send (WAbort (c_request_id m)) (c\<lparr>requests :=
       AList.update (c_request_id m) (info\<lparr>ri_state := FAILED\<rparr>) (requests c)\<rparr>)))"

definition failure_finish :: "completion \<Rightarrow> coord \<Rightarrow> coord" where
  "failure_finish m c = (let rid = c_request_id m in
     pop_request rid (queue_put rid (SComplete m)
       (reject_completion_future rid (RuntimeError (or_unknown (c_error m)))
         (drop_partials rid c))))"

definition success_single :: "completion \<Rightarrow> coord \<Rightarrow> coord" where
  "success_single m c = (let rid = c_request_id m in
     pop_request rid (queue_put rid (SComplete m)
       (resolve_completion_future rid (Single (c_result m)) c)))"

definition partials_of :: "coord \<Rightarrow> string \<Rightarrow> (string \<rightharpoonup> pyval)" where
  "partials_of c rid = (case partial_results c rid of None \<Rightarrow> Map.empty | Some p \<Rightarrow> p)"

definition success_multi :: "string set \<Rightarrow> completion \<Rightarrow> coord \<Rightarrow> coord" where
  "success_multi expected m c = (let rid = c_request_id m;
       partials = (partials_of c rid)(c_from_stage m \<mapsto> c_result m);
       c1 = queue_put rid (SComplete m)
              (c\<lparr>partial_results := (partial_results c)(rid \<mapsto> partials)\<rparr>) in
     if dom partials \<subset> expected then c1
     else pop_request rid (resolve_completion_future rid (Merged partials) (drop_partials rid c1)))"

definition handle_success :: "completion \<Rightarrow> coord \<Rightarrow> coord" where
  "handle_success m c = (let rid = c_request_id m in case request_of c rid of
     None \<Rightarrow> c
   | Some info \<Rightarrow>
       let expected = expected_terminal_stages c rid in
       if expected \<noteq> {} \<and> c_from_stage m \<notin> expected then c
       else if card expected \<le> 1 then success_single m c
       else success_multi expected m c)"

definition handle_stream :: "chunk \<Rightarrow> coord \<Rightarrow> coord" where
  "handle_stream k c = queue_put (k_request_id k) (SChunk k) c"

section \<open>Administrative operations\<close>

text \<open>
  \<open>admin\<close> registers the operation and its future, sends it to every target, and waits with
  a timeout; the lock makes at most one operation run at a time, so one future suffices per
  entry: \<open>ap_future\<close> is \<open>None\<close> while pending. \<open>op_id\<close> is the fresh uuid.
\<close>

definition resolve_admin_stages :: "string list option \<Rightarrow> coord \<Rightarrow> string list result" where
  "resolve_admin_stages wanted c = (case wanted of
     None \<Rightarrow> Inr (sort (map fst (stages c)))
   | Some xs \<Rightarrow> if set xs \<subseteq> set (map fst (stages c)) then Inr xs
               else Inl (ValueError ''Unknown admin target stage(s)''))"

definition admin_operation_of ::
    "string \<Rightarrow> string \<Rightarrow> pydict \<Rightarrow> string list \<Rightarrow> pyval \<Rightarrow> admin_operation" where
  "admin_operation_of op_id action payload targets timeout =
     \<lparr>ao_op_id = op_id, ao_action = action, ao_payload = payload,
      ao_target_stages = Some (map PStr targets), ao_timeout_s = timeout\<rparr>"

definition send_admin :: "admin_operation \<Rightarrow> string \<Rightarrow> coord \<Rightarrow> coord" where
  "send_admin op name c = (case map_of (stages c) name of
     None \<Rightarrow> c
   | Some ep \<Rightarrow> send (WAdmin name ep op) c)"

definition admin_begin ::
    "string \<Rightarrow> string \<Rightarrow> pydict \<Rightarrow> string list option \<Rightarrow> pyval \<Rightarrow> coord \<Rightarrow> coord result" where
  "admin_begin op_id action payload wanted timeout c =
     bindE (guardE (running c) (RuntimeError ''Coordinator is not running'')) (\<lambda>_.
     bindE (resolve_admin_stages wanted c) (\<lambda>targets.
     bindE (guardE (targets \<noteq> []) (ValueError ''No stages registered for admin operation'')) (\<lambda>_.
     Inr (fold (send_admin (admin_operation_of op_id action payload targets timeout)) targets
       (c\<lparr>admin_ops := (admin_ops c)(op_id \<mapsto>
          \<lparr>ap_expected = set targets, ap_action = action, ap_results = [],
           ap_future = None\<rparr>)\<rparr>)))))"

definition handle_admin_result :: "admin_result \<Rightarrow> coord \<Rightarrow> coord" where
  "handle_admin_result r c = (case admin_ops c (ar_op_id r) of
     None \<Rightarrow> c
   | Some p \<Rightarrow>
       let results = AList.update (ar_stage r) r (ap_results p);
           fut = (if ap_expected p \<subseteq> set (map fst results) \<and> ap_future p = None
                  then Some results else ap_future p) in
       c\<lparr>admin_ops := (admin_ops c)(ar_op_id r \<mapsto>
          p\<lparr>ap_results := results, ap_future := fut\<rparr>)\<rparr>)"

record admin_summary =
  as_op_id :: string
  as_action :: string
  as_success :: bool
  as_message :: string
  as_results :: "pydict list"

definition skipped :: "admin_result \<Rightarrow> bool" where
  "skipped r \<longleftrightarrow> truthy (dget (ar_data r) ''skipped'') \<or> truthy (dget (ar_data r) ''unsupported'')"

fun join_errors :: "string list \<Rightarrow> string" where
  "join_errors [] = []"
| "join_errors [e] = e"
| "join_errors (e # es) = e @ ''; '' @ join_errors es"

definition aggregate_success :: "string \<Rightarrow> admin_result list \<Rightarrow> bool" where
  "aggregate_success action results =
     (let updated = filter (\<lambda>r. \<not> skipped r) results in
      if is_update_action action then updated \<noteq> [] \<and> list_all ar_success updated
      else list_all ar_success results)"

text \<open>Joining the error texts raises when one of them is not a string.\<close>

definition aggregate_admin_results ::
    "string \<Rightarrow> string \<Rightarrow> admin_result list \<Rightarrow> admin_summary result" where
  "aggregate_admin_results op_id action results =
     (let errors = filter truthy (map ar_error results);
          success = aggregate_success action results in
      bindE (if success then Inr ''ok''
             else if errors \<noteq> []
             then bindE (guardE (list_all is_str errors) (TypeError ''expected str instance''))
                    (\<lambda>_. Inr (join_errors (map str_of errors)))
             else Inr ''admin operation did not complete successfully'') (\<lambda>message.
      Inr \<lparr>as_op_id = op_id, as_action = action, as_success = success,
           as_message = message, as_results = map admin_result_to_dict results\<rparr>))"

text \<open>
  The end of \<open>admin\<close>: \<open>None\<close> while the future is pending and the deadline has not passed;
  then the entry is dropped and the results aggregated, or the timeout raised.
\<close>

definition admin_finish ::
    "bool \<Rightarrow> string \<Rightarrow> coord \<Rightarrow> (admin_summary result \<times> coord) option" where
  "admin_finish timed_out op_id c = (case admin_ops c op_id of
     None \<Rightarrow> None
   | Some p \<Rightarrow>
       let c' = c\<lparr>admin_ops := (admin_ops c)(op_id := None)\<rparr> in
       case ap_future p of
         Some results \<Rightarrow> Some (aggregate_admin_results op_id (ap_action p) (map snd results), c')
       | None \<Rightarrow> if timed_out then Some (Inl (TimeoutError []), c') else None)"

section \<open>Health\<close>

definition health_counts :: "coord \<Rightarrow> request_state \<Rightarrow> nat" where
  "health_counts c st = length (filter (\<lambda>(rid, info). ri_state info = st) (requests c))"

definition pending_completions :: "coord \<Rightarrow> nat" where
  "pending_completions c = card (dom (completion_futures c))"

end
