(* ===== verification/Coordinator_Steps.thy ===== *)
theory Coordinator_Steps
  imports Coordinator
begin

text \<open>
  The coordinator among its coroutines: clients that submit and stream, aborts, and the
  completion loop, suspended between the parts of their handlers. A step runs one part to its
  next suspension. The theorems are about every reachable interleaving: what the request
  table, the partial results and the futures keep of each other, and who wakes a waiting
  client.
\<close>

section \<open>What each primitive changes\<close>

named_theorems coord_simps \<open>effect of the coordinator's primitives on its fields\<close>

lemma request_of_update [coord_simps]:
  "request_of (c\<lparr>requests := AList.update rid info (requests c)\<rparr>) r =
     (if r = rid then Some info else request_of c r)"
  by (simp add: request_of_def update_conv')

lemma request_of_frame [coord_simps]:
  "request_of (c\<lparr>partial_results := p\<rparr>) r = request_of c r"
  "request_of (c\<lparr>futures := h\<rparr>) r = request_of c r"
  "request_of (c\<lparr>completion_futures := m\<rparr>) r = request_of c r"
  "request_of (c\<lparr>next_future := n\<rparr>) r = request_of c r"
  "request_of (c\<lparr>stream_queues := qs\<rparr>) r = request_of c r"
  "request_of (c\<lparr>running := b\<rparr>) r = request_of c r"
  "request_of (c\<lparr>fatal_error := e\<rparr>) r = request_of c r"
  by (simp_all add: request_of_def)

lemma send_fields [coord_simps]:
  "requests (send w c) = requests c" "partial_results (send w c) = partial_results c"
  "completion_futures (send w c) = completion_futures c" "futures (send w c) = futures c"
  "next_future (send w c) = next_future c" "stream_queues (send w c) = stream_queues c"
  "terminal_stages (send w c) = terminal_stages c" "sent (send w c) = sent c @ [w]"
  "fatal_error (send w c) = fatal_error c" "request_of (send w c) r = request_of c r"
  by (simp_all add: send_def request_of_def)

lemma queue_put_fields [coord_simps]:
  "requests (queue_put rid ev c) = requests c"
  "partial_results (queue_put rid ev c) = partial_results c"
  "completion_futures (queue_put rid ev c) = completion_futures c"
  "futures (queue_put rid ev c) = futures c" "next_future (queue_put rid ev c) = next_future c"
  "terminal_stages (queue_put rid ev c) = terminal_stages c"
  "sent (queue_put rid ev c) = sent c" "fatal_error (queue_put rid ev c) = fatal_error c"
  "request_of (queue_put rid ev c) r = request_of c r"
  "stream_queues (queue_put rid ev c) =
     (stream_queues c)(rid := map_option (\<lambda>q. q @ [ev]) (stream_queues c rid))"
  by (auto simp: queue_put_def request_of_def split: option.split)

lemma pop_request_fields [coord_simps]:
  "partial_results (pop_request rid c) = partial_results c"
  "completion_futures (pop_request rid c) = completion_futures c"
  "futures (pop_request rid c) = futures c" "next_future (pop_request rid c) = next_future c"
  "stream_queues (pop_request rid c) = stream_queues c"
  "terminal_stages (pop_request rid c) = terminal_stages c" "sent (pop_request rid c) = sent c"
  "fatal_error (pop_request rid c) = fatal_error c"
  "request_of (pop_request rid c) r = (if r = rid then None else request_of c r)"
  by (simp_all add: pop_request_def request_of_def delete_conv')

lemma drop_partials_fields [coord_simps]:
  "requests (drop_partials rid c) = requests c"
  "partial_results (drop_partials rid c) = (partial_results c)(rid := None)"
  "completion_futures (drop_partials rid c) = completion_futures c"
  "futures (drop_partials rid c) = futures c" "next_future (drop_partials rid c) = next_future c"
  "stream_queues (drop_partials rid c) = stream_queues c"
  "terminal_stages (drop_partials rid c) = terminal_stages c"
  "sent (drop_partials rid c) = sent c" "fatal_error (drop_partials rid c) = fatal_error c"
  "request_of (drop_partials rid c) r = request_of c r"
  by (simp_all add: drop_partials_def request_of_def)

lemma settle_fields [coord_simps]:
  "requests (settle f v c) = requests c" "partial_results (settle f v c) = partial_results c"
  "completion_futures (settle f v c) = completion_futures c"
  "next_future (settle f v c) = next_future c" "stream_queues (settle f v c) = stream_queues c"
  "terminal_stages (settle f v c) = terminal_stages c" "sent (settle f v c) = sent c"
  "fatal_error (settle f v c) = fatal_error c" "request_of (settle f v c) r = request_of c r"
  "futures (settle f v c) g =
     (if g = f \<and> futures c f = Some FPending then Some v else futures c g)"
  by (simp_all add: settle_def request_of_def fut_done_def)

text \<open>Both ways of ending a request settle the future its id is mapped to, if it is pending.\<close>

definition settled_with :: "string \<Rightarrow> fut \<Rightarrow> coord \<Rightarrow> coord" where
  "settled_with rid v c = (case completion_futures c rid of None \<Rightarrow> c | Some f \<Rightarrow> settle f v c)"

lemma resolve_eq: "resolve_completion_future rid v c = settled_with rid (FResult v) c"
  by (simp add: resolve_completion_future_def settled_with_def)

definition rejection :: "stream_event list option \<Rightarrow> py_error \<Rightarrow> fut" where
  "rejection q e = (case q of None \<Rightarrow> FException e | Some _ \<Rightarrow> FCancelled)"

lemma rejection_not_pending [simp]: "rejection q e \<noteq> FPending"
  by (simp add: rejection_def split: option.split)

lemma reject_eq:
  "reject_completion_future rid e c = settled_with rid (rejection (stream_queues c rid) e) c"
  by (auto simp: reject_completion_future_def settled_with_def settle_def rejection_def
      split: option.split)

lemma settled_with_fields [coord_simps]:
  "requests (settled_with rid v c) = requests c"
  "partial_results (settled_with rid v c) = partial_results c"
  "completion_futures (settled_with rid v c) = completion_futures c"
  "next_future (settled_with rid v c) = next_future c"
  "stream_queues (settled_with rid v c) = stream_queues c"
  "terminal_stages (settled_with rid v c) = terminal_stages c"
  "sent (settled_with rid v c) = sent c" "fatal_error (settled_with rid v c) = fatal_error c"
  "request_of (settled_with rid v c) r = request_of c r"
  "futures (settled_with rid v c) g =
     (if completion_futures c rid = Some g \<and> futures c g = Some FPending then Some v
      else futures c g)"
  by (auto simp: settled_with_def coord_simps split: option.split)

section \<open>The invariant\<close>

text \<open>
  A registered future is pending exactly while its request is in the table, unless it is one of
  \<open>X\<close>: the futures whose client was cancelled and has not run since. Partial results
  belong to a request in the table that still waits for another terminal stage.
\<close>

definition futures_ok :: "nat set \<Rightarrow> coord \<Rightarrow> bool" where
  "futures_ok X c \<longleftrightarrow> dom (futures c) = {..<next_future c} \<and>
     (\<forall>rid f. completion_futures c rid = Some f \<longrightarrow> f < next_future c \<and>
        (futures c f = Some FPending \<longleftrightarrow> request_of c rid \<noteq> None \<and> f \<notin> X)) \<and>
     (\<forall>r r' f. completion_futures c r = Some f \<longrightarrow> completion_futures c r' = Some f \<longrightarrow> r = r')"

lemma futures_okI:
  assumes "dom (futures c) = {..<next_future c}"
    and "\<And>rid f. completion_futures c rid = Some f \<Longrightarrow> f < next_future c \<and>
        (futures c f = Some FPending \<longleftrightarrow> request_of c rid \<noteq> None \<and> f \<notin> X)"
    and "\<And>r r' f. completion_futures c r = Some f \<Longrightarrow> completion_futures c r' = Some f \<Longrightarrow> r = r'"
  shows "futures_ok X c"
  using assms unfolding futures_ok_def by blast

lemma futures_okD:
  assumes "futures_ok X c"
  shows "dom (futures c) = {..<next_future c}"
    and "completion_futures c rid = Some f \<Longrightarrow> f < next_future c"
    and "completion_futures c rid = Some f \<Longrightarrow>
      futures c f = Some FPending \<longleftrightarrow> request_of c rid \<noteq> None \<and> f \<notin> X"
    and "completion_futures c r = Some f \<Longrightarrow> completion_futures c r' = Some f \<Longrightarrow> r = r'"
  using assms unfolding futures_ok_def by blast+

definition partials_ok :: "coord \<Rightarrow> bool" where
  "partials_ok c \<longleftrightarrow> (\<forall>rid p. partial_results c rid = Some p \<longrightarrow>
     (\<exists>info. request_of c rid = Some info \<and> dom p \<noteq> {} \<and> dom p \<subset> ri_terminal_stages info))"

definition terminals_ok :: "coord \<Rightarrow> bool" where
  "terminals_ok c \<longleftrightarrow> finite (terminal_stages c) \<and>
     (\<forall>rid info. request_of c rid = Some info \<longrightarrow> ri_terminal_stages info \<subseteq> terminal_stages c)"

definition coord_inv :: "nat set \<Rightarrow> coord \<Rightarrow> bool" where
  "coord_inv X c \<longleftrightarrow> futures_ok X c \<and> partials_ok c \<and> terminals_ok c"

lemma coord_inv_new: "finite terms \<Longrightarrow> coord_inv X (new_coord entry terms rslv)"
  by (auto simp: coord_inv_def futures_ok_def partials_ok_def terminals_ok_def new_coord_def
      request_of_def)

text \<open>
  Leaving the table: whatever ends a request settles its future, removes its entry and leaves
  no partial results. Every terminating handler is such a step.
\<close>

lemma coord_inv_leave:
  assumes inv: "coord_inv X c"
    and req: "\<And>r. request_of c' r = (if r = rid then None else request_of c r)"
    and part: "partial_results c' = (partial_results c)(rid := None)"
    and maps: "completion_futures c' = completion_futures c"
      "next_future c' = next_future c" "terminal_stages c' = terminal_stages c"
    and fut: "\<And>g. futures c' g =
       (if completion_futures c rid = Some g \<and> futures c g = Some FPending then Some v
        else futures c g)"
    and v: "v \<noteq> FPending"
  shows "coord_inv X c'"
proof -
  have "dom (futures c') = dom (futures c)"
    by (auto simp: fut dom_def)
  moreover have "futures c' f = Some FPending \<longleftrightarrow> request_of c' r \<noteq> None \<and> f \<notin> X"
    if "completion_futures c r = Some f" for r f
    using that inv v by (auto simp: coord_inv_def futures_ok_def fut req)
  ultimately have "futures_ok X c'"
    using inv by (simp add: coord_inv_def futures_ok_def maps)
  moreover have "partials_ok c'"
    using inv by (auto simp: coord_inv_def partials_ok_def part req)
  moreover have "terminals_ok c'"
    using inv by (auto simp: coord_inv_def terminals_ok_def maps req)
  ultimately show ?thesis by (simp add: coord_inv_def)
qed

lemma coord_inv_abort_finish [inv_intros]: "coord_inv X c \<Longrightarrow> coord_inv X (abort_finish rid c)"
  by (erule coord_inv_leave [where rid = rid and v = "rejection (stream_queues c rid)
        (CancelledError (''Request '' @ rid @ '' aborted''))"])
    (simp_all add: abort_finish_def reject_eq coord_simps)

lemma coord_inv_failure_finish [inv_intros]: "coord_inv X c \<Longrightarrow> coord_inv X (failure_finish m c)"
  by (erule coord_inv_leave [where rid = "c_request_id m" and
        v = "rejection (stream_queues c (c_request_id m)) (RuntimeError (or_unknown (c_error m)))"])
    (simp_all add: failure_finish_def Let_def reject_eq coord_simps)

text \<open>Success: a single terminal leaves at once, several leave with the last one.\<close>

lemma partialsD:
  assumes "coord_inv X c" and "partial_results c rid = Some p" and "request_of c rid = Some info"
  shows "dom p \<noteq> {} \<and> dom p \<subset> ri_terminal_stages info"
proof -
  obtain info' where "request_of c rid = Some info'" "dom p \<noteq> {} \<and> dom p \<subset> ri_terminal_stages info'"
    using assms(1,2) unfolding coord_inv_def partials_ok_def by blast
  with assms(3) show ?thesis by simp
qed

lemma partial_results_absent:
  assumes "coord_inv X c" and "request_of c rid = Some info"
    and "card (ri_terminal_stages info) \<le> 1"
  shows "partial_results c rid = None"
proof (rule ccontr)
  assume "partial_results c rid \<noteq> None"
  then obtain p where "partial_results c rid = Some p" by blast
  from partialsD [OF assms(1) this assms(2)]
  have p: "dom p \<noteq> {}" "dom p \<subset> ri_terminal_stages info" by simp_all
  have fin: "finite (ri_terminal_stages info)"
    using assms(1,2) by (auto simp: coord_inv_def terminals_ok_def intro: finite_subset)
  then have "card (dom p) < card (ri_terminal_stages info)" "card (dom p) \<noteq> 0"
    using p by (auto simp: psubset_card_mono finite_subset)
  then show False using assms(3) by simp
qed

lemma coord_inv_success_single:
  assumes inv: "coord_inv X c" and "request_of c (c_request_id m) = Some info"
    and "card (ri_terminal_stages info) \<le> 1"
  shows "coord_inv X (success_single m c)"
proof -
  have "partial_results c (c_request_id m) = None"
    using partial_results_absent [OF assms] .
  then have "(partial_results c)(c_request_id m := None) = partial_results c"
    by (simp add: fun_upd_idem)
  then show ?thesis
    by (intro coord_inv_leave [OF inv, where rid = "c_request_id m" and v = "FResult (Single (c_result m))"])
      (simp_all add: success_single_def Let_def resolve_eq coord_simps)
qed

lemma partials_of_subset:
  assumes "coord_inv X c" and "request_of c rid = Some info"
  shows "dom (partials_of c rid) \<subseteq> ri_terminal_stages info"
proof (cases "partial_results c rid")
  case (Some p)
  with partialsD [OF assms(1) Some assms(2)] show ?thesis
    by (auto simp: partials_of_def)
qed (simp add: partials_of_def)

lemma coord_inv_success_multi:
  assumes inv: "coord_inv X c" and req: "request_of c (c_request_id m) = Some info"
    and mem: "c_from_stage m \<in> ri_terminal_stages info"
  shows "coord_inv X (success_multi (ri_terminal_stages info) m c)"
proof -
  let ?rid = "c_request_id m"
  let ?p = "(partials_of c ?rid)(c_from_stage m \<mapsto> c_result m)"
  show ?thesis
  proof (cases "dom ?p \<subset> ri_terminal_stages info")
    case True
    let ?c1 = "c\<lparr>partial_results := (partial_results c)(?rid \<mapsto> ?p)\<rparr>"
    have "coord_inv X (queue_put ?rid (SComplete m) ?c1)"
      using inv req True
      by (auto simp: coord_inv_def futures_ok_def partials_ok_def terminals_ok_def coord_simps)
    with True show ?thesis by (simp add: success_multi_def Let_def)
  next
    case False
    then show ?thesis
      by (intro coord_inv_leave [OF inv, where rid = ?rid and v = "FResult (Merged ?p)"])
        (simp_all add: success_multi_def Let_def resolve_eq coord_simps)
  qed
qed

lemma coord_inv_handle_success [inv_intros]: "coord_inv X c \<Longrightarrow> coord_inv X (handle_success m c)"
  by (auto simp: handle_success_def expected_terminal_stages_def Let_def
      intro: coord_inv_success_single coord_inv_success_multi split: option.split)

text \<open>Entering the table.\<close>

lemma resolve_terminal_stages_subset:
  "resolve_terminal_stages c req = Inr ts \<Longrightarrow> ts \<subseteq> terminal_stages c"
  by (auto simp: resolve_terminal_stages_def split: option.splits pyval.splits if_splits)

lemma submit_begin_ok:
  assumes "submit_begin rid creq c = Inr c'"
  obtains terms where "request_of c rid = None" and "terms \<subseteq> terminal_stages c"
    and "\<And>r. request_of c' r = (if r = rid then Some \<lparr>ri_state = PENDING,
            ri_current_stage = entry_stage c, ri_terminal_stages = terms\<rparr> else request_of c r)"
    and "partial_results c' = partial_results c" and "stream_queues c' = stream_queues c"
    and "completion_futures c' = (completion_futures c)(rid \<mapsto> next_future c)"
    and "futures c' = (futures c)(next_future c \<mapsto> FPending)"
    and "next_future c' = Suc (next_future c)" and "terminal_stages c' = terminal_stages c"
    and "fatal_error c = None"
proof -
  from assms obtain ep terms where t: "request_of c rid = None" "fatal_error c = None"
      "resolve_terminal_stages c (omni_of creq) = Inr terms"
    and c': "c' = send (WSubmit (entry_stage c) ep rid (submit_payload rid (omni_of creq)))
           (c\<lparr>requests := AList.update rid
                 \<lparr>ri_state = PENDING, ri_current_stage = entry_stage c,
                  ri_terminal_stages = terms\<rparr> (requests c),
              futures := (futures c)(next_future c \<mapsto> FPending),
              completion_futures := (completion_futures c)(rid \<mapsto> next_future c),
              next_future := Suc (next_future c)\<rparr>)"
    by (auto simp: submit_begin_def split: option.splits)
  show ?thesis
    by (rule that [of terms])
      (use t in \<open>auto simp: c' coord_simps request_of_def update_conv'
        dest: resolve_terminal_stages_subset\<close>)
qed

lemma coord_inv_submit_begin [inv_intros]:
  assumes inv: "coord_inv X c" and "submit_begin rid creq c = Inr c'" and X: "X \<subseteq> {..<next_future c}"
  shows "coord_inv X c'"
  using assms(2)
proof (rule submit_begin_ok)
  fix terms
  assume h: "request_of c rid = None" "terms \<subseteq> terminal_stages c"
    "\<And>r. request_of c' r = (if r = rid then Some \<lparr>ri_state = PENDING,
            ri_current_stage = entry_stage c, ri_terminal_stages = terms\<rparr> else request_of c r)"
    "partial_results c' = partial_results c"
    "completion_futures c' = (completion_futures c)(rid \<mapsto> next_future c)"
    "futures c' = (futures c)(next_future c \<mapsto> FPending)"
    "next_future c' = Suc (next_future c)" "terminal_stages c' = terminal_stages c"
  have old: "f < Suc (next_future c) \<and> f \<noteq> next_future c"
    if "completion_futures c r = Some f" for r f
    using inv that unfolding coord_inv_def futures_ok_def by (metis less_SucI less_irrefl)
  have new: "completion_futures c r \<noteq> Some (next_future c)" for r
    using old by blast
  have fresh: "next_future c \<notin> X"
    using X by auto
  have "futures_ok X c'"
    using inv h(1,3,5-7) old new fresh unfolding coord_inv_def futures_ok_def
    by (simp add: lessThan_Suc) (metis option.sel)
  moreover have "partials_ok c'"
    using inv h(1) unfolding coord_inv_def partials_ok_def h(3,4) by (metis option.distinct(1))
  moreover have "terminals_ok c'"
    using inv h by (auto simp: coord_inv_def terminals_ok_def)
  ultimately show ?thesis by (simp add: coord_inv_def)
qed

text \<open>Changes that leave the invariant's fields alone, or only forget a mapping.\<close>

lemma coord_inv_frame:
  assumes "coord_inv X c" and "\<And>r. map_option ri_terminal_stages (request_of c' r)
      = map_option ri_terminal_stages (request_of c r)"
    and "partial_results c' = partial_results c" and "completion_futures c' \<subseteq>\<^sub>m completion_futures c"
    and "futures c' = futures c" and "next_future c' = next_future c"
    and "terminal_stages c' = terminal_stages c"
  shows "coord_inv X c'"
proof -
  have req: "request_of c' r = None \<longleftrightarrow> request_of c r = None" for r
    using assms(2) [of r] by (metis option.map_disc_iff)
  have get: "completion_futures c r = Some f" if "completion_futures c' r = Some f" for r f
    using assms(4) that by (metis domI map_le_def)
  have tm: "\<exists>i. request_of c r = Some i \<and> ri_terminal_stages i = ri_terminal_stages info"
    if "request_of c' r = Some info" for r info
    using assms(2) [of r] that by (cases "request_of c r") auto
  have tm': "\<exists>i. request_of c' r = Some i \<and> ri_terminal_stages i = ri_terminal_stages info"
    if "request_of c r = Some info" for r info
    using assms(2) [of r] that by (cases "request_of c' r") auto
  have "futures_ok X c'"
    using assms(1) get unfolding coord_inv_def futures_ok_def assms(5,6) req by blast
  moreover have "partials_ok c'"
    using assms(1) tm' unfolding coord_inv_def partials_ok_def assms(3) by metis
  moreover have "terminals_ok c'"
    using assms(1) tm unfolding coord_inv_def terminals_ok_def assms(7) by metis
  ultimately show ?thesis by (simp add: coord_inv_def)
qed

lemma map_le_forget: "m(k := None) \<subseteq>\<^sub>m m"
  by (simp add: map_le_def)

lemma coord_inv_drop_future [inv_intros]: "coord_inv X c \<Longrightarrow> coord_inv X (drop_future rid c)"
  by (erule coord_inv_frame) (simp_all add: drop_future_def request_of_def map_le_forget)

lemma coord_inv_stream_cleanup [inv_intros]: "coord_inv X c \<Longrightarrow> coord_inv X (stream_cleanup rid c)"
  by (erule coord_inv_frame) (simp_all add: stream_cleanup_def request_of_def map_le_forget)

lemma coord_inv_set_queues [inv_intros]: "coord_inv X c \<Longrightarrow> coord_inv X (c\<lparr>stream_queues := qs\<rparr>)"
  by (erule coord_inv_frame) (simp_all add: request_of_def)

lemma coord_inv_queue_put [inv_intros]: "coord_inv X c \<Longrightarrow> coord_inv X (queue_put rid ev c)"
  by (erule coord_inv_frame) (simp_all add: coord_simps)

lemma coord_inv_handle_stream [inv_intros]: "coord_inv X c \<Longrightarrow> coord_inv X (handle_stream k c)"
  by (simp add: handle_stream_def inv_intros)

lemma coord_inv_register [inv_intros]: "coord_inv X c \<Longrightarrow> coord_inv X (register_stage name ep c)"
  by (erule coord_inv_frame) (simp_all add: register_stage_def request_of_def)

lemma coord_inv_submit_finish [inv_intros]:
  "coord_inv X c \<Longrightarrow> submit_finish rid c = Inr c' \<Longrightarrow> coord_inv X c'"
  by (erule coord_inv_frame) (auto simp: submit_finish_def coord_simps split: option.splits)

lemma coord_inv_failure_begin [inv_intros]:
  "coord_inv X c \<Longrightarrow> failure_begin m c = Some c' \<Longrightarrow> coord_inv X c'"
  by (erule coord_inv_frame) (auto simp: failure_begin_def coord_simps split: option.splits)

lemma coord_inv_abort_begin [inv_intros]:
  "coord_inv X c \<Longrightarrow> abort_begin rid c = Some c' \<Longrightarrow> coord_inv X c'"
  by (erule coord_inv_frame)
    (auto simp: abort_begin_def coord_simps split: option.splits if_splits)

text \<open>A fatal error settles every registered future and empties the table.\<close>

lemma fail_request_fold:
  "completion_futures (fold (fail_request msg) ids c) = completion_futures c \<and>
   next_future (fold (fail_request msg) ids c) = next_future c \<and>
   terminal_stages (fold (fail_request msg) ids c) = terminal_stages c \<and>
   dom (futures (fold (fail_request msg) ids c)) = dom (futures c) \<and>
   (\<forall>g. futures (fold (fail_request msg) ids c) g = Some FPending \<longleftrightarrow>
      futures c g = Some FPending \<and> (\<forall>rid \<in> set ids. completion_futures c rid \<noteq> Some g))"
proof (induction ids arbitrary: c)
  case (Cons rid ids)
  have "dom (futures (fail_request msg rid c)) = dom (futures c)"
    by (auto simp: fail_request_def reject_eq coord_simps dom_def)
  then show ?case
    using Cons.IH [of "fail_request msg rid c"]
    by (auto simp: fail_request_def reject_eq coord_simps)
qed simp

lemma coord_inv_fatal [inv_intros]:
  assumes "coord_inv X c"
  shows "coord_inv X (fail_pending_requests msg c)"
proof -
  show ?thesis
    using assms fail_request_fold [of msg "map fst (requests c)"
        "c\<lparr>running := False, fatal_error := Some msg\<rparr>"]
    unfolding fail_pending_requests_def coord_inv_def futures_ok_def partials_ok_def terminals_ok_def
    by (auto simp: request_of_def map_of_eq_None_iff)
qed

section \<open>Interleaved execution\<close>

text \<open>
  The suspended coroutines: a submission inside its send (\<open>True\<close> for a streaming client), a
  client waiting on a future, a client whose task was cancelled in that wait and has not run
  its \<open>finally\<close> clause yet, a streaming consumer with its expected and seen terminal
  stages, an abort and a failure inside their broadcasts.
\<close>

datatype task =
    TSubmit string bool
  | TAwait string nat
  | TCancelled string nat
  | TStream string "string set" "string set"
  | TAbort string
  | TFailure completion

fun owns :: "string \<Rightarrow> task \<Rightarrow> bool" where
  "owns rid (TSubmit r st) = (r = rid)"
| "owns rid (TAwait r f) = (r = rid)"
| "owns rid (TCancelled r f) = (r = rid)"
| "owns rid (TStream r ex done) = (r = rid)"
| "owns rid (TAbort r) = False"
| "owns rid (TFailure m) = False"

fun is_failure :: "task \<Rightarrow> bool" where
  "is_failure (TFailure m) = True"
| "is_failure t = False"

type_synonym csys = "coord \<times> task list"

datatype cevent =
    ESubmit string client_request
  | EStream string client_request
  | ESent string bool
  | ESendFails string bool
  | EWake string nat
  | ECancel string nat
  | EUnwind string nat
  | EConsume string
  | EClose string
  | EAbort string
  | EAbortDone string
  | EComplete completion
  | EFailureDone completion
  | EChunk chunk
  | EFatal string
  | ERegister string string

text \<open>
  One step per event. The completion loop is one coroutine, so it takes no message while it is
  inside a failure's broadcast. Cancelling a client's task cancels the future it waits on at
  once (\<open>cancel\<close>); the task's \<open>finally\<close> clause runs on its next turn (\<open>unwind\<close>).
\<close>

inductive cstep :: "csys \<Rightarrow> cevent \<Rightarrow> csys \<Rightarrow> bool" where
  submit: "submit_begin rid creq c = Inr c' \<Longrightarrow>
     cstep (c, ts) (ESubmit rid creq) (c', ts @ [TSubmit rid False])"
| submit_refused: "submit_begin rid creq c = Inl e \<Longrightarrow> cstep (c, ts) (ESubmit rid creq) (c, ts)"
| stream: "stream_begin rid creq c = (Inr (), c') \<Longrightarrow>
     cstep (c, ts) (EStream rid creq) (c', ts @ [TSubmit rid True])"
| stream_refused: "stream_begin rid creq c = (Inl e, c') \<Longrightarrow>
     cstep (c, ts) (EStream rid creq) (c', ts)"
| sent: "TSubmit rid False \<in> set ts \<Longrightarrow> submit_finish rid c = Inr c' \<Longrightarrow>
     submit_future rid c' = Inr f \<Longrightarrow>
     cstep (c, ts) (ESent rid False) (c', remove1 (TSubmit rid False) ts @ [TAwait rid f])"
| sent_orphan: "TSubmit rid False \<in> set ts \<Longrightarrow> submit_finish rid c = Inr c' \<Longrightarrow>
     submit_future rid c' = Inl e \<Longrightarrow>
     cstep (c, ts) (ESent rid False) (c', remove1 (TSubmit rid False) ts)"
| sent_gone: "TSubmit rid False \<in> set ts \<Longrightarrow> submit_finish rid c = Inl e \<Longrightarrow>
     cstep (c, ts) (ESent rid False) (c, remove1 (TSubmit rid False) ts)"
| sent_stream: "TSubmit rid True \<in> set ts \<Longrightarrow> submit_finish rid c = Inr c' \<Longrightarrow>
     cstep (c, ts) (ESent rid True) (c', remove1 (TSubmit rid True) ts
       @ [TStream rid (expected_terminal_stages c' rid) {}])"
| sent_stream_gone: "TSubmit rid True \<in> set ts \<Longrightarrow> submit_finish rid c = Inl e \<Longrightarrow>
     cstep (c, ts) (ESent rid True) (stream_cleanup rid c, remove1 (TSubmit rid True) ts)"
| send_fails: "TSubmit rid False \<in> set ts \<Longrightarrow>
     cstep (c, ts) (ESendFails rid False) (c, remove1 (TSubmit rid False) ts)"
| send_fails_stream: "TSubmit rid True \<in> set ts \<Longrightarrow>
     cstep (c, ts) (ESendFails rid True) (stream_cleanup rid c, remove1 (TSubmit rid True) ts)"
| wake: "TAwait rid f \<in> set ts \<Longrightarrow> await_result (futures c f) = Some r \<Longrightarrow>
     cstep (c, ts) (EWake rid f) (drop_future rid c, remove1 (TAwait rid f) ts)"
| cancel: "TAwait rid f \<in> set ts \<Longrightarrow>
     cstep (c, ts) (ECancel rid f)
       (settle f FCancelled c, remove1 (TAwait rid f) ts @ [TCancelled rid f])"
| unwind: "TCancelled rid f \<in> set ts \<Longrightarrow>
     cstep (c, ts) (EUnwind rid f) (drop_future rid c, remove1 (TCancelled rid f) ts)"
| consume: "TStream rid ex done \<in> set ts \<Longrightarrow> stream_queues c rid = Some (ev # q) \<Longrightarrow>
     stream_turn ex done ev = (Yield y False, done') \<Longrightarrow>
     cstep (c, ts) (EConsume rid) (c\<lparr>stream_queues := (stream_queues c)(rid \<mapsto> q)\<rparr>,
       remove1 (TStream rid ex done) ts @ [TStream rid ex done'])"
| consume_last: "TStream rid ex done \<in> set ts \<Longrightarrow> stream_queues c rid = Some (ev # q) \<Longrightarrow>
     stream_turn ex done ev = (tn, done') \<Longrightarrow> (\<forall>y. tn \<noteq> Yield y False) \<Longrightarrow>
     cstep (c, ts) (EConsume rid) (stream_cleanup rid c, remove1 (TStream rid ex done) ts)"
| close: "TStream rid ex done \<in> set ts \<Longrightarrow>
     cstep (c, ts) (EClose rid) (stream_cleanup rid c, remove1 (TStream rid ex done) ts)"
| abort: "abort_begin rid c = Some c' \<Longrightarrow> cstep (c, ts) (EAbort rid) (c', ts @ [TAbort rid])"
| abort_done: "TAbort rid \<in> set ts \<Longrightarrow>
     cstep (c, ts) (EAbortDone rid) (abort_finish rid c, remove1 (TAbort rid) ts)"
| success: "c_success m \<Longrightarrow> \<not> list_ex is_failure ts \<Longrightarrow>
     cstep (c, ts) (EComplete m) (handle_success m c, ts)"
| failure: "\<not> c_success m \<Longrightarrow> \<not> list_ex is_failure ts \<Longrightarrow> failure_begin m c = Some c' \<Longrightarrow>
     cstep (c, ts) (EComplete m) (c', ts @ [TFailure m])"
| failure_done: "TFailure m \<in> set ts \<Longrightarrow>
     cstep (c, ts) (EFailureDone m) (failure_finish m c, remove1 (TFailure m) ts)"
| chunk: "\<not> list_ex is_failure ts \<Longrightarrow> cstep (c, ts) (EChunk k) (handle_stream k c, ts)"
| fatal: "cstep (c, ts) (EFatal msg) (fail_pending_requests msg c, ts)"
| register: "cstep (c, ts) (ERegister name ep) (register_stage name ep c, ts)"

inductive_simps cstep_submit_simp: "cstep s (ESubmit rid creq) s'"
inductive_cases cstep_E: "cstep (c, ts) ev (c', ts')"

text \<open>
  A step is disciplined when a client begins under an id that no other client is using: the
  unique request ids the service layer draws.
\<close>

fun disciplined :: "csys \<Rightarrow> cevent \<Rightarrow> bool" where
  "disciplined (c, ts) (ESubmit rid creq) = (\<not> list_ex (owns rid) ts)"
| "disciplined (c, ts) (EStream rid creq) = (\<not> list_ex (owns rid) ts)"
| "disciplined s ev = True"

inductive creach :: "bool \<Rightarrow> csys \<Rightarrow> bool" for strict :: bool where
  init: "finite terms \<Longrightarrow> creach strict (new_coord entry terms rslv, [])"
| step: "creach strict s \<Longrightarrow> cstep s ev s' \<Longrightarrow> (strict \<Longrightarrow> disciplined s ev) \<Longrightarrow> creach strict s'"

text \<open>The futures of cancelled clients.\<close>

definition cancelled :: "task list \<Rightarrow> nat set" where
  "cancelled ts = {f. \<exists>rid. TCancelled rid f \<in> set ts}"

lemma cancelled_append [simp]:
  "cancelled (ts @ us) = cancelled ts \<union> cancelled us" "cancelled [] = {}" "cancelled [TCancelled rid f] = {f}"
  "(\<And>rid f. t \<noteq> TCancelled rid f) \<Longrightarrow> cancelled [t] = {}"
  by (auto simp: cancelled_def)

lemma cancelled_remove1:
  "(\<And>rid f. t \<noteq> TCancelled rid f) \<Longrightarrow> cancelled (remove1 t ts) = cancelled ts"
  unfolding cancelled_def by (metis in_set_remove1)

lemma cancelled_remove1_simps [simp]:
  "cancelled (remove1 (TSubmit rid st) ts) = cancelled ts" "cancelled (remove1 (TAwait rid f) ts) = cancelled ts"
  "cancelled (remove1 (TStream rid ex dn) ts) = cancelled ts" "cancelled (remove1 (TAbort rid) ts) = cancelled ts"
  "cancelled (remove1 (TFailure m) ts) = cancelled ts"
  by (simp_all add: cancelled_remove1)

lemma coord_inv_settle:
  assumes "coord_inv X c"
  shows "coord_inv (insert f X) (settle f FCancelled c)"
proof -
  have "dom (futures (settle f FCancelled c)) = dom (futures c)"
    by (auto simp: coord_simps dom_def)
  then show ?thesis
    using assms by (auto simp: coord_inv_def futures_ok_def partials_ok_def terminals_ok_def coord_simps)
qed

lemma coord_inv_unwind:
  assumes inv: "coord_inv X c" and own: "\<And>r. completion_futures c r = Some f \<Longrightarrow> r = rid"
    and X: "Y \<subseteq> X" "X \<subseteq> insert f Y"
  shows "coord_inv Y (drop_future rid c)"
proof -
  have "g \<in> Y \<longleftrightarrow> g \<in> X" if "completion_futures c r = Some g" "r \<noteq> rid" for r g
    using that own X by auto
  then show ?thesis
    using inv by (auto simp: coord_inv_def futures_ok_def partials_ok_def terminals_ok_def drop_future_def request_of_def)
qed

lemma coord_inv_stream_begin:
  assumes "coord_inv X c" and "stream_begin rid creq c = (r, c')" and "X \<subseteq> {..<next_future c}"
  shows "coord_inv X c'"
proof (cases "stream_queues c rid = None")
  case False
  with assms show ?thesis by (auto simp: stream_begin_def)
next
  case True
  let ?c1 = "c\<lparr>stream_queues := (stream_queues c)(rid \<mapsto> [])\<rparr>"
  have inv1: "coord_inv X ?c1"
    using assms(1) by (rule coord_inv_set_queues)
  show ?thesis
  proof (cases "submit_begin rid creq ?c1")
    case (Inl e)
    with True assms(2) have "c' = stream_cleanup rid ?c1"
      by (auto simp: stream_begin_def Let_def)
    then show ?thesis
      using coord_inv_stream_cleanup [OF inv1] by simp
  next
    case (Inr c2)
    with True assms(2) have "c' = c2"
      by (auto simp: stream_begin_def Let_def)
    then show ?thesis
      using coord_inv_submit_begin [OF inv1 Inr] assms(3) by simp
  qed
qed

text \<open>
  The waiting clients: the future a client waits on, or waited on when it was cancelled, is, if
  it is still registered at all, registered under that client's id.
\<close>

definition waits :: "string \<Rightarrow> nat \<Rightarrow> task list \<Rightarrow> bool" where
  "waits rid f ts \<longleftrightarrow> TAwait rid f \<in> set ts \<or> TCancelled rid f \<in> set ts"

definition waits_ok :: "csys \<Rightarrow> bool" where
  "waits_ok s \<longleftrightarrow> (\<forall>rid f. waits rid f (snd s) \<longrightarrow> f < next_future (fst s) \<and>
     (\<forall>r. completion_futures (fst s) r = Some f \<longrightarrow> r = rid))"

text \<open>Which handlers leave the future dictionary alone, and how the others change it.\<close>

definition same_maps :: "coord \<Rightarrow> coord \<Rightarrow> bool" where
  "same_maps c c' \<longleftrightarrow> completion_futures c' = completion_futures c \<and> next_future c' = next_future c"

lemma same_maps_handlers:
  "same_maps c (abort_finish rid c)"
  "same_maps c (failure_finish m c)"
  "same_maps c (handle_success m c)"
  "same_maps c (handle_stream k c)"
  "same_maps c (fail_pending_requests msg c)"
  "same_maps c (register_stage name ep c)"
  "same_maps c (c\<lparr>stream_queues := qs\<rparr>)"
  "same_maps c c"
  "submit_finish rid c = Inr c' \<Longrightarrow> same_maps c c'"
  "failure_begin m c = Some c' \<Longrightarrow> same_maps c c'"
  "abort_begin rid c = Some c' \<Longrightarrow> same_maps c c'"
  by (auto simp: same_maps_def abort_finish_def failure_finish_def handle_success_def
      success_single_def success_multi_def handle_stream_def fail_pending_requests_def
      fail_request_fold register_stage_def submit_finish_def failure_begin_def abort_begin_def
      reject_eq resolve_eq Let_def coord_simps split: option.splits if_splits)

definition grows :: "coord \<Rightarrow> coord \<Rightarrow> bool" where
  "grows c c' \<longleftrightarrow> next_future c \<le> next_future c' \<and> (\<forall>r f. completion_futures c' r = Some f \<longrightarrow>
     completion_futures c r = Some f \<or> next_future c \<le> f)"

lemma same_maps_grows: "same_maps c c' \<Longrightarrow> grows c c'"
  by (simp add: same_maps_def grows_def)

lemma grows_submit_begin: "submit_begin rid creq c = Inr c' \<Longrightarrow> grows c c'"
  by (erule submit_begin_ok) (auto simp: grows_def)

lemma grows_cleanup: "grows c (stream_cleanup rid c)" "grows c (drop_future rid c)"
  by (auto simp: grows_def stream_cleanup_def drop_future_def)

lemma grows_stream_begin:
  assumes "stream_begin rid creq c = (r, c')"
  shows "grows c c'"
proof (cases "stream_queues c rid = None")
  case False
  with assms show ?thesis by (auto simp: stream_begin_def grows_def)
next
  case True
  let ?c1 = "c\<lparr>stream_queues := (stream_queues c)(rid \<mapsto> [])\<rparr>"
  show ?thesis
  proof (cases "submit_begin rid creq ?c1")
    case (Inl e)
    with True assms have "c' = stream_cleanup rid ?c1"
      by (auto simp: stream_begin_def Let_def)
    then show ?thesis by (auto simp: grows_def stream_cleanup_def)
  next
    case (Inr c2)
    with True assms grows_submit_begin [OF Inr] show ?thesis
      by (auto simp: stream_begin_def Let_def grows_def)
  qed
qed

lemma grows_settle: "grows c (settle f v c)"
  by (auto simp: grows_def coord_simps)

lemmas grows_intros = same_maps_handlers [THEN same_maps_grows] grows_submit_begin grows_cleanup
  grows_stream_begin grows_settle

lemma cstep_grows: "cstep (c, ts) ev (c', ts') \<Longrightarrow> grows c c'"
  by (erule cstep_E) (auto intro: grows_intros)

lemma set_remove1_sub: "t \<in> set (remove1 x ts) \<Longrightarrow> t \<in> set ts"
  using set_remove1_subset by fast

text \<open>A step starts at most one wait, on the future registered under the waiting id.\<close>

lemma cstep_waits:
  assumes "cstep (c, ts) ev (c', ts')" and "waits rid f ts'"
  shows "waits rid f ts \<or> completion_futures c' rid = Some f"
  using assms by (cases rule: cstep_E)
    (auto simp: waits_def submit_future_def split: option.splits dest: set_remove1_sub)

lemma cancelled_bound: "waits_ok (c, ts) \<Longrightarrow> cancelled ts \<subseteq> {..<next_future c}"
  by (auto simp: waits_ok_def waits_def cancelled_def)

lemma cstep_coord_inv:
  assumes "cstep (c, ts) ev (c', ts')" and inv: "coord_inv (cancelled ts) c" and w: "waits_ok (c, ts)"
  shows "coord_inv (cancelled ts') c'"
  using assms(1)
proof (cases rule: cstep.cases)
  case (cancel rid f)
  then show ?thesis
    using coord_inv_settle [OF inv, of f] by simp
next
  case (unwind rid f)
  have own: "r = rid" if "completion_futures c r = Some f" for r
    using w unwind that by (auto simp: waits_ok_def waits_def)
  have "cancelled ts' \<subseteq> cancelled ts" "cancelled ts \<subseteq> insert f (cancelled ts')"
    using unwind by (auto simp: cancelled_def dest: set_remove1_sub)
  then show ?thesis
    using coord_inv_unwind [OF inv own] unwind by simp
qed (use inv cancelled_bound [OF w] in \<open>auto intro: inv_intros coord_inv_stream_begin\<close>)

lemma cstep_waits_ok:
  assumes st: "cstep (c, ts) ev (c', ts')" and inv: "coord_inv (cancelled ts) c" and w: "waits_ok (c, ts)"
  shows "waits_ok (c', ts')"
proof -
  have ok: "futures_ok (cancelled ts') c'"
    using cstep_coord_inv [OF assms] by (simp add: coord_inv_def)
  have g: "grows c c'"
    using st by (rule cstep_grows)
  have "f < next_future c' \<and> (\<forall>r. completion_futures c' r = Some f \<longrightarrow> r = rid)"
    if "waits rid f ts'" for rid f
    using cstep_waits [OF st that]
  proof
    assume "completion_futures c' rid = Some f"
    with futures_okD(2,4) [OF ok] show ?thesis by blast
  next
    assume "waits rid f ts"
    with w have "f < next_future c" "\<And>r. completion_futures c r = Some f \<Longrightarrow> r = rid"
      by (auto simp: waits_ok_def)
    with g show ?thesis unfolding grows_def by (meson leD order_less_le_trans)
  qed
  then show ?thesis by (simp add: waits_ok_def)
qed

lemma crun_step_inv:
  assumes "cstep s ev s'" and "coord_inv (cancelled (snd s)) (fst s) \<and> waits_ok s"
  shows "coord_inv (cancelled (snd s')) (fst s') \<and> waits_ok s'"
proof -
  obtain c ts c' ts' where "s = (c, ts)" "s' = (c', ts')"
    by (cases s; cases s') auto
  with assms show ?thesis
    using cstep_coord_inv [of c ts ev c' ts'] cstep_waits_ok [of c ts ev c' ts'] by simp
qed

lemma creach_inv: "creach strict s \<Longrightarrow> coord_inv (cancelled (snd s)) (fst s) \<and> waits_ok s"
proof (induction rule: creach.induct)
  case (init terms entry rslv)
  then show ?case by (simp add: coord_inv_new waits_ok_def waits_def)
next
  case (step s ev s')
  then show ?case
    using crun_step_inv by blast
qed

section \<open>Clients under unique ids\<close>

fun held :: "coord \<Rightarrow> task \<Rightarrow> bool" where
  "held c (TSubmit rid st) = (completion_futures c rid \<noteq> None)"
| "held c (TAwait rid f) = (completion_futures c rid = Some f)"
| "held c (TCancelled rid f) = (completion_futures c rid = Some f)"
| "held c t = True"

definition clients_ok :: "csys \<Rightarrow> bool" where
  "clients_ok s \<longleftrightarrow> (\<forall>rid. length (filter (owns rid) (snd s)) \<le> 1) \<and>
     (\<forall>t \<in> set (snd s). held (fst s) t)"

lemma held_cong:
  "(\<And>r. owns r t \<Longrightarrow> completion_futures c' r = completion_futures c r) \<Longrightarrow> held c' t = held c t"
  by (cases t) auto

lemma filter_remove1_owner:
  "t \<in> set ts \<Longrightarrow> owns rid t \<Longrightarrow> length (filter (owns rid) (remove1 t ts)) = length (filter (owns rid) ts) - 1"
  by (simp add: filter_remove1 length_remove1)

lemma owns_unique: "owns r t \<Longrightarrow> owns r' t \<Longrightarrow> r = r'"
  by (cases t) auto

lemma filter_remove1_le: "length (filter P (remove1 t ts)) \<le> length (filter P ts)"
  by (induction ts) auto

text \<open>A client that moves on, or leaves, touches only its own registration.\<close>

lemma clients_ok_move:
  assumes ok: "clients_ok (c, ts)" and t: "t \<in> set ts" "owns rid t"
    and cf: "\<And>r. r \<noteq> rid \<Longrightarrow> completion_futures c' r = completion_futures c r"
    and new: "new = [] \<or> (\<exists>t'. new = [t'] \<and> owns rid t' \<and> held c' t')"
  shows "clients_ok (c', remove1 t ts @ new)"
proof -
  have gone: "filter (owns rid) (remove1 t ts) = []"
    using ok t filter_remove1_owner [OF t] unfolding clients_ok_def snd_conv
    by (metis diff_is_0_eq length_0_conv)
  have "held c' u" if u: "u \<in> set (remove1 t ts)" for u
  proof -
    have "\<not> owns rid u"
      using gone u by (auto simp: filter_empty_conv)
    then have "held c' u = held c u"
      by (intro held_cong cf) auto
    then show ?thesis
      using ok set_remove1_sub [OF u] by (auto simp: clients_ok_def)
  qed
  moreover have "length (filter (owns r) (remove1 t ts @ new)) \<le> 1" for r
  proof (cases "r = rid")
    case True
    with gone new show ?thesis by auto
  next
    case False
    then have "filter (owns r) new = []"
      using new owns_unique by (auto simp: filter_empty_conv)
    moreover have "length (filter (owns r) ts) \<le> 1"
      using ok by (simp add: clients_ok_def)
    ultimately show ?thesis
      using filter_remove1_le [of "owns r" t ts] by simp
  qed
  ultimately show ?thesis
    using new by (auto simp: clients_ok_def)
qed

lemma clients_ok_begin:
  assumes ok: "clients_ok (c, ts)" and fresh: "\<not> list_ex (owns rid) ts"
    and cf: "\<And>r. r \<noteq> rid \<Longrightarrow> completion_futures c' r = completion_futures c r"
    and new: "new = [] \<or> (\<exists>t'. new = [t'] \<and> owns rid t' \<and> held c' t')"
  shows "clients_ok (c', ts @ new)"
proof -
  have none: "\<not> owns rid u" if "u \<in> set ts" for u
    using fresh that by (auto simp: list_ex_iff)
  have "held c' u" if u: "u \<in> set ts" for u
  proof -
    have "held c' u = held c u"
      using none [OF u] by (intro held_cong cf) auto
    then show ?thesis using ok u by (auto simp: clients_ok_def)
  qed
  moreover have "length (filter (owns r) (ts @ new)) \<le> 1" for r
  proof (cases "r = rid")
    case True
    have "filter (owns rid) ts = []" using none by (auto simp: filter_empty_conv)
    with True new show ?thesis by auto
  next
    case False
    then have "filter (owns r) new = []"
      using new owns_unique by (auto simp: filter_empty_conv)
    then show ?thesis using ok by (simp add: clients_ok_def)
  qed
  ultimately show ?thesis
    using new by (auto simp: clients_ok_def)
qed

text \<open>Everything that is not a client's own step keeps the registrations.\<close>

lemma clients_ok_other:
  assumes ok: "clients_ok (c, ts)" and "same_maps c c'"
    and "ts' = ts \<or> (\<exists>t. ts' = remove1 t ts) \<or> (\<exists>t. ts' = ts @ [t] \<and> (\<forall>r. \<not> owns r t))"
  shows "clients_ok (c', ts')"
proof -
  have "held c' t = held c t" for t
    using assms(2) by (intro held_cong) (simp add: same_maps_def)
  moreover have "held c t" if "\<forall>r. \<not> owns r t" for t
    using that by (cases t) auto
  moreover have "length (filter (owns r) ts') \<le> 1" for r
    using assms(3) ok filter_remove1_le [of "owns r" _ ts]
    by (auto simp: clients_ok_def intro: order_trans)
  ultimately show ?thesis
    using assms(3) ok by (auto simp: clients_ok_def dest: set_remove1_sub)
qed

lemma submit_begin_cf:
  "submit_begin rid creq c = Inr c' \<Longrightarrow> completion_futures c' = (completion_futures c)(rid \<mapsto> next_future c)"
  by (erule submit_begin_ok)

lemma stream_begin_cf:
  assumes "stream_begin rid creq c = (res, c')"
  shows "(\<forall>r. r \<noteq> rid \<longrightarrow> completion_futures c' r = completion_futures c r) \<and>
    (res = Inr () \<longrightarrow> completion_futures c' rid \<noteq> None)"
  using assms by (auto simp: stream_begin_def Let_def stream_cleanup_def split: if_splits sum.splits
      dest!: submit_begin_cf)

lemmas cleanup_cf = stream_cleanup_def drop_future_def coord_simps

lemma cstep_clients_ok:
  assumes st: "cstep (c, ts) ev (c', ts')" and ok: "clients_ok (c, ts)"
    and d: "disciplined (c, ts) ev"
  shows "clients_ok (c', ts')"
  using st
proof (cases rule: cstep.cases)
  case (submit rid creq)
  then show ?thesis
    using d by (auto intro!: clients_ok_begin [OF ok, of rid] simp: submit_begin_cf)
next
  case (stream rid creq)
  then show ?thesis
    using d stream_begin_cf [of rid creq c "Inr ()" c']
    by (auto intro!: clients_ok_begin [OF ok, of rid])
next
  case (stream_refused rid creq e)
  then show ?thesis
    using d stream_begin_cf [of rid creq c "Inl e" c']
      clients_ok_begin [OF ok, of rid c' "[]"] by auto
next
  case (sent rid f)
  then have "same_maps c c'" by (simp add: same_maps_handlers)
  with sent show ?thesis
    by (auto intro!: clients_ok_move [OF ok, of _ rid] simp: same_maps_def submit_future_def
        split: option.splits)
next
  case (sent_orphan rid e)
  then show ?thesis by (auto intro!: clients_ok_other [OF ok] same_maps_handlers(9))
next
  case (sent_stream rid)
  then have "same_maps c c'" by (simp add: same_maps_handlers)
  with sent_stream show ?thesis
    by (auto intro!: clients_ok_move [OF ok, of _ rid] simp: same_maps_def)
next
  case (sent_stream_gone rid e)
  then show ?thesis
    using clients_ok_move [OF ok, of "TSubmit rid True" rid c' "[]"] by (auto simp: cleanup_cf)
next
  case (send_fails_stream rid)
  then show ?thesis
    using clients_ok_move [OF ok, of "TSubmit rid True" rid c' "[]"] by (auto simp: cleanup_cf)
next
  case (wake rid f r)
  then show ?thesis
    using clients_ok_move [OF ok, of "TAwait rid f" rid c' "[]"] by (auto simp: cleanup_cf)
next
  case (cancel rid f)
  have "held c (TAwait rid f)"
    using ok cancel by (auto simp: clients_ok_def)
  then show ?thesis
    using cancel by (auto intro!: clients_ok_move [OF ok, of _ rid] simp: coord_simps)
next
  case (unwind rid f)
  then show ?thesis
    using clients_ok_move [OF ok, of "TCancelled rid f" rid c' "[]"] by (auto simp: cleanup_cf)
next
  case (consume rid ex dn ev' q y dn')
  then show ?thesis
    by (auto intro!: clients_ok_move [OF ok, of _ rid])
next
  case (consume_last rid ex dn ev' q tn dn')
  then show ?thesis
    using clients_ok_move [OF ok, of "TStream rid ex dn" rid c' "[]"] by (auto simp: cleanup_cf)
next
  case (close rid ex dn)
  then show ?thesis
    using clients_ok_move [OF ok, of "TStream rid ex dn" rid c' "[]"] by (auto simp: cleanup_cf)
qed (auto intro!: clients_ok_other [OF ok] intro: same_maps_handlers)

lemma creach_clients_ok: "creach True s \<Longrightarrow> clients_ok s"
proof (induction rule: creach.induct)
  case (init terms entry rslv)
  then show ?case by (simp add: clients_ok_def)
next
  case (step s ev s')
  then show ?case using cstep_clients_ok by (cases s; cases s') auto
qed

section \<open>Futures over time\<close>

text \<open>A settled future keeps its value, a pending one is settled only through its registration.\<close>

lemma fold_fail_request_settled:
  "futures c f = Some v \<Longrightarrow> v \<noteq> FPending \<or> f \<notin> ran (completion_futures c) \<Longrightarrow>
     futures (fold (fail_request msg) ids c) f = Some v"
proof (induction ids arbitrary: c)
  case (Cons rid ids)
  have "futures (fail_request msg rid c) f = Some v"
    using Cons.prems by (auto simp: fail_request_def reject_eq coord_simps ran_def)
  moreover have "completion_futures (fail_request msg rid c) = completion_futures c"
    by (simp add: fail_request_def reject_eq coord_simps)
  ultimately show ?case using Cons by simp
qed simp

lemma handlers_keep_future:
  assumes "futures c f = Some v" and "v \<noteq> FPending \<or> f \<notin> ran (completion_futures c)"
  shows "futures (abort_finish rid c) f = Some v" and "futures (failure_finish m c) f = Some v"
    and "futures (handle_success m c) f = Some v" and "futures (handle_stream k c) f = Some v"
    and "futures (fail_pending_requests msg c) f = Some v"
    and "submit_finish rid c = Inr c' \<Longrightarrow> futures c' f = Some v"
    and "failure_begin m c = Some c' \<Longrightarrow> futures c' f = Some v"
    and "abort_begin rid c = Some c' \<Longrightarrow> futures c' f = Some v"
  using assms
  by (auto simp: abort_finish_def failure_finish_def handle_success_def success_single_def
      success_multi_def handle_stream_def fail_pending_requests_def submit_finish_def
      failure_begin_def abort_begin_def reject_eq resolve_eq Let_def coord_simps ran_def
      fold_fail_request_settled split: option.splits if_splits)

lemma begin_keeps_future:
  assumes "coord_inv X c" and "futures c f = Some v"
  shows "submit_begin rid creq c = Inr c' \<Longrightarrow> futures c' f = Some v"
    and "stream_begin rid creq c = (res, c') \<Longrightarrow> futures c' f = Some v"
proof -
  have ne: "f \<noteq> next_future c"
    using assms futures_okD(1) [of X c] by (auto simp: coord_inv_def dom_def)
  have b: "futures c' f = Some v"
    if "submit_begin rid creq c0 = Inr c'" "futures c0 = futures c" "next_future c0 = next_future c"
    for c' c0
    by (rule submit_begin_ok [OF that(1)]) (use ne that(2,3) assms(2) in simp)
  show "submit_begin rid creq c = Inr c' \<Longrightarrow> futures c' f = Some v"
    using b by blast
  show "stream_begin rid creq c = (res, c') \<Longrightarrow> futures c' f = Some v"
    using b assms(2)
    by (auto simp: stream_begin_def Let_def stream_cleanup_def split: if_splits sum.splits)
qed

lemma cstep_keeps_future:
  assumes st: "cstep (c, ts) ev (c', ts')" and inv: "coord_inv X c" and v: "futures c f = Some v"
    and set: "v \<noteq> FPending \<or> f \<notin> ran (completion_futures c) \<and> (\<forall>r. ev \<noteq> ECancel r f)"
  shows "futures c' f = Some v"
proof -
  have set': "v \<noteq> FPending \<or> f \<notin> ran (completion_futures c)" using set by blast
  show ?thesis
    using st
    by (cases rule: cstep_E)
      (use v set in \<open>auto simp: handlers_keep_future [OF v set'] begin_keeps_future [OF inv v]
        cleanup_cf register_stage_def\<close>)
qed

inductive crun :: "csys \<Rightarrow> cevent list \<Rightarrow> csys \<Rightarrow> bool" where
  crun_nil: "crun s [] s"
| crun_cons: "cstep s ev s' \<Longrightarrow> crun s' evs s'' \<Longrightarrow> crun s (ev # evs) s''"

lemma crun_keeps_settled:
  "crun s evs s' \<Longrightarrow> coord_inv (cancelled (snd s)) (fst s) \<and> waits_ok s \<Longrightarrow> futures (fst s) f = Some v \<Longrightarrow>
     v \<noteq> FPending \<Longrightarrow> futures (fst s') f = Some v"
proof (induction rule: crun.induct)
  case (crun_cons s ev s' evs s'')
  obtain c ts c' ts' where s: "s = (c, ts)" "s' = (c', ts')"
    by (cases s; cases s') auto
  have st: "cstep (c, ts) ev (c', ts')" and inv: "coord_inv (cancelled ts) c" and v: "futures c f = Some v"
    using crun_cons.hyps crun_cons.prems s by auto
  have "futures c' f = Some v"
    using cstep_keeps_future [OF st inv v] crun_cons.prems(3) by blast
  then show ?case
    using crun_cons.IH crun_step_inv [OF crun_cons.hyps(1)] crun_cons.prems(1,3) s by simp
qed simp

lemma crun_keeps_orphan:
  "crun s evs s' \<Longrightarrow> coord_inv (cancelled (snd s)) (fst s) \<and> waits_ok s \<Longrightarrow> futures (fst s) f = Some FPending \<Longrightarrow>
     f \<notin> ran (completion_futures (fst s)) \<Longrightarrow> (\<forall>r. ECancel r f \<notin> set evs) \<Longrightarrow>
     futures (fst s') f = Some FPending"
proof (induction rule: crun.induct)
  case (crun_cons s ev s' evs s'')
  obtain c ts c' ts' where s: "s = (c, ts)" "s' = (c', ts')"
    by (cases s; cases s') auto
  have st: "cstep (c, ts) ev (c', ts')" and inv: "coord_inv (cancelled ts) c" and w: "waits_ok (c, ts)"
    and pend: "futures c f = Some FPending" and out: "f \<notin> ran (completion_futures c)"
    and ev: "\<forall>r. ev \<noteq> ECancel r f"
    using crun_cons.hyps crun_cons.prems s by auto
  have keep: "futures c' f = Some FPending"
    using cstep_keeps_future [OF st inv pend] out ev by blast
  have lt: "f < next_future c"
    using inv pend futures_okD(1) [of "cancelled ts" c] by (auto simp: coord_inv_def dom_def)
  have out': "f \<notin> ran (completion_futures c')"
    using cstep_grows [OF st] out lt unfolding grows_def ran_def by (auto dest: leD)
  have ev': "\<forall>r. ECancel r f \<notin> set evs"
    using crun_cons.prems(4) by simp
  show ?case
    using crun_cons.IH [OF crun_step_inv [OF crun_cons.hyps(1) crun_cons.prems(1)] _ _ ev']
      keep out' s by simp
qed simp

section \<open>While a failure is broadcast\<close>

text \<open>
  The events that do not end the request \<open>rid\<close> or its future \<open>f\<close> themselves: an abort of it that
  resumes, the client's own cancellation and a fatal error do, and so does the end of the broadcast.
\<close>

fun undisturbed :: "string \<Rightarrow> nat \<Rightarrow> cevent \<Rightarrow> bool" where
  "undisturbed rid f (EAbortDone r) = (r \<noteq> rid)"
| "undisturbed rid f (ECancel r g) = (g \<noteq> f)"
| "undisturbed rid f (EFatal msg) = False"
| "undisturbed rid f (EFailureDone m) = False"
| "undisturbed rid f ev = True"

definition failing :: "completion \<Rightarrow> nat \<Rightarrow> csys \<Rightarrow> bool" where
  "failing m f s \<longleftrightarrow> TFailure m \<in> set (snd s) \<and> futures (fst s) f = Some FPending \<and>
     request_of (fst s) (c_request_id m) \<noteq> None \<and>
     (\<forall>r. completion_futures (fst s) r = Some f \<longrightarrow> r = c_request_id m) \<and> f < next_future (fst s)"

lemma stream_begin_frame:
  assumes "stream_begin rid creq c = (res, c')" and "r \<noteq> rid \<or> request_of c r \<noteq> None"
  shows "request_of c' r = request_of c r"
  using assms
  by (auto simp: stream_begin_def Let_def stream_cleanup_def coord_simps request_of_def split: if_splits sum.splits
      elim!: submit_begin_ok)

lemma submit_begin_frame:
  assumes "submit_begin rid creq c = Inr c'" and "r \<noteq> rid \<or> request_of c r \<noteq> None"
  shows "request_of c' r = request_of c r"
  using assms by (auto elim!: submit_begin_ok)

lemma failing_task:
  assumes "cstep (c, ts) ev (c', ts')" and "TFailure m \<in> set ts" and "undisturbed rid f ev"
  shows "TFailure m \<in> set ts'"
  using assms by (cases rule: cstep_E) (auto simp: in_set_remove1)

lemma handlers_keep_request:
  "request_of (register_stage name ep c) rid = request_of c rid"
  "request_of (stream_cleanup r c) rid = request_of c rid" "request_of (drop_future r c) rid = request_of c rid"
  "request_of (handle_stream k c) rid = request_of c rid"
  "r \<noteq> rid \<Longrightarrow> request_of (abort_finish r c) rid = request_of c rid"
  "submit_finish r c = Inr c' \<Longrightarrow> r \<noteq> rid \<Longrightarrow> request_of c' rid = request_of c rid"
  "abort_begin r c = Some c' \<Longrightarrow> request_of c' rid = request_of c rid"
  by (auto simp: abort_finish_def reject_eq submit_finish_def abort_begin_def handle_stream_def coord_simps
      split: option.splits if_splits) (simp_all add: request_of_def register_stage_def stream_cleanup_def drop_future_def)

lemma failing_request:
  assumes "cstep (c, ts) ev (c', ts')" and "list_ex is_failure ts" and "request_of c rid \<noteq> None" and "undisturbed rid f ev"
  shows "request_of c' rid \<noteq> None"
    and "\<forall>st. ev \<noteq> ESent rid st \<Longrightarrow> request_of c' rid = request_of c rid"
proof -
  have frame: "request_of c' rid = request_of c rid" if "\<forall>st. ev \<noteq> ESent rid st"
    using assms that
    by (cases rule: cstep_E)
      (auto simp: handlers_keep_request coord_simps submit_begin_frame stream_begin_frame)
  then show "\<forall>st. ev \<noteq> ESent rid st \<Longrightarrow> request_of c' rid = request_of c rid" by blast
  show "request_of c' rid \<noteq> None"
  proof (cases "\<forall>st. ev \<noteq> ESent rid st")
    case True
    with frame assms(3) show ?thesis by simp
  next
    case False
    then obtain st where "ev = ESent rid st" by blast
    with assms(1,3) show ?thesis
      by (auto elim!: cstep_E simp: submit_finish_def stream_cleanup_def coord_simps request_of_def update_conv'
          split: option.splits)
  qed
qed

lemma failing_future:
  assumes "cstep (c, ts) ev (c', ts')" and inv: "coord_inv X c" and "list_ex is_failure ts" and "undisturbed rid f ev"
    and pend: "futures c f = Some FPending" and own: "\<forall>r. completion_futures c r = Some f \<longrightarrow> r = rid"
  shows "futures c' f = Some FPending"
  using assms(1)
proof (cases rule: cstep.cases)
  case (abort_done r)
  then show ?thesis
    using pend own assms(4) by (auto simp: abort_finish_def reject_eq coord_simps)
qed (use assms(3,4) pend in \<open>auto simp: begin_keeps_future [OF inv pend] submit_finish_def abort_begin_def handle_stream_def
    register_stage_def cleanup_cf split: option.splits if_splits\<close>)

lemma failing_step:
  assumes st: "cstep (c, ts) ev (c', ts')" and inv: "coord_inv X c" and ok: "failing m f (c, ts)"
    and ev: "undisturbed (c_request_id m) f ev"
  shows "failing m f (c', ts')"
proof -
  have fl: "list_ex is_failure ts"
    using ok by (auto simp: failing_def list_ex_iff intro!: bexI [of _ "TFailure m"])
  have "grows c c'"
    using st by (rule cstep_grows)
  then have own: "f < next_future c'" "\<forall>r. completion_futures c' r = Some f \<longrightarrow> r = c_request_id m"
    using ok unfolding grows_def failing_def fst_conv by (meson leD order_less_le_trans)+
  moreover have "futures c' f = Some FPending"
    using failing_future [OF st inv fl ev] ok by (simp add: failing_def)
  ultimately show ?thesis
    using failing_task [OF st _ ev, of m] failing_request(1) [OF st fl _ ev] ok by (simp add: failing_def)
qed

lemma crun_failing:
  "crun s evs s' \<Longrightarrow> coord_inv (cancelled (snd s)) (fst s) \<and> waits_ok s \<Longrightarrow> failing m f s \<Longrightarrow>
     list_all (undisturbed (c_request_id m) f) evs \<Longrightarrow>
     failing m f s' \<and> ((\<forall>st. ESent (c_request_id m) st \<notin> set evs) \<longrightarrow>
       request_of (fst s') (c_request_id m) = request_of (fst s) (c_request_id m))"
proof (induction rule: crun.induct)
  case (crun_cons s ev s' evs s'')
  obtain c ts c' ts' where s: "s = (c, ts)" "s' = (c', ts')"
    by (cases s; cases s') auto
  have st: "cstep (c, ts) ev (c', ts')" and inv: "coord_inv (cancelled ts) c" and ok: "failing m f (c, ts)"
    and ev: "undisturbed (c_request_id m) f ev"
    using crun_cons.hyps crun_cons.prems s by auto
  have fl: "list_ex is_failure ts"
    using ok by (auto simp: failing_def list_ex_iff intro!: bexI [of _ "TFailure m"])
  have ok': "failing m f s'"
    using failing_step [OF st inv ok ev] s by simp
  have "request_of c' (c_request_id m) = request_of c (c_request_id m)" if "\<forall>st. ev \<noteq> ESent (c_request_id m) st"
    using failing_request(2) [OF st fl _ ev that] ok by (simp add: failing_def)
  then show ?case
    using crun_cons.IH [OF crun_step_inv [OF crun_cons.hyps(1) crun_cons.prems(1)] ok'] crun_cons.prems(3) s
    by auto
qed simp

end
