(* ===== verification/Coordinator_Correct.thy ===== *)
theory Coordinator_Correct
  imports Coordinator_Steps
begin

text \<open>
  What the coordinator promises its clients: the life of a completion future over every
  interleaving, the merge of several terminal stages in any order of arrival, fail-fast, the
  streaming consumer and the administrative fan-out.
\<close>

section \<open>The life of a future\<close>

text \<open>A small pipeline to evaluate on: entry stage \<open>in\<close>, terminal stages \<open>a\<close> and \<open>b\<close>.\<close>

definition demo0 :: coord where
  "demo0 = new_coord ''in'' {''a'', ''b''} None"

definition demo1 :: coord where
  "demo1 = register_stage ''in'' ''ep'' demo0"

definition demo_info :: "request_state \<Rightarrow> request_info" where
  "demo_info st = \<lparr>ri_state = st, ri_current_stage = ''in'', ri_terminal_stages = {''a'', ''b''}\<rparr>"

definition demo2 :: coord where
  "demo2 = demo1\<lparr>requests := [(''r'', demo_info PENDING)], futures := [0 \<mapsto> FPending],
     completion_futures := [''r'' \<mapsto> 0], next_future := 1,
     sent := [WSubmit ''in'' ''ep'' ''r'' (submit_payload ''r'' (omni_of (CRaw PNone)))]\<rparr>"

definition demo3 :: coord where
  "demo3 = demo2\<lparr>requests := [(''r'', demo_info RUNNING)]\<rparr>"

lemmas demo_defs = demo0_def demo1_def demo2_def demo3_def demo_info_def new_coord_def
  register_stage_def

lemma demo_submit: "submit_begin ''r'' (CRaw PNone) demo1 = Inr demo2"
  by (simp add: submit_begin_def demo_defs request_of_def resolve_terminal_stages_def send_def)

lemma demo_sent: "submit_finish ''r'' demo2 = Inr demo3" "submit_future ''r'' demo3 = Inr 0"
  by (simp_all add: submit_finish_def submit_future_def demo_defs request_of_def)

lemma demo_reach: "creach strict (demo3, [TAwait ''r'' 0])"
proof -
  have "creach strict (demo0, [])"
    unfolding demo0_def by (rule creach.init) simp
  then have "creach strict (demo1, [])"
    by (rule creach.step [OF _ cstep.register [of demo0 "[]" "''in''" "''ep''"]
          , folded demo1_def]) simp
  then have "creach strict (demo2, [] @ [TSubmit ''r'' False])"
    by (rule creach.step [OF _ cstep.submit [OF demo_submit]]) simp
  then have "creach strict (demo3, remove1 (TSubmit ''r'' False) ([] @ [TSubmit ''r'' False])
      @ [TAwait ''r'' 0])"
    by (rule creach.step [OF _ cstep.sent [OF _ demo_sent]]) simp_all
  then show ?thesis by simp
qed

text \<open>
  C1: over every interleaving of submissions, streams, aborts, completions, failures, client
  cancellations and fatal errors, the coordinator's tables agree. A registered completion
  future is pending exactly while its request is in the request table and no cancelled client
  of it has yet to run its \<open>finally\<close> clause: cancelling a client settles the future at once, the
  clause takes it out of the dictionary on the task's next turn, and the request stays in the
  table. Two requests never share a future, and partial results exist only for a request still
  in the table that still waits for at least one of its terminal stages.
\<close>

theorem coordinator_tables_agree:
  assumes "creach strict (c, ts)"
  shows "(\<forall>rid f. completion_futures c rid = Some f \<longrightarrow>
            (futures c f = Some FPending \<longleftrightarrow>
               request_of c rid \<noteq> None \<and> (\<forall>r. TCancelled r f \<notin> set ts)))
    \<and> inj_on (completion_futures c) (dom (completion_futures c))
    \<and> (\<forall>rid p. partial_results c rid = Some p \<longrightarrow> (\<exists>info. request_of c rid = Some info
          \<and> dom p \<noteq> {} \<and> dom p \<subset> ri_terminal_stages info))"
proof -
  have inv: "coord_inv (cancelled ts) c"
    using creach_inv [OF assms] by simp
  have "inj_on (completion_futures c) (dom (completion_futures c))"
    using inv futures_okD(4) [of "cancelled ts" c] by (auto simp: coord_inv_def inj_on_def)
  moreover have "f \<in> cancelled ts \<longleftrightarrow> (\<exists>r. TCancelled r f \<in> set ts)" for f
    by (simp add: cancelled_def)
  ultimately show ?thesis
    using inv futures_okD(3) [of "cancelled ts" c] unfolding coord_inv_def partials_ok_def by blast
qed

theorem coordinator_tables_agree_witness:
  "futures demo3 0 = Some FPending \<longleftrightarrow> request_of demo3 ''r'' \<noteq> None"
proof -
  have "completion_futures demo3 ''r'' = Some 0"
    by (simp add: demo_defs)
  with coordinator_tables_agree [OF demo_reach [of True], THEN conjunct1] show ?thesis by simp
qed

text \<open>
  a completion future is settled at most once: from any reachable state on, whatever
  events follow, a result, an error or a cancellation that a future holds is never replaced.
\<close>

theorem settled_future_is_final:
  assumes "creach strict s" and "futures (fst s) f = Some v" and "v \<noteq> FPending"
    and "crun s evs s'"
  shows "futures (fst s') f = Some v"
  using crun_keeps_settled [OF assms(4) creach_inv [OF assms(1)] assms(2,3)] .

definition demo_fatal :: coord where
  "demo_fatal = fail_pending_requests ''gpu lost'' demo3"

lemma demo_fatal_reach: "creach strict (demo_fatal, [TAwait ''r'' 0])"
  unfolding demo_fatal_def
  by (rule creach.step [OF demo_reach cstep.fatal [where msg = "''gpu lost''"]]) simp

lemma demo_fatal_future: "futures demo_fatal 0 = Some (FException (RuntimeError ''gpu lost''))"
  by (simp add: demo_fatal_def fail_pending_requests_def demo_defs fail_request_def
      reject_completion_future_def settle_def fut_done_def queue_put_def)

theorem settled_future_is_final_witness:
  "futures (register_stage ''a'' ''ep2'' demo_fatal) 0 = Some (FException (RuntimeError ''gpu lost''))"
proof -
  have run: "crun (demo_fatal, [TAwait ''r'' 0]) [ERegister ''a'' ''ep2'']
      (register_stage ''a'' ''ep2'' demo_fatal, [TAwait ''r'' 0])"
    by (rule crun_cons [OF cstep.register crun_nil])
  show ?thesis
    using settled_future_is_final [OF demo_fatal_reach [of True] _ _ run, of 0] demo_fatal_future
    by simp
qed

text \<open>
  C2: no lost wake-up under unique request ids: when no client begins under an id that another
  client is using, the future a client waits on stays registered under its id, and it is
  pending exactly as long as the request is in the table. The moment a completion, a failure,
  an abort or a fatal error removes the request, the waiting client can run on.
\<close>

theorem no_lost_wakeup:
  assumes "creach True (c, ts)" and "TAwait rid f \<in> set ts"
  shows "completion_futures c rid = Some f
    \<and> (request_of c rid = None \<longleftrightarrow> await_result (futures c f) \<noteq> None)"
proof -
  have reg: "completion_futures c rid = Some f"
    using creach_clients_ok [OF assms(1)] assms(2) by (auto simp: clients_ok_def)
  have ok: "futures_ok (cancelled ts) c"
    using creach_inv [OF assms(1)] by (simp add: coord_inv_def)
  have nc: "f \<notin> cancelled ts"
  proof
    assume "f \<in> cancelled ts"
    then obtain r where c: "TCancelled r f \<in> set ts" by (auto simp: cancelled_def)
    with creach_clients_ok [OF assms(1)] have "completion_futures c r = Some f"
      by (auto simp: clients_ok_def)
    with futures_okD(4) [OF ok reg] have "r = rid" by simp
    with c assms(2) have "TCancelled rid f \<in> set (filter (owns rid) ts)" "TAwait rid f \<in> set (filter (owns rid) ts)"
      by simp_all
    moreover have "length (filter (owns rid) ts) \<le> 1"
      using creach_clients_ok [OF assms(1)] by (simp add: clients_ok_def)
    ultimately show False
      by (cases "filter (owns rid) ts") auto
  qed
  have "f \<in> dom (futures c)"
    using futures_okD(1,2) [OF ok] reg by simp
  then obtain v where v: "futures c f = Some v" by blast
  have "await_result (Some v) \<noteq> None \<longleftrightarrow> v \<noteq> FPending"
    by (cases v) auto
  with v reg nc futures_okD(3) [OF ok reg] show ?thesis by auto
qed

theorem no_lost_wakeup_witness:
  "request_of demo_fatal ''r'' = None \<longleftrightarrow> await_result (futures demo_fatal 0) \<noteq> None"
  using no_lost_wakeup [OF demo_fatal_reach, of "''r''" 0] by simp

text \<open>
  C5: the unique-id hypothesis of the previous property is needed. When a client streams
  under the id of a request in flight whose client waits, the coordinator refuses it with \<open>already exists\<close>, but
  the refused call's \<open>finally\<close> clause removes the other client's future from the
  dictionary. From then on that future can be settled by nothing but the waiting client's own
  cancellation: no completion, failure, abort or fatal error wakes it.
\<close>

theorem duplicate_stream_orphans_waiter:
  assumes reach: "creach strict (c, ts)" and reg: "completion_futures c rid = Some f"
    and live: "futures c f = Some FPending" and idle: "stream_queues c rid = None"
    and "fatal_error c = None"
  shows "\<exists>c'. stream_begin rid creq c =
       (Inl (ValueError (''Request '' @ rid @ '' already exists'')), c')
     \<and> (\<forall>evs s'. crun (c', ts) evs s' \<and> (\<forall>r. ECancel r f \<notin> set evs) \<longrightarrow>
          futures (fst s') f = Some FPending)"
proof -
  let ?c1 = "c\<lparr>stream_queues := (stream_queues c)(rid \<mapsto> [])\<rparr>"
  let ?c' = "stream_cleanup rid ?c1"
  let ?e = "ValueError (''Request '' @ rid @ '' already exists'')"
  have inv: "coord_inv (cancelled ts) c" and w: "waits_ok (c, ts)"
    using creach_inv [OF reach] by simp_all
  have known: "request_of c rid \<noteq> None"
    using inv live futures_okD(3) [of "cancelled ts" c, OF _ reg] by (simp add: coord_inv_def)
  have refused: "submit_begin rid creq ?c1 = Inl ?e"
    using known assms(5) by (auto simp: submit_begin_def coord_simps guardE_def)
  have eq: "stream_begin rid creq c = (Inl ?e, ?c')"
    using idle refused by (simp add: stream_begin_def Let_def)
  have st: "cstep (c, ts) (EStream rid creq) (?c', ts)"
    by (rule cstep.stream_refused [OF eq])
  have inv': "coord_inv (cancelled (snd (?c', ts))) (fst (?c', ts)) \<and> waits_ok (?c', ts)"
    using crun_step_inv [OF st] inv w by simp
  have pend: "futures (fst (?c', ts)) f = Some FPending"
    using live by (simp add: stream_cleanup_def)
  have out: "f \<notin> ran (completion_futures (fst (?c', ts)))"
    using inv futures_okD(4) [of "cancelled ts" c, OF _ reg]
    by (auto simp: coord_inv_def stream_cleanup_def ran_def split: if_splits)
  show ?thesis
    using eq crun_keeps_orphan [OF _ inv' pend out] by blast
qed

theorem duplicate_stream_orphans_waiter_witness:
  "\<exists>c'. stream_begin ''r'' (CRaw PNone) demo3 =
       (Inl (ValueError ''Request r already exists''), c')
     \<and> (\<forall>evs s'. crun (c', [TAwait ''r'' 0]) evs s' \<and> (\<forall>r. ECancel r 0 \<notin> set evs) \<longrightarrow>
          futures (fst s') 0 = Some FPending)"
proof -
  have "completion_futures demo3 ''r'' = Some 0" "futures demo3 0 = Some FPending"
    "stream_queues demo3 ''r'' = None" "fatal_error demo3 = None"
    by (simp_all add: demo_defs request_of_def)
  from duplicate_stream_orphans_waiter [OF demo_reach this, where creq = "CRaw PNone"]
  show ?thesis by simp
qed

section \<open>Several terminal stages\<close>

text \<open>The state between two completions: the partial results are those of the stages seen.\<close>

definition collecting :: "string \<Rightarrow> nat \<Rightarrow> string set \<Rightarrow> (string \<Rightarrow> pyval) \<Rightarrow> string set \<Rightarrow> coord \<Rightarrow> bool" where
  "collecting rid f E res seen c \<longleftrightarrow>
     (\<exists>info. request_of c rid = Some info \<and> ri_terminal_stages info = E) \<and>
     completion_futures c rid = Some f \<and> futures c f = Some FPending \<and>
     partials_of c rid = (\<lambda>s. if s \<in> seen then Some (res s) else None)"

lemma handle_success_collect:
  assumes c: "collecting rid f E res seen c" and m: "c_request_id m = rid"
    "c_from_stage m \<in> E" "c_result m = res (c_from_stage m)" and E: "card E > 1" "seen \<subseteq> E"
  shows "if insert (c_from_stage m) seen = E
    then request_of (handle_success m c) rid = None
      \<and> futures (handle_success m c) f
          = Some (FResult (Merged (\<lambda>s. if s \<in> E then Some (res s) else None)))
    else collecting rid f E res (insert (c_from_stage m) seen) (handle_success m c)"
proof -
  let ?p = "(partials_of c rid)(c_from_stage m \<mapsto> c_result m)"
  obtain info where info: "request_of c rid = Some info" "ri_terminal_stages info = E"
    using c by (auto simp: collecting_def)
  have fut: "completion_futures c rid = Some f" "futures c f = Some FPending"
    using c by (simp_all add: collecting_def)
  have p: "?p = (\<lambda>s. if s \<in> insert (c_from_stage m) seen then Some (res s) else None)"
    using c m(3) by (auto simp: collecting_def)
  have dp: "dom ?p = insert (c_from_stage m) seen"
    unfolding p by (auto simp: dom_def)
  have multi: "handle_success m c = success_multi E m c"
    using info m E by (auto simp: handle_success_def expected_terminal_stages_def Let_def)
  show ?thesis
  proof (cases "insert (c_from_stage m) seen = E")
    case True
    then have "\<not> dom ?p \<subset> E" using dp by blast
    then have eq: "handle_success m c = pop_request rid (resolve_completion_future rid (Merged ?p)
        (drop_partials rid (queue_put rid (SComplete m)
          (c\<lparr>partial_results := (partial_results c)(rid \<mapsto> ?p)\<rparr>))))"
      by (simp only: multi success_multi_def Let_def m(1) if_False)
    have q: "?p = (\<lambda>s. if s \<in> E then Some (res s) else None)"
      using p unfolding True .
    have "request_of (handle_success m c) rid = None"
      unfolding eq by (simp add: resolve_eq coord_simps)
    moreover have "futures (handle_success m c) f = Some (FResult (Merged ?p))"
      using fut unfolding eq by (simp add: resolve_eq coord_simps)
    ultimately show ?thesis
      unfolding if_P [OF True] q by (rule conjI)
  next
    case False
    then have "dom ?p \<subset> E" unfolding dp using m(2) E(2) by auto
    then have eq: "handle_success m c = queue_put rid (SComplete m)
          (c\<lparr>partial_results := (partial_results c)(rid \<mapsto> ?p)\<rparr>)"
      by (simp only: multi success_multi_def Let_def m(1) if_True)
    have "partials_of (handle_success m c) rid = ?p"
      unfolding eq by (simp add: partials_of_def coord_simps)
    moreover have "request_of (handle_success m c) rid = Some info"
      "completion_futures (handle_success m c) rid = Some f"
      "futures (handle_success m c) f = Some FPending"
      using info fut unfolding eq by (simp_all add: coord_simps)
    ultimately show ?thesis
      using False p info(2) by (simp add: collecting_def)
  qed
qed

lemma handle_success_gone:
  "request_of c (c_request_id m) = None \<Longrightarrow> handle_success m c = c"
  by (simp add: handle_success_def)

lemma fold_handle_success_gone:
  "request_of c rid = None \<Longrightarrow> (\<forall>m \<in> set ms. c_request_id m = rid) \<Longrightarrow> fold handle_success ms c = c"
  by (induction ms) (auto simp: handle_success_gone)

lemma fold_handle_success_collect:
  assumes "collecting rid f E res seen c" and "card E > 1" and "seen \<subset> E"
    and "\<forall>m \<in> set ms. c_request_id m = rid \<and> c_from_stage m \<in> E \<and> c_result m = res (c_from_stage m)"
    and "seen \<union> c_from_stage ` set ms = E"
  shows "request_of (fold handle_success ms c) rid = None \<and> futures (fold handle_success ms c) f
    = Some (FResult (Merged (\<lambda>s. if s \<in> E then Some (res s) else None)))"
  using assms
proof (induction ms arbitrary: seen c)
  case Nil
  then show ?case by auto
next
  case (Cons m ms)
  note step = handle_success_collect [OF Cons.prems(1), of m]
  show ?case
  proof (cases "insert (c_from_stage m) seen = E")
    case True
    then have "request_of (handle_success m c) rid = None \<and> futures (handle_success m c) f
        = Some (FResult (Merged (\<lambda>s. if s \<in> E then Some (res s) else None)))"
      using step Cons.prems(2-4) by auto
    then show ?thesis
      using fold_handle_success_gone [of "handle_success m c" rid ms] Cons.prems(4) by simp
  next
    case False
    then have "collecting rid f E res (insert (c_from_stage m) seen) (handle_success m c)"
      using step Cons.prems(2-4) by auto
    then show ?thesis
      using Cons.IH [of "insert (c_from_stage m) seen" "handle_success m c"] False Cons.prems(2-5)
      by auto
  qed
qed

text \<open>
  C3: a request with several expected terminal stages resolves with the same merged result
  whatever the order in which the stages complete, and whether or not some of them repeat
  their completion: as soon as every expected stage has completed, its future holds exactly
  one result per expected stage and the request has left the table; any further repetition
  changes nothing.
\<close>

theorem merge_is_order_independent:
  assumes "request_of c rid = Some info" and "card (ri_terminal_stages info) > 1"
    and "completion_futures c rid = Some f" and "futures c f = Some FPending"
    and "partial_results c rid = None"
    and "\<forall>m \<in> set ms. c_request_id m = rid \<and> c_result m = res (c_from_stage m)"
    and "c_from_stage ` set ms = ri_terminal_stages info"
  shows "request_of (fold handle_success ms c) rid = None
    \<and> futures (fold handle_success ms c) f = Some (FResult (Merged
        (\<lambda>s. if s \<in> ri_terminal_stages info then Some (res s) else None)))"
proof (rule fold_handle_success_collect)
  show "collecting rid f (ri_terminal_stages info) res {} c"
    using assms by (simp add: collecting_def partials_of_def)
  show "{} \<subset> ri_terminal_stages info"
    using assms(2) by auto
  show "\<forall>m \<in> set ms. c_request_id m = rid \<and> c_from_stage m \<in> ri_terminal_stages info
      \<and> c_result m = res (c_from_stage m)"
    using assms(6,7) by blast
qed (use assms in simp_all)

definition demo_done :: "string \<Rightarrow> completion" where
  "demo_done st = \<lparr>c_request_id = ''r'', c_from_stage = st, c_success = True,
     c_result = PStr st, c_error = None\<rparr>"

theorem merge_is_order_independent_witness:
  "futures (fold handle_success [demo_done ''b'', demo_done ''b'', demo_done ''a''] demo3) 0
     = Some (FResult (Merged (\<lambda>s. if s \<in> {''a'', ''b''} then Some (PStr s) else None)))"
  using merge_is_order_independent [of demo3 "''r''" "demo_info RUNNING" 0
      "[demo_done ''b'', demo_done ''b'', demo_done ''a'']" PStr]
  by (simp add: demo_defs request_of_def demo_done_def insert_commute)

section \<open>Failing fast\<close>




section \<open>The streaming consumer\<close>

fun succeeded :: "stream_event \<Rightarrow> bool" where
  "succeeded (SComplete m) = c_success m"
| "succeeded (SChunk k) = True"

fun completed_stage :: "stream_event \<Rightarrow> string set" where
  "completed_stage (SComplete m) = {c_from_stage m}"
| "completed_stage (SChunk k) = {}"

definition completed_stages :: "stream_event list \<Rightarrow> string set" where
  "completed_stages evs = (\<Union>ev \<in> set evs. completed_stage ev)"

lemma completed_stages_simps [simp]:
  "completed_stages [] = {}"
  "completed_stages (ev # evs) = completed_stage ev \<union> completed_stages evs"
  by (simp_all add: completed_stages_def)

lemma stream_turn_go:
  assumes "E \<noteq> {}" and "succeeded ev" and "\<not> E \<subseteq> seen \<union> completed_stage ev"
  shows "stream_turn E seen ev = (Yield ev False, seen \<union> completed_stage ev)"
  using assms by (cases ev) (auto simp: stream_turn_def Let_def)

lemma stream_loop_prefix:
  assumes "E \<noteq> {}" and "list_all succeeded evs" and "\<not> E \<subseteq> seen \<union> completed_stages evs"
  shows "stream_loop E seen (evs @ rest) =
    (let (ys, r) = stream_loop E (seen \<union> completed_stages evs) rest in (evs @ ys, r))"
  using assms
proof (induction evs arbitrary: seen)
  case Nil
  then show ?case by (simp add: case_prod_beta)
next
  case (Cons ev evs)
  have "stream_turn E seen ev = (Yield ev False, seen \<union> completed_stage ev)"
    using Cons.prems by (intro stream_turn_go) auto
  then show ?case
    using Cons.IH [of "seen \<union> completed_stage ev"] Cons.prems
    by (simp add: Un_assoc case_prod_beta Let_def)
qed

text \<open>
  C6: a streaming client sees every event in order until its pipeline is complete. While no
  completion failed and some expected terminal stage is missing, the consumer has yielded
  exactly the events that arrived and waits for more; once the last expected stage completes,
  it yields that completion and returns without looking at what follows; a failed completion
  raises after everything before it has been yielded.
\<close>

theorem stream_consumer_in_order:
  assumes "E \<noteq> {}" and "list_all succeeded evs" and "\<not> E \<subseteq> completed_stages evs"
  shows "stream_loop E {} evs = (evs, Waiting)
    \<and> (c_success m \<and> E \<subseteq> insert (c_from_stage m) (completed_stages evs) \<longrightarrow>
        stream_loop E {} (evs @ SComplete m # rest) = (evs @ [SComplete m], Returned))
    \<and> (\<not> c_success m \<longrightarrow> stream_loop E {} (evs @ SComplete m # rest)
        = (evs, Raised (RuntimeError (or_unknown (c_error m)))))"
proof -
  note pre = stream_loop_prefix [OF assms(1,2), of "{}", simplified, OF assms(3)]
  show ?thesis
    using pre [of "[]"]
    by (auto simp: pre stream_turn_def or_unknown_def Let_def split: option.split)
qed

theorem stream_consumer_in_order_witness:
  "stream_loop {''a'', ''b''} {} ([SComplete (demo_done ''b'')] @ SComplete (demo_done ''a'') # [])
     = ([SComplete (demo_done ''b''), SComplete (demo_done ''a'')], Returned)"
  using stream_consumer_in_order [of "{''a'', ''b''}" "[SComplete (demo_done ''b'')]"
      "demo_done ''a''" "[]"] by (simp add: demo_done_def)

section \<open>Administrative operations\<close>

lemma handle_admin_results_pending:
  assumes "admin_ops c op = Some p" and "ap_future p = None"
    and "\<forall>r \<in> set rs. ar_op_id r = op"
    and "\<not> ap_expected p \<subseteq> set (map fst (ap_results p)) \<union> ar_stage ` set rs"
  shows "\<exists>p'. admin_ops (fold handle_admin_result rs c) op = Some p' \<and> ap_future p' = None
    \<and> ap_expected p' = ap_expected p \<and> ap_action p' = ap_action p
    \<and> set (map fst (ap_results p')) = set (map fst (ap_results p)) \<union> ar_stage ` set rs"
  using assms
proof (induction rs arbitrary: c p)
  case (Cons r rs)
  let ?p = "p\<lparr>ap_results := AList.update (ar_stage r) r (ap_results p)\<rparr>"
  have keys: "fst ` set (AList.update k v xs) = insert k (fst ` set xs)" for k :: string and v :: admin_result and xs
    using dom_update [of k v xs] by simp
  have "admin_ops (handle_admin_result r c) op = Some ?p"
    using Cons.prems by (auto simp: handle_admin_result_def Let_def keys)
  then show ?case
    using Cons.IH [of "handle_admin_result r c" ?p] Cons.prems by (auto simp: keys)
qed auto

text \<open>
  an administrative operation resolves exactly when every targeted stage has answered. As
  long as one has not, the operation keeps waiting whatever answers (also repeated ones, or
  from stages outside its targets) have arrived; the answer that completes the set resolves
  it, and the results it resolves with cover every target.
\<close>

theorem admin_waits_for_every_target:
  assumes "admin_ops c op = Some p" and "ap_future p = None" and "ap_results p = []"
    and "\<forall>r \<in> set rs. ar_op_id r = op" and "\<not> ap_expected p \<subseteq> ar_stage ` set rs"
    and "ar_op_id r = op" and "ap_expected p \<subseteq> insert (ar_stage r) (ar_stage ` set rs)"
  shows "admin_finish False op (fold handle_admin_result rs c) = None
    \<and> (\<exists>p' results. admin_ops (fold handle_admin_result (rs @ [r]) c) op = Some p'
        \<and> ap_future p' = Some results \<and> ap_expected p \<subseteq> set (map fst results))"
proof -
  have keys: "fst ` set (AList.update k v xs) = insert k (fst ` set xs)" for k :: string and v :: admin_result and xs
    using dom_update [of k v xs] by simp
  obtain p' where "admin_ops (fold handle_admin_result rs c) op = Some p'" "ap_future p' = None"
      "ap_expected p' = ap_expected p" "fst ` set (ap_results p') = ar_stage ` set rs"
    using handle_admin_results_pending [of c op p rs] assms by auto
  with assms show ?thesis
    by (auto simp: admin_finish_def handle_admin_result_def Let_def keys)
qed

definition demo_answer :: "string \<Rightarrow> admin_result" where
  "demo_answer st = \<lparr>ar_op_id = ''op'', ar_stage = st, ar_action = ''model_info'', ar_success = True,
     ar_message = ''ok'', ar_data = [], ar_error = PNone, ar_rank = PNone, ar_role = PNone\<rparr>"

definition demo_admin :: coord where
  "demo_admin = demo0\<lparr>admin_ops := [''op'' \<mapsto> \<lparr>ap_expected = {''a'', ''b''},
     ap_action = ''model_info'', ap_results = [], ap_future = None\<rparr>]\<rparr>"

theorem admin_waits_for_every_target_witness:
  "admin_finish False ''op'' (fold handle_admin_result [demo_answer ''a'', demo_answer ''x''] demo_admin)
     = None"
  using admin_waits_for_every_target [of demo_admin "''op''" _
      "[demo_answer ''a'', demo_answer ''x'']" "demo_answer ''b''"]
  by (simp add: demo_admin_def demo_answer_def)

end
