(* ===== verification/Stage_Input.thy ===== *)
theory Stage_Input
  imports Prelude
begin

text \<open>
  Fan-in of a stage: \<open>sglang_omni/pipeline/stage/input.py\<close>. A handler receives payloads per
  request and either hands one on or waits. The locale \<open>input_handler\<close> is the contract the
  stage relies on (requests never touch each other, cancelling forgets one request); both
  handlers of the code interpret it.
\<close>

section \<open>The contract\<close>

text \<open>
  \<open>entry s r\<close> is the part of the handler's state that belongs to request \<open>r\<close>. An operation
  on one request reads and writes that request's part only.
\<close>

datatype 'p input_op = Receive string string 'p | Cancel string

fun op_request :: "'p input_op \<Rightarrow> string" where
  "op_request (Receive r src p) = r"
| "op_request (Cancel r) = r"

locale input_handler =
  fixes receive :: "string \<Rightarrow> string \<Rightarrow> 'p \<Rightarrow> 's \<Rightarrow> 'p option result \<times> 's"
    and cancel :: "string \<Rightarrow> 's \<Rightarrow> 's"
    and entry :: "'s \<Rightarrow> string \<Rightarrow> 'e"
    and empty :: "'e"
  assumes receive_frame: "r \<noteq> rid \<Longrightarrow> entry (snd (receive rid src p s)) r = entry s r"
    and receive_local: "entry s rid = entry s' rid \<Longrightarrow>
      fst (receive rid src p s) = fst (receive rid src p s') \<and>
      entry (snd (receive rid src p s)) rid = entry (snd (receive rid src p s')) rid"
    and receive_delivers: "fst (receive rid src p s) = Inr (Some q) \<Longrightarrow>
      entry (snd (receive rid src p s)) rid = empty"
    and cancel_frame: "r \<noteq> rid \<Longrightarrow> entry (cancel rid s) r = entry s r"
    and cancel_clears: "entry (cancel rid s) rid = empty"
begin

fun op_step :: "'p input_op \<Rightarrow> 's \<Rightarrow> ('p option result) option \<times> 's" where
  "op_step (Receive rid src p) s = (case receive rid src p s of (r, s') \<Rightarrow> (Some r, s'))"
| "op_step (Cancel rid) s = (None, cancel rid s)"

text \<open>What a request's receives answered, in order, over an interleaved run.\<close>

fun answers :: "string \<Rightarrow> 'p input_op list \<Rightarrow> 's \<Rightarrow> ('p option result) list" where
  "answers rid [] s = []"
| "answers rid (x # xs) s = (case op_step x s of (r, s') \<Rightarrow>
     (if op_request x = rid then (case r of None \<Rightarrow> [] | Some a \<Rightarrow> [a]) else []) @ answers rid xs s')"

lemma op_step_frame: "op_request x \<noteq> rid \<Longrightarrow> entry (snd (op_step x s)) rid = entry s rid"
  by (cases x) (auto simp: cancel_frame split: prod.split intro: receive_frame [THEN trans]
      dest: receive_frame [where r = rid] simp: case_prod_beta receive_frame)

lemma op_step_local:
  assumes "entry s (op_request x) = entry s' (op_request x)"
  shows "fst (op_step x s) = fst (op_step x s') \<and>
    entry (snd (op_step x s)) (op_request x) = entry (snd (op_step x s')) (op_request x)"
proof (cases x)
  case (Receive rid src p)
  then show ?thesis
    using receive_local [of s rid s' src p] assms by (simp add: case_prod_beta)
next
  case (Cancel rid)
  then show ?thesis by (simp add: cancel_clears)
qed

lemma answers_isolated:
  "entry s rid = entry s' rid \<Longrightarrow>
     answers rid xs s = answers rid (filter (\<lambda>x. op_request x = rid) xs) s'"
proof (induction xs arbitrary: s s')
  case (Cons x xs)
  show ?case
  proof (cases "op_request x = rid")
    case True
    with op_step_local [of s x s'] Cons.prems
    have same: "fst (op_step x s) = fst (op_step x s')"
      "entry (snd (op_step x s)) rid = entry (snd (op_step x s')) rid" by auto
    from Cons.IH [OF same(2)] same(1) True show ?thesis
      by (simp add: case_prod_beta)
  next
    case False
    with op_step_frame [OF False, of s] Cons.prems Cons.IH [of "snd (op_step x s)" s']
    show ?thesis by (simp add: case_prod_beta)
  qed
qed simp

end

section \<open>DirectInput\<close>

definition direct_receive :: "string \<Rightarrow> string \<Rightarrow> 'p \<Rightarrow> unit \<Rightarrow> 'p option result \<times> unit" where
  "direct_receive rid src p s = (Inr (Some p), s)"

definition direct_cancel :: "string \<Rightarrow> unit \<Rightarrow> unit" where
  "direct_cancel rid s = s"

interpretation direct: input_handler direct_receive direct_cancel "\<lambda>s r. ()" "()"
  by unfold_locales (simp_all add: direct_receive_def)

section \<open>AggregatedInput\<close>

text \<open>
  The configuration of the handler (its static sources, the merge and the optional resolver)
  and its state: the payloads that have arrived per request, in order of first arrival, and
  the resolved source sets.
\<close>

record 'p fan_in =
  fi_sources :: "string set"
  fi_merge :: "(string \<times> 'p) list \<Rightarrow> 'p result"
  fi_expected_fn :: "(string \<Rightarrow> string \<Rightarrow> 'p \<Rightarrow> pyval) option"

record 'p agg_state =
  ag_pending :: "string \<rightharpoonup> (string \<times> 'p) list"
  ag_expected :: "string \<rightharpoonup> string set"

definition agg_init :: "'p agg_state" where
  "agg_init = \<lparr>ag_pending = Map.empty, ag_expected = Map.empty\<rparr>"

fun hashable :: "pyval \<Rightarrow> bool" where
  "hashable (PList xs) = False"
| "hashable (PDict d) = False"
| "hashable v = True"

fun py_string :: "pyval \<Rightarrow> string option" where
  "py_string (PStr s) = Some s"
| "py_string v = None"

text \<open>\<open>set(sources)\<close> of what the resolver returned, as the list of its elements.\<close>

fun resolved_elements :: "pyval \<Rightarrow> pyval list result" where
  "resolved_elements (PStr s) = Inr [PStr s]"
| "resolved_elements (PList xs) =
     (if list_all hashable xs then Inr xs
      else Inl (ValueError ''dynamic fan-in resolver returned unsupported sources''))"
| "resolved_elements (PDict d) = Inr (map (\<lambda>(k, v). PStr k) d)"
| "resolved_elements v =
     Inl (ValueError ''dynamic fan-in resolver returned unsupported sources'')"

definition normalize_expected_sources :: "string set \<Rightarrow> pyval \<Rightarrow> string set result" where
  "normalize_expected_sources sources v =
     bindE (resolved_elements v) (\<lambda>xs.
     bindE (guardE (xs \<noteq> []) (ValueError ''dynamic fan-in resolver returned no sources'')) (\<lambda>_.
     bindE (guardE (list_all (\<lambda>x. py_string x \<noteq> None) xs)
       (ValueError ''dynamic fan-in resolver returned non-string sources'')) (\<lambda>_.
     bindE (guardE (set (map (\<lambda>x. the (py_string x)) xs) \<subseteq> sources)
       (ValueError ''dynamic fan-in resolver returned sources outside static wait_for'')) (\<lambda>_.
     Inr (set (map (\<lambda>x. the (py_string x)) xs))))))"

text \<open>
  Which sources a request waits for: \<open>None\<close> while a resolver has not decided. The second
  component says whether the set is to be remembered.
\<close>

definition expected_sources ::
    "'p fan_in \<Rightarrow> string set option \<Rightarrow> string \<Rightarrow> string \<Rightarrow> 'p \<Rightarrow> (string set option \<times> bool) result"
where
  "expected_sources cfg known rid src p = (case known of
     Some ex \<Rightarrow> Inr (Some ex, False)
   | None \<Rightarrow> (case fi_expected_fn cfg of
       None \<Rightarrow> Inr (Some (fi_sources cfg), False)
     | Some f \<Rightarrow> (case f rid src p of
         PNone \<Rightarrow> Inr (None, False)
       | v \<Rightarrow> bindE (normalize_expected_sources (fi_sources cfg) v) (\<lambda>ex. Inr (Some ex, True)))))"

definition set_pending :: "string \<Rightarrow> (string \<times> 'p) list option \<Rightarrow> 'p agg_state \<Rightarrow> 'p agg_state" where
  "set_pending rid xs s = s\<lparr>ag_pending := (ag_pending s)(rid := xs)\<rparr>"

definition set_expected :: "string \<Rightarrow> string set option \<Rightarrow> 'p agg_state \<Rightarrow> 'p agg_state" where
  "set_expected rid ex s = s\<lparr>ag_expected := (ag_expected s)(rid := ex)\<rparr>"

definition pending_of :: "'p agg_state \<Rightarrow> string \<Rightarrow> (string \<times> 'p) list" where
  "pending_of s rid = (case ag_pending s rid of None \<Rightarrow> [] | Some xs \<Rightarrow> xs)"

definition agg_receive ::
    "'p fan_in \<Rightarrow> string \<Rightarrow> string \<Rightarrow> 'p \<Rightarrow> 'p agg_state \<Rightarrow> 'p option result \<times> 'p agg_state" where
  "agg_receive cfg rid src p s =
     (if src \<notin> fi_sources cfg then (Inr None, s)
      else let inputs = AList.update src p (pending_of s rid);
               s1 = set_pending rid (Some inputs) s in
        case expected_sources cfg (ag_expected s rid) rid src p of
          Inl e \<Rightarrow> (Inl e, s1)
        | Inr (None, _) \<Rightarrow> (Inr None, s1)
        | Inr (Some ex, remember) \<Rightarrow>
            let s2 = (if remember then set_expected rid (Some ex) s1 else s1);
                arrived = set (map fst inputs) in
            if \<not> arrived \<subseteq> ex
            then (Inl (ValueError ''received sources outside expected fan-in''), s2)
            else if arrived = ex
            then (bindE (fi_merge cfg inputs) (\<lambda>p. Inr (Some p)), set_expected rid None (set_pending rid None s2))
            else (Inr None, s2))"

definition agg_cancel :: "string \<Rightarrow> 'p agg_state \<Rightarrow> 'p agg_state" where
  "agg_cancel rid s = set_expected rid None (set_pending rid None s)"

definition agg_entry :: "'p agg_state \<Rightarrow> string \<Rightarrow> (string \<times> 'p) list option \<times> string set option" where
  "agg_entry s rid = (ag_pending s rid, ag_expected s rid)"

lemma agg_entry_set [simp]:
  "agg_entry (set_pending rid xs s) r = (if r = rid then (xs, ag_expected s r) else agg_entry s r)"
  "agg_entry (set_expected rid ex s) r = (if r = rid then (ag_pending s r, ex) else agg_entry s r)"
  "ag_pending (set_expected rid ex s) = ag_pending s"
  "ag_expected (set_pending rid xs s) = ag_expected s"
  "ag_pending (set_pending rid xs s) = (ag_pending s)(rid := xs)"
  "ag_expected (set_expected rid ex s) = (ag_expected s)(rid := ex)"
  by (simp_all add: agg_entry_def set_pending_def set_expected_def)

interpretation aggregated: input_handler "agg_receive cfg" agg_cancel agg_entry "(None, None)"
  for cfg :: "'p fan_in"
proof
  fix r rid src :: string and p :: 'p and s :: "'p agg_state"
  assume "r \<noteq> rid"
  then show "agg_entry (snd (agg_receive cfg rid src p s)) r = agg_entry s r"
    and "agg_entry (agg_cancel rid s) r = agg_entry s r"
    by (auto simp: agg_receive_def agg_cancel_def Let_def split: sum.split option.split)
next
  fix rid src :: string and p :: 'p and s s' :: "'p agg_state"
  assume "agg_entry s rid = agg_entry s' rid"
  then show "fst (agg_receive cfg rid src p s) = fst (agg_receive cfg rid src p s') \<and>
      agg_entry (snd (agg_receive cfg rid src p s)) rid
        = agg_entry (snd (agg_receive cfg rid src p s')) rid"
    by (auto simp: agg_receive_def agg_entry_def pending_of_def Let_def
        split: sum.split option.split)
next
  fix rid src :: string and p q :: 'p and s :: "'p agg_state"
  assume "fst (agg_receive cfg rid src p s) = Inr (Some q)"
  then show "agg_entry (snd (agg_receive cfg rid src p s)) rid = (None, None)"
    by (auto simp del: set_map simp: agg_receive_def Let_def
        split: sum.splits option.splits if_splits)
next
  fix rid :: string and s :: "'p agg_state"
  show "agg_entry (agg_cancel rid s) rid = (None, None)"
    by (simp add: agg_cancel_def)
qed

section \<open>What the fan-in computes\<close>

definition agg_run ::
    "'p fan_in \<Rightarrow> string \<Rightarrow> (string \<times> 'p) list \<Rightarrow> 'p agg_state \<Rightarrow> 'p option result list" where
  "agg_run cfg rid xs s = aggregated.answers cfg rid (map (\<lambda>(src, p). Receive rid src p) xs) s"

fun agg_after :: "'p fan_in \<Rightarrow> string \<Rightarrow> (string \<times> 'p) list \<Rightarrow> 'p agg_state \<Rightarrow> 'p agg_state" where
  "agg_after cfg rid [] s = s"
| "agg_after cfg rid ((src, p) # xs) s = agg_after cfg rid xs (snd (agg_receive cfg rid src p s))"

lemma agg_run_simps [simp]:
  "agg_run cfg rid [] s = []"
  "agg_run cfg rid ((src, p) # xs) s =
     fst (agg_receive cfg rid src p s) # agg_run cfg rid xs (snd (agg_receive cfg rid src p s))"
  by (simp_all add: agg_run_def case_prod_beta)

lemma map_of_update: "map_of (AList.update k v xs) = (map_of xs)(k \<mapsto> v)"
  by (simp add: update_conv')

lemma keys_update: "fst ` set (AList.update k v xs) = insert k (fst ` set xs)"
  using dom_update [of k v xs] by (simp add: dom_map_of_conv_image_fst)

text \<open>A receive in the static configuration, before and at the last source.\<close>

lemma static_waits:
  assumes "fi_expected_fn cfg = None" and "ag_expected s rid = None"
    and "insert src (fst ` set (pending_of s rid)) \<subset> fi_sources cfg"
  shows "agg_receive cfg rid src p s =
    (Inr None, set_pending rid (Some (AList.update src p (pending_of s rid))) s)"
  using assms by (auto simp: agg_receive_def expected_sources_def keys_update Let_def)

lemma static_fires:
  assumes "fi_expected_fn cfg = None" and "ag_expected s rid = None"
    and "insert src (fst ` set (pending_of s rid)) = fi_sources cfg"
  shows "fst (agg_receive cfg rid src p s) =
      bindE (fi_merge cfg (AList.update src p (pending_of s rid))) (\<lambda>p. Inr (Some p)) \<and>
    agg_entry (snd (agg_receive cfg rid src p s)) rid = (None, None)"
  using assms by (auto simp: agg_receive_def expected_sources_def keys_update Let_def)

lemma pending_of_set_pending [simp]:
  "pending_of (set_pending rid (Some xs) s) rid = xs"
  by (simp add: pending_of_def)

lemma static_run:
  assumes "fi_expected_fn cfg = None" and "ag_expected s rid = None"
    and "fst ` set (pending_of s rid) \<union> fst ` set xs \<subset> fi_sources cfg"
    and "insert src (fst ` set (pending_of s rid) \<union> fst ` set xs) = fi_sources cfg"
    and "distinct (map fst (pending_of s rid))"
  shows "\<exists>inputs. distinct (map fst inputs) \<and>
      map_of inputs = (map_of (pending_of s rid) ++ map_of (rev xs))(src \<mapsto> p) \<and>
      agg_run cfg rid (xs @ [(src, p)]) s =
        replicate (length xs) (Inr None) @ [bindE (fi_merge cfg inputs) (\<lambda>q. Inr (Some q))] \<and>
      agg_entry (agg_after cfg rid (xs @ [(src, p)]) s) rid = (None, None)"
  using assms
proof (induction xs arbitrary: s)
  case Nil
  then show ?case
    using static_fires [of cfg s rid src p]
    by (intro exI [of _ "AList.update src p (pending_of s rid)"])
      (simp add: map_of_update distinct_update)
next
  case (Cons x xs)
  obtain src1 p1 where x: "x = (src1, p1)" by (cases x)
  let ?s = "set_pending rid (Some (AList.update src1 p1 (pending_of s rid))) s"
  have recv: "agg_receive cfg rid src1 p1 s = (Inr None, ?s)"
    using Cons.prems x by (intro static_waits) auto
  have "\<exists>inputs. distinct (map fst inputs) \<and>
      map_of inputs = (map_of (pending_of ?s rid) ++ map_of (rev xs))(src \<mapsto> p) \<and>
      agg_run cfg rid (xs @ [(src, p)]) ?s =
        replicate (length xs) (Inr None) @ [bindE (fi_merge cfg inputs) (\<lambda>q. Inr (Some q))] \<and>
      agg_entry (agg_after cfg rid (xs @ [(src, p)]) ?s) rid = (None, None)"
    using Cons.prems x
    by (intro Cons.IH) (auto simp: keys_update distinct_update)
  then obtain inputs where i: "distinct (map fst inputs)"
      "map_of inputs = (map_of (pending_of ?s rid) ++ map_of (rev xs))(src \<mapsto> p)"
      "agg_run cfg rid (xs @ [(src, p)]) ?s =
        replicate (length xs) (Inr None) @ [bindE (fi_merge cfg inputs) (\<lambda>q. Inr (Some q))]"
      "agg_entry (agg_after cfg rid (xs @ [(src, p)]) ?s) rid = (None, None)" by blast
  have "map_of inputs = (map_of (pending_of s rid) ++ map_of (rev (x # xs)))(src \<mapsto> p)"
    by (simp add: i(2) x map_of_update map_add_upd_left map_add_assoc [symmetric])
  with i x recv show ?case by (intro exI [of _ inputs]) simp
qed

lemma pending_of_init [simp]: "pending_of agg_init rid = []"
  by (simp add: pending_of_def agg_init_def)

text \<open>
  a fan-in over a fixed set of sources hands on nothing until every source has arrived,
  then merges exactly once the latest payload of every source, and forgets the request;
  whatever other requests do in between makes no difference.
\<close>

theorem fan_in_fires_once:
  assumes "fi_expected_fn cfg = None" and "agg_entry s rid = (None, None)"
    and "fst ` set xs \<subset> fi_sources cfg"
    and "insert src (fst ` set xs) = fi_sources cfg"
    and "filter (\<lambda>x. op_request x = rid) ops = map (\<lambda>(a, q). Receive rid a q) (xs @ [(src, p)])"
  shows "\<exists>inputs. distinct (map fst inputs) \<and> map_of inputs = (map_of (rev xs))(src \<mapsto> p) \<and>
      aggregated.answers cfg rid ops s =
        replicate (length xs) (Inr None) @ [bindE (fi_merge cfg inputs) (\<lambda>q. Inr (Some q))]"
proof -
  have "pending_of s rid = []" "ag_expected s rid = None"
    using assms(2) by (auto simp: agg_entry_def pending_of_def)
  moreover have "aggregated.answers cfg rid ops s = agg_run cfg rid (xs @ [(src, p)]) s"
    using aggregated.answers_isolated [of s rid s cfg ops] assms(5) by (simp add: agg_run_def)
  ultimately show ?thesis
    using static_run [of cfg s rid xs src p] assms by auto
qed

text \<open>
  A concrete run: three sources, a repeated payload, an unrelated request and a cancelled one
  in between.
\<close>

definition demo_fan_in :: "nat fan_in" where
  "demo_fan_in = \<lparr>fi_sources = {''pre'', ''enc'', ''img''},
     fi_merge = (\<lambda>xs. Inr (sum_list (map snd xs))), fi_expected_fn = None\<rparr>"

definition demo_ops :: "nat input_op list" where
  "demo_ops = [Receive ''a'' ''enc'' 1, Receive ''b'' ''img'' 9, Receive ''a'' ''enc'' 5,
     Cancel ''b'', Receive ''a'' ''img'' 20, Receive ''a'' ''pre'' 100]"

theorem fan_in_fires_once_witness:
  "\<exists>inputs. distinct (map fst inputs) \<and>
      map_of inputs = (map_of (rev [(''enc'', 1), (''enc'', 5), (''img'', 20)]))(''pre'' \<mapsto> (100::nat)) \<and>
      aggregated.answers demo_fan_in ''a'' demo_ops agg_init =
        replicate (length [(''enc'', 1), (''enc'', 5), (''img'', 20::nat)]) (Inr None) @
        [bindE (fi_merge demo_fan_in inputs) (\<lambda>q. Inr (Some q))]"
proof (rule fan_in_fires_once)
  have arrived: "fst ` set [(''enc'', 1), (''enc'', 5), (''img'', 20::nat)] = {''enc'', ''img''}"
    by simp
  have "A \<subset> insert x A" if "x \<notin> A" for x :: string and A using that by blast
  from this [of "''pre''" "{''enc'', ''img''}"]
  show "fst ` set [(''enc'', 1), (''enc'', 5), (''img'', 20::nat)] \<subset> fi_sources demo_fan_in"
    by (simp add: demo_fan_in_def arrived)
  show "insert ''pre'' (fst ` set [(''enc'', 1), (''enc'', 5), (''img'', 20::nat)])
      = fi_sources demo_fan_in"
    by (simp add: demo_fan_in_def arrived)
qed (simp_all add: demo_fan_in_def demo_ops_def agg_init_def agg_entry_def)

end
