(* ===== verification/Stream_Queue.thy ===== *)
theory Stream_Queue
  imports Prelude
begin

text \<open>
  The per-request stream queues of a stage: \<open>sglang_omni/pipeline/stage/stream_queue.py\<close>. A reader
  that blocks keeps the queue object it found, while \<open>close\<close> removes the object from the table, so
  queue objects have an identity here: \<open>sq_queues\<close> maps a request to a handle and \<open>sq_objs\<close> a
  handle to the entries waiting in it.
\<close>

section \<open>State and operations\<close>

record 'd stream_item =
  si_chunk_id :: int
  si_data :: 'd
  si_from_stage :: string
  si_metadata :: "pydict option"

record stream_signal =
  ss_from_stage :: "string option"
  ss_is_done :: bool
  ss_error :: "py_error option"

datatype 'd entry = Item "'d stream_item" | Signal stream_signal

record 'd stream_queue =
  sq_queues :: "string \<rightharpoonup> nat"
  sq_objs :: "nat \<Rightarrow> 'd entry list"
  sq_next :: nat
  sq_closed :: "string set"

definition sq_init :: "'d stream_queue" where
  "sq_init = \<lparr>sq_queues = Map.empty, sq_objs = (\<lambda>h. []), sq_next = 0, sq_closed = {}\<rparr>"

definition done_signal :: "string option \<Rightarrow> 'd entry" where
  "done_signal src = Signal \<lparr>ss_from_stage = src, ss_is_done = True, ss_error = None\<rparr>"

definition error_signal :: "py_error \<Rightarrow> string option \<Rightarrow> 'd entry" where
  "error_signal e src = Signal \<lparr>ss_from_stage = src, ss_is_done = False, ss_error = Some e\<rparr>"

definition sq_open :: "string \<Rightarrow> 'd stream_queue \<Rightarrow> 'd stream_queue" where
  "sq_open rid q =
     (let q1 = q\<lparr>sq_closed := sq_closed q - {rid}\<rparr> in
      if sq_queues q1 rid = None
      then q1\<lparr>sq_queues := (sq_queues q1)(rid \<mapsto> sq_next q1),
              sq_objs := (sq_objs q1)(sq_next q1 := []),
              sq_next := Suc (sq_next q1)\<rparr>
      else q1)"

definition sq_has :: "string \<Rightarrow> 'd stream_queue \<Rightarrow> bool" where
  "sq_has rid q \<longleftrightarrow> sq_queues q rid \<noteq> None"

definition put_nowait :: "nat \<Rightarrow> 'd entry \<Rightarrow> 'd stream_queue \<Rightarrow> 'd stream_queue" where
  "put_nowait h e q = q\<lparr>sq_objs := (sq_objs q)(h := sq_objs q h @ [e])\<rparr>"

definition sq_put ::
    "string \<Rightarrow> 'd stream_item \<Rightarrow> 'd stream_queue \<Rightarrow> unit result \<times> 'd stream_queue" where
  "sq_put rid x q = (case sq_queues q rid of
     None \<Rightarrow> (if rid \<in> sq_closed q then Inr () else Inl (KeyError (''No queue for '' @ rid)), q)
   | Some h \<Rightarrow> (Inr (), put_nowait h (Item x) q))"

definition sq_put_done :: "string \<Rightarrow> string option \<Rightarrow> 'd stream_queue \<Rightarrow> 'd stream_queue" where
  "sq_put_done rid src q = (case sq_queues q rid of
     None \<Rightarrow> q
   | Some h \<Rightarrow> put_nowait h (done_signal src) q)"

definition sq_put_error ::
    "string \<Rightarrow> py_error \<Rightarrow> string option \<Rightarrow> 'd stream_queue \<Rightarrow> 'd stream_queue" where
  "sq_put_error rid e src q = (case sq_queues q rid of
     None \<Rightarrow> q
   | Some h \<Rightarrow> put_nowait h (error_signal e src) q)"

text \<open>
  \<open>close\<close>: the iteration order of the set of closed requests, which decides what the cap
  discards, is the argument \<open>ord\<close>.
\<close>

definition sq_close ::
    "(string set \<Rightarrow> string list) \<Rightarrow> string \<Rightarrow> 'd stream_queue \<Rightarrow> 'd stream_queue" where
  "sq_close ord rid q =
     (let q1 = q\<lparr>sq_queues := (sq_queues q)(rid := None),
                 sq_closed := cap_set ord 10000 5000 (insert rid (sq_closed q))\<rparr> in
      case sq_queues q rid of
        None \<Rightarrow> q1
      | Some h \<Rightarrow> put_nowait h (done_signal None) q1)"

text \<open>
  A read has two parts: finding the queue object, and taking its first entry, for which it
  waits when there is none (\<open>Waits\<close>).
\<close>

datatype 'r read = Waits | Returns 'r

fun reader_opens :: "string \<Rightarrow> 'd stream_queue \<Rightarrow> nat option result" where
  "reader_opens rid q = (case sq_queues q rid of
     None \<Rightarrow> if rid \<in> sq_closed q then Inr None else Inl (RuntimeError (''No queue for '' @ rid))
   | Some h \<Rightarrow> Inr (Some h))"

definition take_entry :: "nat \<Rightarrow> 'd stream_queue \<Rightarrow> 'd entry read \<times> 'd stream_queue" where
  "take_entry h q = (case sq_objs q h of
     [] \<Rightarrow> (Waits, q)
   | e # es \<Rightarrow> (Returns e, q\<lparr>sq_objs := (sq_objs q)(h := es)\<rparr>))"

fun entry_value :: "'d entry \<Rightarrow> 'd stream_item option result" where
  "entry_value (Item x) = Inr (Some x)"
| "entry_value (Signal s) = (case ss_error s of Some e \<Rightarrow> Inl e | None \<Rightarrow> Inr None)"

definition sq_get ::
    "string \<Rightarrow> 'd stream_queue \<Rightarrow> 'd stream_item option result read \<times> 'd stream_queue" where
  "sq_get rid q = (case reader_opens rid q of
     Inl e \<Rightarrow> (Returns (Inl e), q)
   | Inr None \<Rightarrow> (Returns (Inr None), q)
   | Inr (Some h) \<Rightarrow> (case take_entry h q of
       (Waits, q') \<Rightarrow> (Waits, q')
     | (Returns e, q') \<Rightarrow> (Returns (entry_value e), q')))"

definition sq_get_with_source ::
    "string \<Rightarrow> 'd stream_queue \<Rightarrow> 'd entry result read \<times> 'd stream_queue" where
  "sq_get_with_source rid q = (case reader_opens rid q of
     Inl e \<Rightarrow> (Returns (Inl e), q)
   | Inr None \<Rightarrow> (Returns (Inr (done_signal None)), q)
   | Inr (Some h) \<Rightarrow> (case take_entry h q of
       (Waits, q') \<Rightarrow> (Waits, q')
     | (Returns e, q') \<Rightarrow> (Returns (Inr e), q')))"

section \<open>Runs\<close>

text \<open>
  An interleaving of calls by writers, by the stage and by readers. \<open>QTake h\<close> is a reader that
  holds the queue object \<open>h\<close>, with or without having waited for it.
\<close>

datatype 'd sq_op =
    QOpen string
  | QPut string "'d stream_item"
  | QDone string "string option"
  | QError string py_error "string option"
  | QClose string
  | QTake nat

fun sq_step :: "(string set \<Rightarrow> string list) \<Rightarrow> 'd sq_op \<Rightarrow> 'd stream_queue \<Rightarrow> 'd stream_queue" where
  "sq_step ord (QOpen rid) q = sq_open rid q"
| "sq_step ord (QPut rid x) q = snd (sq_put rid x q)"
| "sq_step ord (QDone rid src) q = sq_put_done rid src q"
| "sq_step ord (QError rid e src) q = sq_put_error rid e src q"
| "sq_step ord (QClose rid) q = sq_close ord rid q"
| "sq_step ord (QTake h) q = snd (take_entry h q)"

definition sq_run ::
    "(string set \<Rightarrow> string list) \<Rightarrow> 'd sq_op list \<Rightarrow> 'd stream_queue \<Rightarrow> 'd stream_queue" where
  "sq_run ord ops q = foldl (\<lambda>q x. sq_step ord x q) q ops"

text \<open>What a step writes to, and takes from, the queue object \<open>h\<close>.\<close>

fun written :: "nat \<Rightarrow> 'd sq_op \<Rightarrow> 'd stream_queue \<Rightarrow> 'd entry list" where
  "written h (QPut rid x) q = (if sq_queues q rid = Some h then [Item x] else [])"
| "written h (QDone rid src) q = (if sq_queues q rid = Some h then [done_signal src] else [])"
| "written h (QError rid e src) q = (if sq_queues q rid = Some h then [error_signal e src] else [])"
| "written h (QClose rid) q = (if sq_queues q rid = Some h then [done_signal None] else [])"
| "written h x q = []"

fun taken :: "nat \<Rightarrow> 'd sq_op \<Rightarrow> 'd stream_queue \<Rightarrow> 'd entry list" where
  "taken h (QTake h') q = (if h' = h then take 1 (sq_objs q h) else [])"
| "taken h x q = []"

fun history ::
    "('d sq_op \<Rightarrow> 'd stream_queue \<Rightarrow> 'd entry list) \<Rightarrow> (string set \<Rightarrow> string list) \<Rightarrow>
     'd sq_op list \<Rightarrow> 'd stream_queue \<Rightarrow> 'd entry list" where
  "history f ord [] q = []"
| "history f ord (x # xs) q = f x q @ history f ord xs (sq_step ord x q)"

text \<open>The table names distinct objects that have been allocated.\<close>

definition sq_inv :: "'d stream_queue \<Rightarrow> bool" where
  "sq_inv q \<longleftrightarrow> (\<forall>rid h. sq_queues q rid = Some h \<longrightarrow> h < sq_next q) \<and>
     (\<forall>r r' h. sq_queues q r = Some h \<longrightarrow> sq_queues q r' = Some h \<longrightarrow> r = r') \<and>
     (\<forall>h. sq_next q \<le> h \<longrightarrow> sq_objs q h = [])"

lemma sq_invD:
  "sq_inv q \<Longrightarrow> sq_queues q rid = Some h \<Longrightarrow> h < sq_next q"
  "sq_inv q \<Longrightarrow> sq_queues q r = Some h \<Longrightarrow> sq_queues q r' = Some h \<Longrightarrow> r = r'"
  "sq_inv q \<Longrightarrow> sq_next q \<le> h \<Longrightarrow> sq_objs q h = []"
  by (auto simp: sq_inv_def)

lemmas sq_defs = sq_open_def sq_put_def sq_put_done_def sq_put_error_def sq_close_def
  put_nowait_def take_entry_def

lemma sq_inv_init: "sq_inv sq_init"
  by (simp add: sq_inv_def sq_init_def)

lemma sq_inv_step: "sq_inv q \<Longrightarrow> sq_inv (sq_step ord x q)"
  by (cases x) (auto simp: sq_inv_def sq_defs Let_def split: option.splits list.splits if_splits
      intro: less_SucI dest: leD)

lemma sq_step_next: "sq_next q \<le> sq_next (sq_step ord x q)"
  by (cases x) (auto simp: sq_defs Let_def split: option.split list.split)

lemma step_content:
  assumes "sq_inv q"
  shows "taken h x q @ sq_objs (sq_step ord x q) h = sq_objs q h @ written h x q"
  using assms by (cases x)
    (auto simp: sq_defs Let_def split: option.splits list.splits dest: sq_invD)

lemma run_content:
  "sq_inv q \<Longrightarrow>
   history (taken h) ord ops q @ sq_objs (sq_run ord ops q) h
     = sq_objs q h @ history (written h) ord ops q"
proof (induction ops arbitrary: q)
  case (Cons x xs)
  from Cons.IH [OF sq_inv_step [OF Cons.prems], of ord x] step_content [OF Cons.prems, of h x ord]
  show ?case by (simp add: sq_run_def)
qed (simp add: sq_run_def)

lemma sq_inv_run: "sq_inv q \<Longrightarrow> sq_inv (sq_run ord ops q)"
  by (induction ops arbitrary: q) (simp_all add: sq_run_def sq_inv_step)

lemma closed_object_stays_closed:
  "sq_inv q \<Longrightarrow> h < sq_next q \<Longrightarrow> \<forall>r. sq_queues q r \<noteq> Some h \<Longrightarrow>
   \<forall>r. sq_queues (sq_step ord x q) r \<noteq> Some h"
  by (cases x) (auto simp: sq_defs Let_def split: option.splits list.splits)

lemma closed_object_gets_nothing:
  "sq_inv q \<Longrightarrow> h < sq_next q \<Longrightarrow> \<forall>r. sq_queues q r \<noteq> Some h \<Longrightarrow>
   history (written h) ord ops q = []"
proof (induction ops arbitrary: q)
  case (Cons x xs)
  have "written h x q = []"
    using Cons.prems(3) by (cases x) auto
  then show ?case
    using Cons.IH [of "sq_step ord x q"] Cons.prems sq_inv_step [of q ord x]
      sq_step_next [of q ord x] closed_object_stays_closed [of q h ord x] by auto
qed simp

section \<open>Order, delivery and closing\<close>

text \<open>
  a stream queue never loses, duplicates or reorders an entry: for every queue object and
  every interleaving of writers, readers, opens and closes of any requests, what readers have
  taken followed by what still waits is what was written, in that order.
\<close>

theorem stream_queue_fifo:
  "history (taken h) ord ops sq_init @ sq_objs (sq_run ord ops sq_init) h
     = history (written h) ord ops sq_init"
  using run_content [OF sq_inv_init, of h ord ops] by (simp add: sq_init_def)

text \<open>
  closing a request's queue wakes its readers and seals it: after \<open>close\<close> a done signal
  stands behind everything that was waiting, nothing is written to that object any more
  (a queue reopened for the same request is another object), and a reader of the object waits
  only after the done signal has been taken.
\<close>

theorem close_wakes_readers:
  assumes "sq_queues (sq_run ord before sq_init) rid = Some h"
  defines "q \<equiv> sq_run ord before sq_init"
  shows "history (taken h) ord (QClose rid # after) q @ sq_objs (sq_run ord (QClose rid # after) q) h
       = sq_objs q h @ [done_signal None] \<and>
     (fst (take_entry h (sq_run ord (QClose rid # after) q)) = Waits \<longrightarrow>
       history (taken h) ord (QClose rid # after) q = sq_objs q h @ [done_signal None])"
proof -
  have inv: "sq_inv q" unfolding q_def by (rule sq_inv_run [OF sq_inv_init])
  have open_h: "sq_queues q rid = Some h" using assms by simp
  have "h < sq_next (sq_step ord (QClose rid) q)"
    using sq_invD(1) [OF inv open_h] sq_step_next [of q ord "QClose rid"] by simp
  moreover have "\<forall>r. sq_queues (sq_step ord (QClose rid) q) r \<noteq> Some h"
    using open_h by (auto simp: sq_defs Let_def dest: sq_invD(2) [OF inv open_h])
  ultimately have "history (written h) ord after (sq_step ord (QClose rid) q) = []"
    using closed_object_gets_nothing [OF sq_inv_step [OF inv]] by blast
  then have all: "history (taken h) ord (QClose rid # after) q @
      sq_objs (sq_run ord (QClose rid # after) q) h = sq_objs q h @ [done_signal None]"
    using run_content [OF inv, of h ord "QClose rid # after"] open_h by simp
  moreover have "fst (take_entry h q') = Waits \<longrightarrow> sq_objs q' h = []" for q' :: "'a stream_queue"
    by (simp add: take_entry_def split: list.split)
  ultimately show ?thesis by (metis append_Nil2)
qed

definition demo_item :: "int \<Rightarrow> string stream_item" where
  "demo_item n = \<lparr>si_chunk_id = n, si_data = ''x'', si_from_stage = ''talker'', si_metadata = None\<rparr>"

theorem close_wakes_readers_witness:
  "history (taken 0) (\<lambda>S. []) [QClose ''a'', QPut ''a'' (demo_item 2), QOpen ''a'', QTake 0]
      (sq_run (\<lambda>S. []) [QOpen ''a'', QPut ''a'' (demo_item 1)] sq_init) @
     sq_objs (sq_run (\<lambda>S. []) [QClose ''a'', QPut ''a'' (demo_item 2), QOpen ''a'', QTake 0]
      (sq_run (\<lambda>S. []) [QOpen ''a'', QPut ''a'' (demo_item 1)] sq_init)) 0
     = [Item (demo_item 1), done_signal None]"
  using close_wakes_readers [of "\<lambda>S. []" "[QOpen ''a'', QPut ''a'' (demo_item 1)]" "''a''" 0
      "[QPut ''a'' (demo_item 2), QOpen ''a'', QTake 0]"]
  by (simp add: sq_run_def sq_init_def sq_defs)

section \<open>The cap on closed requests\<close>

lemma put_after_close:
  "fst (sq_put rid x (sq_close ord rid q)) = Inr () \<longleftrightarrow>
     rid \<in> cap_set ord 10000 5000 (insert rid (sq_closed q))"
  by (simp add: sq_close_def sq_put_def put_nowait_def Let_def split: option.split)

lemma put_below_cap_is_dropped:
  assumes "card (insert rid (sq_closed q)) \<le> 10000"
  shows "fst (sq_put rid x (sq_close ord rid q)) = Inr ()"
  using assms by (simp add: put_after_close cap_set_id)

text \<open>
  Beyond the cap the request that has just been closed may be the one that is forgotten, since
  a set keeps no order of age: a chunk that arrives late for it raises.
\<close>

lemma cap_may_forget_newest:
  assumes "finite (sq_closed q)" and "card (insert rid (sq_closed q)) = 10001"
  shows "\<exists>ord. set_order ord \<and> fst (sq_put rid x (sq_close ord rid q)) \<noteq> Inr ()"
proof -
  define ord where "ord S = (if rid \<in> S then rid # (SOME l. set l = S - {rid} \<and> distinct l)
    else (SOME l. set l = S \<and> distinct l))" for S
  have "set (SOME l. set l = S \<and> distinct l) = S \<and> distinct (SOME l. set l = S \<and> distinct l)"
    if "finite S" for S :: "string set"
    using finite_distinct_list [OF that] by (rule someI_ex)
  then have "set_order ord" by (auto simp: set_order_def ord_def insert_absorb)
  moreover have "rid \<notin> cap_set ord 10000 5000 (insert rid (sq_closed q))"
    using assms(2) by (simp add: cap_set_def ord_def)
  ultimately show ?thesis using put_after_close by blast
qed

end
