(* ===== verification/Payload_Isolation.thy ===== *)
theory Payload_Isolation
  imports Prelude
begin

text \<open>
  Payload objects with identity and the test by which a stage decides that a projected payload
  may be handed to a stage of the same process as it is: the static methods
  \<open>_is_isolated_projected_payload\<close>, \<open>_shares_mutable_container\<close>,
  \<open>_collect_mutable_container_ids\<close>, \<open>_contains_mutable_container_id\<close> and
  \<open>_iter_container_children\<close> of \<open>sglang_omni/pipeline/stage/runtime.py\<close>. The two traversals
  thread one set of visited objects through a depth-first search; they are shown to decide
  whether a mutable container is reachable from both objects.
\<close>

section \<open>Objects\<close>

text \<open>
  Addresses play the part of \<open>id(obj)\<close>. Dictionary keys are hashable and are not traversed,
  so a dictionary is its values. \<open>OPayload r q d\<close> is a \<open>StagePayload\<close> of request \<open>r\<close> with the
  request object \<open>q\<close> and data \<open>d\<close>; \<open>ODataclass t xs\<close> an instance of another dataclass \<open>t\<close> with
  fields \<open>xs\<close>; \<open>OTensor d\<close> a \<open>torch.Tensor\<close> on a device of type \<open>d\<close>; \<open>OOther t\<close> any object of
  another type \<open>t\<close>.
\<close>

type_synonym addr = nat

datatype pyobj =
    ODict "addr list"
  | OList "addr list"
  | OTuple "addr list"
  | OSet "addr list"
  | OFrozenset "addr list"
  | OBytearray
  | OPayload string addr addr
  | ODataclass string "addr list"
  | OTensor string
  | ONone
  | OOther string

type_synonym heap = "(addr \<times> pyobj) list"

fun obj_type_name :: "pyobj \<Rightarrow> string" where
  "obj_type_name (ODict xs) = ''dict''"
| "obj_type_name (OList xs) = ''list''"
| "obj_type_name (OTuple xs) = ''tuple''"
| "obj_type_name (OSet xs) = ''set''"
| "obj_type_name (OFrozenset xs) = ''frozenset''"
| "obj_type_name OBytearray = ''bytearray''"
| "obj_type_name (OPayload r q d) = ''StagePayload''"
| "obj_type_name (ODataclass t xs) = t"
| "obj_type_name (OTensor d) = ''Tensor''"
| "obj_type_name ONone = ''NoneType''"
| "obj_type_name (OOther t) = t"

definition obj_at :: "heap \<Rightarrow> addr \<Rightarrow> pyobj" where
  "obj_at h a = (case map_of h a of Some obj \<Rightarrow> obj | None \<Rightarrow> OOther ''object'')"

fun mutable_container :: "pyobj \<Rightarrow> bool" where
  "mutable_container (ODict xs) = True"
| "mutable_container (OList xs) = True"
| "mutable_container (OSet xs) = True"
| "mutable_container OBytearray = True"
| "mutable_container _ = False"

fun iter_container_children :: "pyobj \<Rightarrow> addr list" where
  "iter_container_children (ODict xs) = xs"
| "iter_container_children (OList xs) = xs"
| "iter_container_children (OTuple xs) = xs"
| "iter_container_children (OSet xs) = xs"
| "iter_container_children (OFrozenset xs) = xs"
| "iter_container_children _ = []"

text \<open>
  The traversals of \<open>comm/stage_io.py\<close> also visit the fields of dataclasses (\<open>dc\<close>).
\<close>

fun traversed_children :: "bool \<Rightarrow> pyobj \<Rightarrow> addr list" where
  "traversed_children True (OPayload r q d) = [q, d]"
| "traversed_children True (ODataclass t xs) = xs"
| "traversed_children dc obj = iter_container_children obj"

abbreviation mutable_at :: "heap \<Rightarrow> addr \<Rightarrow> bool" where
  "mutable_at h a \<equiv> mutable_container (obj_at h a)"

abbreviation children_at :: "bool \<Rightarrow> heap \<Rightarrow> addr \<Rightarrow> addr list" where
  "children_at dc h a \<equiv> traversed_children dc (obj_at h a)"

lemma traversed_children_False [simp]: "traversed_children False obj = iter_container_children obj"
  by (cases obj) simp_all

lemma children_outside_heap: "a \<notin> fst ` set h \<Longrightarrow> children_at dc h a = []"
  by (cases dc) (simp_all add: obj_at_def map_of_eq_None_iff [THEN iffD2] split: option.split)

section \<open>The traversals\<close>

text \<open>
  The recursive functions of the sources come in two shapes: one collects what it finds
  (\<open>sel x\<close> at the object \<open>x\<close>), the other stops at the first hit. Both run over an object and,
  inside it, over its children with one shared \<open>seen\<close> set; here a function takes the list of
  objects still to visit at one level.
\<close>

function (sequential) collect_from ::
    "bool \<Rightarrow> heap \<Rightarrow> (addr \<Rightarrow> 'a set) \<Rightarrow> addr set \<Rightarrow> addr list \<Rightarrow> 'a set \<times> addr set" where
  "collect_from dc h sel seen [] = ({}, seen)"
| "collect_from dc h sel seen (x # xs) =
     (if x \<in> seen then collect_from dc h sel seen xs
      else case collect_from dc h sel (insert x seen) (children_at dc h x) of
        (below, seen1) \<Rightarrow>
          (case collect_from dc h sel seen1 xs of
            (later, seen2) \<Rightarrow> (sel x \<union> below \<union> later, seen2)))"
  by pat_completeness auto

function (sequential) search_from ::
    "bool \<Rightarrow> heap \<Rightarrow> (addr \<Rightarrow> bool) \<Rightarrow> addr set \<Rightarrow> addr list \<Rightarrow> bool \<times> addr set" where
  "search_from dc h hit seen [] = (False, seen)"
| "search_from dc h hit seen (x # xs) =
     (if x \<in> seen then search_from dc h hit seen xs
      else if hit x then (True, insert x seen)
      else case search_from dc h hit (insert x seen) (children_at dc h x) of
        (True, seen1) \<Rightarrow> (True, seen1)
      | (False, seen1) \<Rightarrow> search_from dc h hit seen1 xs)"
  by pat_completeness auto

lemma collect_seen_mono:
  "collect_from_dom (dc, h, sel, seen, xs) \<Longrightarrow> seen \<subseteq> snd (collect_from dc h sel seen xs)"
proof (induction rule: collect_from.pinduct)
  case (2 dc h sel seen x xs)
  obtain below s1 where r1: "collect_from dc h sel (insert x seen) (children_at dc h x) = (below, s1)"
    by fastforce
  obtain later s2 where r2: "collect_from dc h sel s1 xs = (later, s2)" by fastforce
  show ?case
    using 2(2,3) 2(4) [OF _ r1 [symmetric]]
    by (cases "x \<in> seen") (auto simp: collect_from.psimps(2) [OF 2(1)] r1 r2)
qed (simp add: collect_from.psimps)

lemma search_seen_mono:
  "search_from_dom (dc, h, hit, seen, xs) \<Longrightarrow> seen \<subseteq> snd (search_from dc h hit seen xs)"
proof (induction rule: search_from.pinduct)
  case (2 dc h hit seen x xs)
  obtain found s1
    where r1: "search_from dc h hit (insert x seen) (children_at dc h x) = (found, s1)"
    by fastforce
  show ?case
    using 2(2,3) 2(4) [OF _ _ r1 [symmetric]]
    by (cases "x \<in> seen"; cases found) (auto simp: search_from.psimps(2) [OF 2(1)] r1)
qed (simp add: search_from.psimps)

text \<open>Visiting an object either uses up one of the heap or is at a leaf.\<close>

definition unseen :: "heap \<Rightarrow> addr set \<Rightarrow> nat" where
  "unseen h seen = card (fst ` set h - seen)"

lemma unseen_mono: "seen \<subseteq> seen' \<Longrightarrow> unseen h seen' \<le> unseen h seen"
  unfolding unseen_def by (intro card_mono) auto

lemma unseen_insert:
  "x \<notin> seen \<Longrightarrow> x \<in> fst ` set h \<Longrightarrow> unseen h (insert x seen) < unseen h seen"
  unfolding unseen_def by (intro psubset_card_mono) auto

lemma unseen_step:
  assumes "x \<notin> seen"
  shows "unseen h (insert x seen) < unseen h seen \<or>
    unseen h (insert x seen) = unseen h seen \<and> length (children_at dc h x) < Suc n"
proof (cases "x \<in> fst ` set h")
  case False
  then have "fst ` set h - insert x seen = fst ` set h - seen" by auto
  with False show ?thesis by (simp add: unseen_def children_outside_heap)
qed (simp add: unseen_insert assms)

lemma collect_unseen:
  assumes "(b, s1) = collect_from dc h sel (insert x seen) xs"
    and "collect_from_dom (dc, h, sel, insert x seen, xs)"
  shows "unseen h s1 < unseen h seen \<or> unseen h s1 = unseen h seen"
  using collect_seen_mono [OF assms(2)] assms(1) [symmetric] unseen_mono [of seen s1 h]
  by (auto simp: le_less)

lemma search_unseen:
  assumes "(b, s1) = search_from dc h hit (insert x seen) xs"
    and "search_from_dom (dc, h, hit, insert x seen, xs)"
  shows "unseen h s1 < unseen h seen \<or> unseen h s1 = unseen h seen"
  using search_seen_mono [OF assms(2)] assms(1) [symmetric] unseen_mono [of seen s1 h]
  by (auto simp: le_less)

termination collect_from
  by (relation "measures [\<lambda>(dc, h, sel, seen, xs). unseen h seen, \<lambda>(dc, h, sel, seen, xs). length xs]")
    (use unseen_step in \<open>auto dest: collect_unseen\<close>)

termination search_from
  by (relation "measures [\<lambda>(dc, h, hit, seen, xs). unseen h seen, \<lambda>(dc, h, hit, seen, xs). length xs]")
    (use unseen_step in \<open>auto dest: search_unseen\<close>)

text \<open>Unfolded by hand: on an unknown heap the equations would rewrite for ever.\<close>

declare collect_from.simps(2) [simp del]
declare search_from.simps(2) [simp del]

section \<open>What they decide\<close>

inductive reaches :: "bool \<Rightarrow> heap \<Rightarrow> addr \<Rightarrow> addr \<Rightarrow> bool" for dc h where
  here: "reaches dc h a a"
| child: "b \<in> set (children_at dc h a) \<Longrightarrow> reaches dc h b c \<Longrightarrow> reaches dc h a c"

definition closed_under :: "bool \<Rightarrow> heap \<Rightarrow> addr set \<Rightarrow> addr set \<Rightarrow> bool" where
  "closed_under dc h new all \<longleftrightarrow> (\<forall>y\<in>new. set (children_at dc h y) \<subseteq> all)"

lemma closed_reaches: "reaches dc h a c \<Longrightarrow> a \<in> S \<Longrightarrow> closed_under dc h S S \<Longrightarrow> c \<in> S"
  by (induction rule: reaches.induct) (auto simp: closed_under_def)

definition collected ::
    "bool \<Rightarrow> heap \<Rightarrow> (addr \<Rightarrow> 'a set) \<Rightarrow> addr set \<Rightarrow> addr list \<Rightarrow> 'a set \<times> addr set \<Rightarrow> bool" where
  "collected dc h sel seen xs r \<longleftrightarrow> seen \<subseteq> snd r \<and> set xs \<subseteq> snd r \<and>
     closed_under dc h (snd r - seen) (snd r) \<and>
     (\<forall>y\<in>snd r - seen. \<exists>x\<in>set xs. reaches dc h x y) \<and>
     fst r = (\<Union>y\<in>snd r - seen. sel y)"

lemma collect_correct: "collected dc h sel seen xs (collect_from dc h sel seen xs)"
proof (induction dc h sel seen xs rule: collect_from.induct)
  case (2 dc h sel seen x xs)
  show ?case
  proof (cases "x \<in> seen")
    case True
    with 2(1) show ?thesis by (auto simp: collected_def collect_from.simps(2))
  next
    case False
    obtain below s1 where r1: "collect_from dc h sel (insert x seen) (children_at dc h x) = (below, s1)"
      by fastforce
    obtain later s2 where r2: "collect_from dc h sel s1 xs = (later, s2)" by fastforce
    have c1: "collected dc h sel (insert x seen) (children_at dc h x) (below, s1)"
      using 2(2) [OF False] r1 by simp
    have c2: "collected dc h sel s1 xs (later, s2)"
      using 2(3) [OF False r1 [symmetric]] r2 by simp
    have sub: "seen \<subseteq> s2" "x \<in> s1" "s1 \<subseteq> s2" "set xs \<subseteq> s2" "set (children_at dc h x) \<subseteq> s1"
      using c1 c2 by (auto simp: collected_def)
    have where_from: "y = x \<or> y \<in> s1 - insert x seen \<or> y \<in> s2 - s1" if "y \<in> s2 - seen" for y
      using that by blast
    have cl: "\<forall>y\<in>s1 - insert x seen. set (children_at dc h y) \<subseteq> s1"
        "\<forall>y\<in>s2 - s1. set (children_at dc h y) \<subseteq> s2"
      using c1 c2 by (simp_all add: collected_def closed_under_def)
    have re: "\<forall>y\<in>s1 - insert x seen. reaches dc h x y" "\<forall>y\<in>s2 - s1. \<exists>z\<in>set xs. reaches dc h z y"
      using c1 c2 by (auto simp: collected_def intro: child)
    have "closed_under dc h (s2 - seen) s2"
      unfolding closed_under_def using where_from cl sub by (metis subset_trans)
    moreover have "\<forall>y\<in>s2 - seen. \<exists>z\<in>set (x # xs). reaches dc h z y"
      using where_from re here by (metis list.set_intros)
    moreover have "sel x \<union> below \<union> later = (\<Union>y\<in>s2 - seen. sel y)"
      using c1 c2 False unfolding collected_def by auto
    ultimately show ?thesis
      using False sub by (auto simp: collect_from.simps(2) r1 r2 collected_def)
  qed
qed (simp add: collected_def closed_under_def)

definition searched ::
    "bool \<Rightarrow> heap \<Rightarrow> (addr \<Rightarrow> bool) \<Rightarrow> addr set \<Rightarrow> addr list \<Rightarrow> bool \<times> addr set \<Rightarrow> bool" where
  "searched dc h hit seen xs r \<longleftrightarrow> seen \<subseteq> snd r \<and>
     (if fst r then \<exists>x\<in>set xs. \<exists>y. reaches dc h x y \<and> hit y
      else set xs \<subseteq> snd r \<and> closed_under dc h (snd r - seen) (snd r) \<and>
        (\<forall>y\<in>snd r - seen. \<not> hit y))"

lemma search_correct: "searched dc h hit seen xs (search_from dc h hit seen xs)"
proof (induction dc h hit seen xs rule: search_from.induct)
  case (2 dc h hit seen x xs)
  consider "x \<in> seen" | "x \<notin> seen" "hit x"
    | "x \<notin> seen" "\<not> hit x" by blast
  then show ?case
  proof cases
    case 1
    with 2(1) show ?thesis
      by (auto simp: searched_def search_from.simps(2) split: if_splits)
  next
    case 2
    then show ?thesis by (auto simp: searched_def search_from.simps(2) intro: here)
  next
    case 3
    obtain f1 s1 where r1: "search_from dc h hit (insert x seen) (children_at dc h x) = (f1, s1)"
      by fastforce
    have c1: "searched dc h hit (insert x seen) (children_at dc h x) (f1, s1)"
      using 2(2) [OF 3] r1 by simp
    show ?thesis
    proof (cases f1)
      case True
      with c1 3 r1 show ?thesis
        by (auto simp: searched_def search_from.simps(2) intro: child)
    next
      case False
      obtain f2 s2 where r2: "search_from dc h hit s1 xs = (f2, s2)" by fastforce
      have c2: "searched dc h hit s1 xs (f2, s2)"
        using 2(3) [OF 3 r1 [symmetric]] r2 False by simp
      have sub: "insert x seen \<subseteq> s1" "set (children_at dc h x) \<subseteq> s1" "s1 \<subseteq> s2"
        using c1 c2 False by (auto simp: searched_def)
      have cl: "\<forall>y\<in>s1 - insert x seen. set (children_at dc h y) \<subseteq> s1"
          "\<forall>y\<in>s1 - insert x seen. \<not> hit y"
        using c1 False by (simp_all add: searched_def closed_under_def)
      show ?thesis
      proof (cases f2)
        case True
        with c2 sub show ?thesis
          using 3 False by (auto simp: search_from.simps(2) r1 r2 searched_def)
      next
        case no: False
        have cl2: "set xs \<subseteq> s2" "\<forall>y\<in>s2 - s1. set (children_at dc h y) \<subseteq> s2"
            "\<forall>y\<in>s2 - s1. \<not> hit y"
          using c2 no by (simp_all add: searched_def closed_under_def)
        have "y = x \<or> y \<in> s1 - insert x seen \<or> y \<in> s2 - s1" if "y \<in> s2 - seen" for y
          using that by blast
        then have "closed_under dc h (s2 - seen) s2" "\<forall>y\<in>s2 - seen. \<not> hit y"
          unfolding closed_under_def using cl cl2 sub 3(2) by (metis subset_trans)+
        with 3 False no sub cl2(1) show ?thesis
          by (auto simp: search_from.simps(2) r1 r2 searched_def)
      qed
    qed
  qed
qed (simp add: searched_def closed_under_def)

lemma collect_from_root: "fst (collect_from dc h sel {} [a]) = (\<Union>c\<in>{c. reaches dc h a c}. sel c)"
proof -
  have c: "collected dc h sel {} [a] (collect_from dc h sel {} [a])" by (rule collect_correct)
  then have cl: "a \<in> snd (collect_from dc h sel {} [a])"
      "closed_under dc h (snd (collect_from dc h sel {} [a])) (snd (collect_from dc h sel {} [a]))"
      "\<forall>y\<in>snd (collect_from dc h sel {} [a]). reaches dc h a y"
    by (simp_all add: collected_def)
  then have "snd (collect_from dc h sel {} [a]) = {c. reaches dc h a c}"
    using closed_reaches [OF _ cl(1,2)] by blast
  with c show ?thesis by (simp add: collected_def)
qed

lemma search_from_root: "fst (search_from dc h hit {} [a]) \<longleftrightarrow> (\<exists>c. reaches dc h a c \<and> hit c)"
proof -
  have c: "searched dc h hit {} [a] (search_from dc h hit {} [a])" by (rule search_correct)
  show ?thesis
  proof (cases "fst (search_from dc h hit {} [a])")
    case True
    with c show ?thesis by (auto simp: searched_def)
  next
    case False
    with c have cl: "a \<in> snd (search_from dc h hit {} [a])"
        "closed_under dc h (snd (search_from dc h hit {} [a])) (snd (search_from dc h hit {} [a]))"
        "\<forall>y\<in>snd (search_from dc h hit {} [a]). \<not> hit y"
      by (simp_all add: searched_def)
    with False show ?thesis using closed_reaches [OF _ cl(1,2)] by blast
  qed
qed

section \<open>Shared containers\<close>

definition collect_mutable_container_ids :: "heap \<Rightarrow> addr \<Rightarrow> addr set" where
  "collect_mutable_container_ids h a =
     fst (collect_from False h (\<lambda>x. if mutable_at h x then {x} else {}) {} [a])"

definition contains_mutable_container_id :: "heap \<Rightarrow> addr \<Rightarrow> addr set \<Rightarrow> bool" where
  "contains_mutable_container_id h a ids =
     fst (search_from False h (\<lambda>x. mutable_at h x \<and> x \<in> ids) {} [a])"

definition shares_mutable_container :: "heap \<Rightarrow> addr \<Rightarrow> addr \<Rightarrow> bool" where
  "shares_mutable_container h original projected =
     (let original_ids = collect_mutable_container_ids h original in
      if original_ids = {} then False
      else contains_mutable_container_id h projected original_ids)"

lemma shares_iff_reachable:
  "shares_mutable_container h d d' \<longleftrightarrow>
     (\<exists>c. reaches False h d c \<and> reaches False h d' c \<and> mutable_at h c)"
  by (auto simp: shares_mutable_container_def collect_mutable_container_ids_def
      contains_mutable_container_id_def collect_from_root search_from_root Let_def split: if_splits)

section \<open>The decision to hand over the object\<close>

text \<open>\<open>is\<close> on payloads compares addresses.\<close>

definition is_isolated_projected_payload :: "heap \<Rightarrow> addr \<Rightarrow> addr \<Rightarrow> bool \<Rightarrow> bool result" where
  "is_isolated_projected_payload h original projected projector_present =
     (if \<not> projector_present \<or> projected = original then Inr False
      else case obj_at h original of
        OPayload r q d \<Rightarrow> (case obj_at h projected of
            OPayload r' q' d' \<Rightarrow>
              (if d' = d then Inr False else Inr (\<not> shares_mutable_container h d d'))
          | other \<Rightarrow> Inl (TypeError (''projectors must return StagePayload, got '' @ obj_type_name other)))
      | other \<Rightarrow> Inl (TypeError (''original payload must be StagePayload, got '' @ obj_type_name other)))"

text \<open>
  a projected payload is declared isolated only when it is a different payload whose data
  shares no mutable container (dictionary, list, set or bytearray), at any depth and however
  the objects are linked, cycles included, with the data of the original, and it is declared
  isolated whenever that is so and the data objects differ.
\<close>

theorem isolated_iff_no_shared_container:
  "is_isolated_projected_payload h original projected present = Inr True \<longleftrightarrow>
     present \<and> projected \<noteq> original \<and>
     (\<exists>r q d r' q' d'. obj_at h original = OPayload r q d \<and> obj_at h projected = OPayload r' q' d' \<and>
       d' \<noteq> d \<and> \<not> (\<exists>c. reaches False h d c \<and> reaches False h d' c \<and> mutable_at h c))"
  by (auto simp: is_isolated_projected_payload_def shares_iff_reachable
      split: pyobj.splits if_splits)

text \<open>Cyclic data, and a tuple that hides a shared list.\<close>

definition demo_heap :: heap where
  "demo_heap = [(0, OPayload ''r'' 9 1), (1, ODict [2, 3]), (2, OList [1, 2]), (3, OTensor ''cuda''),
     (4, OPayload ''r'' 9 5), (5, ODict [3]), (6, OPayload ''r'' 9 7), (7, OTuple [3, 8]), (8, OTuple [2])]"

lemma demo_isolation:
  "is_isolated_projected_payload demo_heap 0 4 True = Inr True"
  "is_isolated_projected_payload demo_heap 0 6 True = Inr False"
  "is_isolated_projected_payload demo_heap 0 0 True = Inr False"
  by (simp_all add: demo_heap_def is_isolated_projected_payload_def obj_at_def Let_def
      shares_mutable_container_def collect_mutable_container_ids_def
      contains_mutable_container_id_def collect_from.simps(2) search_from.simps(2))

end
