(* ===== verification/Data_Ref.thy ===== *)
theory Data_Ref
  imports Messages
begin

text \<open>
  References to data-plane buffers: \<open>sglang_omni/comm/data_ref.py\<close>. A \<open>DataRef\<close> says where the
  bytes of a payload or stream chunk are; it travels inside a \<open>DataReadyMessage\<close> as a dictionary.
  The structs are records (a datatype for the recursive \<open>DataRef\<close>), \<open>to_dict\<close> and \<open>from_dict\<close> are
  functions into and out of dictionaries, every check of the decoder is a raise.
\<close>

section \<open>Enumerations\<close>

datatype transport = LocalObject | CudaIpc | Shm | Mooncake

datatype data_kind =
    StagePayloadData | StreamChunkData | StreamMetadataTensor | KvPages | WeightBucket | MoeExpertPayload

datatype data_layout = PackedTensors | RawTensor | Paged | Bucketed | Scatter

fun transport_value :: "transport \<Rightarrow> string" where
  "transport_value LocalObject = ''local_object''"
| "transport_value CudaIpc = ''cuda_ipc''"
| "transport_value Shm = ''shm''"
| "transport_value Mooncake = ''mooncake''"

fun kind_value :: "data_kind \<Rightarrow> string" where
  "kind_value StagePayloadData = ''stage_payload''"
| "kind_value StreamChunkData = ''stream_chunk''"
| "kind_value StreamMetadataTensor = ''stream_metadata_tensor''"
| "kind_value KvPages = ''kv_pages''"
| "kind_value WeightBucket = ''weight_bucket''"
| "kind_value MoeExpertPayload = ''moe_expert_payload''"

fun layout_value :: "data_layout \<Rightarrow> string" where
  "layout_value PackedTensors = ''packed_tensors''"
| "layout_value RawTensor = ''raw_tensor''"
| "layout_value Paged = ''paged''"
| "layout_value Bucketed = ''bucketed''"
| "layout_value Scatter = ''scatter''"

text \<open>\<open>TransportKind(s)\<close> and its siblings: the member with that value, or a \<open>ValueError\<close>.\<close>

definition member_of :: "'e list \<Rightarrow> ('e \<Rightarrow> string) \<Rightarrow> string \<Rightarrow> 'e result" where
  "member_of es val s = (case find (\<lambda>e. val e = s) es of
     None \<Rightarrow> Inl (ValueError (s @ '' is not a valid member'')) | Some e \<Rightarrow> Inr e)"

abbreviation transport_of :: "string \<Rightarrow> transport result" where
  "transport_of \<equiv> member_of [LocalObject, CudaIpc, Shm, Mooncake] transport_value"

abbreviation kind_of :: "string \<Rightarrow> data_kind result" where
  "kind_of \<equiv> member_of [StagePayloadData, StreamChunkData, StreamMetadataTensor, KvPages, WeightBucket,
     MoeExpertPayload] kind_value"

abbreviation layout_of :: "string \<Rightarrow> data_layout result" where
  "layout_of \<equiv> member_of [PackedTensors, RawTensor, Paged, Bucketed, Scatter] layout_value"

lemma enum_roundtrip [simp]:
  "transport_of (transport_value t) = Inr t"
  "kind_of (kind_value k) = Inr k"
  "layout_of (layout_value l) = Inr l"
  subgoal by (cases t) (simp_all add: member_of_def)
  subgoal by (cases k) (simp_all add: member_of_def)
  subgoal by (cases l) (simp_all add: member_of_def)
  done

section \<open>Typed lookups\<close>

text \<open>
  \<open>_required(value, key, T)\<close> for the four types the module asks for. The check is on the exact
  type: a \<open>bool\<close> is not accepted as an \<open>int\<close>.
\<close>

definition wrong_type :: "string \<Rightarrow> string \<Rightarrow> pyval \<Rightarrow> py_error" where
  "wrong_type k expected v = TypeError (k @ '' must be '' @ expected @ '', got '' @ type_name v)"

definition required_str :: "pydict \<Rightarrow> string \<Rightarrow> string result" where
  "required_str d k = bindE (dindex d k) (\<lambda>v. case v of PStr s \<Rightarrow> Inr s | _ \<Rightarrow> Inl (wrong_type k ''str'' v))"

definition required_int :: "pydict \<Rightarrow> string \<Rightarrow> int result" where
  "required_int d k = bindE (dindex d k) (\<lambda>v. case v of PInt i \<Rightarrow> Inr i | _ \<Rightarrow> Inl (wrong_type k ''int'' v))"

definition required_dict :: "pydict \<Rightarrow> string \<Rightarrow> pydict result" where
  "required_dict d k = bindE (dindex d k) (\<lambda>v. case v of PDict e \<Rightarrow> Inr e | _ \<Rightarrow> Inl (wrong_type k ''dict'' v))"

definition required_list :: "pydict \<Rightarrow> string \<Rightarrow> pyval list result" where
  "required_list d k = bindE (dindex d k) (\<lambda>v. case v of PList xs \<Rightarrow> Inr xs | _ \<Rightarrow> Inl (wrong_type k ''list'' v))"

definition optional_str :: "pydict \<Rightarrow> string \<Rightarrow> string option result" where
  "optional_str d k = (case dget d k of
     PNone \<Rightarrow> Inr None | PStr s \<Rightarrow> Inr (Some s) | v \<Rightarrow> Inl (wrong_type k ''str or None'' v))"

fun exact_int :: "pyval \<Rightarrow> int option" where
  "exact_int (PInt i) = Some i"
| "exact_int v = None"

definition int_tuple :: "pydict \<Rightarrow> string \<Rightarrow> int list result" where
  "int_tuple d k = bindE (required_list d k) (\<lambda>xs.
     case those (map exact_int xs) of
       None \<Rightarrow> Inl (TypeError (k @ '' must be list[int]'')) | Some is \<Rightarrow> Inr is)"

text \<open>\<open>f(value, key) if key in value else None\<close>.\<close>

definition if_present :: "(pydict \<Rightarrow> string \<Rightarrow> 'a result) \<Rightarrow> pydict \<Rightarrow> string \<Rightarrow> 'a option result" where
  "if_present f d k = (if dhas d k then bindE (f d k) (\<lambda>x. Inr (Some x)) else Inr None)"

text \<open>Indexing an element of a list by a string raises unless it is a dictionary.\<close>

fun as_dict :: "pyval \<Rightarrow> pydict result" where
  "as_dict (PDict d) = Inr d"
| "as_dict v = Inl (TypeError (type_name v @ '' object is not subscriptable by str''))"

named_theorems codec_iff \<open>when a typed lookup succeeds\<close>

lemma required_iff [codec_iff]:
  "required_str d k = Inr s \<longleftrightarrow> map_of d k = Some (PStr s)"
  "required_int d k = Inr i \<longleftrightarrow> map_of d k = Some (PInt i)"
  "required_dict d k = Inr e \<longleftrightarrow> map_of d k = Some (PDict e)"
  "required_list d k = Inr xs \<longleftrightarrow> map_of d k = Some (PList xs)"
  by (auto simp: required_str_def required_int_def required_dict_def required_list_def dindex_def
      split: option.splits pyval.splits)

lemma as_dict_iff [codec_iff]: "as_dict v = Inr d \<longleftrightarrow> v = PDict d"
  by (cases v) auto

lemma those_exact_ints [simp]: "those (map exact_int (map PInt is)) = Some is"
  by (induction "is") simp_all

lemma exact_int_iff: "exact_int v = Some i \<longleftrightarrow> v = PInt i"
  by (cases v) auto

lemma those_map_iff: "those (map exact_int xs) = Some is \<longleftrightarrow> xs = map PInt is"
proof (induction xs arbitrary: "is")
  case (Cons x xs)
  then show ?case
    by (cases x; cases "is") (auto split: option.splits)
qed auto

lemma int_tuple_iff [codec_iff]: "int_tuple d k = Inr is \<longleftrightarrow> map_of d k = Some (PList (map PInt is))"
proof -
  have "int_tuple d k = Inr is \<longleftrightarrow> (\<exists>xs. map_of d k = Some (PList xs) \<and> those (map exact_int xs) = Some is)"
    by (auto simp: int_tuple_def codec_iff split: option.splits)
  then show ?thesis by (simp add: those_map_iff)
qed

lemma if_present_iff [codec_iff]:
  "if_present f d k = Inr r \<longleftrightarrow> (case map_of d k of None \<Rightarrow> r = None | Some v \<Rightarrow> (\<exists>x. f d k = Inr x \<and> r = Some x))"
  by (auto simp: if_present_def dhas_def split: option.splits)

lemma optional_str_iff [codec_iff]:
  "optional_str d k = Inr r \<longleftrightarrow> (case r of
     None \<Rightarrow> map_of d k = None \<or> map_of d k = Some PNone | Some s \<Rightarrow> map_of d k = Some (PStr s))"
  by (auto simp: optional_str_def dget_def dget_default_def split: option.splits pyval.splits)

section \<open>The structs\<close>

record tensor_meta =
  tm_path :: string
  tm_shape :: "int list"
  tm_dtype :: string
  tm_device :: string
  tm_offset :: int
  tm_size :: int

definition tensor_meta_to_dict :: "tensor_meta \<Rightarrow> pydict" where
  "tensor_meta_to_dict t =
     [(''path'', PStr (tm_path t)), (''shape'', PList (map PInt (tm_shape t))),
      (''dtype'', PStr (tm_dtype t)), (''device'', PStr (tm_device t)),
      (''offset'', PInt (tm_offset t)), (''size'', PInt (tm_size t))]"

definition tensor_meta_from_dict :: "pyval \<Rightarrow> tensor_meta result" where
  "tensor_meta_from_dict v =
     bindE (as_dict v) (\<lambda>d.
     bindE (required_str d ''path'') (\<lambda>path.
     bindE (int_tuple d ''shape'') (\<lambda>shape.
     bindE (required_str d ''dtype'') (\<lambda>dtype.
     bindE (required_str d ''device'') (\<lambda>device.
     bindE (required_int d ''offset'') (\<lambda>offset.
     bindE (required_int d ''size'') (\<lambda>size.
     Inr \<lparr>tm_path = path, tm_shape = shape, tm_dtype = dtype, tm_device = device,
          tm_offset = offset, tm_size = size\<rparr>)))))))"

record backend_ref =
  br_transport :: transport
  br_info :: pydict
  br_length :: int

definition backend_from_relay_info :: "transport \<Rightarrow> pydict \<Rightarrow> backend_ref result" where
  "backend_from_relay_info t relay_info =
     bindE (required_dict relay_info ''transfer_info'') (\<lambda>info.
     bindE (required_int info ''size'') (\<lambda>size.
     Inr \<lparr>br_transport = t, br_info = relay_info, br_length = size\<rparr>))"

definition backend_to_dict :: "backend_ref \<Rightarrow> pydict" where
  "backend_to_dict b =
     [(''transport'', PStr (transport_value (br_transport b))), (''info'', PDict (br_info b)),
      (''length'', PInt (br_length b))]"

definition backend_from_dict :: "pydict \<Rightarrow> backend_ref result" where
  "backend_from_dict d =
     bindE (required_str d ''transport'') (\<lambda>t.
     bindE (transport_of t) (\<lambda>t.
     bindE (required_dict d ''info'') (\<lambda>info.
     bindE (required_int d ''length'') (\<lambda>length.
     Inr \<lparr>br_transport = t, br_info = info, br_length = length\<rparr>))))"

text \<open>\<open>DataRef\<close>; a \<open>MetadataTensorRef\<close> is a path with the reference of the tensor at it.\<close>

datatype data_ref = DataRef
  (ref_version: int) (ref_kind: data_kind) (ref_object_id: string) (ref_transport: transport)
  (ref_layout: data_layout) (ref_buffer: backend_ref) (ref_header: "string option")
  (ref_tensors: "tensor_meta list") (ref_shape: "int list option") (ref_dtype: "string option")
  (ref_offset: "int option") (ref_metadata: "pydict option")
  (ref_metadata_tensors: "(string \<times> data_ref) list")

text \<open>\<open>if x is not None: value[key] = encode(x)\<close>.\<close>

definition put_opt :: "string \<Rightarrow> ('a \<Rightarrow> pyval) \<Rightarrow> 'a option \<Rightarrow> pydict \<Rightarrow> pydict" where
  "put_opt k f x d = (case x of None \<Rightarrow> d | Some y \<Rightarrow> dset d k (f y))"

fun data_ref_to_dict :: "data_ref \<Rightarrow> pydict" where
  "data_ref_to_dict (DataRef version kind oid transport layout buffer header tensors shape dtype offset
      metadata metadata_tensors) =
     put_opt ''metadata'' PDict metadata (
     put_opt ''offset'' PInt offset (
     put_opt ''dtype'' PStr dtype (
     put_opt ''shape'' (\<lambda>s. PList (map PInt s)) shape (
     put_opt ''header'' PStr header
       [(''_type'', PStr ''DataRef''), (''version'', PInt version), (''kind'', PStr (kind_value kind)),
        (''object_id'', PStr oid), (''transport'', PStr (transport_value transport)),
        (''layout'', PStr (layout_value layout)), (''buffer'', PDict (backend_to_dict buffer)),
        (''tensors'', PList (map (\<lambda>t. PDict (tensor_meta_to_dict t)) tensors)),
        (''metadata_tensors'', PList (map (\<lambda>(path, r).
           PDict [(''path'', PStr path), (''ref'', PDict (data_ref_to_dict r))]) metadata_tensors))]))))"

lemma size_lookup: "map_of d k = Some v \<Longrightarrow> size v < size (PDict d)"
  by (induction d) (auto split: if_splits)

lemma size_element: "v \<in> set xs \<Longrightarrow> size v < size (PList xs)"
  by (induction xs) auto

function data_ref_from_dict :: "pydict \<Rightarrow> data_ref result" where
  "data_ref_from_dict d =
     bindE (required_str d ''_type'') (\<lambda>tag.
     bindE (guardE (tag = ''DataRef'') (ValueError ''data_ref must have _type DataRef'')) (\<lambda>_.
     bindE (required_int d ''version'') (\<lambda>version.
     bindE (guardE (version = 1) (ValueError ''unsupported DataRef version'')) (\<lambda>_.
     bindE (bindE (required_str d ''kind'') kind_of) (\<lambda>kind.
     bindE (required_str d ''object_id'') (\<lambda>oid.
     bindE (bindE (required_str d ''transport'') transport_of) (\<lambda>transport.
     bindE (bindE (required_str d ''layout'') layout_of) (\<lambda>layout.
     bindE (bindE (required_dict d ''buffer'') backend_from_dict) (\<lambda>buffer.
     bindE (optional_str d ''header'') (\<lambda>header.
     bindE (bindE (required_list d ''tensors'') (mapE tensor_meta_from_dict)) (\<lambda>tensors.
     bindE (if_present int_tuple d ''shape'') (\<lambda>shape.
     bindE (optional_str d ''dtype'') (\<lambda>dtype.
     bindE (if_present required_int d ''offset'') (\<lambda>offset.
     bindE (if_present required_dict d ''metadata'') (\<lambda>metadata.
     bindE (required_list d ''metadata_tensors'') (\<lambda>items.
     bindE (mapE (\<lambda>item. bindE (as_dict item) (\<lambda>e. bindE (required_str e ''path'') (\<lambda>path.
         bindE (required_dict e ''ref'') (\<lambda>f. bindE (data_ref_from_dict f) (\<lambda>r. Inr (path, r)))))) items)
       (\<lambda>metadata_tensors.
     Inr (DataRef version kind oid transport layout buffer header tensors shape dtype offset metadata
       metadata_tensors))))))))))))))))))"
  by pat_completeness auto
termination
proof (relation "measure (\<lambda>d. size (PDict d))")
  fix d e f :: pydict and items :: "pyval list" and item :: pyval
  assume "required_list d ''metadata_tensors'' = Inr items" and "item \<in> set items"
    and "as_dict item = Inr e" and "required_dict e ''ref'' = Inr f"
  then have "size (PList items) < size (PDict d)" "size item < size (PList items)"
    "item = PDict e" "size (PDict f) < size (PDict e)"
    using size_lookup size_element by (simp_all only: codec_iff)
  then show "(f, d) \<in> measure (\<lambda>d. size (PDict d))"
    by (simp del: pyval.size)
qed simp

declare data_ref_from_dict.simps [simp del]

section \<open>Round trips\<close>

text \<open>What the decoder insists on: the version is 1, everywhere in the reference.\<close>

fun ref_supported :: "data_ref \<Rightarrow> bool" where
  "ref_supported (DataRef version kind oid transport layout buffer header tensors shape dtype offset metadata ms)
     \<longleftrightarrow> version = 1 \<and> (\<forall>(path, r) \<in> set ms. ref_supported r)"

lemma map_of_put_opt [simp]:
  "map_of (put_opt k f x d) k' =
     (if k' = k then (case x of None \<Rightarrow> map_of d k | Some y \<Rightarrow> Some (f y)) else map_of d k')"
  by (simp add: put_opt_def map_of_dset split: option.split)

lemma tensor_meta_roundtrip: "tensor_meta_from_dict (PDict (tensor_meta_to_dict t)) = Inr t"
  by (cases t) (simp add: tensor_meta_from_dict_def tensor_meta_to_dict_def codec_iff)

lemma backend_roundtrip: "backend_from_dict (backend_to_dict b) = Inr b"
  by (cases b) (simp add: backend_from_dict_def backend_to_dict_def codec_iff enum_roundtrip)

lemma tensors_roundtrip:
  "mapE tensor_meta_from_dict (map (\<lambda>t. PDict (tensor_meta_to_dict t)) ts) = Inr ts"
  by (simp add: mapE_map tensor_meta_roundtrip) (induction ts; simp)

lemma data_ref_roundtrip_lemma: "ref_supported r \<Longrightarrow> data_ref_from_dict (data_ref_to_dict r) = Inr r"
proof (induction r rule: data_ref_to_dict.induct)
  case (1 version kind oid transport layout buffer header tensors shape dtype offset metadata ms)
  let ?enc = "\<lambda>(path, r). PDict [(''path'', PStr path), (''ref'', PDict (data_ref_to_dict r))]"
  let ?dec = "\<lambda>item. bindE (as_dict item) (\<lambda>e. bindE (required_str e ''path'') (\<lambda>path.
     bindE (required_dict e ''ref'') (\<lambda>f. bindE (data_ref_from_dict f) (\<lambda>r. Inr (path, r)))))"
  have nested: "mapE ?dec (map ?enc ms) = Inr ms"
  proof -
    have "?dec (?enc m) = Inr m" if "m \<in> set ms" for m
      using 1 that by (cases m) (force simp: codec_iff)
    then show ?thesis by (simp add: mapE_map mapE_all_Inr [where g = "\<lambda>m. m"])
  qed
  define d where "d = data_ref_to_dict (DataRef version kind oid transport layout buffer header tensors shape
    dtype offset metadata ms)"
  have version: "version = 1" using 1(2) by simp
  have fields: "required_str d ''_type'' = Inr ''DataRef''" "required_int d ''version'' = Inr 1"
    "required_str d ''kind'' = Inr (kind_value kind)" "required_str d ''object_id'' = Inr oid"
    "required_str d ''transport'' = Inr (transport_value transport)"
    "required_str d ''layout'' = Inr (layout_value layout)"
    "required_dict d ''buffer'' = Inr (backend_to_dict buffer)"
    "required_list d ''tensors'' = Inr (map (\<lambda>t. PDict (tensor_meta_to_dict t)) tensors)"
    "required_list d ''metadata_tensors'' = Inr (map ?enc ms)"
    by (simp_all add: d_def codec_iff version)
  have options: "optional_str d ''header'' = Inr header" "optional_str d ''dtype'' = Inr dtype"
    "if_present int_tuple d ''shape'' = Inr shape" "if_present required_int d ''offset'' = Inr offset"
    "if_present required_dict d ''metadata'' = Inr metadata"
    subgoal by (cases header) (simp_all add: d_def codec_iff)
    subgoal by (cases dtype) (simp_all add: d_def codec_iff)
    subgoal by (cases shape) (simp_all add: d_def codec_iff)
    subgoal by (cases offset) (simp_all add: d_def codec_iff)
    subgoal by (cases metadata) (simp_all add: d_def codec_iff)
    done
  have "data_ref_from_dict d =
      Inr (DataRef version kind oid transport layout buffer header tensors shape dtype offset metadata ms)"
    unfolding data_ref_from_dict.simps [of d] version
    by (simp only: fields options bindE_simps guardE_simps enum_roundtrip backend_roundtrip
        tensors_roundtrip nested simp_thms)
  then show ?case by (simp only: d_def)
qed

text \<open>Reading a successful decoding backwards.\<close>

lemma data_ref_from_dict_iff:
  "data_ref_from_dict d = Inr r \<longleftrightarrow> (\<exists>items kind transport layout buffer tensors.
     map_of d ''_type'' = Some (PStr ''DataRef'') \<and> map_of d ''version'' = Some (PInt 1) \<and>
     map_of d ''kind'' = Some (PStr kind) \<and> kind_of kind = Inr (ref_kind r) \<and>
     map_of d ''object_id'' = Some (PStr (ref_object_id r)) \<and>
     map_of d ''transport'' = Some (PStr transport) \<and> transport_of transport = Inr (ref_transport r) \<and>
     map_of d ''layout'' = Some (PStr layout) \<and> layout_of layout = Inr (ref_layout r) \<and>
     map_of d ''buffer'' = Some (PDict buffer) \<and> backend_from_dict buffer = Inr (ref_buffer r) \<and>
     optional_str d ''header'' = Inr (ref_header r) \<and>
     map_of d ''tensors'' = Some (PList tensors) \<and> mapE tensor_meta_from_dict tensors = Inr (ref_tensors r) \<and>
     if_present int_tuple d ''shape'' = Inr (ref_shape r) \<and>
     optional_str d ''dtype'' = Inr (ref_dtype r) \<and>
     if_present required_int d ''offset'' = Inr (ref_offset r) \<and>
     if_present required_dict d ''metadata'' = Inr (ref_metadata r) \<and>
     map_of d ''metadata_tensors'' = Some (PList items) \<and>
     mapE (\<lambda>item. bindE (as_dict item) (\<lambda>e. bindE (required_str e ''path'') (\<lambda>path.
       bindE (required_dict e ''ref'') (\<lambda>f. bindE (data_ref_from_dict f) (\<lambda>r. Inr (path, r)))))) items
       = Inr (ref_metadata_tensors r)) \<and> ref_version r = 1"
  unfolding data_ref_from_dict.simps [of d] bindE_eq_Inr guardE_eq_Inr required_iff
  by (cases r) (auto simp del: bindE_eq_Inr)

lemma data_ref_decoded_supported: "data_ref_from_dict d = Inr r \<Longrightarrow> ref_supported r"
proof (induction "size (PDict d)" arbitrary: d r rule: less_induct)
  case less
  from less(2) [unfolded data_ref_from_dict_iff] obtain items where
    items: "map_of d ''metadata_tensors'' = Some (PList items)"
    and dec: "mapE (\<lambda>item. bindE (as_dict item) (\<lambda>e. bindE (required_str e ''path'') (\<lambda>path.
       bindE (required_dict e ''ref'') (\<lambda>f. bindE (data_ref_from_dict f) (\<lambda>r. Inr (path, r)))))) items
       = Inr (ref_metadata_tensors r)" and version: "ref_version r = 1"
    by blast
  have "ref_supported r'" if mem: "(path, r') \<in> set (ref_metadata_tensors r)" for path r'
  proof -
    obtain item where item: "item \<in> set items" and "bindE (as_dict item) (\<lambda>e. bindE (required_str e ''path'')
        (\<lambda>path. bindE (required_dict e ''ref'') (\<lambda>f. bindE (data_ref_from_dict f) (\<lambda>r. Inr (path, r))))) = Inr (path, r')"
      using mapE_Inr_elem [OF dec mem] by blast
    then obtain e f where "item = PDict e" and e: "map_of e ''ref'' = Some (PDict f)" "data_ref_from_dict f = Inr r'"
      by (auto simp only: bindE_eq_Inr codec_iff sum.inject prod.inject)
    with item have e: "PDict e \<in> set items" "map_of e ''ref'' = Some (PDict f)" "data_ref_from_dict f = Inr r'"
      by simp_all
    have "size (PDict f) < size (PDict d)"
      using size_lookup [OF items] size_element [OF e(1)] size_lookup [OF e(2)] by linarith
    then show ?thesis using less(1) e(3) by blast
  qed
  with version show ?case by (cases r) auto
qed

text \<open>
  C16: A \<open>DataRef\<close> survives its dictionary. Decoding what \<open>to_dict\<close> writes gives back the reference,
  nested metadata tensors included, and the references the decoder can produce are exactly the
  ones whose version, at every level, is the supported one.
\<close>

theorem data_ref_roundtrip:
  "(\<exists>d. data_ref_from_dict d = Inr r) = ref_supported r \<and>
   (data_ref_from_dict (data_ref_to_dict r) = Inr r) = ref_supported r"
  using data_ref_roundtrip_lemma data_ref_decoded_supported by blast

text \<open>
  What the dictionary of a reference holds, field by field: \<open>describes r d\<close>. An optional string may be
  absent or \<open>None\<close>; the other optional fields are absent or have their type.
\<close>

definition describes_opt :: "('a \<Rightarrow> pyval) \<Rightarrow> pydict \<Rightarrow> string \<Rightarrow> 'a option \<Rightarrow> bool" where
  "describes_opt f d k x \<longleftrightarrow> map_of d k = map_option f x"

definition describes_str_opt :: "pydict \<Rightarrow> string \<Rightarrow> string option \<Rightarrow> bool" where
  "describes_str_opt d k x \<longleftrightarrow> (case x of
     None \<Rightarrow> map_of d k = None \<or> map_of d k = Some PNone | Some s \<Rightarrow> map_of d k = Some (PStr s))"

fun describes_tensor :: "pyval \<Rightarrow> tensor_meta \<Rightarrow> bool" where
  "describes_tensor (PDict d) t \<longleftrightarrow> map_of d ''path'' = Some (PStr (tm_path t)) \<and>
     map_of d ''shape'' = Some (PList (map PInt (tm_shape t))) \<and>
     map_of d ''dtype'' = Some (PStr (tm_dtype t)) \<and> map_of d ''device'' = Some (PStr (tm_device t)) \<and>
     map_of d ''offset'' = Some (PInt (tm_offset t)) \<and> map_of d ''size'' = Some (PInt (tm_size t))"
| "describes_tensor v t \<longleftrightarrow> False"

definition describes_buffer :: "pydict \<Rightarrow> backend_ref \<Rightarrow> bool" where
  "describes_buffer d b \<longleftrightarrow> map_of d ''transport'' = Some (PStr (transport_value (br_transport b))) \<and>
     map_of d ''info'' = Some (PDict (br_info b)) \<and> map_of d ''length'' = Some (PInt (br_length b))"

fun describes :: "data_ref \<Rightarrow> pydict \<Rightarrow> bool"
  and describes_nested :: "(string \<times> data_ref) list \<Rightarrow> pyval list \<Rightarrow> bool" where
  "describes (DataRef version kind oid transport layout buffer header tensors shape dtype offset metadata nested) d
     \<longleftrightarrow> version = 1 \<and> map_of d ''_type'' = Some (PStr ''DataRef'') \<and> map_of d ''version'' = Some (PInt 1) \<and>
       map_of d ''kind'' = Some (PStr (kind_value kind)) \<and> map_of d ''object_id'' = Some (PStr oid) \<and>
       map_of d ''transport'' = Some (PStr (transport_value transport)) \<and>
       map_of d ''layout'' = Some (PStr (layout_value layout)) \<and>
       (\<exists>e. map_of d ''buffer'' = Some (PDict e) \<and> describes_buffer e buffer) \<and>
       describes_str_opt d ''header'' header \<and>
       (\<exists>xs. map_of d ''tensors'' = Some (PList xs) \<and> list_all2 describes_tensor xs tensors) \<and>
       describes_opt (\<lambda>s. PList (map PInt s)) d ''shape'' shape \<and> describes_str_opt d ''dtype'' dtype \<and>
       describes_opt PInt d ''offset'' offset \<and> describes_opt PDict d ''metadata'' metadata \<and>
       (\<exists>items. map_of d ''metadata_tensors'' = Some (PList items) \<and> describes_nested nested items)"
| "describes_nested [] items \<longleftrightarrow> items = []"
| "describes_nested ((path, r) # nested) items \<longleftrightarrow> (\<exists>e f rest. items = PDict e # rest \<and>
     map_of e ''path'' = Some (PStr path) \<and> map_of e ''ref'' = Some (PDict f) \<and> describes r f \<and>
     describes_nested nested rest)"

lemma member_of_iff:
  "kind_of s = Inr k \<longleftrightarrow> s = kind_value k" "layout_of s = Inr l \<longleftrightarrow> s = layout_value l"
  "transport_of s = Inr t \<longleftrightarrow> s = transport_value t"
proof -
  have "member_of es val s = Inr e \<Longrightarrow> s = val e" for es val and e :: 'e
    by (auto simp: member_of_def find_Some_iff split: option.splits)
  note val = this
  show "kind_of s = Inr k \<longleftrightarrow> s = kind_value k"
    by (metis val enum_roundtrip(2))
  show "layout_of s = Inr l \<longleftrightarrow> s = layout_value l"
    by (metis val enum_roundtrip(3))
  show "transport_of s = Inr t \<longleftrightarrow> s = transport_value t"
    by (metis val enum_roundtrip(1))
qed

lemma describes_tensor_iff: "tensor_meta_from_dict v = Inr t \<longleftrightarrow> describes_tensor v t"
  by (cases v; cases t) (auto simp: tensor_meta_from_dict_def codec_iff)

lemma describes_tensors_iff: "mapE tensor_meta_from_dict xs = Inr ts \<longleftrightarrow> list_all2 describes_tensor xs ts"
proof (induction xs arbitrary: ts)
  case (Cons x xs)
  then show ?case by (cases ts) (auto simp: describes_tensor_iff)
qed auto

lemma describes_buffer_iff: "backend_from_dict d = Inr b \<longleftrightarrow> describes_buffer d b"
  by (cases b) (auto simp: backend_from_dict_def describes_buffer_def codec_iff member_of_iff)

lemma describes_opt_iff:
  "if_present int_tuple d k = Inr is \<longleftrightarrow> describes_opt (\<lambda>s. PList (map PInt s)) d k is"
  "if_present required_int d k = Inr i \<longleftrightarrow> describes_opt PInt d k i"
  "if_present required_dict d k = Inr e \<longleftrightarrow> describes_opt PDict d k e"
  subgoal by (cases "map_of d k"; cases "is") (auto simp: describes_opt_def codec_iff)
  subgoal by (cases "map_of d k"; cases i) (auto simp: describes_opt_def codec_iff)
  subgoal by (cases "map_of d k"; cases e) (auto simp: describes_opt_def codec_iff)
  done

lemma describes_str_opt_iff: "optional_str d k = Inr x \<longleftrightarrow> describes_str_opt d k x"
  by (simp add: codec_iff describes_str_opt_def)

lemma data_ref_described:
  "data_ref_from_dict d = Inr r \<longleftrightarrow> describes r d"
  "mapE (\<lambda>item. bindE (as_dict item) (\<lambda>e. bindE (required_str e ''path'') (\<lambda>path.
       bindE (required_dict e ''ref'') (\<lambda>f. bindE (data_ref_from_dict f) (\<lambda>r. Inr (path, r)))))) items
     = Inr nested \<longleftrightarrow> describes_nested nested items"
proof (induction r d and nested items rule: describes_describes_nested.induct)
  case (1 version kind oid transport layout buffer header tensors shape dtype offset metadata nested d)
  have n: "map_of d ''metadata_tensors'' = Some (PList items) \<Longrightarrow>
      mapE (\<lambda>item. bindE (as_dict item) (\<lambda>e. bindE (required_str e ''path'') (\<lambda>path.
       bindE (required_dict e ''ref'') (\<lambda>f. bindE (data_ref_from_dict f) (\<lambda>r. Inr (path, r)))))) items
       = Inr nested \<longleftrightarrow> describes_nested nested items" for items
    using 1 by blast
  show ?case
    unfolding data_ref_from_dict_iff member_of_iff describes_buffer_iff describes_tensors_iff
      describes_opt_iff describes_str_opt_iff
    using n by (auto simp del: describes_nested.simps)
next
  case (2 items)
  then show ?case by (cases items) auto
next
  case (3 path r nested items)
  then show ?case by (cases items) (fastforce simp: codec_iff)+
qed

text \<open>
  C17: The decoder is an exact type check. It accepts a dictionary if and only if every field has the
  declared type, and then yields those fields: the tag and the supported version, enumeration members by
  their values, the strings \<open>object_id\<close>, \<open>header\<close> and \<open>dtype\<close>, the buffer with its transport, information and
  length, each tensor's path, shape, dtype, device, offset and size, and each metadata tensor's path
  and, again in every field, its reference. Integers are integers: a boolean in place of an offset, a
  size, a length or a dimension is refused.
\<close>

theorem data_ref_decoder_checks_types:
  "data_ref_from_dict d = Inr r \<longleftrightarrow> describes r d"
  by (rule data_ref_described(1))

text \<open>
  A data reference reaches the receiver unchanged. The sender puts the dictionary of the
  reference into a \<open>DataReadyMessage\<close>, the control plane carries the dictionary of the message;
  parsing that one and decoding its \<open>data_ref\<close> yields the sender's reference.
\<close>

theorem data_ref_crosses_control_plane:
  assumes "ref_supported r" and "dr_data_ref m = PDict (data_ref_to_dict r)"
    and "message_to_dict (MDataReady m) = Inr d"
  shows "bindE (parse_message rp d) (\<lambda>msg. case msg of
      MDataReady m' \<Rightarrow> bindE (as_dict (dr_data_ref m')) data_ref_from_dict
    | _ \<Rightarrow> Inl (TypeError ''unexpected message'')) = Inr r"
proof -
  have "parse_message rp d = Inr (MDataReady m)"
    using codec_laws(1) [of m d] assms(3) by (simp add: parse_message_def)
  then show ?thesis using assms(1,2) by (simp add: data_ref_roundtrip_lemma)
qed

text \<open>A reference with a nested metadata tensor.\<close>

definition demo_buffer :: backend_ref where
  "demo_buffer = \<lparr>br_transport = Shm, br_info = [(''transfer_info'', PDict [(''size'', PInt 8)])], br_length = 8\<rparr>"

definition demo_ref :: data_ref where
  "demo_ref = DataRef 1 StreamChunkData ''r:chunk:0'' Shm RawTensor demo_buffer None [] (Some [2, 4]) (Some ''uint8'')
     (Some 0) (Some [(''k'', PInt 1)])
     [(''mask'', DataRef 1 StreamMetadataTensor ''r:chunk:0:meta'' Shm RawTensor demo_buffer None [] (Some [8])
        (Some ''uint8'') (Some 0) None [])]"

lemma data_ref_crosses_control_plane_witness:
  "\<exists>d. bindE (parse_message (\<lambda>_. ''?'') d) (\<lambda>msg. case msg of
      MDataReady m' \<Rightarrow> bindE (as_dict (dr_data_ref m')) data_ref_from_dict
    | _ \<Rightarrow> Inl (TypeError ''unexpected message'')) = Inr demo_ref"
proof -
  let ?m = "\<lparr>dr_request_id = PStr ''r'', dr_from_stage = PStr ''a'', dr_to_stage = PStr ''b'',
    dr_data_ref = PDict (data_ref_to_dict demo_ref), dr_chunk_id = PInt 0, dr_is_done = PBool False, dr_error = PNone\<rparr>"
  have "is_ok (message_to_dict (MDataReady ?m))"
    by (simp add: data_ready_accepts_same [THEN conjunct2] data_ready_valid_def)
  then obtain d where "message_to_dict (MDataReady ?m) = Inr d" by (auto simp: is_ok_iff)
  then show ?thesis
    using data_ref_crosses_control_plane [of demo_ref ?m d "\<lambda>_. ''?''"] by (auto simp: demo_ref_def)
qed

end
