(* ===== verification/Comm_Router.thy ===== *)
theory Comm_Router
  imports Payload_Isolation Data_Ref
begin

text \<open>
  Locality classification and relay ownership: \<open>sglang_omni/comm/router.py\<close>, with the tensor
  searches of \<open>sglang_omni/comm/stage_io.py\<close> that guard the direct CUDA IPC path. Relays are
  hardware-backed objects outside the model; a relay is identified by the arguments it is
  created with.
\<close>

section \<open>Tensors inside an object\<close>

text \<open>\<open>_tensor_devices\<close>, \<open>_contains_cuda_tensor\<close> and \<open>_contains_cpu_tensor\<close>.\<close>

fun devices_of :: "pyobj \<Rightarrow> string set" where
  "devices_of (OTensor d) = {d}"
| "devices_of _ = {}"

definition tensor_devices :: "heap \<Rightarrow> addr \<Rightarrow> string set" where
  "tensor_devices h a = fst (collect_from False h (\<lambda>x. devices_of (obj_at h x)) {} [a])"

definition contains_cuda_tensor :: "heap \<Rightarrow> addr \<Rightarrow> bool" where
  "contains_cuda_tensor h a = fst (search_from True h (\<lambda>x. obj_at h x = OTensor ''cuda'') {} [a])"

fun cpu_tensor :: "pyobj \<Rightarrow> bool" where
  "cpu_tensor (OTensor d) = (d \<noteq> ''cuda'')"
| "cpu_tensor _ = False"

definition contains_cpu_tensor :: "heap \<Rightarrow> addr \<Rightarrow> bool" where
  "contains_cpu_tensor h a = fst (search_from True h (\<lambda>x. cpu_tensor (obj_at h x)) {} [a])"

lemma tensor_devices_iff:
  "d \<in> tensor_devices h a \<longleftrightarrow> (\<exists>c. reaches False h a c \<and> obj_at h c = OTensor d)"
proof -
  have "d \<in> devices_of obj \<longleftrightarrow> obj = OTensor d" for obj by (cases obj) auto
  then show ?thesis by (simp add: tensor_devices_def collect_from_root)
qed

lemma contains_cuda_tensor_iff:
  "contains_cuda_tensor h a \<longleftrightarrow> (\<exists>c. reaches True h a c \<and> obj_at h c = OTensor ''cuda'')"
  by (simp add: contains_cuda_tensor_def search_from_root)

section \<open>The router\<close>


record comm_router =
  cr_stage_name :: string
  cr_gpu_id :: "int option"
  cr_placement_gpu_id :: "int option"
  cr_same_process :: "string set"
  cr_gpu_stages :: "string set"
  cr_stage_gpu_ids :: "string \<rightharpoonup> int list"
  cr_remote :: "string set"
  cr_config :: pydict

definition make_router ::
    "string \<Rightarrow> int option \<Rightarrow> int option \<Rightarrow> string set \<Rightarrow> string set \<Rightarrow> (string \<rightharpoonup> int list) \<Rightarrow>
     string set \<Rightarrow> pydict \<Rightarrow> comm_router" where
  "make_router name gpu placement same gpus ids remote cfg =
     \<lparr>cr_stage_name = name, cr_gpu_id = gpu,
      cr_placement_gpu_id = (if placement = None then gpu else placement),
      cr_same_process = same, cr_gpu_stages = gpus, cr_stage_gpu_ids = ids, cr_remote = remote,
      cr_config = cfg\<rparr>"

definition self_is_gpu :: "comm_router \<Rightarrow> bool" where
  "self_is_gpu r \<longleftrightarrow> cr_gpu_id r \<noteq> None"

definition can_use_direct_cuda_ipc :: "comm_router \<Rightarrow> string \<Rightarrow> bool" where
  "can_use_direct_cuda_ipc r target \<longleftrightarrow>
     (case cr_stage_gpu_ids r target of
        None \<Rightarrow> False
      | Some ids \<Rightarrow> cr_gpu_id r = cr_placement_gpu_id r \<and>
          (case cr_placement_gpu_id r of None \<Rightarrow> False | Some g \<Rightarrow> ids = [g]) \<and>
          target \<notin> cr_same_process r \<and> target \<notin> cr_remote r)"

definition physical_outbound :: "comm_router \<Rightarrow> string \<Rightarrow> transport" where
  "physical_outbound r target =
     (if target \<in> cr_remote r then Mooncake
      else if self_is_gpu r \<and> target \<in> cr_gpu_stages r then CudaIpc
      else Shm)"

definition outbound :: "comm_router \<Rightarrow> string \<Rightarrow> transport" where
  "outbound r target =
     (if target \<in> cr_same_process r then LocalObject else physical_outbound r target)"

definition outbound_stream :: "comm_router \<Rightarrow> string \<Rightarrow> pyobj \<Rightarrow> transport result" where
  "outbound_stream r target obj = (case obj of
     OTensor dev \<Rightarrow>
       (if target \<in> cr_remote r then Inr Mooncake
        else if dev \<noteq> ''cuda'' then Inr Shm
        else if self_is_gpu r \<and> target \<in> cr_gpu_stages r then Inr CudaIpc
        else Inl (ValueError (''cuda stream chunk cannot be sent to non-GPU target '' @ target)))
   | other \<Rightarrow> Inl (TypeError (''relay-backed stream chunks must be torch.Tensor, got ''
       @ obj_type_name other)))"

definition inbound :: "comm_router \<Rightarrow> string \<Rightarrow> transport" where
  "inbound r src =
     (if src \<in> cr_remote r then Mooncake
      else if self_is_gpu r \<and> src \<in> cr_gpu_stages r then CudaIpc
      else Shm)"

text \<open>\<open>getattr(payload, "data", payload)\<close>.\<close>

definition payload_data :: "heap \<Rightarrow> addr \<Rightarrow> addr" where
  "payload_data h a = (case obj_at h a of OPayload r q d \<Rightarrow> d | _ \<Rightarrow> a)"

definition outbound_payload :: "comm_router \<Rightarrow> heap \<Rightarrow> string \<Rightarrow> addr \<Rightarrow> transport result" where
  "outbound_payload r h target a =
     (if target \<in> cr_remote r then Inr Mooncake
      else let devices = tensor_devices h (payload_data h a) in
        if devices = {} \<or> devices = {''cpu''} then Inr Shm
        else if ''cuda'' \<in> devices \<and> devices \<subseteq> {''cpu'', ''cuda''}
        then (if self_is_gpu r \<and> target \<in> cr_gpu_stages r then Inr CudaIpc else Inr Shm)
        else Inl (ValueError ''mixed or unsupported tensor devices in payload''))"

section \<open>Relays\<close>

text \<open>\<open>cfg[k] if k in cfg else default\<close>.\<close>

definition config_get :: "comm_router \<Rightarrow> string \<Rightarrow> pyval \<Rightarrow> pyval" where
  "config_get r k v = dget_default (cr_config r) k v"

record relay_spec =
  rs_type :: string
  rs_device :: "string \<times> int option"
  rs_args :: pydict

definition common_args :: "comm_router \<Rightarrow> pydict" where
  "common_args r =
     [(''engine_id'', config_get r ''worker_id'' (PStr (cr_stage_name r @ ''_relay''))),
      (''slot_size_mb'', config_get r ''slot_size_mb'' (PInt 512)),
      (''credits'', config_get r ''credits'' (PInt 2))]"

definition build_relay :: "comm_router \<Rightarrow> transport \<Rightarrow> relay_spec result" where
  "build_relay r kind = (case kind of
     CudaIpc \<Rightarrow> (case cr_gpu_id r of
         None \<Rightarrow> Inl (ValueError (''cuda_ipc relay requested for non-GPU stage '' @ cr_stage_name r))
       | Some g \<Rightarrow> Inr \<lparr>rs_type = ''cuda_ipc'', rs_device = (''cuda'', Some g),
           rs_args = common_args r @
             [(''slot_size_kb'', config_get r ''cuda_ipc_slot_size_kb'' (PInt 64)),
              (''pool_size_mb'', config_get r ''cuda_ipc_pool_size_mb'' PNone)]\<rparr>)
   | Mooncake \<Rightarrow> Inr \<lparr>rs_type = ''mooncake'',
         rs_device = (case cr_gpu_id r of Some g \<Rightarrow> (''cuda'', Some g) | None \<Rightarrow> (''cpu'', None)),
         rs_args = common_args r @
           [(''protocol'', config_get r ''mooncake_protocol'' (PStr ''rdma'')),
            (''hostname'', config_get r ''mooncake_hostname'' PNone),
            (''device_name'', config_get r ''mooncake_device_name'' (PStr ''''))]\<rparr>
   | Shm \<Rightarrow> Inr \<lparr>rs_type = ''shm'', rs_device = (''cpu'', None), rs_args = common_args r\<rparr>
   | LocalObject \<Rightarrow> Inl (ValueError ''CommRouter cannot build a relay for local_object''))"

text \<open>
  \<open>relay\<close> builds a relay on first use and keeps it; an injected relay replaces all of them.
\<close>

record relays =
  rel_injected :: "relay_spec option"
  rel_built :: "(transport \<times> relay_spec) list"

definition relay :: "comm_router \<Rightarrow> transport \<Rightarrow> relays \<Rightarrow> relay_spec result \<times> relays" where
  "relay r kind R =
     (if kind = LocalObject then (Inl (ValueError ''local_object has no relay''), R)
      else case rel_injected R of
        Some x \<Rightarrow> (Inr x, R)
      | None \<Rightarrow> (case map_of (rel_built R) kind of
          Some x \<Rightarrow> (Inr x, R)
        | None \<Rightarrow> (case build_relay r kind of
            Inl e \<Rightarrow> (Inl e, R)
          | Inr x \<Rightarrow> (Inr x, R\<lparr>rel_built := rel_built R @ [(kind, x)]\<rparr>))))"

definition active_relays :: "relays \<Rightarrow> relay_spec list" where
  "active_relays R = (case rel_injected R of Some x \<Rightarrow> [x] | None \<Rightarrow> map snd (rel_built R))"

definition relay_for_payload ::
    "comm_router \<Rightarrow> heap \<Rightarrow> string \<Rightarrow> addr \<Rightarrow> relays \<Rightarrow> (transport \<times> relay_spec) result \<times> relays" where
  "relay_for_payload r h target a R = (case outbound_payload r h target a of
     Inl e \<Rightarrow> (Inl e, R)
   | Inr kind \<Rightarrow> (case relay r kind R of
       (Inl e, R') \<Rightarrow> (Inl e, R') | (Inr x, R') \<Rightarrow> (Inr (kind, x), R')))"

definition relay_for_stream ::
    "comm_router \<Rightarrow> string \<Rightarrow> pyobj \<Rightarrow> relays \<Rightarrow> (transport \<times> relay_spec) result \<times> relays" where
  "relay_for_stream r target obj R = (case outbound_stream r target obj of
     Inl e \<Rightarrow> (Inl e, R)
   | Inr kind \<Rightarrow> (case relay r kind R of
       (Inl e, R') \<Rightarrow> (Inl e, R') | (Inr x, R') \<Rightarrow> (Inr (kind, x), R')))"

section \<open>Both ends of an edge agree\<close>

text \<open>The cached relays are those that \<open>build_relay\<close> would build again.\<close>

definition relays_ok :: "comm_router \<Rightarrow> relays \<Rightarrow> bool" where
  "relays_ok r R \<longleftrightarrow> (\<forall>kind x. map_of (rel_built R) kind = Some x \<longrightarrow> build_relay r kind = Inr x)"

lemma relays_ok_step: "relays_ok r R \<Longrightarrow> relays_ok r (snd (relay r kind R))"
  by (auto simp: relays_ok_def relay_def split: option.splits sum.splits if_splits)

lemma relay_result:
  "relays_ok r R \<Longrightarrow> rel_injected R = None \<Longrightarrow>
     fst (relay r kind R) =
       (if kind = LocalObject then Inl (ValueError ''local_object has no relay'') else build_relay r kind)"
  by (auto simp: relays_ok_def relay_def split: option.split sum.split)

lemma build_relay_ok: "kind \<noteq> LocalObject \<Longrightarrow> is_ok (build_relay r kind) \<longleftrightarrow>
    (kind = CudaIpc \<longrightarrow> self_is_gpu r)"
  by (cases kind) (auto simp: build_relay_def self_is_gpu_def split: option.split)

lemma outbound_payload_cases:
  "outbound_payload r h target a = Inr kind \<Longrightarrow>
     kind \<noteq> LocalObject \<and> (kind = CudaIpc \<longrightarrow> self_is_gpu r \<and> target \<in> cr_gpu_stages r) \<and>
     (kind = Mooncake \<longleftrightarrow> target \<in> cr_remote r)"
  by (auto simp: outbound_payload_def Let_def split: if_splits)

text \<open>
  whatever transport a sender chooses for a payload, both ends can open it: the sender's
  router builds (or has) the relay of that kind, and so does the receiver's, provided the
  sender's table of GPU stages tells the truth about the receiver.
\<close>

theorem payload_transport_opens_at_both_ends:
  assumes "relays_ok s RS" and "rel_injected RS = None"
    and "relays_ok t RT" and "rel_injected RT = None"
    and "cr_stage_name t \<in> cr_gpu_stages s \<longleftrightarrow> self_is_gpu t"
    and "outbound_payload s h (cr_stage_name t) a = Inr kind"
  shows "is_ok (fst (relay s kind RS)) \<and> is_ok (fst (relay t kind RT)) \<and>
    fst (relay_for_payload s h (cr_stage_name t) a RS) = bindE (build_relay s kind) (\<lambda>x. Inr (kind, x))"
proof -
  note k = outbound_payload_cases [OF assms(6)]
  have "is_ok (build_relay s kind)" "is_ok (build_relay t kind)"
    using k assms(5) by (simp_all add: build_relay_ok)
  with k show ?thesis
    using relay_result [OF assms(1,2), of kind] relay_result [OF assms(3,4), of kind] assms(6)
    by (auto simp: relay_for_payload_def is_ok_iff split: prod.split)
qed

definition demo_router :: "string \<Rightarrow> int option \<Rightarrow> comm_router" where
  "demo_router name gpu = make_router name gpu None {} {''talker''} Map.empty {} []"

theorem payload_transport_opens_at_both_ends_witness:
  "is_ok (fst (relay (demo_router ''talker'' (Some 1)) CudaIpc \<lparr>rel_injected = None, rel_built = []\<rparr>))"
  using payload_transport_opens_at_both_ends [of "demo_router ''thinker'' (Some 0)"
      "\<lparr>rel_injected = None, rel_built = []\<rparr>" "demo_router ''talker'' (Some 1)"
      "\<lparr>rel_injected = None, rel_built = []\<rparr>"
      "[(0, OPayload ''r'' 5 1), (1, ODict [2]), (2, OTensor ''cuda'')]" 0 CudaIpc]
  by (simp add: relays_ok_def demo_router_def make_router_def self_is_gpu_def outbound_payload_def
      payload_data_def obj_at_def tensor_devices_def collect_from.simps(2) Let_def)

end
