(* ===== verification/Receive_Lanes.thy ===== *)
theory Receive_Lanes
  imports Prelude
begin

text \<open>
  The receive tasks of a stage and their lanes: \<open>_schedule_receive_task\<close>,
  \<open>_run_receive_task\<close> and \<open>_wait_for_receive_predecessor\<close> of
  \<open>sglang_omni/pipeline/stage/runtime.py\<close>. Every data-plane message gets a task of its own, so
  reads overlap; a lane is a pair of request and sending stage, and a task hands on what it has
  read only when the completion future of the task before it on the lane is set.
\<close>

section \<open>Tasks and lanes\<close>

text \<open>
  \<open>Working w\<close>: the handler has not reached the wait (\<open>w\<close> is what it still has to do);
  \<open>Waiting c\<close>: it waits for its predecessor and will go on with \<open>c\<close>; \<open>Body_Done e\<close>: the handler
  has returned, or raised \<open>e\<close>; \<open>Completed\<close>: the completion future is set. Tasks are numbered in the order
  in which they were scheduled; the number of a task also names its completion future.
\<close>

type_synonym lane = "string \<times> string"

datatype ('w, 'c) phase = Working 'w | Waiting 'c | Body_Done "py_error option" | Completed

record ('m, 'w, 'c) receive_task =
  rt_lane :: lane
  rt_msg :: 'm
  rt_predecessor :: "nat option"
  rt_phase :: "('w, 'c) phase"

text \<open>\<open>rl_handed\<close> records which tasks have handed something on, in that order.\<close>

record ('m, 'w, 'c) lanes =
  rl_tasks :: "('m, 'w, 'c) receive_task list"
  rl_tails :: "lane \<rightharpoonup> nat"
  rl_handed :: "nat list"

definition lanes_init :: "('m, 'w, 'c) lanes" where
  "lanes_init = \<lparr>rl_tasks = [], rl_tails = Map.empty, rl_handed = []\<rparr>"

definition schedule_receive_task :: "lane \<Rightarrow> 'm \<Rightarrow> 'w \<Rightarrow> ('m, 'w, 'c) lanes \<Rightarrow> ('m, 'w, 'c) lanes" where
  "schedule_receive_task lane m w L =
     L\<lparr>rl_tasks := rl_tasks L @ [\<lparr>rt_lane = lane, rt_msg = m, rt_predecessor = rl_tails L lane, rt_phase = Working w\<rparr>],
       rl_tails := (rl_tails L)(lane \<mapsto> length (rl_tasks L))\<rparr>"

definition set_phase :: "nat \<Rightarrow> ('w, 'c) phase \<Rightarrow> ('m, 'w, 'c) lanes \<Rightarrow> ('m, 'w, 'c) lanes" where
  "set_phase i p L = L\<lparr>rl_tasks := (rl_tasks L)[i := (rl_tasks L ! i)\<lparr>rt_phase := p\<rparr>]\<rparr>"

definition is_completed :: "('m, 'w, 'c) lanes \<Rightarrow> nat \<Rightarrow> bool" where
  "is_completed L i \<longleftrightarrow> i < length (rl_tasks L) \<and> rt_phase (rl_tasks L ! i) = Completed"

text \<open>\<open>await predecessor\<close> does not block.\<close>

definition predecessor_done :: "('m, 'w, 'c) lanes \<Rightarrow> nat \<Rightarrow> bool" where
  "predecessor_done L i = (case rt_predecessor (rl_tasks L ! i) of
     None \<Rightarrow> True | Some j \<Rightarrow> is_completed L j)"

text \<open>
  The steps of one task: work on, reach the wait, finish without it (a discarded message or an
  exception), pass the wait and hand on \<open>c\<close>, and the \<open>finally\<close> clause.
\<close>

definition task_work :: "nat \<Rightarrow> 'w \<Rightarrow> ('m, 'w, 'c) lanes \<Rightarrow> ('m, 'w, 'c) lanes" where
  "task_work i w L = set_phase i (Working w) L"

definition task_wait :: "nat \<Rightarrow> 'c \<Rightarrow> ('m, 'w, 'c) lanes \<Rightarrow> ('m, 'w, 'c) lanes" where
  "task_wait i c L = set_phase i (Waiting c) L"

definition task_drop :: "nat \<Rightarrow> py_error option \<Rightarrow> ('m, 'w, 'c) lanes \<Rightarrow> ('m, 'w, 'c) lanes" where
  "task_drop i err L = set_phase i (Body_Done err) L"

definition task_ready :: "nat \<Rightarrow> ('m, 'w, 'c) lanes \<Rightarrow> 'c option" where
  "task_ready i L = (case rt_phase (rl_tasks L ! i) of
     Waiting c \<Rightarrow> (if predecessor_done L i then Some c else None)
   | _ \<Rightarrow> None)"

definition task_hand_on :: "nat \<Rightarrow> py_error option \<Rightarrow> ('m, 'w, 'c) lanes \<Rightarrow> ('m, 'w, 'c) lanes" where
  "task_hand_on i err L = set_phase i (Body_Done err) L\<lparr>rl_handed := rl_handed L @ [i]\<rparr>"

definition task_complete :: "nat \<Rightarrow> ('m, 'w, 'c) lanes \<Rightarrow> ('m, 'w, 'c) lanes option" where
  "task_complete i L =
     (if predecessor_done L i then
        (let L1 = set_phase i Completed L; lane = rt_lane (rl_tasks L ! i) in
         Some (if rl_tails L1 lane = Some i
               then L1\<lparr>rl_tails := (rl_tails L1)(lane := None)\<rparr> else L1))
      else None)"

inductive lane_step :: "('m, 'w, 'c) lanes \<Rightarrow> ('m, 'w, 'c) lanes \<Rightarrow> bool" where
  schedule: "lane_step L (schedule_receive_task lane m w L)"
| work: "i < length (rl_tasks L) \<Longrightarrow> rt_phase (rl_tasks L ! i) = Working w \<Longrightarrow>
    lane_step L (task_work i w' L)"
| wait: "i < length (rl_tasks L) \<Longrightarrow> rt_phase (rl_tasks L ! i) = Working w \<Longrightarrow>
    lane_step L (task_wait i c L)"
| drop: "i < length (rl_tasks L) \<Longrightarrow> rt_phase (rl_tasks L ! i) = Working w \<Longrightarrow>
    lane_step L (task_drop i err L)"
| hand_on: "i < length (rl_tasks L) \<Longrightarrow> task_ready i L = Some c \<Longrightarrow>
    lane_step L (task_hand_on i err L)"
| complete: "i < length (rl_tasks L) \<Longrightarrow> rt_phase (rl_tasks L ! i) = Body_Done err \<Longrightarrow>
    task_complete i L = Some L' \<Longrightarrow> lane_step L L'"

inductive_cases lane_step_E: "lane_step L L'"

inductive lanes_reach :: "('m, 'w, 'c) lanes \<Rightarrow> bool" where
  start: "lanes_reach lanes_init"
| step: "lanes_reach L \<Longrightarrow> lane_step L L' \<Longrightarrow> lanes_reach L'"

section \<open>Invariant\<close>

abbreviation lane_of :: "('m, 'w, 'c) lanes \<Rightarrow> nat \<Rightarrow> lane" where
  "lane_of L i \<equiv> rt_lane (rl_tasks L ! i)"

fun body_done :: "('w, 'c) phase \<Rightarrow> bool" where
  "body_done (Body_Done e) = True"
| "body_done Completed = True"
| "body_done p = False"

text \<open>Every earlier task of the lane is completed.\<close>

definition earlier_done :: "('m, 'w, 'c) lanes \<Rightarrow> nat \<Rightarrow> bool" where
  "earlier_done L i \<longleftrightarrow> (\<forall>k<i. lane_of L k = lane_of L i \<longrightarrow> is_completed L k)"

text \<open>
  \<open>predecessor\<close> is the previous task of the lane unless all of those were completed when the
  task was scheduled; the tail is the last task of the lane unless all are completed.
\<close>

definition pred_ok :: "('m, 'w, 'c) lanes \<Rightarrow> nat \<Rightarrow> bool" where
  "pred_ok L i = (case rt_predecessor (rl_tasks L ! i) of
     None \<Rightarrow> earlier_done L i
   | Some j \<Rightarrow> j < i \<and> lane_of L j = lane_of L i \<and> (\<forall>k<i. lane_of L k = lane_of L i \<longrightarrow> k \<le> j))"

definition tail_ok :: "('m, 'w, 'c) lanes \<Rightarrow> lane \<Rightarrow> bool" where
  "tail_ok L l = (case rl_tails L l of
     None \<Rightarrow> \<forall>k<length (rl_tasks L). lane_of L k = l \<longrightarrow> is_completed L k
   | Some j \<Rightarrow> j < length (rl_tasks L) \<and> lane_of L j = l \<and> \<not> is_completed L j \<and>
       (\<forall>k<length (rl_tasks L). lane_of L k = l \<longrightarrow> k \<le> j))"

definition lanes_inv :: "('m, 'w, 'c) lanes \<Rightarrow> bool" where
  "lanes_inv L \<longleftrightarrow> (\<forall>i<length (rl_tasks L). pred_ok L i) \<and> (\<forall>l. tail_ok L l) \<and>
     (\<forall>i. is_completed L i \<longrightarrow> earlier_done L i) \<and>
     (\<forall>i\<in>set (rl_handed L). i < length (rl_tasks L) \<and> earlier_done L i \<and>
        body_done (rt_phase (rl_tasks L ! i))) \<and>
     (\<forall>l. sorted_wrt (<) (filter (\<lambda>i. lane_of L i = l) (rl_handed L)))"

lemma lanes_invD:
  assumes "lanes_inv L"
  shows "i < length (rl_tasks L) \<Longrightarrow> pred_ok L i"
    and "tail_ok L l"
    and "is_completed L i \<Longrightarrow> earlier_done L i"
    and "i \<in> set (rl_handed L) \<Longrightarrow> i < length (rl_tasks L) \<and> earlier_done L i \<and>
      body_done (rt_phase (rl_tasks L ! i))"
    and "sorted_wrt (<) (filter (\<lambda>i. lane_of L i = l) (rl_handed L))"
  using assms unfolding lanes_inv_def by blast+

lemma predecessor_done_earlier:
  assumes "lanes_inv L" and "i < length (rl_tasks L)" and "predecessor_done L i"
  shows "earlier_done L i"
proof (cases "rt_predecessor (rl_tasks L ! i)")
  case None
  with lanes_invD(1) [OF assms(1,2)] show ?thesis by (simp add: pred_ok_def)
next
  case (Some j)
  with lanes_invD(1) [OF assms(1,2)] assms(3)
  have j: "j < i" "lane_of L j = lane_of L i" "is_completed L j"
      "\<forall>k<i. lane_of L k = lane_of L i \<longrightarrow> k \<le> j"
    by (auto simp: pred_ok_def predecessor_done_def)
  from lanes_invD(3) [OF assms(1) j(3)] j show ?thesis
    unfolding earlier_done_def by (metis le_neq_implies_less)
qed

text \<open>Steps that only change the phase of one task, towards completion.\<close>

lemma set_phase_simps [simp]:
  "length (rl_tasks (set_phase i p L)) = length (rl_tasks L)"
  "rl_tails (set_phase i p L) = rl_tails L"
  "rl_handed (set_phase i p L) = rl_handed L"
  "lane_of (set_phase i p L) k = lane_of L k"
  "rt_msg (rl_tasks (set_phase i p L) ! k) = rt_msg (rl_tasks L ! k)"
  "rt_predecessor (rl_tasks (set_phase i p L) ! k) = rt_predecessor (rl_tasks L ! k)"
  "i < length (rl_tasks L) \<Longrightarrow> rt_phase (rl_tasks (set_phase i p L) ! k) =
     (if k = i then p else rt_phase (rl_tasks L ! k))"
  by (cases "i < length (rl_tasks L)"; cases "k = i"; simp add: set_phase_def list_update_beyond)+

lemma is_completed_set_phase [simp]:
  "i < length (rl_tasks L) \<Longrightarrow> is_completed (set_phase i p L) k =
     (if k = i then p = Completed else is_completed L k)"
  by (auto simp: is_completed_def)

text \<open>The parts of the state the predicates depend on.\<close>

lemma same_tasks:
  assumes "rl_tasks L' = rl_tasks L"
  shows "is_completed L' = is_completed L" and "earlier_done L' = earlier_done L"
    and "pred_ok L' = pred_ok L"
  using assms by (auto simp: is_completed_def earlier_done_def pred_ok_def fun_eq_iff split: option.split)

lemma earlier_done_mono:
  assumes "\<And>k. lane_of L' k = lane_of L k" and "\<And>k. is_completed L k \<Longrightarrow> is_completed L' k"
  shows "earlier_done L i \<Longrightarrow> earlier_done L' i"
  using assms by (auto simp: earlier_done_def)

lemma phase_step_inv:
  assumes inv: "lanes_inv L" and i: "i < length (rl_tasks L)" "\<not> is_completed L i"
    and p: "p \<noteq> Completed" and body: "body_done (rt_phase (rl_tasks L ! i)) \<longrightarrow> body_done p"
  shows "lanes_inv (set_phase i p L)"
proof -
  have c: "is_completed (set_phase i p L) = is_completed L"
    using i p by (auto simp: fun_eq_iff)
  have e: "earlier_done (set_phase i p L) = earlier_done L"
    by (simp add: fun_eq_iff earlier_done_def c)
  have "pred_ok (set_phase i p L) = pred_ok L"
    by (simp add: fun_eq_iff pred_ok_def e split: option.split)
  moreover have "tail_ok (set_phase i p L) = tail_ok L"
    by (simp add: fun_eq_iff tail_ok_def c split: option.split)
  moreover have "k \<in> set (rl_handed L) \<Longrightarrow>
      body_done (rt_phase (rl_tasks (set_phase i p L) ! k))" for k
    using lanes_invD(4) [OF inv, of k] i body by (auto simp: is_completed_def)
  ultimately show ?thesis
    using inv by (simp add: lanes_inv_def e c)
qed

lemma schedule_inv:
  assumes inv: "lanes_inv L"
  shows "lanes_inv (schedule_receive_task lane m w L)"
proof -
  let ?L = "schedule_receive_task lane m w L" and ?n = "length (rl_tasks L)"
  have len: "length (rl_tasks ?L) = Suc ?n" and handed: "rl_handed ?L = rl_handed L"
    and tails: "rl_tails ?L = (rl_tails L)(lane \<mapsto> ?n)"
    by (simp_all add: schedule_receive_task_def)
  have old: "rl_tasks ?L ! k = rl_tasks L ! k" if "k < ?n" for k
    using that by (simp add: schedule_receive_task_def nth_append)
  have new: "rl_tasks ?L ! ?n =
      \<lparr>rt_lane = lane, rt_msg = m, rt_predecessor = rl_tails L lane, rt_phase = Working w\<rparr>"
    by (simp add: schedule_receive_task_def)
  have c: "is_completed ?L k = is_completed L k" for k
    by (cases "k < ?n"; cases "k = ?n") (simp_all add: is_completed_def len old new)
  have e: "earlier_done ?L k = earlier_done L k" if "k < ?n" for k
    using that by (auto simp: earlier_done_def c old)
  have "pred_ok ?L k" if "k < Suc ?n" for k
  proof (cases "k < ?n")
    case True
    with lanes_invD(1) [OF inv True] e show ?thesis
      by (auto simp: pred_ok_def old split: option.splits)
  next
    case False
    with that have k: "k = ?n" by simp
    from lanes_invD(2) [OF inv, of lane] show ?thesis
      by (auto simp: k pred_ok_def new old tail_ok_def earlier_done_def c split: option.splits)
  qed
  moreover have "tail_ok ?L l" for l
    using lanes_invD(2) [OF inv, of l]
    by (auto simp: tail_ok_def tails len c new old less_Suc_eq is_completed_def split: option.splits)
  moreover have "is_completed L k \<Longrightarrow> earlier_done ?L k" for k
    using lanes_invD(3) [OF inv, of k] e by (simp add: is_completed_def)
  moreover have "k \<in> set (rl_handed L) \<Longrightarrow> k < Suc ?n \<and> earlier_done ?L k \<and>
      body_done (rt_phase (rl_tasks ?L ! k))" for k
    using lanes_invD(4) [OF inv, of k] e old by simp
  moreover have "filter (\<lambda>k. lane_of ?L k = l) (rl_handed L)
      = filter (\<lambda>k. lane_of L k = l) (rl_handed L)" for l
    using lanes_invD(4) [OF inv] old by (intro filter_cong) auto
  ultimately show ?thesis
    using lanes_invD(5) [OF inv] by (simp add: lanes_inv_def len handed c)
qed

lemma hand_on_inv:
  assumes inv: "lanes_inv L" and i: "i < length (rl_tasks L)" and step: "task_ready i L = Some c"
  shows "lanes_inv (task_hand_on i err L)"
proof -
  let ?L = "set_phase i (Body_Done err) L"
  define L' where "L' = task_hand_on i err L"
  have w: "rt_phase (rl_tasks L ! i) = Waiting c" and d: "predecessor_done L i"
    and L': "L' = ?L\<lparr>rl_handed := rl_handed L @ [i]\<rparr>"
    using step by (auto simp: L'_def task_ready_def task_hand_on_def split: phase.splits if_splits)
  have nc: "\<not> is_completed L i" using w by (simp add: is_completed_def)
  have inv1: "lanes_inv ?L" using phase_step_inv [OF inv i nc] w by simp
  have e: "earlier_done L i" by (rule predecessor_done_earlier [OF inv i d])
  have tasks: "rl_tasks L' = rl_tasks ?L" by (simp add: L')
  have less: "j < i" if "j \<in> set (rl_handed L)" "lane_of L j = lane_of L i" for j
  proof (rule ccontr)
    assume "\<not> j < i"
    moreover have "j \<noteq> i" using lanes_invD(4) [OF inv that(1)] w by auto
    ultimately have "i < j" by simp
    with lanes_invD(4) [OF inv that(1)] that(2) nc show False by (simp add: earlier_done_def)
  qed
  have "earlier_done ?L i"
    using e i by (auto simp: earlier_done_def)
  then have "\<forall>k\<in>set (rl_handed L'). k < length (rl_tasks L) \<and> earlier_done ?L k \<and>
      body_done (rt_phase (rl_tasks ?L ! k))"
    using lanes_invD(4) [OF inv1] i by (auto simp: L')
  moreover have "sorted_wrt (<) (filter (\<lambda>k. lane_of L k = l) (rl_handed L'))" for l
    using lanes_invD(5) [OF inv, of l] less by (auto simp: L' sorted_wrt_append)
  moreover have "tail_ok L' = tail_ok ?L"
    by (simp add: fun_eq_iff tail_ok_def L' is_completed_def split: option.split)
  ultimately show "lanes_inv (task_hand_on i err L)"
    unfolding L'_def [symmetric]
    using lanes_invD(1-3) [OF inv1] by (simp add: lanes_inv_def same_tasks [OF tasks] tasks)
qed

lemma complete_inv:
  assumes inv: "lanes_inv L" and i: "i < length (rl_tasks L)"
    and body: "rt_phase (rl_tasks L ! i) = Body_Done err" and step: "task_complete i L = Some L'"
  shows "lanes_inv L'"
proof -
  let ?L = "set_phase i Completed L" and ?l = "lane_of L i"
  have d: "predecessor_done L i" and tasks: "rl_tasks L' = rl_tasks ?L"
    and handed: "rl_handed L' = rl_handed L"
    and tails: "rl_tails L' = (if rl_tails L ?l = Some i then (rl_tails L)(?l := None) else rl_tails L)"
    using step by (auto simp: task_complete_def Let_def split: if_splits)
  have c: "is_completed L' k = (k = i \<or> is_completed L k)" for k
    using i by (simp add: same_tasks [OF tasks])
  have lane: "lane_of L' k = lane_of L k" and len: "length (rl_tasks L') = length (rl_tasks L)"
    and pred: "rt_predecessor (rl_tasks L' ! k) = rt_predecessor (rl_tasks L ! k)" for k
    by (simp_all add: tasks)
  have e: "earlier_done L k \<Longrightarrow> earlier_done L' k" for k
    using earlier_done_mono [of L' L] lane c by blast
  have ei: "earlier_done L i" by (rule predecessor_done_earlier [OF inv i d])
  have "pred_ok L' k" if "k < length (rl_tasks L)" for k
    using lanes_invD(1) [OF inv that] e by (auto simp: pred_ok_def lane pred split: option.splits)
  moreover have "tail_ok L' l" for l
  proof (cases "rl_tails L l = Some i")
    case True
    with lanes_invD(2) [OF inv, of l] have "?l = l"
        "\<forall>k<length (rl_tasks L). lane_of L k = l \<longrightarrow> k \<le> i"
      by (auto simp: tail_ok_def)
    with True ei show ?thesis
      by (auto simp: tail_ok_def tails lane len c earlier_done_def le_less)
  next
    case False
    then have "rl_tails L' l = rl_tails L l" by (cases "l = ?l") (simp_all add: tails)
    with False lanes_invD(2) [OF inv, of l] show ?thesis
      by (auto simp: tail_ok_def lane len c split: option.splits)
  qed
  moreover have "is_completed L' k \<Longrightarrow> earlier_done L' k" for k
    using lanes_invD(3) [OF inv, of k] c [of k] e [of k] ei by auto
  moreover have "k \<in> set (rl_handed L) \<Longrightarrow> k < length (rl_tasks L) \<and> earlier_done L' k \<and>
      body_done (rt_phase (rl_tasks L' ! k))" for k
    using lanes_invD(4) [OF inv, of k] e i by (auto simp: tasks)
  ultimately show ?thesis
    using lanes_invD(5) [OF inv] by (simp add: lanes_inv_def len handed lane)
qed

lemma lanes_inv_init: "lanes_inv lanes_init"
  by (simp add: lanes_inv_def lanes_init_def tail_ok_def is_completed_def)

lemma lane_step_inv:
  assumes "lane_step L L'" and inv: "lanes_inv L"
  shows "lanes_inv L'"
  using assms(1)
proof (cases rule: lane_step.cases)
  case (work i w w')
  then show ?thesis
    using phase_step_inv [OF inv, of i "Working w'"] by (simp add: task_work_def is_completed_def)
next
  case (wait i w c)
  then show ?thesis
    using phase_step_inv [OF inv, of i "Waiting c"] by (simp add: task_wait_def is_completed_def)
next
  case (drop i w err)
  then show ?thesis
    using phase_step_inv [OF inv, of i "Body_Done err"] by (simp add: task_drop_def is_completed_def)
qed (auto intro: schedule_inv hand_on_inv complete_inv inv)

lemma lanes_reach_inv: "lanes_reach L \<Longrightarrow> lanes_inv L"
  by (induction rule: lanes_reach.induct) (auto intro: lanes_inv_init lane_step_inv)

section \<open>Order, progress and clean-up\<close>

text \<open>
  The messages of a lane are handed on in the order in which they arrived, however their
  reads overlap, fail or are discarded.
\<close>

theorem lanes_keep_order:
  assumes "lanes_reach L"
  shows "sorted_wrt (<) (filter (\<lambda>i. lane_of L i = l) (rl_handed L))"
  using lanes_invD(5) [OF lanes_reach_inv [OF assms]] .

text \<open>
  C11: lanes never deadlock and never leak: the first unfinished task of every lane is not kept
  waiting by its predecessor, and when every task has completed no lane has a tail left.
\<close>

theorem lanes_progress:
  assumes "lanes_reach L"
  shows "(i < length (rl_tasks L) \<and> \<not> is_completed L i \<and> earlier_done L i \<longrightarrow>
      (\<forall>c. rt_phase (rl_tasks L ! i) = Waiting c \<longrightarrow> task_ready i L = Some c) \<and>
      (\<forall>e. rt_phase (rl_tasks L ! i) = Body_Done e \<longrightarrow> task_complete i L \<noteq> None)) \<and>
    ((\<forall>i<length (rl_tasks L). is_completed L i) \<longrightarrow> rl_tails L = Map.empty)"
proof -
  have inv: "lanes_inv L" by (rule lanes_reach_inv [OF assms])
  have "predecessor_done L i" if "i < length (rl_tasks L)" "earlier_done L i"
    using lanes_invD(1) [OF inv that(1)] that(2)
    by (auto simp: pred_ok_def predecessor_done_def earlier_done_def split: option.splits)
  moreover have "rl_tails L l = None" if "\<forall>i<length (rl_tasks L). is_completed L i" for l
    using lanes_invD(2) [OF inv, of l] that by (auto simp: tail_ok_def split: option.splits)
  ultimately show ?thesis
    by (auto simp: task_ready_def task_complete_def Let_def fun_eq_iff)
qed

theorem lanes_progress_witness:
  "task_complete 0 (task_drop 0 None (schedule_receive_task (''a'', ''enc'') () ()
     (lanes_init :: (unit, unit, unit) lanes))) \<noteq> None"
proof -
  let ?L0 = "schedule_receive_task (''a'', ''enc'') () () (lanes_init :: (unit, unit, unit) lanes)"
  have "lanes_reach ?L0" by (rule lanes_reach.step [OF lanes_reach.start lane_step.schedule])
  then have "lanes_reach (task_drop 0 None ?L0)"
    by (rule lanes_reach.step [OF _ lane_step.drop])
      (simp_all add: schedule_receive_task_def lanes_init_def)
  from lanes_progress [OF this, of 0] show ?thesis
    by (simp add: schedule_receive_task_def lanes_init_def task_drop_def set_phase_def
        is_completed_def earlier_done_def)
qed

end
