(* ===== verification/Stage_State.thy ===== *)
theory Stage_State
  imports Stage_Input Stream_Queue Comm_Router Receive_Lanes
begin

text \<open>
  A pipeline stage, part 1: configuration, state and the receiving half of
  \<open>sglang_omni/pipeline/stage/runtime.py\<close>. Messages to other components are appended to a log in
  the state (\<open>st_sent\<close> for the control plane and the data plane, \<open>st_inbox\<close> for the scheduler), so
  a handler's effects are values that can be reasoned about.
\<close>

section \<open>Configuration\<close>

datatype role = Single | Leader | Follower

text \<open>What \<open>get_next\<close> and \<open>get_stream_done_targets\<close> return: \<open>str | list[str] | None\<close>.\<close>

datatype targets = NoTarget | OneTarget string | ManyTargets "string list"

fun target_list :: "targets \<Rightarrow> string list" where
  "target_list NoTarget = []"
| "target_list (OneTarget t) = [t]"
| "target_list (ManyTargets ts) = ts"

text \<open>
  Constructor arguments of \<open>Stage\<close>. Functions supplied by a model's pipeline (\<open>sc_get_next\<close>, the
  projectors, the merge inside \<open>sc_fan_in\<close>) and code that drives hardware (\<open>sc_direct_ref\<close>: the
  CUDA IPC serialiser) are arguments; both may raise. \<open>sc_fan_in = None\<close> is the direct input
  handler.
\<close>

record stage_config =
  sc_name :: string
  sc_role :: role
  sc_endpoints :: "string \<rightharpoonup> string"
  sc_get_next :: "string \<Rightarrow> addr \<Rightarrow> targets result"
  sc_stream_done_targets :: "(string \<Rightarrow> addr \<Rightarrow> targets result) option"
  sc_project :: "string \<rightharpoonup> (addr \<Rightarrow> addr result)"
  sc_stream_targets :: "string list"
  sc_same_process :: "string set"
  sc_registered :: "string set option"
  sc_fan_in :: "addr fan_in option"
  sc_pre_payload :: bool
  sc_disable_direct_ipc :: bool
  sc_tp_fanout :: bool
  sc_requires_work_fanout :: bool
  sc_terminal :: bool
  sc_router :: comm_router
  sc_direct_ref :: "addr \<Rightarrow> nat result"
  sc_set_order :: "string set \<Rightarrow> string list"

definition owns_external_io :: "stage_config \<Rightarrow> bool" where
  "owns_external_io c \<longleftrightarrow> sc_role c \<in> {Single, Leader}"

section \<open>State\<close>

text \<open>\<open>IncomingMessage\<close> of \<open>sglang_omni/scheduling/messages.py\<close>, as the stage fills it in.\<close>

datatype incoming =
    NewRequest string addr
  | StreamChunk string "addr stream_item"
  | StreamDone string

text \<open>
  Everything a stage emits: completions and stream chunks for the coordinator, control messages
  to another stage, objects handed to a stage of the same process, transfers given to the
  communication engine, and broadcasts to tensor-parallel followers.
\<close>

datatype stage_out =
    CompleteOk string addr
  | CompleteError string string
  | StreamToCoordinator string addr int "pyval"
  | DirectPayload string string nat
  | DirectChunk string string nat int
  | StreamSignal string string bool "string option"
  | DataAck string string string bool "string option"
  | LocalPayload string string addr
  | LocalChunk string string int addr "pydict option"
  | LocalSignal string string bool "string option"
  | RelayPayload string string transport addr
  | RelayChunk string string transport int addr "pydict option"
  | FanoutWork addr
  | FanoutAbort string
  | FanoutControl

record stage =
  st_running :: bool
  st_aborted :: "string set"
  st_active :: "string set"
  st_streams :: "addr stream_queue option"
  st_counters :: "string \<times> string \<rightharpoonup> int"
  st_first_seen :: "string set"
  st_local_targets :: "string \<rightharpoonup> string set"
  st_nonlocal_targets :: "string \<rightharpoonup> string set"
  st_input :: "addr agg_state"
  st_inbox :: "incoming list"
  st_sent :: "stage_out list"
  st_scheduler_aborts :: "string list"
  st_comm_cleanups :: "string list"
  st_crash_error :: "py_error option"
  st_task_error :: "py_error option"
  st_control_closed :: bool

type_synonym 'a stage_op = "(stage, 'a) oper"

definition stage_init :: "addr stream_queue option \<Rightarrow> stage" where
  "stage_init q = \<lparr>st_running = False, st_aborted = {}, st_active = {}, st_streams = q,
     st_counters = Map.empty, st_first_seen = {}, st_local_targets = Map.empty,
     st_nonlocal_targets = Map.empty, st_input = agg_init, st_inbox = [], st_sent = [],
     st_scheduler_aborts = [], st_comm_cleanups = [], st_crash_error = None,
     st_task_error = None, st_control_closed = False\<rparr>"

section \<open>Bookkeeping\<close>

definition send :: "stage_out \<Rightarrow> unit stage_op" where
  "send m = modify (\<lambda>s. s\<lparr>st_sent := st_sent s @ [m]\<rparr>)"

definition inbox_put :: "incoming \<Rightarrow> unit stage_op" where
  "inbox_put m = modify (\<lambda>s. s\<lparr>st_inbox := st_inbox s @ [m]\<rparr>)"

text \<open>\<open>with suppress(Exception): self.scheduler.abort(request_id)\<close>.\<close>

definition scheduler_abort :: "string \<Rightarrow> unit stage_op" where
  "scheduler_abort rid = modify (\<lambda>s. s\<lparr>st_scheduler_aborts := st_scheduler_aborts s @ [rid]\<rparr>)"

definition comm_cleanup :: "string \<Rightarrow> unit stage_op" where
  "comm_cleanup rid = modify (\<lambda>s. s\<lparr>st_comm_cleanups := st_comm_cleanups s @ [rid]\<rparr>)"

definition add_active :: "string \<Rightarrow> unit stage_op" where
  "add_active rid = modify (\<lambda>s. s\<lparr>st_active := insert rid (st_active s)\<rparr>)"

text \<open>\<open>if self._stream_queue is not None and not self._stream_queue.has(..): .. open(..)\<close>.\<close>

definition open_stream :: "string \<Rightarrow> unit stage_op" where
  "open_stream rid = modify (\<lambda>s. case st_streams s of
     None \<Rightarrow> s
   | Some q \<Rightarrow> (if sq_has rid q then s else s\<lparr>st_streams := Some (sq_open rid q)\<rparr>))"

definition record_aborted_request_id :: "stage_config \<Rightarrow> string \<Rightarrow> unit stage_op" where
  "record_aborted_request_id c rid = modify (\<lambda>s. s\<lparr>st_aborted :=
     cap_set (sc_set_order c) 10000 5000 (insert rid (st_aborted s))\<rparr>)"

definition input_receive ::
    "stage_config \<Rightarrow> string \<Rightarrow> string \<Rightarrow> addr \<Rightarrow> addr option stage_op" where
  "input_receive c rid src p = (case sc_fan_in c of
     None \<Rightarrow> (\<lambda>s. (fst (direct_receive rid src p ()), s))
   | Some f \<Rightarrow> (\<lambda>s. case agg_receive f rid src p (st_input s) of
       (r, i) \<Rightarrow> (r, s\<lparr>st_input := i\<rparr>)))"

definition input_cancel :: "stage_config \<Rightarrow> string \<Rightarrow> stage \<Rightarrow> stage" where
  "input_cancel c rid s = (case sc_fan_in c of
     None \<Rightarrow> s
   | Some f \<Rightarrow> s\<lparr>st_input := agg_cancel rid (st_input s)\<rparr>)"

definition clear_request_state :: "stage_config \<Rightarrow> string \<Rightarrow> unit stage_op" where
  "clear_request_state c rid =
     andthen (modify (\<lambda>s. s\<lparr>st_active := st_active s - {rid}\<rparr>)) (\<lambda>_.
     andthen (modify (input_cancel c rid)) (\<lambda>_.
     modify (\<lambda>s. s
       \<lparr>st_streams := map_option (sq_close (sc_set_order c) rid) (st_streams s),
        st_counters := (\<lambda>k. if fst k = rid then None else st_counters s k),
        st_first_seen := st_first_seen s - {rid},
        st_local_targets := (st_local_targets s)(rid := None),
        st_nonlocal_targets := (st_nonlocal_targets s)(rid := None)\<rparr>)))"

definition send_failure :: "stage_config \<Rightarrow> string \<Rightarrow> string \<Rightarrow> unit stage_op" where
  "send_failure c rid err =
     andthen (record_aborted_request_id c rid) (\<lambda>_.
     if \<not> owns_external_io c
     then andthen (clear_request_state c rid) (\<lambda>_.
       raise (RuntimeError (''Follower stage '' @ sc_name c @ '' failed: '' @ err)))
     else andthen (send (CompleteError rid err)) (\<lambda>_. clear_request_state c rid))"

section \<open>Dispatch to the scheduler\<close>

text \<open>
  \<open>payload_request_id\<close> reads \<open>payload.request_id\<close>; an object without that attribute raises.
\<close>

definition payload_request_id :: "heap \<Rightarrow> addr \<Rightarrow> string result" where
  "payload_request_id h p = (case obj_at h p of
     OPayload r q d \<Rightarrow> Inr r
   | other \<Rightarrow> Inl (AttributeError (obj_type_name other @ '' object has no attribute request_id'')))"

definition execute :: "stage_config \<Rightarrow> heap \<Rightarrow> addr \<Rightarrow> unit stage_op" where
  "execute c h p =
     andthen (lift (payload_request_id h p)) (\<lambda>rid.
     andthen (if sc_role c = Leader \<and> sc_tp_fanout c \<and> sc_requires_work_fanout c
              then send (FanoutWork p) else ret ()) (\<lambda>_.
     inbox_put (NewRequest rid p)))"

definition on_submit :: "stage_config \<Rightarrow> heap \<Rightarrow> string \<Rightarrow> addr \<Rightarrow> unit stage_op" where
  "on_submit c h rid p = with_state (\<lambda>s.
     if rid \<in> st_aborted s then ret ()
     else andthen (add_active rid) (\<lambda>_. andthen (open_stream rid) (\<lambda>_. execute c h p)))"

definition receive_payload_from_stage ::
    "stage_config \<Rightarrow> heap \<Rightarrow> string \<Rightarrow> string \<Rightarrow> addr \<Rightarrow> unit stage_op" where
  "receive_payload_from_stage c h rid src p = with_state (\<lambda>s.
     if rid \<in> st_aborted s then ret ()
     else
       andthen (add_active rid) (\<lambda>_.
       andthen (open_stream rid) (\<lambda>_.
       andthen (input_receive c rid src p) (\<lambda>merged.
       case merged of None \<Rightarrow> ret () | Some q \<Rightarrow> execute c h q))))"

abbreviation receive_local_payload where
  "receive_local_payload \<equiv> receive_payload_from_stage"

section \<open>Streams\<close>

definition open_pre_payload_stream_if_allowed :: "stage_config \<Rightarrow> string \<Rightarrow> bool stage_op" where
  "open_pre_payload_stream_if_allowed c rid = with_state (\<lambda>s. case st_streams s of
     None \<Rightarrow> ret False
   | Some q \<Rightarrow>
       (if sq_has rid q then ret True
        else if \<not> sc_pre_payload c then ret False
        else andthen (add_active rid) (\<lambda>_.
          andthen (modify (\<lambda>s. s\<lparr>st_streams := Some (sq_open rid q)\<rparr>)) (\<lambda>_. ret True))))"

definition route_stream_item :: "string \<Rightarrow> addr stream_item \<Rightarrow> unit stage_op" where
  "route_stream_item rid x = inbox_put (StreamChunk rid x)"

definition route_stream_item_or_fail ::
    "stage_config \<Rightarrow> string \<Rightarrow> addr stream_item \<Rightarrow> unit stage_op" where
  "route_stream_item_or_fail c rid x =
     andthen (open_pre_payload_stream_if_allowed c rid) (\<lambda>ok.
     if ok then route_stream_item rid x
     else andthen (suppress (scheduler_abort rid)) (\<lambda>_.
       send_failure c rid (''Stage '' @ sc_name c @ '': stream chunk from '' @ si_from_stage x
         @ '' arrived before the request payload'')))"

definition queue_stream_error ::
    "stage_config \<Rightarrow> string \<Rightarrow> string \<Rightarrow> py_error \<Rightarrow> unit stage_op" where
  "queue_stream_error c rid src e = with_state (\<lambda>s.
     if rid \<in> st_aborted s then ret ()
     else andthen (suppress (scheduler_abort rid)) (\<lambda>_. send_failure c rid (error_message e)))"

definition receive_local_stream_chunk ::
    "stage_config \<Rightarrow> string \<Rightarrow> string \<Rightarrow> int \<Rightarrow> addr \<Rightarrow> pydict option \<Rightarrow> unit stage_op" where
  "receive_local_stream_chunk c rid src n d meta = with_state (\<lambda>s.
     if rid \<in> st_aborted s then ret ()
     else andthen (add_active rid) (\<lambda>_. route_stream_item_or_fail c rid
       \<lparr>si_chunk_id = n, si_data = d, si_from_stage = src, si_metadata = meta\<rparr>))"

text \<open>\<open>if error:\<close> is false for the empty string as well.\<close>

definition receive_stream_signal ::
    "stage_config \<Rightarrow> string \<Rightarrow> string \<Rightarrow> bool \<Rightarrow> string option \<Rightarrow> unit stage_op" where
  "receive_stream_signal c rid src is_done err = with_state (\<lambda>s.
     if rid \<in> st_aborted s then ret ()
     else andthen (add_active rid) (\<lambda>_.
       if err \<noteq> None \<and> err \<noteq> Some '''' then queue_stream_error c rid src (RuntimeError (the err))
       else if is_done then
         andthen (open_pre_payload_stream_if_allowed c rid) (\<lambda>ok.
         if \<not> ok
         then andthen (suppress (scheduler_abort rid)) (\<lambda>_.
           send_failure c rid (''Stage '' @ sc_name c @ '': stream_done from '' @ src
             @ '' arrived before the request payload''))
         else andthen (modify (\<lambda>s. s\<lparr>st_streams :=
               map_option (sq_put_done rid (Some src)) (st_streams s)\<rparr>)) (\<lambda>_.
           inbox_put (StreamDone rid)))
       else ret ()))"

section \<open>Data-plane messages\<close>

text \<open>
  A \<open>DataReadyMessage\<close> as the receiving stage sees it. \<open>data_ref\<close> is a direct CUDA IPC
  reference, given with what deserialising it yields, or a \<open>DataRef\<close>, given with its object id
  (or the error of parsing it or of opening its relay); the outcome of reading a relay comes
  with the step that ends the read.
\<close>

datatype wire_ref =
    NoRef
  | IpcPayload "addr result"
  | IpcChunk "(addr \<times> pydict option) result"
  | Relayed "string result"

record data_msg =
  dm_request :: string
  dm_from :: string
  dm_ref :: wire_ref
  dm_chunk :: "int option"
  dm_done :: bool
  dm_error :: "string option"

definition data_ref_from_message :: "data_msg \<Rightarrow> string result" where
  "data_ref_from_message m = (case dm_ref m of
     NoRef \<Rightarrow> Inl (ValueError ''data_ready message is missing transfer data_ref'')
   | Relayed r \<Rightarrow> r
   | _ \<Rightarrow> Inl (ValueError ''data_ref must have _type=DataRef''))"

definition send_data_ack ::
    "stage_config \<Rightarrow> data_msg \<Rightarrow> string \<Rightarrow> bool \<Rightarrow> string option \<Rightarrow> unit stage_op" where
  "send_data_ack c m obj ok err = (case sc_endpoints c (dm_from m) of
     None \<Rightarrow> raise (RuntimeError (''Stage '' @ sc_name c @ '': no endpoint configured for ack target ''
       @ dm_from m))
   | Some e \<Rightarrow> send (DataAck (dm_request m) (dm_from m) obj ok err))"

text \<open>\<open>str(exc) or type(exc).__name__\<close>.\<close>

fun error_class :: "py_error \<Rightarrow> string" where
  "error_class (TypeError m) = ''TypeError''"
| "error_class (ValueError m) = ''ValueError''"
| "error_class (KeyError m) = ''KeyError''"
| "error_class (IndexError m) = ''IndexError''"
| "error_class (RuntimeError m) = ''RuntimeError''"
| "error_class (AttributeError m) = ''AttributeError''"
| "error_class (CancelledError m) = ''CancelledError''"
| "error_class (TimeoutError m) = ''TimeoutError''"

definition error_text :: "py_error \<Rightarrow> string" where
  "error_text e = (if error_message e \<noteq> [] then error_message e else error_class e)"

text \<open>
  What a handler still has to do: the relay read of object \<open>obj\<close>, for delivery or to drain a
  message of an aborted request.
\<close>

datatype work =
    Unstarted
  | ReadPayload string
  | ReadChunk string
  | DrainPayload string
  | DrainChunk string

text \<open>What it goes on with behind the wait for its predecessor.\<close>

datatype onward =
    GivePayload addr
  | GiveChunk addr "pydict option"
  | GiveSignal
  | FailRequest string
  | FailStream py_error

text \<open>
  One part of a handler, up to the next await: it goes on working, waits for its predecessor or
  is finished.
\<close>

datatype progress = More work | Wait onward | Finished

definition begin_data_ready :: "stage_config \<Rightarrow> data_msg \<Rightarrow> progress stage_op" where
  "begin_data_ready c m = with_state (\<lambda>s.
     if dm_request m \<in> st_aborted s then
       (case dm_ref m of
          IpcPayload r \<Rightarrow> andthen (lift r) (\<lambda>_. ret Finished)
        | _ \<Rightarrow> andthen (lift (data_ref_from_message m)) (\<lambda>obj. ret (More (DrainPayload obj))))
     else
       andthen (add_active (dm_request m)) (\<lambda>_.
       andthen (open_stream (dm_request m)) (\<lambda>_.
       case dm_ref m of
         IpcPayload (Inr p) \<Rightarrow> ret (Wait (GivePayload p))
       | IpcPayload (Inl e) \<Rightarrow> ret (Wait (FailRequest
           (''direct IPC payload deserialize failed: '' @ error_message e)))
       | _ \<Rightarrow> andthen (lift (data_ref_from_message m)) (\<lambda>obj. ret (More (ReadPayload obj))))))"

definition begin_stream_chunk :: "stage_config \<Rightarrow> data_msg \<Rightarrow> progress stage_op" where
  "begin_stream_chunk c m = with_state (\<lambda>s.
     if dm_request m \<in> st_aborted s then
       (case dm_ref m of
          IpcChunk r \<Rightarrow> andthen (lift r) (\<lambda>_. ret Finished)
        | _ \<Rightarrow> (if dm_chunk m = None
            then raise (ValueError ''stream chunk discard requires chunk_id'')
            else andthen (lift (data_ref_from_message m)) (\<lambda>obj. ret (More (DrainChunk obj)))))
     else
       andthen (add_active (dm_request m)) (\<lambda>_.
       case dm_ref m of
         IpcChunk (Inr (d, meta)) \<Rightarrow> ret (Wait (GiveChunk d meta))
       | IpcChunk (Inl e) \<Rightarrow> ret (Wait (FailStream e))
       | _ \<Rightarrow> andthen (lift (data_ref_from_message m)) (\<lambda>obj. ret (More (ReadChunk obj)))))"

text \<open>\<open>_schedule_receive_task\<close> chooses the handler by the kind of message.\<close>

definition begin_handler :: "stage_config \<Rightarrow> data_msg \<Rightarrow> progress stage_op" where
  "begin_handler c m =
     (if dm_done m \<or> dm_error m \<noteq> None then ret (Wait GiveSignal)
      else if dm_chunk m \<noteq> None then begin_stream_chunk c m
      else begin_data_ready c m)"

text \<open>The end of a relay read: \<open>r\<close> is what the relay delivered.\<close>

definition payload_read ::
    "stage_config \<Rightarrow> data_msg \<Rightarrow> string \<Rightarrow> addr result \<Rightarrow> progress stage_op" where
  "payload_read c m obj r = (case r of
     Inl e \<Rightarrow>
       andthen (send_data_ack c m obj False (Some (error_text e))) (\<lambda>_.
       andthen (comm_cleanup (dm_request m)) (\<lambda>_.
       ret (Wait (FailRequest (''relay read failed: '' @ error_message e)))))
   | Inr p \<Rightarrow>
       andthen (send_data_ack c m obj True None) (\<lambda>_. ret (Wait (GivePayload p))))"

definition chunk_read ::
    "stage_config \<Rightarrow> data_msg \<Rightarrow> string \<Rightarrow> (addr \<times> pydict option) result \<Rightarrow> progress stage_op" where
  "chunk_read c m obj r = (case r of
     Inl e \<Rightarrow>
       andthen (send_data_ack c m obj False (Some (error_text e))) (\<lambda>_. ret (Wait (FailStream e)))
   | Inr (d, meta) \<Rightarrow>
       andthen (send_data_ack c m obj True None) (\<lambda>_. ret (Wait (GiveChunk d meta))))"

definition payload_drained ::
    "stage_config \<Rightarrow> data_msg \<Rightarrow> string \<Rightarrow> addr result \<Rightarrow> progress stage_op" where
  "payload_drained c m obj r = (case r of
     Inl e \<Rightarrow>
       andthen (send_data_ack c m obj False (Some (error_text e))) (\<lambda>_.
       andthen (comm_cleanup (dm_request m)) (\<lambda>_. ret Finished))
   | Inr p \<Rightarrow> andthen (send_data_ack c m obj True None) (\<lambda>_. ret Finished))"

definition chunk_drained ::
    "stage_config \<Rightarrow> data_msg \<Rightarrow> string \<Rightarrow> (addr \<times> pydict option) result \<Rightarrow> progress stage_op" where
  "chunk_drained c m obj r = (case r of
     Inl e \<Rightarrow>
       andthen (send_data_ack c m obj False (Some (error_text e))) (\<lambda>_. ret Finished)
   | Inr x \<Rightarrow> andthen (send_data_ack c m obj True None) (\<lambda>_. ret Finished))"

text \<open>The part of each handler behind the wait for the predecessor.\<close>

definition hand_onward :: "stage_config \<Rightarrow> heap \<Rightarrow> data_msg \<Rightarrow> onward \<Rightarrow> unit stage_op" where
  "hand_onward c h m o' = (case o' of
     GivePayload p \<Rightarrow> receive_payload_from_stage c h (dm_request m) (dm_from m) p
   | GiveChunk d meta \<Rightarrow> with_state (\<lambda>s.
       if dm_request m \<in> st_aborted s then ret ()
       else route_stream_item_or_fail c (dm_request m)
         \<lparr>si_chunk_id = the (dm_chunk m), si_data = d, si_from_stage = dm_from m, si_metadata = meta\<rparr>)
   | GiveSignal \<Rightarrow> receive_stream_signal c (dm_request m) (dm_from m) (dm_done m) (dm_error m)
   | FailRequest err \<Rightarrow> send_failure c (dm_request m) err
   | FailStream e \<Rightarrow> queue_stream_error c (dm_request m) (dm_from m) e)"

section \<open>Aborts, crashes and background tasks\<close>

text \<open>
  The scheduler's \<open>abort\<close> is the last statement of \<open>_on_abort\<close>; what it may raise is \<open>abort_error\<close>.
\<close>

definition on_abort :: "stage_config \<Rightarrow> py_error option \<Rightarrow> string \<Rightarrow> unit stage_op" where
  "on_abort c abort_error rid =
     andthen (record_aborted_request_id c rid) (\<lambda>_.
     andthen (comm_cleanup rid) (\<lambda>_.
     andthen (clear_request_state c rid) (\<lambda>_.
     andthen (scheduler_abort rid) (\<lambda>_.
     case abort_error of None \<Rightarrow> ret () | Some e \<Rightarrow> raise e))))"

definition abort_listener_step :: "stage_config \<Rightarrow> py_error option \<Rightarrow> string \<Rightarrow> unit stage_op" where
  "abort_listener_step c abort_error rid =
     andthen (if sc_role c = Leader \<and> sc_tp_fanout c then send (FanoutAbort rid) else ret ()) (\<lambda>_.
     on_abort c abort_error rid)"

text \<open>\<open>order\<close> lists the active requests as the set iterates.\<close>

definition handle_scheduler_crash :: "stage_config \<Rightarrow> py_error \<Rightarrow> unit stage_op" where
  "handle_scheduler_crash c e = with_state (\<lambda>s.
     if st_crash_error s \<noteq> None then ret ()
     else
       andthen (modify (\<lambda>s. s\<lparr>st_crash_error := Some e\<rparr>)) (\<lambda>_.
       if \<not> owns_external_io c then modify (\<lambda>s. s\<lparr>st_control_closed := True\<rparr>)
       else
         andthen (for_each
           (\<lambda>rid. andthen (suppress (scheduler_abort rid)) (\<lambda>_.
              andthen (send_failure c rid (''scheduler crashed: '' @ error_message e)) (\<lambda>_.
              suppress (comm_cleanup rid))))
           (filter (\<lambda>rid. rid \<notin> st_aborted s) (sc_set_order c (st_active s)))) (\<lambda>_.
         modify (\<lambda>s. s\<lparr>st_control_closed := True\<rparr>))))"

definition on_background_task_done :: "py_error option \<Rightarrow> unit stage_op" where
  "on_background_task_done err = modify (\<lambda>s. case err of
     None \<Rightarrow> s
   | Some e \<Rightarrow> s\<lparr>st_task_error := (if st_task_error s = None then Some e else st_task_error s),
       st_running := False, st_control_closed := True\<rparr>)"

end
