(* ===== verification/Stage_Route.thy ===== *)
theory Stage_Route
  imports Stage_State "HOL-Library.List_Lexorder" "HOL-Library.Char_ord"
begin

text \<open>
  A pipeline stage, part 2: the sending half of \<open>sglang_omni/pipeline/stage/runtime.py\<close> (results,
  stream chunks and signals), the outbox drain of a leader and of a tensor-parallel follower, and
  the dispatcher between stages of one process (\<open>sglang_omni/pipeline/local_dispatch.py\<close>).
\<close>

section \<open>Dispatch inside the process\<close>

text \<open>
  \<open>sc_registered c\<close> is the set of stage names known to the \<open>LocalStageDispatcher\<close>, \<open>None\<close> for a
  stage without one. The receiving stage's handler (\<open>receive_local_payload\<close> and the others of
  \<^theory_text>\<open>Stage_State\<close>) runs on the object that is logged here.
\<close>

definition local_dispatch :: "stage_config \<Rightarrow> string \<Rightarrow> stage_out \<Rightarrow> unit stage_op" where
  "local_dispatch c target m = (case sc_registered c of
     None \<Rightarrow> raise (RuntimeError (''Stage '' @ sc_name c @ '': same-process target '' @ target
       @ '' requires a local dispatcher''))
   | Some names \<Rightarrow>
       (if target \<in> names then send m
        else raise (RuntimeError (''Local stage target '' @ target @ '' is not registered''))))"

definition endpoint_of :: "stage_config \<Rightarrow> string \<Rightarrow> string result" where
  "endpoint_of c target = (case sc_endpoints c target of
     None \<Rightarrow> Inl (RuntimeError (''Stage '' @ sc_name c @ '': no endpoint configured for target '' @ target))
   | Some e \<Rightarrow> Inr e)"

section \<open>Which path the stream of a request has taken\<close>

definition targets_of :: "(string \<rightharpoonup> string set) \<Rightarrow> string \<Rightarrow> string set" where
  "targets_of m rid = (case m rid of None \<Rightarrow> {} | Some ts \<Rightarrow> ts)"

definition record_local_stream_target :: "string \<Rightarrow> string \<Rightarrow> unit stage_op" where
  "record_local_stream_target rid target = modify (\<lambda>s. s\<lparr>st_local_targets :=
     (st_local_targets s)(rid \<mapsto> insert target (targets_of (st_local_targets s) rid))\<rparr>)"

definition record_nonlocal_stream_target :: "string \<Rightarrow> string \<Rightarrow> unit stage_op" where
  "record_nonlocal_stream_target rid target = modify (\<lambda>s. s\<lparr>st_nonlocal_targets :=
     (st_nonlocal_targets s)(rid \<mapsto> insert target (targets_of (st_nonlocal_targets s) rid))\<rparr>)"

definition can_send_full_payload_locally :: "string \<Rightarrow> string \<Rightarrow> string set \<Rightarrow> stage \<Rightarrow> bool" where
  "can_send_full_payload_locally rid target stream_targets s =
     (if target \<in> targets_of (st_nonlocal_targets s) rid then False
      else if target \<notin> stream_targets then True
      else target \<in> targets_of (st_local_targets s) rid)"

section \<open>Stream chunks and signals\<close>

definition next_chunk_id :: "string \<Rightarrow> string \<Rightarrow> int stage_op" where
  "next_chunk_id rid target = with_state (\<lambda>s.
     let n = (case st_counters s (rid, target) of None \<Rightarrow> 0 | Some n \<Rightarrow> n) in
     andthen (modify (\<lambda>s. s\<lparr>st_counters := (st_counters s)((rid, target) \<mapsto> n + 1),
       st_first_seen := insert rid (st_first_seen s)\<rparr>)) (\<lambda>_. ret n))"

definition send_stream_to_target ::
    "stage_config \<Rightarrow> heap \<Rightarrow> string \<Rightarrow> addr \<Rightarrow> string \<Rightarrow> pydict option \<Rightarrow> unit stage_op" where
  "send_stream_to_target c h rid d target meta =
     (if \<not> owns_external_io c then ret ()
      else andthen (lift (endpoint_of c target)) (\<lambda>_.
        andthen (next_chunk_id rid target) (\<lambda>n.
        if target \<in> sc_same_process c then
          (if sc_registered c = None
           then raise (RuntimeError (''same-process stream target '' @ target @ '' requires a local dispatcher''))
           else andthen (record_local_stream_target rid target) (\<lambda>_.
             local_dispatch c target (LocalChunk rid target n d meta)))
        else andthen (record_nonlocal_stream_target rid target) (\<lambda>_.
          case obj_at h d of
            OTensor dev \<Rightarrow>
              (if dev = ''cuda'' \<and> can_use_direct_cuda_ipc (sc_router c) target
               then andthen (lift (sc_direct_ref c d)) (\<lambda>ref. send (DirectChunk rid target ref n))
               else andthen (lift (outbound_stream (sc_router c) target (OTensor dev))) (\<lambda>kind.
                 andthen (lift (build_relay (sc_router c) kind)) (\<lambda>_.
                 send (RelayChunk rid target kind n d meta))))
          | other \<Rightarrow> raise (TypeError (''relay-backed stream chunks must be torch.Tensor, got ''
              @ obj_type_name other))))))"

definition send_stream_signal_to_target ::
    "stage_config \<Rightarrow> string \<Rightarrow> string \<Rightarrow> bool \<Rightarrow> string option \<Rightarrow> unit stage_op" where
  "send_stream_signal_to_target c rid target is_done err =
     (if \<not> owns_external_io c then ret ()
      else andthen (lift (endpoint_of c target)) (\<lambda>_.
        if target \<in> sc_same_process c then
          (if sc_registered c = None
           then raise (RuntimeError (''same-process stream target '' @ target @ '' requires a local dispatcher''))
           else andthen (record_local_stream_target rid target) (\<lambda>_.
             local_dispatch c target (LocalSignal rid target is_done err)))
        else andthen (record_nonlocal_stream_target rid target) (\<lambda>_.
          send (StreamSignal rid target is_done err))))"

text \<open>
  \<open>modality\<close> is the entry of the metadata, or of the chunk when that is a dictionary:
  \<open>chunk_modality\<close> is its value there.
\<close>

definition stream_modality :: "pydict option \<Rightarrow> pyval \<Rightarrow> pyval" where
  "stream_modality meta chunk_modality =
     (let m = (case meta of None \<Rightarrow> PNone | Some d \<Rightarrow> dget d ''modality'') in
      if m = PNone then chunk_modality else m)"

definition send_stream_to_coordinator ::
    "stage_config \<Rightarrow> string \<Rightarrow> addr \<Rightarrow> pydict option \<Rightarrow> pyval \<Rightarrow> unit stage_op" where
  "send_stream_to_coordinator c rid d meta chunk_modality =
     (if \<not> sc_terminal c
      then raise (RuntimeError (''Stage '' @ sc_name c
        @ '' emitted untargeted stream chunk but is not terminal''))
      else if \<not> owns_external_io c then ret ()
      else with_state (\<lambda>s.
        if rid \<in> st_aborted s then ret ()
        else andthen (next_chunk_id rid ''coordinator'') (\<lambda>n.
          send (StreamToCoordinator rid d n (stream_modality meta chunk_modality)))))"

section \<open>Payloads\<close>

definition projected_for :: "stage_config \<Rightarrow> string \<Rightarrow> addr \<Rightarrow> addr result" where
  "projected_for c target p = (case sc_project c target of None \<Rightarrow> Inr p | Some f \<Rightarrow> f p)"

text \<open>
  Serialising for direct CUDA IPC may fail because a tensor came from another process; then, and
  only then, the relay is used.
\<close>

definition foreign_tensor :: "py_error \<Rightarrow> bool" where
  "foreign_tensor e = (case e of
     RuntimeError m \<Rightarrow> substring ''received from another process'' m | _ \<Rightarrow> False)"

definition send_by_relay ::
    "stage_config \<Rightarrow> heap \<Rightarrow> string \<Rightarrow> string \<Rightarrow> addr \<Rightarrow> unit stage_op" where
  "send_by_relay c h rid target p =
     andthen (lift (outbound_payload (sc_router c) h target p)) (\<lambda>kind.
     andthen (lift (build_relay (sc_router c) kind)) (\<lambda>_.
     case obj_at h p of
       OPayload r q d \<Rightarrow> send (RelayPayload rid target kind p)
     | other \<Rightarrow> raise (TypeError (''send_payload expects StagePayload, got '' @ obj_type_name other))))"

definition send_to_stage ::
    "stage_config \<Rightarrow> heap \<Rightarrow> string \<Rightarrow> string \<Rightarrow> addr \<Rightarrow> bool \<Rightarrow> bool \<Rightarrow> string set \<Rightarrow> unit stage_op" where
  "send_to_stage c h rid target p allow_local allow_projected stream_targets =
     (if \<not> owns_external_io c
      then raise (RuntimeError (''Follower stage '' @ sc_name c @ '' cannot send downstream data''))
      else andthen (lift (endpoint_of c target)) (\<lambda>_.
        andthen (lift (projected_for c target p)) (\<lambda>proj.
        andthen (lift (if allow_local then Inr True
                       else if allow_projected
                       then is_isolated_projected_payload h p proj (sc_project c target \<noteq> None)
                       else Inr False)) (\<lambda>use_local.
        with_state (\<lambda>s.
          if use_local \<and> target \<in> sc_same_process c \<and>
             can_send_full_payload_locally rid target stream_targets s
          then local_dispatch c target (LocalPayload rid target proj)
          else if \<not> sc_disable_direct_ipc c \<and> can_use_direct_cuda_ipc (sc_router c) target \<and>
             contains_cuda_tensor h proj
          then (case sc_direct_ref c proj of
              Inr ref \<Rightarrow> send (DirectPayload rid target ref)
            | Inl e \<Rightarrow> (if foreign_tensor e then send_by_relay c h rid target proj else raise e))
          else send_by_relay c h rid target proj)))))"

text \<open>Which targets get the stream-done signal of a finished request.\<close>

definition done_targets :: "stage_config \<Rightarrow> string \<Rightarrow> addr \<Rightarrow> string list result" where
  "done_targets c rid p = (case sc_stream_done_targets c of
     None \<Rightarrow> Inr (sc_stream_targets c)
   | Some f \<Rightarrow> bindE (f rid p) (\<lambda>t. Inr (target_list t)))"

definition result_data :: "heap \<Rightarrow> addr \<Rightarrow> addr" where
  "result_data h p = (case obj_at h p of OPayload r q d \<Rightarrow> d | _ \<Rightarrow> p)"

definition route_result :: "stage_config \<Rightarrow> heap \<Rightarrow> string \<Rightarrow> addr \<Rightarrow> unit stage_op" where
  "route_result c h rid p =
     (if \<not> owns_external_io c then clear_request_state c rid
      else
        andthen (lift (done_targets c rid p)) (\<lambda>ts.
        andthen (for_each (\<lambda>t. send_stream_signal_to_target c rid t True None) ts) (\<lambda>_.
        andthen (lift (sc_get_next c rid p)) (\<lambda>next.
        andthen (if next = NoTarget then send (CompleteOk rid (result_data h p))
                 else for_each (\<lambda>t. send_to_stage c h rid t p
                     (length (target_list next) = 1) (length (target_list next) \<noteq> 1) (set ts))
                   (target_list next)) (\<lambda>_.
        clear_request_state c rid)))))"

section \<open>The outbox\<close>

text \<open>\<open>OutgoingMessage\<close> of \<open>sglang_omni/scheduling/messages.py\<close>.\<close>

datatype outgoing =
    OutResult string addr
  | OutStream string addr "string option" "pydict option" pyval
  | OutError string string

fun out_request :: "outgoing \<Rightarrow> string" where
  "out_request (OutResult rid p) = rid"
| "out_request (OutStream rid d t meta cm) = rid"
| "out_request (OutError rid err) = rid"

definition drain_external :: "stage_config \<Rightarrow> heap \<Rightarrow> outgoing \<Rightarrow> unit stage_op" where
  "drain_external c h out = with_state (\<lambda>s.
     if out_request out \<notin> st_active s then ret ()
     else case out of
       OutResult rid p \<Rightarrow> route_result c h rid p
     | OutStream rid d None meta cm \<Rightarrow>
         (if sc_stream_targets c \<noteq> []
          then gather (\<lambda>t. send_stream_to_target c h rid d t meta) (sc_stream_targets c)
          else send_stream_to_coordinator c rid d meta cm)
     | OutStream rid d (Some t) meta cm \<Rightarrow> send_stream_to_target c h rid d t meta
     | OutError rid err \<Rightarrow> send_failure c rid err)"

definition drain_follower :: "stage_config \<Rightarrow> outgoing \<Rightarrow> unit stage_op" where
  "drain_follower c out = (case out of
     OutResult rid p \<Rightarrow> clear_request_state c rid
   | OutStream rid d t meta cm \<Rightarrow> ret ()
   | OutError rid err \<Rightarrow> raise (RuntimeError (''TP follower stage '' @ sc_name c
       @ '' received scheduler error: '' @ err)))"

definition drain_outbox :: "stage_config \<Rightarrow> heap \<Rightarrow> outgoing \<Rightarrow> unit stage_op" where
  "drain_outbox c h out =
     (if owns_external_io c then drain_external c h out else drain_follower c out)"

section \<open>Steps of a stage\<close>

text \<open>
  One entry per way in which control reaches the stage. The receive tasks and their lanes are
  added in \<^theory_text>\<open>Stage_System\<close>.
\<close>

datatype event =
    Submit string addr
  | Work addr
  | LocalPayloadIn string string addr
  | LocalChunkIn string string int addr "pydict option"
  | LocalSignalIn string string bool "string option"
  | BeginReceive data_msg
  | PayloadRead data_msg string "addr result"
  | ChunkRead data_msg string "(addr \<times> pydict option) result"
  | PayloadDrained data_msg string "addr result"
  | ChunkDrained data_msg string "(addr \<times> pydict option) result"
  | HandOnward data_msg onward
  | Abort string "py_error option"
  | Outbox outgoing
  | Crash py_error
  | TaskDone "py_error option"

definition forget :: "'a stage_op \<Rightarrow> unit stage_op" where
  "forget m = andthen m (\<lambda>_. ret ())"

fun stage_step :: "stage_config \<Rightarrow> heap \<Rightarrow> event \<Rightarrow> unit stage_op" where
  "stage_step c h (Submit rid p) = on_submit c h rid p"
| "stage_step c h (Work p) = execute c h p"
| "stage_step c h (LocalPayloadIn rid src p) = receive_local_payload c h rid src p"
| "stage_step c h (LocalChunkIn rid src n d meta) = receive_local_stream_chunk c rid src n d meta"
| "stage_step c h (LocalSignalIn rid src dn err) = receive_stream_signal c rid src dn err"
| "stage_step c h (BeginReceive m) = forget (begin_handler c m)"
| "stage_step c h (PayloadRead m obj r) = forget (payload_read c m obj r)"
| "stage_step c h (ChunkRead m obj r) = forget (chunk_read c m obj r)"
| "stage_step c h (PayloadDrained m obj r) = forget (payload_drained c m obj r)"
| "stage_step c h (ChunkDrained m obj r) = forget (chunk_drained c m obj r)"
| "stage_step c h (HandOnward m o') = hand_onward c h m o'"
| "stage_step c h (Abort rid err) = abort_listener_step c err rid"
| "stage_step c h (Outbox out) = drain_outbox c h out"
| "stage_step c h (Crash e) = handle_scheduler_crash c e"
| "stage_step c h (TaskDone err) = on_background_task_done err"

fun stage_run :: "stage_config \<Rightarrow> (heap \<times> event) list \<Rightarrow> stage \<Rightarrow> stage" where
  "stage_run c [] s = s"
| "stage_run c ((h, e) # es) s = stage_run c es (snd (stage_step c h e s))"

section \<open>An example\<close>

text \<open>
  A thinker that streams to a talker in its own process and hands its result to the talker and,
  through a relay, to a decoder in another process.
\<close>

definition demo_stage :: stage_config where
  "demo_stage = \<lparr>sc_name = ''thinker'', sc_role = Single,
     sc_endpoints = [''talker'' \<mapsto> ''ipc://t'', ''decode'' \<mapsto> ''ipc://d''],
     sc_get_next = (\<lambda>rid p. Inr (ManyTargets [''talker'', ''decode''])),
     sc_stream_done_targets = None, sc_project = [''talker'' \<mapsto> (\<lambda>p. Inr 3)],
     sc_stream_targets = [''talker''], sc_same_process = {''talker''},
     sc_registered = Some {''talker''}, sc_fan_in = None, sc_pre_payload = False,
     sc_disable_direct_ipc = False, sc_tp_fanout = False, sc_requires_work_fanout = False,
     sc_terminal = False, sc_router = make_router ''thinker'' None None {''talker''} {} Map.empty {} [],
     sc_direct_ref = (\<lambda>p. Inr 0), sc_set_order = sorted_list_of_set\<rparr>"

text \<open>
  Payload 0 has the data dictionary 1 with a tensor; payload 3 is its projection, with a
  dictionary 4 of its own over the same tensor.
\<close>

definition demo_objects :: heap where
  "demo_objects = [(0, OPayload ''a'' 9 1), (1, ODict [2]), (2, OTensor ''cpu''),
     (3, OPayload ''a'' 9 4), (4, ODict [2])]"

lemma demo_stage_simps [simp]:
  "owns_external_io demo_stage"
  "set_order (sc_set_order demo_stage)"
  "sc_name demo_stage = ''thinker''"
  "sc_role demo_stage = Single"
  "sc_endpoints demo_stage = [''talker'' \<mapsto> ''ipc://t'', ''decode'' \<mapsto> ''ipc://d'']"
  "sc_get_next demo_stage = (\<lambda>rid p. Inr (ManyTargets [''talker'', ''decode'']))"
  "sc_stream_done_targets demo_stage = None"
  "sc_project demo_stage = [''talker'' \<mapsto> (\<lambda>p. Inr 3)]"
  "sc_stream_targets demo_stage = [''talker'']"
  "sc_same_process demo_stage = {''talker''}"
  "sc_registered demo_stage = Some {''talker''}"
  "sc_fan_in demo_stage = None"
  "\<not> sc_pre_payload demo_stage"
  "\<not> sc_terminal demo_stage"
  "sc_router demo_stage = make_router ''thinker'' None None {''talker''} {} Map.empty {} []"
  by (simp_all add: demo_stage_def owns_external_io_def set_order_sorted)

lemma demo_objects_simps [simp]:
  "obj_at demo_objects 0 = OPayload ''a'' 9 1"
  "obj_at demo_objects (Suc 0) = ODict [2]"
  "obj_at demo_objects 2 = OTensor ''cpu''"
  "obj_at demo_objects 3 = OPayload ''a'' 9 4"
  "obj_at demo_objects 4 = ODict [2]"
  by (simp_all add: demo_objects_def obj_at_def)

end
