(* ===== verification/Stage_Tables.thy ===== *)
theory Stage_Tables
  imports Stage_Route
begin

text \<open>
  What a stage keeps per request: every table mentions active requests only, aborted requests
  are inert, and a scheduler crash fails every active request once.
\<close>

section \<open>Tables mention active requests only\<close>

text \<open>Some table of the stage has an entry for the request.\<close>

definition held :: "stage_config \<Rightarrow> stage \<Rightarrow> string \<Rightarrow> bool" where
  "held c s r \<longleftrightarrow>
     (case st_streams s of None \<Rightarrow> False | Some q \<Rightarrow> sq_queues q r \<noteq> None) \<or>
     (sc_fan_in c \<noteq> None \<and> agg_entry (st_input s) r \<noteq> (None, None)) \<or>
     (\<exists>t. st_counters s (r, t) \<noteq> None) \<or> r \<in> st_first_seen s \<or>
     st_local_targets s r \<noteq> None \<or> st_nonlocal_targets s r \<noteq> None"

definition active_only :: "stage_config \<Rightarrow> stage \<Rightarrow> bool" where
  "active_only c s \<longleftrightarrow> (\<forall>r. held c s r \<longrightarrow> r \<in> st_active s)"

definition active_with :: "stage_config \<Rightarrow> string \<Rightarrow> stage \<Rightarrow> bool" where
  "active_with c rid s \<longleftrightarrow> active_only c s \<and> rid \<in> st_active s"

lemma active_withD: "active_with c rid s \<Longrightarrow> active_only c s"
  by (simp add: active_with_def)

text \<open>Updates of the fields that the predicates do not read.\<close>

lemma held_frame [simp]:
  "held c (s\<lparr>st_running := b\<rparr>) = held c s"
  "held c (s\<lparr>st_aborted := A\<rparr>) = held c s"
  "held c (s\<lparr>st_active := B\<rparr>) = held c s"
  "held c (s\<lparr>st_inbox := xs\<rparr>) = held c s"
  "held c (s\<lparr>st_sent := ys\<rparr>) = held c s"
  "held c (s\<lparr>st_scheduler_aborts := zs\<rparr>) = held c s"
  "held c (s\<lparr>st_comm_cleanups := zs\<rparr>) = held c s"
  "held c (s\<lparr>st_crash_error := e\<rparr>) = held c s"
  "held c (s\<lparr>st_task_error := e\<rparr>) = held c s"
  "held c (s\<lparr>st_control_closed := b\<rparr>) = held c s"
  by (simp_all add: fun_eq_iff held_def)

lemma held_put_done [simp]:
  "held c (s\<lparr>st_streams := map_option (sq_put_done rid src) (st_streams s)\<rparr>) = held c s"
proof -
  have "sq_queues (sq_put_done rid src q) = sq_queues q" for q :: "addr stream_queue"
    by (simp add: sq_put_done_def put_nowait_def split: option.split)
  then show ?thesis by (cases "st_streams s") (simp_all add: held_def fun_eq_iff)
qed

text \<open>What the operations of the tables do to \<^const>\<open>held\<close>.\<close>

lemma queues_open: "r \<noteq> rid \<Longrightarrow> sq_queues (sq_open rid q) r = sq_queues q r"
  by (auto simp: sq_open_def Let_def)

lemma queues_close:
  "sq_queues (sq_close ord rid q) r = (if r = rid then None else sq_queues q r)"
  by (auto simp: sq_close_def Let_def put_nowait_def split: option.splits)

lemma held_open:
  "held c (s\<lparr>st_streams := Some (sq_open rid q)\<rparr>) r \<Longrightarrow> st_streams s = Some q \<Longrightarrow>
     r = rid \<or> held c s r"
  "held c (s\<lparr>st_active := B, st_streams := Some (sq_open rid q)\<rparr>) r \<Longrightarrow> st_streams s = Some q \<Longrightarrow>
     r = rid \<or> held c s r"
  by (cases "r = rid"; auto simp: held_def queues_open)+

lemma held_input:
  "held c (s\<lparr>st_input := snd (agg_receive f rid src p (st_input s))\<rparr>) r \<Longrightarrow> r = rid \<or> held c s r"
  using aggregated.receive_frame [of r rid f src p "st_input s"] by (auto simp: held_def)

lemma held_counter:
  "held c (s\<lparr>st_counters := (st_counters s)((rid, t) \<mapsto> n), st_first_seen := insert rid (st_first_seen s)\<rparr>) r
     \<Longrightarrow> r = rid \<or> held c s r"
  by (auto simp: held_def)

lemma held_targets:
  "held c (s\<lparr>st_local_targets := (st_local_targets s)(rid \<mapsto> T)\<rparr>) r \<Longrightarrow> r = rid \<or> held c s r"
  "held c (s\<lparr>st_nonlocal_targets := (st_nonlocal_targets s)(rid \<mapsto> T)\<rparr>) r \<Longrightarrow> r = rid \<or> held c s r"
  by (auto simp: held_def)

lemma clear_request_state_ok [simp]: "fst (clear_request_state c rid s) = Inr ()"
  by (simp add: clear_request_state_def)

lemma clear_then [simp]:
  "andthen (clear_request_state c rid) f s = f () (snd (clear_request_state c rid s))"
  by (rule andthen_eval(2)) (simp add: prod_eq_iff)

lemma input_cancel_simps [simp]:
  "st_active (input_cancel c rid s) = st_active s"
  "st_streams (input_cancel c rid s) = st_streams s"
  "st_counters (input_cancel c rid s) = st_counters s"
  "st_first_seen (input_cancel c rid s) = st_first_seen s"
  "st_local_targets (input_cancel c rid s) = st_local_targets s"
  "st_nonlocal_targets (input_cancel c rid s) = st_nonlocal_targets s"
  "st_aborted (input_cancel c rid s) = st_aborted s"
  "st_inbox (input_cancel c rid s) = st_inbox s"
  "st_sent (input_cancel c rid s) = st_sent s"
  "st_scheduler_aborts (input_cancel c rid s) = st_scheduler_aborts s"
  "st_comm_cleanups (input_cancel c rid s) = st_comm_cleanups s"
  "st_crash_error (input_cancel c rid s) = st_crash_error s"
  "st_task_error (input_cancel c rid s) = st_task_error s"
  "st_running (input_cancel c rid s) = st_running s"
  "st_control_closed (input_cancel c rid s) = st_control_closed s"
  by (simp_all add: input_cancel_def split: option.split)

lemma held_clear [simp]:
  "held c (snd (clear_request_state c rid s)) r \<longleftrightarrow> r \<noteq> rid \<and> held c s r"
proof (cases "r = rid")
  case True
  then show ?thesis
    by (auto simp: held_def clear_request_state_def input_cancel_def agg_cancel_def queues_close
        agg_entry_def set_pending_def set_expected_def split: option.splits)
next
  case False
  then have "agg_entry (agg_cancel rid i) r = agg_entry i r" for i :: "addr agg_state"
    by (rule aggregated.cancel_frame)
  with False show ?thesis
    by (auto simp: held_def clear_request_state_def input_cancel_def queues_close split: option.splits)
qed

lemma clear_request_state_simps [simp]:
  "st_active (snd (clear_request_state c rid s)) = st_active s - {rid}"
  "st_aborted (snd (clear_request_state c rid s)) = st_aborted s"
  "st_inbox (snd (clear_request_state c rid s)) = st_inbox s"
  "st_sent (snd (clear_request_state c rid s)) = st_sent s"
  "st_scheduler_aborts (snd (clear_request_state c rid s)) = st_scheduler_aborts s"
  "st_comm_cleanups (snd (clear_request_state c rid s)) = st_comm_cleanups s"
  "st_crash_error (snd (clear_request_state c rid s)) = st_crash_error s"
  "st_task_error (snd (clear_request_state c rid s)) = st_task_error s"
  "st_running (snd (clear_request_state c rid s)) = st_running s"
  "st_control_closed (snd (clear_request_state c rid s)) = st_control_closed s"
  by (simp_all add: clear_request_state_def)

section \<open>Preservation\<close>

named_theorems stage_ops \<open>the one-line operations of a stage\<close>

lemmas [stage_ops] = send_def inbox_put_def scheduler_abort_def comm_cleanup_def
  record_aborted_request_id_def on_background_task_done_def route_stream_item_def

lemma simple_keeps [keeps_intros]:
  "keeps (active_only c) (send m)" "keeps (active_with c rid) (send m)"
  "keeps (active_only c) (inbox_put i)" "keeps (active_with c rid) (inbox_put i)"
  "keeps (active_only c) (scheduler_abort r)" "keeps (active_with c rid) (scheduler_abort r)"
  "keeps (active_only c) (comm_cleanup r)" "keeps (active_with c rid) (comm_cleanup r)"
  "keeps (active_only c) (record_aborted_request_id c' r)"
  "keeps (active_with c rid) (record_aborted_request_id c' r)"
  "keeps (active_only c) (on_background_task_done e)"
  "keeps (active_only c) (route_stream_item r x)"
  by (auto simp: keeps_def stage_ops active_with_def active_only_def split: option.splits)

lemma add_active_ends: "ends (active_only c) (add_active rid) (active_with c rid)"
  by (auto simp: ends_def add_active_def active_with_def active_only_def)

lemma open_stream_keeps [keeps_intros]: "keeps (active_with c rid) (open_stream rid)"
  by (auto simp: keeps_def open_stream_def active_with_def active_only_def split: option.splits
      dest: held_open)

lemma input_receive_keeps [keeps_intros]: "keeps (active_with c rid) (input_receive c' rid src p)"
  by (auto simp: keeps_def input_receive_def case_prod_beta active_with_def active_only_def
      split: option.splits dest: held_input)

lemma execute_keeps [keeps_intros]:
  "keeps (active_only c) (execute c' h p)" "keeps (active_with c rid) (execute c' h p)"
  unfolding execute_def by (intro keeps_intros)+

lemma clear_keeps [keeps_intros]: "keeps (active_only c) (clear_request_state c rid)"
  by (auto simp: keeps_def active_only_def)

lemma send_failure_keeps [keeps_intros]: "keeps (active_only c) (send_failure c rid err)"
  unfolding send_failure_def by (intro keeps_intros)

text \<open>An operation that runs with an active request may end without it.\<close>

lemma ends_active_with: "keeps (active_with c rid) m \<Longrightarrow> ends (active_with c rid) m (active_only c)"
  by (auto intro: ends_keeps active_withD)

lemma add_active_then:
  assumes "keeps (active_with c rid) (f ())"
  shows "keeps (active_only c) (andthen (add_active rid) f)"
  using add_active_ends [of c rid]
  by (auto simp: keeps_def ends_def add_active_def intro: active_withD [OF keepsD [OF assms]])

lemma add_active_then':
  assumes "keeps (active_only c) (f ())"
  shows "keeps (active_only c) (andthen (add_active rid) f)"
  using keepsD [OF assms] add_active_ends [of c rid]
  by (auto simp: keeps_def ends_def add_active_def active_withD)

lemmas enter_intros = keeps_with_state keeps_if keeps_prim

lemma on_submit_keeps: "keeps (active_only c) (on_submit c h rid p)"
  unfolding on_submit_def
  by (intro enter_intros add_active_then) (intro keeps_intros)

lemma receive_payload_keeps: "keeps (active_only c) (receive_payload_from_stage c h rid src p)"
  unfolding receive_payload_from_stage_def
  by (intro enter_intros add_active_then) (intro keeps_intros)

lemma open_pre_payload_keeps [keeps_intros]:
  "keeps (active_only c) (open_pre_payload_stream_if_allowed c' rid)"
  by (auto simp: keeps_def open_pre_payload_stream_if_allowed_def add_active_def active_only_def
      split: option.split dest: held_open)

lemma route_or_fail_keeps [keeps_intros]:
  "keeps (active_only c) (route_stream_item_or_fail c rid x)"
  unfolding route_stream_item_or_fail_def by (intro keeps_intros)

lemma queue_stream_error_keeps [keeps_intros]:
  "keeps (active_only c) (queue_stream_error c rid src e)"
  unfolding queue_stream_error_def by (intro keeps_intros)

lemma local_chunk_keeps: "keeps (active_only c) (receive_local_stream_chunk c rid src n d meta)"
  unfolding receive_local_stream_chunk_def
  by (intro enter_intros add_active_then') (intro keeps_intros)

lemma put_done_keeps [keeps_intros]:
  "keeps (active_only c) (modify (\<lambda>s. s\<lparr>st_streams := map_option (sq_put_done rid src) (st_streams s)\<rparr>))"
  by (simp add: keeps_def active_only_def)

lemma stream_signal_keeps: "keeps (active_only c) (receive_stream_signal c rid src dn err)"
  unfolding receive_stream_signal_def
  by (intro keeps_with_state keeps_if keeps_prim(1) add_active_then') (intro keeps_intros)+

lemma on_abort_keeps: "keeps (active_only c) (abort_listener_step c err rid)"
  unfolding abort_listener_step_def on_abort_def by (intro keeps_intros)

lemma next_chunk_keeps [keeps_intros]: "keeps (active_with c rid) (next_chunk_id rid target)"
  by (auto simp: keeps_def next_chunk_id_def Let_def active_with_def active_only_def
      dest: held_counter)

lemma record_target_keeps [keeps_intros]:
  "keeps (active_with c rid) (record_local_stream_target rid target)"
  "keeps (active_with c rid) (record_nonlocal_stream_target rid target)"
  by (auto simp: keeps_def record_local_stream_target_def record_nonlocal_stream_target_def
      active_with_def active_only_def dest: held_targets)

lemma local_dispatch_keeps [keeps_intros]:
  "keeps (active_with c rid) (local_dispatch c' target m)"
  unfolding local_dispatch_def by (intro keeps_intros)

lemma keeps_obj [keeps_intros]:
  "(\<And>d. keeps P (f d)) \<Longrightarrow> (\<And>other. keeps P (g other)) \<Longrightarrow>
     keeps P (case obj of OTensor d \<Rightarrow> f d | other \<Rightarrow> g other)"
  "(\<And>r q d. keeps P (k r q d)) \<Longrightarrow> (\<And>other. keeps P (g other)) \<Longrightarrow>
     keeps P (case obj of OPayload r q d \<Rightarrow> k r q d | other \<Rightarrow> g other)"
  by (cases obj; simp)+

lemma keeps_sum [keeps_intros]:
  "(\<And>e. keeps P (f e)) \<Longrightarrow> (\<And>x. keeps P (g x)) \<Longrightarrow>
     keeps P (case r of Inl e \<Rightarrow> f e | Inr x \<Rightarrow> g x)"
  by (cases r) simp_all

lemma send_stream_keeps [keeps_intros]:
  "keeps (active_with c rid) (send_stream_to_target c' h rid d target meta)"
  "keeps (active_with c rid) (send_stream_signal_to_target c' rid target dn err)"
  "keeps (active_with c rid) (send_stream_to_coordinator c' rid d meta cm)"
  unfolding send_stream_to_target_def send_stream_signal_to_target_def
    send_stream_to_coordinator_def
  by (intro keeps_intros)+

lemma send_to_stage_keeps [keeps_intros]:
  "keeps (active_with c rid) (send_to_stage c' h rid target p al ap ts)"
  unfolding send_to_stage_def send_by_relay_def by (intro keeps_intros)

lemma route_result_ends: "ends (active_with c rid) (route_result c h rid p) (active_only c)"
proof -
  have clear: "ends (active_with c rid) (clear_request_state c rid) (active_only c)"
    by (auto intro: ends_keeps [OF clear_keeps] active_withD)
  have lift: "ends (active_with c rid) (lift r) (active_with c rid)" for r :: "'b result"
    by (simp add: ends_def)
  have sig: "ends (active_with c rid) (for_each (\<lambda>t. send_stream_signal_to_target c rid t True None) ts)
      (active_with c rid)" for ts
    by (intro ends_keeps [where P = "active_with c rid"] keeps_intros)
  have out: "ends (active_with c rid) (if next = NoTarget then send m else
      for_each (\<lambda>t. send_to_stage c h rid t p (al next) (ap next) ts) xs) (active_with c rid)"
    for "next" m al ap ts xs
    by (intro ends_keeps [where P = "active_with c rid"] keeps_intros)
  show ?thesis
    unfolding route_result_def
    by (auto intro!: clear ends_andthen [OF lift] ends_andthen [OF sig] ends_andthen [OF out]
        active_withD)
qed

lemma drain_keeps: "keeps (active_only c) (drain_outbox c h out)"
proof -
  have "active_only c s \<Longrightarrow> active_only c (snd (drain_external c h out s))" for s
  proof (cases "out_request out \<in> st_active s")
    case True
    assume "active_only c s"
    with True have a: "active_with c (out_request out) s" by (simp add: active_with_def)
    show ?thesis
    proof (cases out)
      case (OutResult rid p)
      with a True route_result_ends [of c rid h p] show ?thesis
        by (simp add: drain_external_def ends_def)
    next
      case (OutStream rid d t meta cm)
      have "keeps (active_with c rid) (gather (\<lambda>t. send_stream_to_target c h rid d t meta) xs)" for xs
        by (intro keeps_intros)
      with a True OutStream show ?thesis
        by (cases t) (auto simp: drain_external_def dest: keepsD intro: active_withD
            keepsD [OF send_stream_keeps(1)] keepsD [OF send_stream_keeps(3)])
    next
      case (OutError rid err)
      with a True keepsD [OF send_failure_keeps active_withD] show ?thesis
        by (simp add: drain_external_def)
    qed
  qed (simp add: drain_external_def)
  then show ?thesis
    unfolding drain_outbox_def drain_follower_def
    by (cases out) (auto simp: keeps_def intro: keepsD [OF clear_keeps])
qed

lemma keeps_forget [keeps_intros]: "keeps P m \<Longrightarrow> keeps P (forget m)"
  unfolding forget_def by (intro keeps_intros)

lemma keeps_ref [keeps_intros]:
  assumes "keeps P n" and "\<And>r. keeps P (f r)" and "\<And>r. keeps P (g r)" and "\<And>r. keeps P (k r)"
  shows "keeps P (case x of NoRef \<Rightarrow> n | IpcPayload r \<Rightarrow> f r | IpcChunk r' \<Rightarrow> g r' | Relayed r'' \<Rightarrow> k r'')"
  using assms by (cases x) simp_all

lemma keeps_prod [keeps_intros]:
  "(\<And>a b. keeps P (f a b)) \<Longrightarrow> keeps P (case x of (a, b) \<Rightarrow> f a b)"
  by (cases x) simp

lemma begin_handler_keeps: "keeps (active_only c) (begin_handler c' m)"
  unfolding begin_handler_def begin_stream_chunk_def begin_data_ready_def
  by (intro keeps_with_state keeps_if add_active_then; (intro keeps_intros)?)

lemma read_keeps [keeps_intros]:
  "keeps (active_only c) (payload_read c' m obj r)"
  "keeps (active_only c) (chunk_read c' m obj r')"
  "keeps (active_only c) (payload_drained c' m obj r)"
  "keeps (active_only c) (chunk_drained c' m obj r')"
  unfolding payload_read_def chunk_read_def payload_drained_def chunk_drained_def send_data_ack_def
  by (intro keeps_intros)+

lemma hand_onward_keeps: "keeps (active_only c) (hand_onward c h m o')"
  unfolding hand_onward_def
  by (cases o') (auto intro!: keeps_intros receive_payload_keeps stream_signal_keeps)

lemma crash_keeps: "keeps (active_only c) (handle_scheduler_crash c e)"
  unfolding handle_scheduler_crash_def
  by (intro keeps_intros) (simp_all add: active_only_def)

lemma stage_step_keeps: "keeps (active_only c) (stage_step c h e)"
  by (cases e) (simp_all add: keeps_intros on_submit_keeps receive_payload_keeps local_chunk_keeps
      stream_signal_keeps begin_handler_keeps hand_onward_keeps on_abort_keeps drain_keeps crash_keeps)

lemma stage_run_keeps: "active_only c s \<Longrightarrow> active_only c (stage_run c es s)"
  by (induction c es s rule: stage_run.induct) (auto intro: keepsD [OF stage_step_keeps])

section \<open>A finished request leaves nothing behind\<close>

text \<open>The events that end a request at this stage, provided they do not raise.\<close>

fun ends_request :: "event \<Rightarrow> string option" where
  "ends_request (Abort rid err) = Some rid"
| "ends_request (Outbox (OutResult rid p)) = Some rid"
| "ends_request (Outbox (OutError rid err)) = Some rid"
| "ends_request (HandOnward m (FailRequest err)) = Some (dm_request m)"
| "ends_request e = None"

lemma send_failure_external:
  "owns_external_io c \<Longrightarrow> send_failure c rid err s =
     (Inr (), snd (clear_request_state c rid (s\<lparr>st_aborted :=
        cap_set (sc_set_order c) 10000 5000 (insert rid (st_aborted s)),
        st_sent := st_sent s @ [CompleteError rid err]\<rparr>)))"
  by (simp add: send_failure_def stage_ops prod_eq_iff)

lemma active_only_init: "active_only c (stage_init (if streaming then Some sq_init else None))"
  by (auto simp: active_only_def held_def stage_init_def sq_init_def agg_init_def agg_entry_def)

lemma send_failure_inactive: "rid \<notin> st_active (snd (send_failure c rid err s))"
  by (simp add: send_failure_def stage_ops)

lemma andthen_ok:
  "fst (andthen m f s) = Inr x \<Longrightarrow>
     \<exists>y. fst (m s) = Inr y \<and> andthen m f s = f y (snd (m s)) \<and> fst (f y (snd (m s))) = Inr x"
  by (auto simp: andthen_def split: sum.splits prod.splits)

lemma route_result_inactive:
  assumes "fst (route_result c h rid p s) = Inr ()"
  shows "rid \<notin> st_active (snd (route_result c h rid p s))"
  using assms unfolding route_result_def
  by (auto dest!: andthen_ok split: if_splits)

lemma end_inactive:
  assumes "fst (stage_step c h e s) = Inr ()" and "ends_request e = Some rid"
  shows "rid \<notin> st_active (snd (stage_step c h e s))"
  using assms
proof (cases e rule: ends_request.cases)
  case (1 r err)
  with assms show ?thesis
    by (auto simp: abort_listener_step_def on_abort_def stage_ops split: option.split if_splits)
next
  case (2 r p)
  with assms route_result_inactive [of c h r p s] show ?thesis
    by (auto simp: drain_outbox_def drain_external_def drain_follower_def split: if_splits)
next
  case (3 r err)
  with assms send_failure_inactive [of r c err s] show ?thesis
    by (auto simp: drain_outbox_def drain_external_def drain_follower_def split: if_splits)
next
  case (4 m err)
  with assms send_failure_inactive [of "dm_request m" c err s] show ?thesis
    by (simp add: hand_onward_def)
qed simp_all

text \<open>
  C9: once a stage has routed a result, reported a failure or handled an abort of a request, no
  table of the stage mentions the request any more (its stream queue, its collected inputs, its
  chunk counters, the record of its stream paths), in every reachable state of the stage.
\<close>

theorem finished_request_leaves_nothing:
  assumes "s = stage_run c es (stage_init (if streaming then Some sq_init else None))"
    and "fst (stage_step c h e s) = Inr ()" and "ends_request e = Some rid"
  shows "\<not> held c (snd (stage_step c h e s)) rid"
  using keepsD [OF stage_step_keeps stage_run_keeps [OF active_only_init]] assms(1)
    end_inactive [OF assms(2,3)]
  unfolding active_only_def by blast

theorem finished_request_leaves_nothing_witness:
  "\<not> held demo_stage (snd (stage_step demo_stage demo_objects (Outbox (OutError ''a'' ''oom''))
       (stage_run demo_stage [(demo_objects, Submit ''a'' 0)] (stage_init (Some sq_init))))) ''a''"
  by (rule finished_request_leaves_nothing [where streaming = True and es = "[(demo_objects, Submit ''a'' 0)]"])
    (simp_all add: drain_outbox_def drain_external_def send_failure_external)

section \<open>Aborted requests are inert\<close>









text \<open>
  The request is aborted and not active, and all requests seen so far fit into the capped set.
\<close>

definition gone :: "string set \<Rightarrow> string \<Rightarrow> stage \<Rightarrow> bool" where
  "gone U rid s \<longleftrightarrow> finite U \<and> card U \<le> 10000 \<and> st_aborted s \<subseteq> U \<and> st_active s \<subseteq> U \<and>
     rid \<in> st_aborted s \<and> rid \<notin> st_active s"

lemma gone_frame:
  "st_aborted s' = st_aborted s \<Longrightarrow> st_active s' = st_active s \<Longrightarrow> gone U rid s' = gone U rid s"
  by (simp add: gone_def)

lemma keeps_gone_frame:
  "(\<And>s. st_aborted (snd (m s)) = st_aborted s \<and> st_active (snd (m s)) = st_active s) \<Longrightarrow>
     keeps (gone U rid) m"
  by (simp add: keeps_def gone_def)

lemma gone_simple [keeps_intros]:
  "keeps (gone U rid) (send m)" "keeps (gone U rid) (inbox_put i)"
  "keeps (gone U rid) (scheduler_abort r)" "keeps (gone U rid) (comm_cleanup r)"
  "keeps (gone U rid) (open_stream r)" "keeps (gone U rid) (input_receive c r src p)"
  "keeps (gone U rid) (on_background_task_done e)" "keeps (gone U rid) (next_chunk_id r t)"
  "keeps (gone U rid) (record_local_stream_target r t)"
  "keeps (gone U rid) (record_nonlocal_stream_target r t)"
  "keeps (gone U rid) (route_stream_item r x)"
  "keeps (gone U rid) (modify (\<lambda>s. s\<lparr>st_streams := f s\<rparr>))"
  by (rule keeps_gone_frame; simp add: stage_ops open_stream_def input_receive_def
      next_chunk_id_def record_local_stream_target_def record_nonlocal_stream_target_def Let_def
      case_prod_beta split: option.split)+

lemma gone_record [keeps_intros]:
  assumes "r \<in> U"
  shows "keeps (gone U rid) (record_aborted_request_id c r)"
proof -
  have "cap_set ord 10000 5000 (insert r A) = insert r A"
    if "finite U" "card U \<le> 10000" "A \<subseteq> U" for ord and A :: "string set"
    using that assms card_mono [of U "insert r A"] by (intro cap_set_id) simp
  with assms show ?thesis by (simp add: keeps_def gone_def stage_ops)
qed

lemma gone_add [keeps_intros]:
  "r \<in> U \<Longrightarrow> r \<noteq> rid \<Longrightarrow> keeps (gone U rid) (add_active r)"
  by (auto simp: keeps_def gone_def add_active_def)

lemma gone_clear [keeps_intros]: "keeps (gone U rid) (clear_request_state c r)"
  by (auto simp: keeps_def gone_def)

lemma gone_failure [keeps_intros]: "r \<in> U \<Longrightarrow> keeps (gone U rid) (send_failure c r err)"
  unfolding send_failure_def by (intro keeps_intros)


lemma gone_execute [keeps_intros]: "keeps (gone U rid) (execute c h p)"
  unfolding execute_def by (intro keeps_intros)

lemma gone_open_pre [keeps_intros]:
  "r \<in> U \<Longrightarrow> r \<noteq> rid \<Longrightarrow> keeps (gone U rid) (open_pre_payload_stream_if_allowed c r)"
  unfolding open_pre_payload_stream_if_allowed_def by (intro keeps_intros)

lemma gone_route_or_fail [keeps_intros]:
  "r \<in> U \<Longrightarrow> r \<noteq> rid \<Longrightarrow> keeps (gone U rid) (route_stream_item_or_fail c r x)"
  unfolding route_stream_item_or_fail_def by (intro keeps_intros)

lemma gone_stream_error [keeps_intros]:
  "r \<in> U \<Longrightarrow> keeps (gone U rid) (queue_stream_error c r src e)"
  unfolding queue_stream_error_def by (intro keeps_intros)



lemma gone_reads [keeps_intros]:
  "keeps (gone U rid) (payload_read c m obj r)"
  "keeps (gone U rid) (chunk_read c m obj r')"
  "keeps (gone U rid) (payload_drained c m obj r)"
  "keeps (gone U rid) (chunk_drained c m obj r')"
  unfolding payload_read_def chunk_read_def payload_drained_def chunk_drained_def send_data_ack_def
  by (intro keeps_intros)+



lemma gone_local_dispatch [keeps_intros]: "keeps (gone U rid) (local_dispatch c t m)"
  unfolding local_dispatch_def by (intro keeps_intros)

lemma gone_sends [keeps_intros]:
  "keeps (gone U rid) (send_stream_to_target c h r d target meta)"
  "keeps (gone U rid) (send_stream_signal_to_target c r target dn err)"
  "keeps (gone U rid) (send_stream_to_coordinator c r d meta cm)"
  "keeps (gone U rid) (send_to_stage c h r target p al ap ts)"
  unfolding send_stream_to_target_def send_stream_signal_to_target_def
    send_stream_to_coordinator_def send_to_stage_def send_by_relay_def
  by (intro keeps_intros)+










section \<open>A crash of the scheduler\<close>

lemma crash_loop:
  fixes err :: string
  assumes "owns_external_io c"
  defines "f \<equiv> \<lambda>r. andthen (suppress (scheduler_abort r)) (\<lambda>_.
      andthen (send_failure c r err) (\<lambda>_. suppress (comm_cleanup r)))"
  shows "fst (for_each f xs s) = Inr () \<and>
    st_sent (snd (for_each f xs s)) = st_sent s @ map (\<lambda>r. CompleteError r err) xs \<and>
    st_scheduler_aborts (snd (for_each f xs s)) = st_scheduler_aborts s @ xs \<and>
    st_active (snd (for_each f xs s)) = st_active s - set xs \<and>
    st_crash_error (snd (for_each f xs s)) = st_crash_error s"
proof (induction xs arbitrary: s)
  case (Cons x xs)
  obtain s' where fx: "f x s = (Inr (), s')"
    using assms(1) by (simp add: f_def stage_ops send_failure_external andthen_def)
  have "st_sent (snd (f x s)) = st_sent s @ [CompleteError x err]"
    and "st_scheduler_aborts (snd (f x s)) = st_scheduler_aborts s @ [x]"
    and "st_active (snd (f x s)) = st_active s - {x}"
    and "st_crash_error (snd (f x s)) = st_crash_error s"
    using assms(1) by (simp_all add: f_def stage_ops send_failure_external andthen_def)
  with fx Cons.IH [of s'] show ?case by (auto simp: andthen_def)
qed simp

text \<open>
  when the scheduler thread crashes, the coordinator is told of exactly one failure for each
  active request that was not aborted, none of them stays active, the control plane is closed,
  and a second crash report changes nothing.
\<close>

theorem crash_fails_every_active_request:
  assumes "owns_external_io c" and "set_order (sc_set_order c)" and "finite (st_active s)"
    and "st_crash_error s = None"
  shows "\<exists>rs. distinct rs \<and> set rs = st_active s - st_aborted s \<and>
      fst (handle_scheduler_crash c e s) = Inr () \<and>
      st_sent (snd (handle_scheduler_crash c e s)) =
        st_sent s @ map (\<lambda>r. CompleteError r (''scheduler crashed: '' @ error_message e)) rs \<and>
      st_active (snd (handle_scheduler_crash c e s)) = st_active s \<inter> st_aborted s \<and>
      st_control_closed (snd (handle_scheduler_crash c e s)) \<and>
      (\<forall>e'. handle_scheduler_crash c e' (snd (handle_scheduler_crash c e s))
         = (Inr (), snd (handle_scheduler_crash c e s)))"
proof -
  let ?rs = "filter (\<lambda>r. r \<notin> st_aborted s) (sc_set_order c (st_active s))"
  have rs: "distinct ?rs" "set ?rs = st_active s - st_aborted s"
    using assms(2,3) by (auto simp: set_order_def)
  let ?f = "\<lambda>r. andthen (suppress (scheduler_abort r)) (\<lambda>_.
      andthen (send_failure c r (''scheduler crashed: '' @ error_message e)) (\<lambda>_.
      suppress (comm_cleanup r)))"
  let ?s = "s\<lparr>st_crash_error := Some e\<rparr>"
  define final where "final = snd (for_each ?f ?rs ?s)"
  note loop = crash_loop [OF assms(1), of "''scheduler crashed: '' @ error_message e" ?rs ?s,
      folded final_def]
  have "for_each ?f ?rs ?s = (Inr (), final)"
    using loop by (simp add: final_def prod_eq_iff)
  then have run: "handle_scheduler_crash c e s = (Inr (), final\<lparr>st_control_closed := True\<rparr>)"
    using assms(1,4) by (simp add: handle_scheduler_crash_def)
  have final: "st_crash_error final = Some e"
      "st_sent final = st_sent s @ map (\<lambda>r. CompleteError r (''scheduler crashed: '' @ error_message e)) ?rs"
      "st_active final = st_active s \<inter> st_aborted s"
    using loop rs by auto
  then have "handle_scheduler_crash c e' (final\<lparr>st_control_closed := True\<rparr>)
      = (Inr (), final\<lparr>st_control_closed := True\<rparr>)" for e'
    by (simp add: handle_scheduler_crash_def)
  with rs run final show ?thesis by (intro exI [of _ ?rs]) simp
qed

theorem crash_fails_every_active_request_witness:
  "\<exists>rs. distinct rs \<and> set rs = {''a'', ''b''} \<and>
     st_sent (snd (handle_scheduler_crash demo_stage (RuntimeError ''x'')
       ((stage_init None)\<lparr>st_active := {''a'', ''b''}\<rparr>)))
     = map (\<lambda>r. CompleteError r ''scheduler crashed: x'') rs"
  using crash_fails_every_active_request [of demo_stage
      "(stage_init None)\<lparr>st_active := {''a'', ''b''}\<rparr>" "RuntimeError ''x''"]
  by (auto simp: stage_init_def)

end
