(* ===== verification/Stage_Paths.thy ===== *)
theory Stage_Paths
  imports Stage_Tables
begin

text \<open>
  How results and stream chunks leave a stage. A locale collects what an invariant of the stage
  has to satisfy at the primitive operations; one interpretation gives the invariant that keeps
  a request's stream and its payload on the same path, from which routing is computed exactly.
\<close>

lemma open_stream_modify:
  "open_stream r = modify (\<lambda>s. s\<lparr>st_streams :=
     map_option (\<lambda>q. if sq_has r q then q else sq_open r q) (st_streams s)\<rparr>)"
  by (auto simp: open_stream_def fun_eq_iff split: option.split)

section \<open>Invariants of a stage\<close>

text \<open>
  \<open>P\<close> survives every primitive operation; then it survives every event. The chunks that may be
  put into the scheduler's inbox are those that satisfy \<open>chunk_ok\<close>. Local stream targets are
  recorded for stages of the same process only, the others for the rest only.
\<close>

fun event_chunk :: "event \<Rightarrow> (string \<times> addr stream_item) option" where
  "event_chunk (LocalChunkIn r src n d meta) =
     Some (r, \<lparr>si_chunk_id = n, si_data = d, si_from_stage = src, si_metadata = meta\<rparr>)"
| "event_chunk (HandOnward m (GiveChunk d meta)) = Some (dm_request m,
     \<lparr>si_chunk_id = the (dm_chunk m), si_data = d, si_from_stage = dm_from m, si_metadata = meta\<rparr>)"
| "event_chunk e = None"

locale stage_invariant =
  fixes c :: stage_config and P :: "stage \<Rightarrow> bool"
    and chunk_ok :: "string \<Rightarrow> addr stream_item \<Rightarrow> bool"
  assumes prim_log: "keeps P (send m)" "keeps P (inbox_put (NewRequest r p))"
      "keeps P (inbox_put (StreamDone r))" "keeps P (scheduler_abort r)" "keeps P (comm_cleanup r)"
    and prim_chunk: "chunk_ok r x \<Longrightarrow> keeps P (inbox_put (StreamChunk r x))"
    and prim_flags: "keeps P (on_background_task_done err)"
      "keeps P (modify (\<lambda>s. s\<lparr>st_crash_error := e\<rparr>))"
      "keeps P (modify (\<lambda>s. s\<lparr>st_control_closed := True\<rparr>))"
    and prim_active: "keeps P (add_active r)" "keeps P (record_aborted_request_id c r)"
    and prim_streams: "keeps P (modify (\<lambda>s. s\<lparr>st_streams := f s\<rparr>))"
    and prim_input: "keeps P (input_receive c r src p)"
    and prim_clear: "keeps P (clear_request_state c r)"
    and prim_counter: "keeps P (next_chunk_id r target)"
    and prim_local: "target \<in> sc_same_process c \<Longrightarrow> keeps P (record_local_stream_target r target)"
    and prim_nonlocal: "target \<notin> sc_same_process c \<Longrightarrow> keeps P (record_nonlocal_stream_target r target)"
begin

lemmas prims = prim_log prim_flags prim_active prim_streams prim_input prim_clear prim_counter
  prim_local prim_nonlocal

lemma open_stream: "keeps P (open_stream r)"
  unfolding open_stream_modify by (rule prims)

lemma fail: "keeps P (send_failure c r err)"
  unfolding send_failure_def by (intro keeps_intros prims)

lemma exec: "keeps P (execute c h p)"
  unfolding execute_def by (intro keeps_if keeps_andthen keeps_prim prims)

lemma pre_payload: "keeps P (open_pre_payload_stream_if_allowed c r)"
  unfolding open_pre_payload_stream_if_allowed_def
  by (intro keeps_with_state keeps_option keeps_if keeps_andthen prims keeps_prim(1))

lemma stream_in:
  "chunk_ok r x \<Longrightarrow> keeps P (route_stream_item_or_fail c r x)"
  "keeps P (queue_stream_error c r src e)"
  unfolding route_stream_item_or_fail_def queue_stream_error_def route_stream_item_def
  by (intro keeps_with_state keeps_if keeps_andthen keeps_suppress prims prim_chunk keeps_prim(1)
      pre_payload fail; assumption)+

lemma deliveries:
  "keeps P (on_submit c h r p)" "keeps P (receive_payload_from_stage c h r src p)"
  "chunk_ok r \<lparr>si_chunk_id = n, si_data = d, si_from_stage = src, si_metadata = meta\<rparr> \<Longrightarrow>
     keeps P (receive_local_stream_chunk c r src n d meta)"
  "keeps P (receive_stream_signal c r src dn err)"
  unfolding on_submit_def receive_payload_from_stage_def receive_local_stream_chunk_def
    receive_stream_signal_def
  by (intro keeps_with_state keeps_option keeps_if keeps_andthen keeps_suppress prims keeps_prim(1)
      pre_payload fail open_stream exec stream_in; assumption)+

lemma reads:
  "keeps P (begin_handler c m)" "keeps P (payload_read c m obj r)" "keeps P (chunk_read c m obj r')"
  "keeps P (payload_drained c m obj r)" "keeps P (chunk_drained c m obj r')"
  unfolding begin_handler_def begin_stream_chunk_def begin_data_ready_def payload_read_def
    chunk_read_def payload_drained_def chunk_drained_def send_data_ack_def
  by (intro keeps_with_state keeps_option keeps_sum keeps_prod keeps_ref keeps_if keeps_andthen
      prims keeps_prim(1-3) open_stream)+

lemma onward:
  "(\<And>d meta. o' = GiveChunk d meta \<Longrightarrow> chunk_ok (dm_request m)
      \<lparr>si_chunk_id = the (dm_chunk m), si_data = d, si_from_stage = dm_from m, si_metadata = meta\<rparr>) \<Longrightarrow>
     keeps P (hand_onward c h m o')"
  unfolding hand_onward_def
  by (cases o') (auto intro!: keeps_with_state keeps_if keeps_prim(1) deliveries fail stream_in)

lemma abort: "keeps P (abort_listener_step c err r)"
  unfolding abort_listener_step_def on_abort_def
  by (intro keeps_if keeps_andthen keeps_option prims keeps_prim(1,2))

lemma dispatch: "keeps P (local_dispatch c t m)"
  unfolding local_dispatch_def by (intro keeps_if keeps_option prims keeps_prim(2))

lemma streams_out:
  "keeps P (send_stream_to_target c h r d target meta)"
  "keeps P (send_stream_signal_to_target c r target dn err)"
  "keeps P (send_stream_to_coordinator c r d meta cm)"
  unfolding send_stream_to_target_def send_stream_signal_to_target_def
    send_stream_to_coordinator_def
  by (intro keeps_with_state keeps_if keeps_andthen keeps_obj keeps_prim(1-3) prims dispatch; assumption)+

lemma payload_out: "keeps P (send_to_stage c h r target p al ap ts)"
  unfolding send_to_stage_def send_by_relay_def
  by (intro keeps_with_state keeps_sum keeps_if keeps_andthen keeps_obj keeps_prim(1-3) prims dispatch)

lemma outbox: "keeps P (drain_outbox c h out)"
proof (cases out)
  case (OutStream r d t meta cm)
  then show ?thesis
    unfolding drain_outbox_def drain_external_def drain_follower_def
    by (cases t) (simp_all add: keeps_intros streams_out)
qed (auto simp: drain_outbox_def drain_external_def drain_follower_def route_result_def
    intro!: keeps_with_state keeps_if keeps_andthen keeps_for_each keeps_prim(1-3) prims fail
      streams_out payload_out)

lemma crash: "keeps P (handle_scheduler_crash c e)"
  unfolding handle_scheduler_crash_def
  by (intro keeps_with_state keeps_if keeps_andthen keeps_for_each keeps_suppress keeps_prim(1) prims fail)

lemma step: "(\<And>r x. event_chunk e = Some (r, x) \<Longrightarrow> chunk_ok r x) \<Longrightarrow> keeps P (stage_step c h e)"
  by (cases e) (simp_all add: deliveries exec keeps_forget reads onward abort outbox crash prims)

lemma run:
  "\<forall>x\<in>set es. \<forall>r y. event_chunk (snd x) = Some (r, y) \<longrightarrow> chunk_ok r y \<Longrightarrow> P s \<Longrightarrow>
     P (stage_run c es s)"
proof (induction es arbitrary: s)
  case (Cons x es)
  obtain h e where x: "x = (h, e)" by (cases x)
  have "keeps P (stage_step c h e)" using Cons.prems(1) x by (intro step) simp
  from keepsD [OF this Cons.prems(2)] Cons.IH Cons.prems(1) x show ?case by simp
qed simp

end

section \<open>Streams and payloads take the same path\<close>

definition paths_ok :: "stage_config \<Rightarrow> stage \<Rightarrow> bool" where
  "paths_ok c s \<longleftrightarrow> (\<forall>rid. targets_of (st_local_targets s) rid \<subseteq> sc_same_process c \<and>
     targets_of (st_nonlocal_targets s) rid \<inter> sc_same_process c = {})"

lemma paths_ok_frame:
  "(\<And>s. st_local_targets (snd (m s)) = st_local_targets s \<and>
        st_nonlocal_targets (snd (m s)) = st_nonlocal_targets s) \<Longrightarrow> keeps (paths_ok c) m"
  by (simp add: keeps_def paths_ok_def)

interpretation paths: stage_invariant c "paths_ok c" "\<lambda>r x. True" for c
proof
  show "keeps (paths_ok c) (clear_request_state c r)" for c r
    by (auto simp: keeps_def paths_ok_def clear_request_state_def targets_of_def)
  show "target \<in> sc_same_process c \<Longrightarrow> keeps (paths_ok c) (record_local_stream_target r target)"
    for c r target
    by (auto simp: keeps_def paths_ok_def record_local_stream_target_def targets_of_def)
  show "target \<notin> sc_same_process c \<Longrightarrow> keeps (paths_ok c) (record_nonlocal_stream_target r target)"
    for c r target
    by (auto simp: keeps_def paths_ok_def record_nonlocal_stream_target_def targets_of_def
        split: option.splits)
qed (rule paths_ok_frame; simp add: stage_ops add_active_def input_receive_def next_chunk_id_def
    Let_def case_prod_beta split: option.split)+

lemma paths_ok_init: "paths_ok c (stage_init q)"
  by (simp add: paths_ok_def stage_init_def targets_of_def)

section \<open>What routing a result sends\<close>

text \<open>The signal and the payload message for one target, without any state.\<close>

definition dispatched :: "stage_config \<Rightarrow> string \<Rightarrow> stage_out \<Rightarrow> stage_out result" where
  "dispatched c t m = (case sc_registered c of
     None \<Rightarrow> Inl (RuntimeError ''no dispatcher'')
   | Some names \<Rightarrow> (if t \<in> names then Inr m else Inl (RuntimeError ''not registered'')))"

definition signal_out :: "stage_config \<Rightarrow> string \<Rightarrow> string \<Rightarrow> stage_out result" where
  "signal_out c rid t = bindE (endpoint_of c t) (\<lambda>_.
     if t \<in> sc_same_process c then dispatched c t (LocalSignal rid t True None)
     else Inr (StreamSignal rid t True None))"

definition relay_out :: "stage_config \<Rightarrow> heap \<Rightarrow> string \<Rightarrow> string \<Rightarrow> addr \<Rightarrow> stage_out result" where
  "relay_out c h rid t p =
     bindE (outbound_payload (sc_router c) h t p) (\<lambda>kind.
     bindE (build_relay (sc_router c) kind) (\<lambda>_.
     case obj_at h p of OPayload r q d \<Rightarrow> Inr (RelayPayload rid t kind p)
     | _ \<Rightarrow> Inl (TypeError ''not a StagePayload'')))"

definition payload_out ::
    "stage_config \<Rightarrow> heap \<Rightarrow> string \<Rightarrow> bool \<Rightarrow> addr \<Rightarrow> string \<Rightarrow> stage_out result" where
  "payload_out c h rid single p t =
     bindE (endpoint_of c t) (\<lambda>_.
     bindE (projected_for c t p) (\<lambda>proj.
     bindE (if single then Inr True
            else is_isolated_projected_payload h p proj (sc_project c t \<noteq> None)) (\<lambda>isolated.
     if isolated \<and> t \<in> sc_same_process c then dispatched c t (LocalPayload rid t proj)
     else if \<not> sc_disable_direct_ipc c \<and> can_use_direct_cuda_ipc (sc_router c) t \<and>
        contains_cuda_tensor h proj
     then (case sc_direct_ref c proj of
         Inr ref \<Rightarrow> Inr (DirectPayload rid t ref)
       | Inl e \<Rightarrow> (if foreign_tensor e then relay_out c h rid t proj else Inl e))
     else relay_out c h rid t proj)))"

lemma local_dispatch_out:
  "dispatched c t m = Inr x \<Longrightarrow>
     local_dispatch c t m s = (Inr (), s\<lparr>st_sent := st_sent s @ [x]\<rparr>)"
  by (auto simp: dispatched_def local_dispatch_def send_def split: option.splits if_splits)

lemma relay_out_sends:
  "relay_out c h rid t p = Inr x \<Longrightarrow>
     send_by_relay c h rid t p s = (Inr (), s\<lparr>st_sent := st_sent s @ [x]\<rparr>)"
  by (cases "obj_at h p") (auto simp: relay_out_def send_by_relay_def send_def)

lemma send_to_stage_out:
  assumes "owns_external_io c" and "payload_out c h rid single p t = Inr x" and "paths_ok c s"
    and "t \<in> ts \<and> t \<in> sc_same_process c \<longrightarrow> t \<in> targets_of (st_local_targets s) rid"
  shows "send_to_stage c h rid t p single (\<not> single) ts s
    = (Inr (), s\<lparr>st_sent := st_sent s @ [x]\<rparr>)"
proof -
  have "t \<in> sc_same_process c \<Longrightarrow> can_send_full_payload_locally rid t ts s"
    using assms(3,4) by (auto simp: can_send_full_payload_locally_def paths_ok_def)
  with assms(1,2) show ?thesis
    by (auto simp: payload_out_def send_to_stage_def send_def local_dispatch_out relay_out_sends
        split: if_splits sum.splits)
qed

lemma mapE_Cons_Inr: "mapE f (x # xs) = Inr ys \<longleftrightarrow>
    (\<exists>z zs. f x = Inr z \<and> mapE f xs = Inr zs \<and> ys = z # zs)"
  by auto

lemma payloads_out:
  assumes "owns_external_io c" and "mapE (payload_out c h rid single p) xs = Inr outs" and "paths_ok c s"
    and "\<forall>t\<in>ts \<inter> sc_same_process c. t \<in> targets_of (st_local_targets s) rid"
  shows "for_each (\<lambda>t. send_to_stage c h rid t p single (\<not> single) ts) xs s
    = (Inr (), s\<lparr>st_sent := st_sent s @ outs\<rparr>)"
  using assms
proof (induction xs arbitrary: s outs)
  case (Cons x xs)
  then obtain z zs where o: "payload_out c h rid single p x = Inr z"
      "mapE (payload_out c h rid single p) xs = Inr zs" "outs = z # zs"
    by (auto simp: mapE_Cons_Inr)
  have "send_to_stage c h rid x p single (\<not> single) ts s = (Inr (), s\<lparr>st_sent := st_sent s @ [z]\<rparr>)"
    using Cons.prems o(1) by (intro send_to_stage_out) auto
  moreover have "paths_ok c (s\<lparr>st_sent := st_sent s @ [z]\<rparr>)"
    using Cons.prems(3) by (simp add: paths_ok_def)
  ultimately show ?case
    using Cons.IH [OF Cons.prems(1) o(2), of "s\<lparr>st_sent := st_sent s @ [z]\<rparr>"] Cons.prems(4) o(3)
    by simp
qed simp

text \<open>The state after the done signals: only the log and the record of paths have changed.\<close>

definition signalled :: "stage_config \<Rightarrow> string \<Rightarrow> string list \<Rightarrow> stage_out list \<Rightarrow> stage \<Rightarrow> stage \<Rightarrow> bool"
where
  "signalled c rid ts outs s s' \<longleftrightarrow>
     st_sent s' = st_sent s @ outs \<and> st_aborted s' = st_aborted s \<and>
     st_active s' = st_active s \<and> st_inbox s' = st_inbox s \<and>
     (\<forall>t\<in>set ts \<inter> sc_same_process c. t \<in> targets_of (st_local_targets s') rid) \<and>
     (\<forall>t\<in>targets_of (st_local_targets s) rid. t \<in> targets_of (st_local_targets s') rid) \<and>
     (\<forall>r. r \<noteq> rid \<longrightarrow> held c s' r = held c s r) \<and> paths_ok c s'"

lemma signal_step:
  assumes "owns_external_io c" and "signal_out c rid t = Inr x" and "paths_ok c s"
  shows "\<exists>s'. send_stream_signal_to_target c rid t True None s = (Inr (), s') \<and>
    signalled c rid [t] [x] s s'"
proof -
  have p: "paths_ok c (snd (send_stream_signal_to_target c rid t True None s))"
    by (rule keepsD [OF paths.streams_out(2) assms(3)])
  show ?thesis
  proof (cases "t \<in> sc_same_process c")
    case True
    then have d: "dispatched c t (LocalSignal rid t True None) = Inr x"
      and e: "endpoint_of c t = Inr (the (sc_endpoints c t))" and r: "sc_registered c \<noteq> None"
      using assms(2) by (auto simp: signal_out_def endpoint_of_def dispatched_def split: option.splits)
    have s: "send_stream_signal_to_target c rid t True None s =
        (Inr (), snd (send_stream_signal_to_target c rid t True None s))"
      using assms(1) True e r local_dispatch_out [OF d]
      by (simp add: send_stream_signal_to_target_def record_local_stream_target_def prod_eq_iff)
    show ?thesis
      using assms(1) True e r local_dispatch_out [OF d] p
      by (intro exI [of _ "snd (send_stream_signal_to_target c rid t True None s)"] conjI s)
        (auto simp: signalled_def send_stream_signal_to_target_def record_local_stream_target_def
          targets_of_def held_def)
  next
    case False
    with assms(1,2) p show ?thesis
      by (auto simp: signalled_def signal_out_def send_stream_signal_to_target_def endpoint_of_def
          record_nonlocal_stream_target_def send_def held_def split: option.splits)
  qed
qed

lemma signalled_trans:
  "signalled c rid ts outs s s' \<Longrightarrow> signalled c rid ts' outs' s' s'' \<Longrightarrow>
     signalled c rid (ts @ ts') (outs @ outs') s s''"
  by (auto simp: signalled_def)

lemma signals_out:
  assumes "owns_external_io c" and "mapE (signal_out c rid) ts = Inr outs" and "paths_ok c s"
  shows "\<exists>s'. for_each (\<lambda>t. send_stream_signal_to_target c rid t True None) ts s = (Inr (), s') \<and>
    signalled c rid ts outs s s'"
  using assms
proof (induction ts arbitrary: s outs)
  case (Cons t ts)
  then obtain z zs where o: "signal_out c rid t = Inr z" "mapE (signal_out c rid) ts = Inr zs"
      "outs = z # zs" by (auto simp: mapE_Cons_Inr)
  from signal_step [OF Cons.prems(1) o(1) Cons.prems(3)] obtain s1
    where s1: "send_stream_signal_to_target c rid t True None s = (Inr (), s1)"
      "signalled c rid [t] [z] s s1" by blast
  then have "paths_ok c s1" by (simp add: signalled_def)
  from Cons.IH [OF Cons.prems(1) o(2) this] obtain s2
    where s2: "for_each (\<lambda>t. send_stream_signal_to_target c rid t True None) ts s1 = (Inr (), s2)"
      "signalled c rid ts zs s1 s2" by blast
  from signalled_trans [OF s1(2) s2(2)] s1(1) s2(1) o(3) show ?case by auto
qed (simp add: signalled_def)

text \<open>
  routing a result sends, in this order, one stream-done signal to every stream target of the
  request and then either the completion to the coordinator or one payload to every next stage,
  and nothing else; it forgets the request and leaves the tables of every other request alone.
  Whether a payload goes as an object or by a transfer is decided per target by the placement,
  the number of targets and the isolation of the projection alone: the check that the stream of
  the request has taken the same path never changes that choice in a reachable state.
\<close>

theorem route_result_sends:
  assumes "owns_external_io c" and "s = stage_run c es (stage_init q)"
    and "done_targets c rid p = Inr ts" and "mapE (signal_out c rid) ts = Inr signals"
    and "sc_get_next c rid p = Inr next"
    and "mapE (payload_out c h rid (length (target_list next) = 1) p) (target_list next) = Inr outs"
  shows "\<exists>s'. route_result c h rid p s = (Inr (), s') \<and>
    st_sent s' = st_sent s @ signals @
      (if next = NoTarget then [CompleteOk rid (result_data h p)] else outs) \<and>
    st_active s' = st_active s - {rid} \<and> st_inbox s' = st_inbox s \<and>
    (\<forall>r. held c s' r \<longleftrightarrow> r \<noteq> rid \<and> held c s r)"
proof -
  have "paths_ok c s" unfolding assms(2) by (rule paths.run [OF _ paths_ok_init]) simp
  from signals_out [OF assms(1,4) this] obtain s1
    where s1: "for_each (\<lambda>t. send_stream_signal_to_target c rid t True None) ts s = (Inr (), s1)"
      "signalled c rid ts signals s s1" by blast
  let ?single = "length (target_list next) = 1"
  have "for_each (\<lambda>t. send_to_stage c h rid t p ?single (\<not> ?single) (set ts)) (target_list next) s1
      = (Inr (), s1\<lparr>st_sent := st_sent s1 @ outs\<rparr>)"
    using s1(2) by (intro payloads_out assms) (auto simp: signalled_def)
  then have "route_result c h rid p s = (Inr (), snd (clear_request_state c rid (s1\<lparr>st_sent :=
      st_sent s1 @ (if next = NoTarget then [CompleteOk rid (result_data h p)] else outs)\<rparr>)))"
    using assms(1,3,5) s1(1) by (simp add: route_result_def send_def prod_eq_iff)
  with s1(2) show ?thesis by (auto simp: signalled_def)
qed

lemma demo_payloads:
  "payload_out demo_stage demo_objects ''a'' False 0 ''talker'' = Inr (LocalPayload ''a'' ''talker'' 3)"
  "payload_out demo_stage demo_objects ''a'' False 0 ''decode'' = Inr (RelayPayload ''a'' ''decode'' Shm 0)"
  by (simp_all add: payload_out_def endpoint_of_def projected_for_def dispatched_def
      is_isolated_projected_payload_def shares_mutable_container_def
      collect_mutable_container_ids_def contains_mutable_container_id_def collect_from.simps(2)
      search_from.simps(2) Let_def can_use_direct_cuda_ipc_def make_router_def relay_out_def
      outbound_payload_def payload_data_def tensor_devices_def build_relay_def)

theorem route_result_sends_witness:
  "\<exists>s'. route_result demo_stage demo_objects ''a'' 0
      (stage_run demo_stage [(demo_objects, Submit ''a'' 0)] (stage_init (Some sq_init))) = (Inr (), s') \<and>
    st_sent s' = st_sent (stage_run demo_stage [(demo_objects, Submit ''a'' 0)] (stage_init (Some sq_init)))
      @ [LocalSignal ''a'' ''talker'' True None] @
      [LocalPayload ''a'' ''talker'' 3, RelayPayload ''a'' ''decode'' Shm 0]"
  using route_result_sends [of demo_stage
      "stage_run demo_stage [(demo_objects, Submit ''a'' 0)] (stage_init (Some sq_init))"
      "[(demo_objects, Submit ''a'' 0)]" "Some sq_init" "''a''" 0 "[''talker'']"
      "[LocalSignal ''a'' ''talker'' True None]" "ManyTargets [''talker'', ''decode'']" demo_objects
      "[LocalPayload ''a'' ''talker'' 3, RelayPayload ''a'' ''decode'' Shm 0]"]
  by (auto simp: done_targets_def signal_out_def endpoint_of_def dispatched_def demo_payloads
      simp del: stage_run.simps)

section \<open>Numbering of stream chunks\<close>

text \<open>The ids of the chunks of one request sent to one target, in the order of the log.\<close>

fun chunk_out :: "string \<Rightarrow> string \<Rightarrow> stage_out \<Rightarrow> int list" where
  "chunk_out rid t (LocalChunk r t' n d meta) = (if r = rid \<and> t' = t then [n] else [])"
| "chunk_out rid t (DirectChunk r t' ref n) = (if r = rid \<and> t' = t then [n] else [])"
| "chunk_out rid t (RelayChunk r t' k n d meta) = (if r = rid \<and> t' = t then [n] else [])"
| "chunk_out rid t (StreamToCoordinator r d n m) = (if r = rid \<and> t = ''coordinator'' then [n] else [])"
| "chunk_out rid t m = []"

definition chunk_ids :: "string \<Rightarrow> string \<Rightarrow> stage \<Rightarrow> int list" where
  "chunk_ids rid t s = concat (map (chunk_out rid t) (st_sent s))"

definition counter :: "stage \<Rightarrow> string \<Rightarrow> string \<Rightarrow> int" where
  "counter s rid t = (case st_counters s (rid, t) of None \<Rightarrow> 0 | Some n \<Rightarrow> n)"

text \<open>Outputs of the scheduler that all go out without an exception.\<close>

fun streams_ok :: "stage_config \<Rightarrow> (heap \<times> outgoing) list \<Rightarrow> stage \<Rightarrow> bool" where
  "streams_ok c [] s = True"
| "streams_ok c ((h, out) # xs) s =
     ((case out of OutStream r d t meta cm \<Rightarrow> fst (drain_external c h out s) = Inr () | _ \<Rightarrow> False) \<and>
      streams_ok c xs (snd (drain_external c h out s)))"

fun drain_all :: "stage_config \<Rightarrow> (heap \<times> outgoing) list \<Rightarrow> stage \<Rightarrow> stage" where
  "drain_all c [] s = s"
| "drain_all c ((h, out) # xs) s = drain_all c xs (snd (drain_external c h out s))"

text \<open>From \<open>s\<close> to \<open>s'\<close> the chunks of every request and target got the next ids.\<close>

definition numbered :: "stage \<Rightarrow> stage \<Rightarrow> bool" where
  "numbered s s' \<longleftrightarrow> (\<forall>rid t. \<exists>k.
     chunk_ids rid t s' = chunk_ids rid t s @ map (\<lambda>i. counter s rid t + int i) [0..<k] \<and>
     counter s' rid t = counter s rid t + int k)"

lemma numbered_refl: "chunk_ids rid t s' = chunk_ids rid t s \<Longrightarrow> counter s' rid t = counter s rid t \<Longrightarrow>
   \<exists>k. chunk_ids rid t s' = chunk_ids rid t s @ map (\<lambda>i. counter s rid t + int i) [0..<k] \<and>
     counter s' rid t = counter s rid t + int k"
  by (intro exI [of _ 0]) simp

lemma numbered_self: "numbered s s"
  unfolding numbered_def by (intro allI numbered_refl) simp_all

lemma numbered_trans:
  assumes "numbered s s1" and "numbered s1 s2"
  shows "numbered s s2"
  unfolding numbered_def
proof (intro allI)
  fix rid t
  from assms obtain k1 k2 where
    "chunk_ids rid t s1 = chunk_ids rid t s @ map (\<lambda>i. counter s rid t + int i) [0..<k1]"
    "counter s1 rid t = counter s rid t + int k1"
    "chunk_ids rid t s2 = chunk_ids rid t s1 @ map (\<lambda>i. counter s1 rid t + int i) [0..<k2]"
    "counter s2 rid t = counter s1 rid t + int k2"
    unfolding numbered_def by meson
  moreover have "[0..<k1 + k2] = [0..<k1] @ map (\<lambda>i. i + k1) [0..<k2]"
    using upt_add_eq_append [of 0 k1 k2] by (simp add: map_add_upt add.commute)
  ultimately show "\<exists>k. chunk_ids rid t s2 = chunk_ids rid t s @ map (\<lambda>i. counter s rid t + int i) [0..<k] \<and>
      counter s2 rid t = counter s rid t + int k"
    by (intro exI [of _ "k1 + k2"]) (simp add: algebra_simps)
qed

lemma numbered_send:
  assumes "st_counters s1 = (st_counters s)((rid, t) \<mapsto> counter s rid t + 1)"
    and "st_sent s1 = st_sent s @ [m]" and "\<And>r t'. chunk_out r t' m = (if r = rid \<and> t' = t then [counter s rid t] else [])"
  shows "numbered s s1"
  unfolding numbered_def
proof (intro allI)
  fix r t'
  show "\<exists>k. chunk_ids r t' s1 = chunk_ids r t' s @ map (\<lambda>i. counter s r t' + int i) [0..<k] \<and>
      counter s1 r t' = counter s r t' + int k"
  proof (cases "r = rid \<and> t' = t")
    case True
    then show ?thesis
      using assms by (intro exI [of _ 1]) (auto simp: chunk_ids_def counter_def)
  next
    case False
    with assms show ?thesis
      by (intro numbered_refl) (auto simp: chunk_ids_def counter_def)
  qed
qed

lemma next_chunk_eval:
  "next_chunk_id rid t s = (Inr (counter s rid t),
     s\<lparr>st_counters := (st_counters s)((rid, t) \<mapsto> counter s rid t + 1),
       st_first_seen := insert rid (st_first_seen s)\<rparr>)"
  by (simp add: next_chunk_id_def counter_def Let_def)

lemma send_stream_numbered:
  assumes "fst (send_stream_to_target c h rid d t meta s) = Inr ()"
  shows "numbered s (snd (send_stream_to_target c h rid d t meta s))"
proof (cases "owns_external_io c")
  case False
  then show ?thesis
    unfolding numbered_def
    by (intro allI numbered_refl) (simp_all add: send_stream_to_target_def)
next
  case True
  let ?n = "counter s rid t"
  have "\<exists>m. st_sent (snd (send_stream_to_target c h rid d t meta s)) = st_sent s @ [m] \<and>
      m \<in> {LocalChunk rid t ?n d meta} \<union> range (\<lambda>ref. DirectChunk rid t ref ?n)
        \<union> range (\<lambda>k. RelayChunk rid t k ?n d meta) \<and>
      st_counters (snd (send_stream_to_target c h rid d t meta s))
        = (st_counters s)((rid, t) \<mapsto> ?n + 1)"
    using assms True
    by (cases "obj_at h d")
      (auto simp: send_stream_to_target_def next_chunk_eval local_dispatch_def send_def
        record_local_stream_target_def record_nonlocal_stream_target_def
        split: if_splits option.splits dest!: andthen_ok)
  then obtain m where m: "st_sent (snd (send_stream_to_target c h rid d t meta s)) = st_sent s @ [m]"
      "m \<in> {LocalChunk rid t ?n d meta} \<union> range (\<lambda>ref. DirectChunk rid t ref ?n)
        \<union> range (\<lambda>k. RelayChunk rid t k ?n d meta)"
      "st_counters (snd (send_stream_to_target c h rid d t meta s))
        = (st_counters s)((rid, t) \<mapsto> ?n + 1)" by blast
  from m(2) show ?thesis by (intro numbered_send [OF m(3,1)]) auto
qed

lemma send_coordinator_numbered:
  assumes "fst (send_stream_to_coordinator c rid d meta cm s) = Inr ()"
  shows "numbered s (snd (send_stream_to_coordinator c rid d meta cm s))"
proof (cases "owns_external_io c \<and> rid \<notin> st_aborted s")
  case False
  with assms show ?thesis
    unfolding numbered_def
    by (intro allI numbered_refl)
      (auto simp: send_stream_to_coordinator_def split: if_splits)
next
  case True
  with assms have "snd (send_stream_to_coordinator c rid d meta cm s) =
      s\<lparr>st_counters := (st_counters s)((rid, ''coordinator'') \<mapsto> counter s rid ''coordinator'' + 1),
        st_first_seen := insert rid (st_first_seen s),
        st_sent := st_sent s @ [StreamToCoordinator rid d (counter s rid ''coordinator'')
          (stream_modality meta cm)]\<rparr>"
    by (auto simp: send_stream_to_coordinator_def next_chunk_eval send_def split: if_splits)
  then show ?thesis
    by (intro numbered_send [of _ s rid "''coordinator''"
          "StreamToCoordinator rid d (counter s rid ''coordinator'') (stream_modality meta cm)"]) auto
qed

lemma gather_numbered:
  "(\<And>x s. fst (f x s) = Inr () \<Longrightarrow> numbered s (snd (f x s))) \<Longrightarrow>
     fst (gather f xs s) = Inr () \<Longrightarrow> numbered s (snd (gather f xs s))"
proof (induction xs arbitrary: s)
  case (Cons x xs)
  from Cons.prems(2) obtain s1 where x: "f x s = (Inr (), s1)" "fst (gather f xs s1) = Inr ()"
    by (auto split: prod.splits sum.splits)
  with Cons.IH [OF Cons.prems(1) x(2)] Cons.prems(1) [of x s] show ?case
    by (auto intro: numbered_trans)
qed (simp add: numbered_self)

lemma drain_numbered:
  assumes "fst (drain_external c h (OutStream r d t meta cm) s) = Inr ()"
  shows "numbered s (snd (drain_external c h (OutStream r d t meta cm) s))"
proof -
  have "numbered s s" by (rule numbered_self)
  with assms show ?thesis
    by (cases t) (auto simp: drain_external_def split: if_splits
        intro: send_stream_numbered send_coordinator_numbered gather_numbered)
qed

text \<open>
  C12: the chunks that a stage sends for a request to one target carry the ids 0, 1, 2, ... in the
  order in which they leave, for every interleaving of requests and targets, whatever transport
  each chunk takes, from a state in which the stream has not begun.
\<close>

theorem stream_chunks_consecutive:
  assumes "streams_ok c xs s" and "st_counters s (rid, t) = None" and "chunk_ids rid t s = []"
  shows "\<exists>k. chunk_ids rid t (drain_all c xs s) = map int [0..<k]"
proof -
  have "streams_ok c xs s \<Longrightarrow> numbered s (drain_all c xs s)" for s
  proof (induction xs arbitrary: s)
    case (Cons x xs)
    obtain h out where x: "x = (h, out)" by (cases x)
    with Cons.prems have "numbered s (snd (drain_external c h out s))"
      by (cases out) (auto intro: drain_numbered)
    with Cons x show ?case by (auto intro: numbered_trans)
  qed (simp add: numbered_self)
  from this [OF assms(1)] obtain k where
    "chunk_ids rid t (drain_all c xs s)
      = chunk_ids rid t s @ map (\<lambda>i. counter s rid t + int i) [0..<k]"
    unfolding numbered_def by blast
  with assms(2,3) show ?thesis by (auto simp: counter_def)
qed

theorem stream_chunks_consecutive_witness:
  "\<exists>k. chunk_ids ''a'' ''talker'' (drain_all demo_stage
      [(demo_objects, OutStream ''a'' 2 None None PNone), (demo_objects, OutStream ''b'' 2 None None PNone),
       (demo_objects, OutStream ''a'' 2 None None PNone)]
      ((stage_init None)\<lparr>st_active := {''a'', ''b''}\<rparr>)) = map int [0..<k]"
  by (rule stream_chunks_consecutive)
    (simp_all add: stage_init_def drain_external_def send_stream_to_target_def endpoint_of_def
      next_chunk_eval record_local_stream_target_def local_dispatch_def send_def chunk_ids_def)

section \<open>Late stream signals\<close>

text \<open>
  the record of finished requests does not include those that finished well: when a stage
  that accepts no stream data ahead of the payload has routed the result of a request, a
  stream-done signal of the request that arrives afterwards makes the stage report a failure of
  the request to the coordinator and remember the request as aborted.
\<close>

theorem late_stream_done_reports_failure:
  assumes "owns_external_io c" and "s = stage_run c es (stage_init (Some sq_init))"
    and "\<not> sc_pre_payload c"
    and "fst (stage_step c h (Outbox (OutResult rid p)) s) = Inr ()" and "rid \<notin> st_aborted s'"
    and "s' = snd (stage_step c h (Outbox (OutResult rid p)) s)"
    and "st_streams s' \<noteq> None"
  shows "fst (stage_step c h (LocalSignalIn rid src True None) s') = Inr () \<and>
    (\<exists>why. st_sent (snd (stage_step c h (LocalSignalIn rid src True None) s'))
       = st_sent s' @ [CompleteError rid why])"
proof -
  have "\<not> held c s' rid"
    using finished_request_leaves_nothing [of s c es True h "Outbox (OutResult rid p)" rid] assms by simp
  with assms(7) obtain q where "st_streams s' = Some q" "\<not> sq_has rid q"
    by (auto simp: held_def sq_has_def)
  with assms(1,3,5) show ?thesis
    by (simp add: receive_stream_signal_def open_pre_payload_stream_if_allowed_def add_active_def
        scheduler_abort_def send_failure_external)
qed

theorem late_stream_done_reports_failure_witness:
  "\<exists>why. st_sent (snd (stage_step demo_stage demo_objects (LocalSignalIn ''a'' ''enc'' True None)
      (snd (stage_step demo_stage demo_objects (Outbox (OutResult ''a'' 0))
        (stage_run demo_stage [(demo_objects, Submit ''a'' 0)] (stage_init (Some sq_init)))))))
    = st_sent (snd (stage_step demo_stage demo_objects (Outbox (OutResult ''a'' 0))
        (stage_run demo_stage [(demo_objects, Submit ''a'' 0)] (stage_init (Some sq_init)))))
      @ [CompleteError ''a'' why]"
proof -
  let ?s = "stage_run demo_stage [(demo_objects, Submit ''a'' 0)] (stage_init (Some sq_init))"
  let ?s' = "snd (stage_step demo_stage demo_objects (Outbox (OutResult ''a'' 0)) ?s)"
  have s: "?s = (stage_init (Some sq_init))\<lparr>st_active := {''a''},
      st_streams := Some (sq_open ''a'' sq_init), st_inbox := [NewRequest ''a'' 0]\<rparr>"
    by (simp add: stage_init_def on_submit_def add_active_def open_stream_def sq_has_def sq_init_def
        execute_def payload_request_id_def inbox_put_def)
  have ok: "fst (stage_step demo_stage demo_objects (Outbox (OutResult ''a'' 0)) ?s) = Inr ()"
    and out: "st_aborted ?s' = {}" "st_streams ?s' \<noteq> None"
    unfolding s
    by (simp_all add: stage_init_def drain_outbox_def drain_external_def route_result_def
        done_targets_def send_stream_signal_to_target_def endpoint_of_def
        record_local_stream_target_def local_dispatch_def send_def
        send_to_stage_out [OF _ demo_payloads(1), simplified]
        send_to_stage_out [OF _ demo_payloads(2), simplified] paths_ok_def targets_of_def
        clear_request_state_def)
  show ?thesis
    using late_stream_done_reports_failure [of demo_stage ?s _ demo_objects "''a''" 0 ?s' "''enc''", OF _ refl _ ok _ refl]
      out by simp
qed

end
