(* ===== verification/Stage_System.thy ===== *)
theory Stage_System
  imports Stage_Paths "HOL-Library.Sublist"
begin

text \<open>
  A stage together with its concurrent receive tasks (\<open>run\<close>, \<open>_schedule_receive_task\<close> and
  \<open>_run_receive_task\<close> of \<open>sglang_omni/pipeline/stage/runtime.py\<close>): a step relation in which the
  parts of the handlers interleave with each other and with everything else the stage does. The
  result: a request's stream chunks enter the scheduler in the order in which they arrived.
\<close>

section \<open>The step relation\<close>

type_synonym tasks = "(data_msg, work, onward) lanes"

record system =
  sy_stage :: stage
  sy_tasks :: tasks

abbreviation msg_at :: "tasks \<Rightarrow> nat \<Rightarrow> data_msg" where
  "msg_at T i \<equiv> rt_msg (rl_tasks T ! i)"

definition lane_of_msg :: "data_msg \<Rightarrow> lane" where
  "lane_of_msg m = (dm_request m, dm_from m)"

text \<open>What the outcome of a handler part does to its task.\<close>

definition progress_task :: "nat \<Rightarrow> progress result \<Rightarrow> tasks \<Rightarrow> tasks" where
  "progress_task i r T = (case r of
     Inl e \<Rightarrow> task_drop i (Some e) T
   | Inr (More w) \<Rightarrow> task_work i w T
   | Inr (Wait o') \<Rightarrow> task_wait i o' T
   | Inr Finished \<Rightarrow> task_drop i None T)"

definition run_part :: "nat \<Rightarrow> progress stage_op \<Rightarrow> system \<Rightarrow> system" where
  "run_part i m S = (case m (sy_stage S) of
     (r, s') \<Rightarrow> \<lparr>sy_stage = s', sy_tasks = progress_task i r (sy_tasks S)\<rparr>)"

definition error_of :: "'a result \<Rightarrow> py_error option" where
  "error_of r = (case r of Inl e \<Rightarrow> Some e | Inr _ \<Rightarrow> None)"

text \<open>
  Deliveries that do not go through a receive task; \<open>local_sources\<close> are the stages of the same
  process, whose objects are handed over directly.
\<close>

fun direct_event :: "string set \<Rightarrow> event \<Rightarrow> bool" where
  "direct_event srcs (Submit r p) = True"
| "direct_event srcs (Work p) = True"
| "direct_event srcs (LocalPayloadIn r src p) = (src \<in> srcs)"
| "direct_event srcs (LocalChunkIn r src n d meta) = (src \<in> srcs)"
| "direct_event srcs (LocalSignalIn r src dn err) = (src \<in> srcs)"
| "direct_event srcs (Abort r err) = True"
| "direct_event srcs (Outbox out) = True"
| "direct_event srcs (Crash e) = True"
| "direct_event srcs e = False"

inductive sys_step :: "stage_config \<Rightarrow> string set \<Rightarrow> system \<Rightarrow> system \<Rightarrow> bool" for c srcs where
  receive: "dm_from m \<notin> srcs \<Longrightarrow>
    sys_step c srcs S (S\<lparr>sy_tasks := schedule_receive_task (lane_of_msg m) m Unstarted (sy_tasks S)\<rparr>)"
| start: "i < length (rl_tasks (sy_tasks S)) \<Longrightarrow>
    rt_phase (rl_tasks (sy_tasks S) ! i) = Working Unstarted \<Longrightarrow>
    sys_step c srcs S (run_part i (begin_handler c (msg_at (sy_tasks S) i)) S)"
| payload: "i < length (rl_tasks (sy_tasks S)) \<Longrightarrow>
    rt_phase (rl_tasks (sy_tasks S) ! i) = Working (ReadPayload obj) \<Longrightarrow>
    sys_step c srcs S (run_part i (payload_read c (msg_at (sy_tasks S) i) obj r) S)"
| chunk: "i < length (rl_tasks (sy_tasks S)) \<Longrightarrow>
    rt_phase (rl_tasks (sy_tasks S) ! i) = Working (ReadChunk obj) \<Longrightarrow>
    sys_step c srcs S (run_part i (chunk_read c (msg_at (sy_tasks S) i) obj r') S)"
| drain_payload: "i < length (rl_tasks (sy_tasks S)) \<Longrightarrow>
    rt_phase (rl_tasks (sy_tasks S) ! i) = Working (DrainPayload obj) \<Longrightarrow>
    sys_step c srcs S (run_part i (payload_drained c (msg_at (sy_tasks S) i) obj r) S)"
| drain_chunk: "i < length (rl_tasks (sy_tasks S)) \<Longrightarrow>
    rt_phase (rl_tasks (sy_tasks S) ! i) = Working (DrainChunk obj) \<Longrightarrow>
    sys_step c srcs S (run_part i (chunk_drained c (msg_at (sy_tasks S) i) obj r') S)"
| hand_on: "i < length (rl_tasks (sy_tasks S)) \<Longrightarrow> task_ready i (sy_tasks S) = Some o' \<Longrightarrow>
    hand_onward c h (msg_at (sy_tasks S) i) o' (sy_stage S) = (res, s') \<Longrightarrow>
    sys_step c srcs S \<lparr>sy_stage = s', sy_tasks = task_hand_on i (error_of res) (sy_tasks S)\<rparr>"
| complete: "i < length (rl_tasks (sy_tasks S)) \<Longrightarrow>
    rt_phase (rl_tasks (sy_tasks S) ! i) = Body_Done err \<Longrightarrow>
    task_complete i (sy_tasks S) = Some T' \<Longrightarrow>
    sys_step c srcs S
      \<lparr>sy_stage = snd (on_background_task_done err (sy_stage S)), sy_tasks = T'\<rparr>"
| direct: "direct_event srcs e \<Longrightarrow>
    sys_step c srcs S (S\<lparr>sy_stage := snd (stage_step c h e (sy_stage S))\<rparr>)"

inductive sys_reach :: "stage_config \<Rightarrow> string set \<Rightarrow> system \<Rightarrow> bool" for c srcs where
  start: "sys_reach c srcs \<lparr>sy_stage = stage_init q, sy_tasks = lanes_init\<rparr>"
| step: "sys_reach c srcs S \<Longrightarrow> sys_step c srcs S S' \<Longrightarrow> sys_reach c srcs S'"

section \<open>Tasks take lane steps\<close>

lemma progress_task_step:
  "i < length (rl_tasks T) \<Longrightarrow> rt_phase (rl_tasks T ! i) = Working w \<Longrightarrow>
     lane_step T (progress_task i r T)"
  by (auto simp: progress_task_def intro: lane_step.intros split: sum.split progress.split)

lemma run_part_simps [simp]:
  "sy_stage (run_part i m S) = snd (m (sy_stage S))"
  "sy_tasks (run_part i m S) = progress_task i (fst (m (sy_stage S))) (sy_tasks S)"
  by (simp_all add: run_part_def case_prod_beta)

lemma sys_step_tasks: "sys_step c srcs S S' \<Longrightarrow> lane_step (sy_tasks S) (sy_tasks S') \<or> sy_tasks S' = sy_tasks S"
  by (induction rule: sys_step.induct) (auto intro: progress_task_step lane_step.intros)

lemma sys_reach_lanes: "sys_reach c srcs S \<Longrightarrow> lanes_inv (sy_tasks S)"
  by (induction rule: sys_reach.induct) (auto intro: lanes_inv_init lane_step_inv dest!: sys_step_tasks)

section \<open>Chunks in the inbox\<close>

fun chunk_in :: "string \<Rightarrow> string \<Rightarrow> incoming \<Rightarrow> int list" where
  "chunk_in rid src (StreamChunk r x) =
     (if r = rid \<and> si_from_stage x = src then [si_chunk_id x] else [])"
| "chunk_in rid src i = []"

definition inbox_chunks :: "string \<Rightarrow> string \<Rightarrow> stage \<Rightarrow> int list" where
  "inbox_chunks rid src s = concat (map (chunk_in rid src) (st_inbox s))"

text \<open>Chunks of other requests or sources leave the list alone, and so does everything else.\<close>

definition other_chunk :: "string \<Rightarrow> string \<Rightarrow> string \<Rightarrow> addr stream_item \<Rightarrow> bool" where
  "other_chunk rid src r x \<longleftrightarrow> \<not> (r = rid \<and> si_from_stage x = src)"

lemma inbox_chunks_frame:
  "(\<And>s. st_inbox (snd (m s)) = st_inbox s) \<Longrightarrow> keeps (\<lambda>s. inbox_chunks rid src s = xs) m"
  by (simp add: keeps_def inbox_chunks_def)

interpretation chunks: stage_invariant c "\<lambda>s. inbox_chunks rid src s = xs" "other_chunk rid src"
  for c rid src xs
proof
  show "keeps (\<lambda>s. inbox_chunks rid src s = xs) (inbox_put (NewRequest r p))"
    "keeps (\<lambda>s. inbox_chunks rid src s = xs) (inbox_put (StreamDone r))" for rid src xs r p
    by (simp_all add: keeps_def inbox_put_def inbox_chunks_def)
  show "other_chunk rid src r x \<Longrightarrow>
      keeps (\<lambda>s. inbox_chunks rid src s = xs) (inbox_put (StreamChunk r x))" for rid src xs r x
    by (auto simp: keeps_def inbox_put_def inbox_chunks_def other_chunk_def)
qed (rule inbox_chunks_frame; simp add: stage_ops add_active_def input_receive_def next_chunk_id_def
    record_local_stream_target_def record_nonlocal_stream_target_def Let_def case_prod_beta
    split: option.split)+

text \<open>The one delivery that adds a chunk adds the chunk of its message, or nothing.\<close>

lemma give_chunk:
  "inbox_chunks (dm_request m) (dm_from m) (snd (hand_onward c h m (GiveChunk d meta) s))
     \<in> {inbox_chunks (dm_request m) (dm_from m) s,
        inbox_chunks (dm_request m) (dm_from m) s @ [the (dm_chunk m)]}"
proof (cases "dm_request m \<in> st_aborted s")
  case False
  let ?x = "\<lparr>si_chunk_id = the (dm_chunk m), si_data = d, si_from_stage = dm_from m, si_metadata = meta\<rparr>"
  let ?r = "dm_request m"
  have "\<exists>b s1. open_pre_payload_stream_if_allowed c ?r s = (Inr b, s1) \<and> st_inbox s1 = st_inbox s"
    by (cases "st_streams s") (auto simp: open_pre_payload_stream_if_allowed_def add_active_def)
  then obtain b s1 where o: "open_pre_payload_stream_if_allowed c ?r s = (Inr b, s1)"
    and i: "st_inbox s1 = st_inbox s" by blast
  show ?thesis
  proof (cases b)
    case True
    with False o i show ?thesis
      by (simp add: hand_onward_def route_stream_item_or_fail_def route_stream_item_def
          inbox_put_def inbox_chunks_def)
  next
    case b: False
    have "keeps (\<lambda>s. inbox_chunks ?r (dm_from m) s = inbox_chunks ?r (dm_from m) s1)
        (andthen (suppress (scheduler_abort ?r)) (\<lambda>_. send_failure c ?r err))" for err
      by (intro keeps_andthen keeps_suppress chunks.prims chunks.fail)
    from keepsD [OF this, of s1] False o b i show ?thesis
      by (simp add: hand_onward_def route_stream_item_or_fail_def inbox_chunks_def)
  qed
qed (simp add: hand_onward_def)

definition chunk_inv :: "string \<Rightarrow> string \<Rightarrow> system \<Rightarrow> bool" where
  "chunk_inv rid src S \<longleftrightarrow>
     (\<forall>i<length (rl_tasks (sy_tasks S)). lane_of (sy_tasks S) i = lane_of_msg (msg_at (sy_tasks S) i)) \<and>
     (\<exists>ks. subseq ks (filter (\<lambda>i. lane_of (sy_tasks S) i = (rid, src)) (rl_handed (sy_tasks S))) \<and>
        inbox_chunks rid src (sy_stage S) = map (\<lambda>i. the (dm_chunk (msg_at (sy_tasks S) i))) ks)"

text \<open>Steps that leave the messages, the lanes and the list of deliveries alone.\<close>

lemma chunk_inv_frame:
  assumes "chunk_inv rid src S"
    and "length (rl_tasks (sy_tasks S')) = length (rl_tasks (sy_tasks S))"
    and "\<And>i. msg_at (sy_tasks S') i = msg_at (sy_tasks S) i"
    and "\<And>i. lane_of (sy_tasks S') i = lane_of (sy_tasks S) i"
    and "rl_handed (sy_tasks S') = rl_handed (sy_tasks S)"
    and "inbox_chunks rid src (sy_stage S') = inbox_chunks rid src (sy_stage S)"
  shows "chunk_inv rid src S'"
  using assms(1) unfolding chunk_inv_def assms(2-6) .

lemma progress_task_frame [simp]:
  "length (rl_tasks (progress_task i r T)) = length (rl_tasks T)"
  "msg_at (progress_task i r T) k = msg_at T k"
  "lane_of (progress_task i r T) k = lane_of T k"
  "rl_handed (progress_task i r T) = rl_handed T"
  by (auto simp: progress_task_def task_work_def task_wait_def task_drop_def
      split: sum.split progress.split)

lemma complete_frame:
  assumes "task_complete i T = Some T'"
  shows "length (rl_tasks T') = length (rl_tasks T)" "msg_at T' k = msg_at T k"
    "lane_of T' k = lane_of T k" "rl_handed T' = rl_handed T"
  using assms by (auto simp: task_complete_def Let_def split: if_splits)

lemma chunk_inv_part:
  assumes "chunk_inv rid src S"
    and "\<And>xs. keeps (\<lambda>s. inbox_chunks rid src s = xs) m"
  shows "chunk_inv rid src (run_part i m S)"
  using assms(1) by (rule chunk_inv_frame) (use keepsD [OF assms(2) refl, of "sy_stage S"] in simp_all)

lemma chunk_inv_receive:
  assumes inv: "chunk_inv rid src S" and lanes: "lanes_inv (sy_tasks S)"
  shows "chunk_inv rid src (S\<lparr>sy_tasks := schedule_receive_task (lane_of_msg m) m Unstarted (sy_tasks S)\<rparr>)"
proof -
  let ?T = "sy_tasks S" and ?T' = "schedule_receive_task (lane_of_msg m) m Unstarted (sy_tasks S)"
  have old: "rl_tasks ?T' ! i = rl_tasks ?T ! i" if "i < length (rl_tasks ?T)" for i
    using that by (simp add: schedule_receive_task_def nth_append)
  have new: "lane_of ?T' (length (rl_tasks ?T)) = lane_of_msg m" "msg_at ?T' (length (rl_tasks ?T)) = m"
    by (simp_all add: schedule_receive_task_def)
  have handed: "rl_handed ?T' = rl_handed ?T" "length (rl_tasks ?T') = Suc (length (rl_tasks ?T))"
    by (simp_all add: schedule_receive_task_def)
  have bound: "i \<in> set (rl_handed ?T) \<Longrightarrow> i < length (rl_tasks ?T)" for i
    using lanes_invD(4) [OF lanes] by blast
  have f: "filter (\<lambda>i. lane_of ?T' i = (rid, src)) (rl_handed ?T)
      = filter (\<lambda>i. lane_of ?T i = (rid, src)) (rl_handed ?T)"
    using bound old by (intro filter_cong) auto
  obtain ks where ks: "subseq ks (filter (\<lambda>i. lane_of ?T i = (rid, src)) (rl_handed ?T))"
      "inbox_chunks rid src (sy_stage S) = map (\<lambda>i. the (dm_chunk (msg_at ?T i))) ks"
    using inv by (auto simp: chunk_inv_def)
  have "set ks \<subseteq> set (rl_handed ?T)"
    using subseq_conv_nths [THEN iffD1, OF ks(1)] set_nths_subset by fastforce
  then have "map (\<lambda>i. the (dm_chunk (msg_at ?T i))) ks = map (\<lambda>i. the (dm_chunk (msg_at ?T' i))) ks"
    using bound old by (intro map_cong) auto
  moreover have "lane_of ?T' i = lane_of_msg (msg_at ?T' i)" if "i < Suc (length (rl_tasks ?T))" for i
    using inv that new old by (cases "i < length (rl_tasks ?T)") (auto simp: chunk_inv_def less_Suc_eq)
  ultimately show ?thesis
    unfolding chunk_inv_def using ks
    by (intro conjI exI [of _ ks]) (simp_all add: handed f del: map_eq_conv)
qed

lemma hand_on_frame [simp]:
  "length (rl_tasks (task_hand_on i e T)) = length (rl_tasks T)"
  "msg_at (task_hand_on i e T) k = msg_at T k"
  "lane_of (task_hand_on i e T) k = lane_of T k"
  "rl_handed (task_hand_on i e T) = rl_handed T @ [i]"
  by (simp_all add: task_hand_on_def)

lemma chunk_inv_hand_on:
  assumes inv: "chunk_inv rid src S" and i: "i < length (rl_tasks (sy_tasks S))"
    and out: "hand_onward c h (msg_at (sy_tasks S) i) o' (sy_stage S) = (res, s')"
  shows "chunk_inv rid src \<lparr>sy_stage = s', sy_tasks = task_hand_on i e (sy_tasks S)\<rparr>"
proof -
  let ?T = "sy_tasks S" and ?m = "msg_at (sy_tasks S) i"
  let ?f = "filter (\<lambda>k. lane_of ?T k = (rid, src))"
  obtain ks where ks: "subseq ks (?f (rl_handed ?T))"
      "inbox_chunks rid src (sy_stage S) = map (\<lambda>k. the (dm_chunk (msg_at ?T k))) ks"
    and lane: "lane_of ?T i = lane_of_msg ?m"
    using inv i by (auto simp: chunk_inv_def)
  have weak: "subseq ks (?f (rl_handed ?T @ [i]))"
    using ks(1) by (auto intro: list_emb_append2 subseq_order.trans)
  have s': "s' = snd (hand_onward c h ?m o' (sy_stage S))" by (simp add: out)
  consider "inbox_chunks rid src s' = inbox_chunks rid src (sy_stage S)"
    | "lane_of ?T i = (rid, src)"
      "inbox_chunks rid src s' = inbox_chunks rid src (sy_stage S) @ [the (dm_chunk ?m)]"
  proof (cases "lane_of_msg ?m = (rid, src) \<and> (\<exists>d meta. o' = GiveChunk d meta)")
    case True
    then obtain d meta where "o' = GiveChunk d meta" "dm_request ?m = rid" "dm_from ?m = src"
      by (auto simp: lane_of_msg_def)
    with give_chunk [of ?m c h d meta "sy_stage S"] that s' lane show ?thesis
      by (auto simp: lane_of_msg_def)
  next
    case False
    then have "keeps (\<lambda>s. inbox_chunks rid src s = inbox_chunks rid src (sy_stage S))
        (hand_onward c h ?m o')"
      by (intro chunks.onward) (auto simp: other_chunk_def lane_of_msg_def)
    from keepsD [OF this refl] that(1) s' show ?thesis by simp
  qed
  then show ?thesis
  proof cases
    case 1
    with weak ks(2) inv show ?thesis by (auto simp: chunk_inv_def)
  next
    case 2
    have "subseq (ks @ [i]) (?f (rl_handed ?T @ [i]))"
      using ks(1) 2(1) by (simp add: list_emb_append_mono)
    with 2 ks(2) inv show ?thesis
      unfolding chunk_inv_def by (auto intro!: exI [of _ "ks @ [i]"])
  qed
qed

lemma direct_other_chunk:
  assumes "src \<notin> srcs" and "direct_event srcs e" and "event_chunk e = Some (r, x)"
  shows "other_chunk rid src r x"
  using assms by (cases e) (auto simp: other_chunk_def)

lemma chunk_inv_step:
  assumes "sys_step c srcs S S'" and inv: "chunk_inv rid src S" and lanes: "lanes_inv (sy_tasks S)"
    and src: "src \<notin> srcs"
  shows "chunk_inv rid src S'"
  using assms(1)
proof (cases rule: sys_step.cases)
  case (complete i err T')
  then show ?thesis
    using inv complete_frame [OF complete(4)]
    by (auto intro!: chunk_inv_frame [OF inv] simp: on_background_task_done_def inbox_chunks_def
        split: option.split)
next
  case (direct e h)
  have "keeps (\<lambda>s. inbox_chunks rid src s = inbox_chunks rid src (sy_stage S)) (stage_step c h e)"
    using direct_other_chunk [OF src direct(2)] by (intro chunks.step)
  from keepsD [OF this refl] direct show ?thesis
    by (auto intro!: chunk_inv_frame [OF inv])
qed (use inv lanes in \<open>auto intro!: chunk_inv_part chunks.reads chunk_inv_receive chunk_inv_hand_on\<close>)

lemma chunk_inv_init: "chunk_inv rid src \<lparr>sy_stage = stage_init q, sy_tasks = lanes_init\<rparr>"
  by (simp add: chunk_inv_def lanes_init_def stage_init_def inbox_chunks_def)

lemma sys_reach_chunks: "sys_reach c srcs S \<Longrightarrow> src \<notin> srcs \<Longrightarrow> chunk_inv rid src S"
  by (induction rule: sys_reach.induct) (auto intro: chunk_inv_init chunk_inv_step sys_reach_lanes)

lemma sorted_subseq:
  fixes xs ys :: "nat list"
  assumes "sorted_wrt (<) xs" and "sorted_wrt (<) ys" and "set xs \<subseteq> set ys"
  shows "subseq xs ys"
proof -
  have "sorted_wrt (<) (filter (\<lambda>y. y \<in> set xs) ys)"
    using assms(2) by (rule sorted_wrt_filter)
  moreover have "set (filter (\<lambda>y. y \<in> set xs) ys) = set xs" using assms(3) by auto
  ultimately have "filter (\<lambda>y. y \<in> set xs) ys = xs"
    using assms(1) by (intro sorted_distinct_set_unique) (auto simp: strict_sorted_iff)
  then show ?thesis by (metis subseq_filter_left)
qed

text \<open>
  C8: the chunks that another process streams to a stage for a request enter the scheduler's
  inbox in the order in which their messages arrived, whatever order their reads finish in and
  whatever else happens in between; a chunk is missing only when its read failed or the request
  ended first, and none is delivered twice.
\<close>

theorem chunks_enter_in_arrival_order:
  assumes "sys_reach c srcs S" and "src \<notin> srcs"
  defines "T \<equiv> sy_tasks S"
  shows "\<exists>ks. subseq ks (filter (\<lambda>i. lane_of_msg (msg_at T i) = (rid, src)) [0..<length (rl_tasks T)]) \<and>
    inbox_chunks rid src (sy_stage S) = map (\<lambda>i. the (dm_chunk (msg_at T i))) ks"
proof -
  have lanes: "lanes_inv T" using sys_reach_lanes [OF assms(1)] by (simp add: T_def)
  have inv: "chunk_inv rid src S" by (rule sys_reach_chunks [OF assms(1,2)])
  let ?f = "filter (\<lambda>i. lane_of T i = (rid, src))"
  have lane: "?f [0..<length (rl_tasks T)]
      = filter (\<lambda>i. lane_of_msg (msg_at T i) = (rid, src)) [0..<length (rl_tasks T)]"
    using inv by (intro filter_cong) (auto simp: chunk_inv_def T_def)
  have "subseq (?f (rl_handed T)) (?f [0..<length (rl_tasks T)])"
  proof (rule sorted_subseq)
    show "sorted_wrt (<) (?f (rl_handed T))" by (rule lanes_invD(5) [OF lanes])
    show "sorted_wrt (<) (?f [0..<length (rl_tasks T)])" by (rule sorted_wrt_filter) simp
    show "set (?f (rl_handed T)) \<subseteq> set (?f [0..<length (rl_tasks T)])"
      using lanes_invD(4) [OF lanes] by auto
  qed
  note handed = this
  from inv obtain ks where "subseq ks (?f (rl_handed T))"
      "inbox_chunks rid src (sy_stage S) = map (\<lambda>i. the (dm_chunk (msg_at T i))) ks"
    unfolding chunk_inv_def T_def by blast
  with subseq_order.trans [OF _ handed] lane show ?thesis by (intro exI [of _ ks]) simp
qed

text \<open>A chunk that arrives ahead of the payload at a stage that allows it.\<close>

definition demo_chunk :: data_msg where
  "demo_chunk = \<lparr>dm_request = ''a'', dm_from = ''enc'', dm_ref = IpcChunk (Inr (2, None)),
     dm_chunk = Some 7, dm_done = False, dm_error = None\<rparr>"

abbreviation "demo_early \<equiv> demo_stage\<lparr>sc_pre_payload := True\<rparr>"

definition demo_sys1 :: system where
  "demo_sys1 = \<lparr>sy_stage = stage_init (Some sq_init),
     sy_tasks = schedule_receive_task (lane_of_msg demo_chunk) demo_chunk Unstarted lanes_init\<rparr>"

definition demo_sys2 :: system where
  "demo_sys2 = run_part 0 (begin_handler demo_early (msg_at (sy_tasks demo_sys1) 0)) demo_sys1"

definition demo_sys3 :: system where
  "demo_sys3 = \<lparr>sy_stage = snd (hand_onward demo_early demo_objects (msg_at (sy_tasks demo_sys2) 0)
       (GiveChunk 2 None) (sy_stage demo_sys2)),
     sy_tasks = task_hand_on 0 (error_of (fst (hand_onward demo_early demo_objects
       (msg_at (sy_tasks demo_sys2) 0) (GiveChunk 2 None) (sy_stage demo_sys2)))) (sy_tasks demo_sys2)\<rparr>"

lemma demo_sys2_eval:
  "demo_sys2 = \<lparr>sy_stage = (stage_init (Some sq_init))\<lparr>st_active := {''a''}\<rparr>,
     sy_tasks = task_wait 0 (GiveChunk 2 None) (sy_tasks demo_sys1)\<rparr>"
  by (simp add: demo_sys2_def run_part_def demo_sys1_def schedule_receive_task_def lanes_init_def
      begin_handler_def begin_stream_chunk_def demo_chunk_def add_active_def stage_init_def
      progress_task_def)

lemma demo_sys_reach: "sys_reach demo_early {} demo_sys3"
proof -
  have "sys_reach demo_early {} demo_sys1"
    using sys_reach.step [OF sys_reach.start sys_step.receive, of demo_chunk "{}" demo_early "Some sq_init"]
    by (simp add: demo_sys1_def)
  then have "sys_reach demo_early {} demo_sys2"
    unfolding demo_sys2_def
    by (rule sys_reach.step [OF _ sys_step.start])
      (simp_all add: demo_sys1_def schedule_receive_task_def lanes_init_def)
  then show ?thesis
    unfolding demo_sys3_def
    by (rule sys_reach.step [OF _ sys_step.hand_on])
      (simp_all add: demo_sys2_eval demo_sys1_def schedule_receive_task_def lanes_init_def task_wait_def
        set_phase_def task_ready_def predecessor_done_def)
qed

theorem chunks_enter_in_arrival_order_witness:
  "inbox_chunks ''a'' ''enc'' (sy_stage demo_sys3) = [7] \<and>
   (\<exists>ks. subseq ks (filter (\<lambda>i. lane_of_msg (msg_at (sy_tasks demo_sys3) i) = (''a'', ''enc''))
        [0..<length (rl_tasks (sy_tasks demo_sys3))]) \<and>
      inbox_chunks ''a'' ''enc'' (sy_stage demo_sys3)
        = map (\<lambda>i. the (dm_chunk (msg_at (sy_tasks demo_sys3) i))) ks)"
proof
  show "inbox_chunks ''a'' ''enc'' (sy_stage demo_sys3) = [7]"
    by (simp add: demo_sys3_def demo_sys2_eval demo_sys1_def task_wait_def set_phase_def
        schedule_receive_task_def lanes_init_def hand_onward_def stage_init_def
        route_stream_item_or_fail_def open_pre_payload_stream_if_allowed_def sq_has_def sq_init_def
        add_active_def route_stream_item_def inbox_put_def inbox_chunks_def demo_chunk_def)
qed (rule chunks_enter_in_arrival_order [OF demo_sys_reach], simp)

end
