(* ===== verification/Simple_Scheduler.thy ===== *)
theory Simple_Scheduler
  imports Prelude "HOL-Library.Sublist" "HOL-Library.Multiset"
begin

text \<open>
  The scheduler of stages that run a function per request:
  \<open>sglang_omni/scheduling/simple_scheduler.py\<close>, its serial loop with batching. Two things come from
  outside the loop's thread: aborts, which take effect whenever the loop looks at the set of
  aborted requests, and the messages that arrive while a batch is being collected. The first are
  a script of lists, one list consumed at every look; the second is the number of messages that
  can be taken before the deadline of each iteration.
\<close>

section \<open>Configuration and state\<close>

datatype 'p message = Request string 'p | Other string

text \<open>
  \<open>compute_fn\<close>, \<open>batch_compute_fn\<close> and \<open>request_cost_fn\<close> are supplied by the model's stage; each
  may raise.
\<close>

record ('p, 'r) simple_config =
  sg_fn :: "'p \<Rightarrow> 'r result"
  sg_batch_fn :: "('p list \<Rightarrow> 'r list result) option"
  sg_max_batch :: nat
  sg_cost_fn :: "('p \<Rightarrow> int result) option"
  sg_max_cost :: "int option"
  sg_order :: "string set \<Rightarrow> string list"

definition new_simple ::
    "('p \<Rightarrow> 'r result) \<Rightarrow> ('p list \<Rightarrow> 'r list result) option \<Rightarrow> int \<Rightarrow> ('p \<Rightarrow> int result) option \<Rightarrow>
     int option \<Rightarrow> int \<Rightarrow> (string set \<Rightarrow> string list) \<Rightarrow> ('p, 'r) simple_config result" where
  "new_simple fn batch_fn max_batch cost_fn max_cost max_concurrency ord =
     bindE (guardE (\<not> (max max_concurrency 1 > 1 \<and> batch_fn \<noteq> None))
       (ValueError ''max_concurrency > 1 and batch_compute_fn are mutually exclusive'')) (\<lambda>_.
     Inr \<lparr>sg_fn = fn, sg_batch_fn = batch_fn, sg_max_batch = nat (max max_batch 1),
          sg_cost_fn = cost_fn, sg_max_cost = map_option (\<lambda>k. max k 0) max_cost, sg_order = ord\<rparr>)"

record ('p, 'r) simple =
  sm_inbox :: "'p message list"
  sm_pending :: "'p message list"
  sm_aborted :: "string set"
  sm_outbox :: "(string \<times> 'r result) list"
  sm_cleanups :: "string list"
  sm_script :: "string list list"

type_synonym ('p, 'r, 'a) simple_op = "(('p, 'r) simple, 'a) oper"

section \<open>Aborts\<close>

definition abort_request ::
    "('p, 'r) simple_config \<Rightarrow> string \<Rightarrow> ('p, 'r) simple \<Rightarrow> ('p, 'r) simple" where
  "abort_request c rid s =
     s\<lparr>sm_aborted := cap_set (sg_order c) 10000 5000 (insert rid (sm_aborted s)),
       sm_cleanups := sm_cleanups s @ [rid]\<rparr>"

text \<open>What other threads have aborted since the last look.\<close>

definition interference :: "('p, 'r) simple_config \<Rightarrow> ('p, 'r) simple \<Rightarrow> ('p, 'r) simple" where
  "interference c s = (case sm_script s of
     [] \<Rightarrow> s
   | rs # rest \<Rightarrow> fold (abort_request c) rs (s\<lparr>sm_script := rest\<rparr>))"

definition consume_if_aborted :: "('p, 'r) simple_config \<Rightarrow> string \<Rightarrow> ('p, 'r, bool) simple_op" where
  "consume_if_aborted c rid s =
     (let s1 = interference c s in
      if rid \<notin> sm_aborted s1 then (Inr False, s1)
      else (Inr True, s1\<lparr>sm_aborted := sm_aborted s1 - {rid}, sm_cleanups := sm_cleanups s1 @ [rid]\<rparr>))"

definition emit :: "string \<Rightarrow> 'r result \<Rightarrow> ('p, 'r, unit) simple_op" where
  "emit rid r = modify (\<lambda>s. s\<lparr>sm_outbox := sm_outbox s @ [(rid, r)]\<rparr>)"

definition emit_unless_aborted ::
    "('p, 'r) simple_config \<Rightarrow> string \<Rightarrow> 'r result \<Rightarrow> ('p, 'r, unit) simple_op" where
  "emit_unless_aborted c rid r =
     andthen (consume_if_aborted c rid) (\<lambda>gone. if gone then ret () else emit rid r)"

section \<open>Batches\<close>

definition message_cost :: "('p, 'r) simple_config \<Rightarrow> 'p message \<Rightarrow> int result" where
  "message_cost c m = (case (sg_cost_fn c, m) of
     (Some f, Request rid p) \<Rightarrow> bindE (f p) (\<lambda>k. Inr (max k 0))
   | _ \<Rightarrow> Inr 0)"

text \<open>
  The loop of \<open>_collect_batch\<close>: \<open>avail\<close> messages can be had before the deadline. The result is the
  batch (or what the cost function raised), what is left of the inbox and the pending messages.
\<close>

fun collect_loop ::
    "('p, 'r) simple_config \<Rightarrow> nat \<Rightarrow> 'p message list \<Rightarrow> (string \<times> 'p) list \<Rightarrow> int \<Rightarrow> 'p message list \<Rightarrow>
     (string \<times> 'p) list result \<times> 'p message list \<times> 'p message list" where
  "collect_loop c avail [] batch cost pending = (Inr batch, [], pending)"
| "collect_loop c avail (m # rest) batch cost pending =
     (if length batch \<ge> sg_max_batch c \<or> avail = 0 then (Inr batch, m # rest, pending)
      else case m of
        Other rid \<Rightarrow> collect_loop c (avail - 1) rest batch cost (pending @ [m])
      | Request rid p \<Rightarrow> (case sg_max_cost c of
          None \<Rightarrow> collect_loop c (avail - 1) rest (batch @ [(rid, p)]) cost pending
        | Some limit \<Rightarrow> (case message_cost c m of
            Inl e \<Rightarrow> (Inl e, rest, pending)
          | Inr k \<Rightarrow>
              (if cost + k > limit then (Inr batch, rest, m # pending)
               else collect_loop c (avail - 1) rest (batch @ [(rid, p)]) (cost + k) pending))))"

definition collect_batch ::
    "('p, 'r) simple_config \<Rightarrow> nat \<Rightarrow> string \<times> 'p \<Rightarrow> 'p message list \<Rightarrow> 'p message list \<Rightarrow>
     (string \<times> 'p) list result \<times> 'p message list \<times> 'p message list" where
  "collect_batch c avail first inbox pending =
     (if sg_batch_fn c = None \<or> sg_max_batch c \<le> 1 then (Inr [first], inbox, pending)
      else case message_cost c (Request (fst first) (snd first)) of
        Inl e \<Rightarrow> (Inl e, inbox, pending)
      | Inr k \<Rightarrow> collect_loop c avail inbox [first] k pending)"

definition run_single ::
    "('p, 'r) simple_config \<Rightarrow> string \<times> 'p \<Rightarrow> ('p, 'r, unit) simple_op" where
  "run_single c m =
     andthen (consume_if_aborted c (fst m)) (\<lambda>gone.
     if gone then ret ()
     else case sg_fn c (snd m) of
       Inl e \<Rightarrow> andthen (consume_if_aborted c (fst m)) (\<lambda>gone. if gone then ret () else raise e)
     | Inr r \<Rightarrow> emit_unless_aborted c (fst m) (Inr r))"

definition run_batch ::
    "('p, 'r) simple_config \<Rightarrow> (string \<times> 'p) list \<Rightarrow> ('p, 'r, unit) simple_op" where
  "run_batch c batch = (case sg_batch_fn c of
     None \<Rightarrow> for_each (run_single c) batch
   | Some f \<Rightarrow>
       (if length batch \<le> 1 then for_each (run_single c) batch
        else andthen (lift (f (map snd batch))) (\<lambda>results.
          if length results \<noteq> length batch
          then raise (ValueError ''batch_compute_fn returned the wrong number of results'')
          else for_each (\<lambda>(m, r). emit_unless_aborted c (fst m) (Inr r)) (zip batch results))))"

section \<open>The serial loop\<close>

text \<open>\<open>except Exception as exc\<close>: an error for every member of the batch.\<close>

definition fail_batch ::
    "('p, 'r) simple_config \<Rightarrow> (string \<times> 'p) list \<Rightarrow> py_error \<Rightarrow> ('p, 'r, unit) simple_op" where
  "fail_batch c batch e = for_each (\<lambda>m. emit_unless_aborted c (fst m) (Inl e)) batch"

definition handle_request ::
    "('p, 'r) simple_config \<Rightarrow> nat \<Rightarrow> string \<times> 'p \<Rightarrow> ('p, 'r, unit) simple_op" where
  "handle_request c avail m =
     andthen (consume_if_aborted c (fst m)) (\<lambda>gone.
     if gone then ret ()
     else with_state (\<lambda>s. case collect_batch c avail m (sm_inbox s) (sm_pending s) of
       (r, inbox, pending) \<Rightarrow>
         andthen (modify (\<lambda>s. s\<lparr>sm_inbox := inbox, sm_pending := pending\<rparr>)) (\<lambda>_.
         case r of
           Inl e \<Rightarrow> fail_batch c [m] e
         | Inr batch \<Rightarrow> catch (run_batch c batch) (fail_batch c batch))))"

definition handle_message ::
    "('p, 'r) simple_config \<Rightarrow> nat \<Rightarrow> 'p message \<Rightarrow> ('p, 'r, unit) simple_op" where
  "handle_message c avail m = (case m of
     Request rid p \<Rightarrow> handle_request c avail (rid, p)
   | Other rid \<Rightarrow> ret ())"

text \<open>\<open>_next_message\<close> and one round of the loop; an empty round (a timeout) changes nothing.\<close>

definition serial_step :: "('p, 'r) simple_config \<Rightarrow> nat \<Rightarrow> ('p, 'r) simple \<Rightarrow> ('p, 'r) simple" where
  "serial_step c avail s = (case sm_pending s of
     m # rest \<Rightarrow> snd (handle_message c avail m (s\<lparr>sm_pending := rest\<rparr>))
   | [] \<Rightarrow> (case sm_inbox s of
       m # rest \<Rightarrow> snd (handle_message c avail m (s\<lparr>sm_inbox := rest\<rparr>))
     | [] \<Rightarrow> s))"

fun serial_run :: "('p, 'r) simple_config \<Rightarrow> nat list \<Rightarrow> ('p, 'r) simple \<Rightarrow> ('p, 'r) simple" where
  "serial_run c [] s = s"
| "serial_run c (avail # avails) s = serial_run c avails (serial_step c avail s)"

section \<open>What waits\<close>

fun requests :: "'p message list \<Rightarrow> (string \<times> 'p) list" where
  "requests [] = []"
| "requests (Request rid p # ms) = (rid, p) # requests ms"
| "requests (Other rid # ms) = requests ms"

lemma requests_append [simp]: "requests (xs @ ys) = requests xs @ requests ys"
  by (induction xs rule: requests.induct) simp_all

definition waiting :: "('p, 'r) simple \<Rightarrow> (string \<times> 'p) list" where
  "waiting s = requests (sm_pending s @ sm_inbox s)"

text \<open>At most the first pending message is a request.\<close>

definition pending_ok :: "'p message list \<Rightarrow> bool" where
  "pending_ok ms \<longleftrightarrow> requests (tl ms) = []"

definition cost_total :: "('p, 'r) simple_config \<Rightarrow> bool" where
  "cost_total c \<longleftrightarrow> (\<forall>f p. sg_cost_fn c = Some f \<longrightarrow> is_ok (f p))"

lemma message_cost_ok: "cost_total c \<Longrightarrow> \<exists>k. message_cost c m = Inr k"
  by (cases m; cases "sg_cost_fn c")
    (auto simp: cost_total_def message_cost_def is_ok_iff split: sum.split intro: bindE_simps)

lemma requests_tl: "requests ms = [] \<Longrightarrow> requests (tl ms) = []"
  by (cases ms rule: requests.cases) auto

lemma collect_loop_splits:
  assumes "cost_total c" and "requests pending = []"
  shows "\<exists>b inbox' pending'. collect_loop c avail inbox batch cost pending = (Inr (batch @ b), inbox', pending') \<and>
    b @ requests (pending' @ inbox') = requests inbox \<and> pending_ok pending' \<and>
    length pending' + length inbox' \<le> length pending + length inbox"
  using assms
proof (induction c avail inbox batch cost pending rule: collect_loop.induct)
  case (1 c avail batch cost pending)
  then show ?case by (simp add: pending_ok_def requests_tl)
next
  case (2 c avail m rest batch cost pending)
  show ?case
  proof (cases "length batch \<ge> sg_max_batch c \<or> avail = 0")
    case True
    with 2 show ?thesis by (auto simp: pending_ok_def requests_tl)
  next
    case go: False
    show ?thesis
    proof (cases m)
      case (Other rid)
      from "2.IH"(3) [OF go Other] 2(4,5) obtain b inbox' pending' where
        "collect_loop c (avail - 1) rest batch cost (pending @ [Other rid]) = (Inr (batch @ b), inbox', pending')"
        "b @ requests (pending' @ inbox') = requests rest" "pending_ok pending'"
        "length pending' + length inbox' \<le> length (pending @ [Other rid]) + length rest"
        by (auto simp: Other)
      with go Other show ?thesis by auto
    next
      case (Request rid p)
      show ?thesis
      proof (cases "sg_max_cost c")
        case None
        from "2.IH"(1) [OF go Request None] 2(4,5) obtain b inbox' pending' where
          "collect_loop c (avail - 1) rest (batch @ [(rid, p)]) cost pending = (Inr ((batch @ [(rid, p)]) @ b), inbox', pending')"
          "b @ requests (pending' @ inbox') = requests rest" "pending_ok pending'"
          "length pending' + length inbox' \<le> length pending + length rest"
          by blast
        with go Request None show ?thesis
          by (intro exI [of _ "(rid, p) # b"] exI [of _ inbox'] exI [of _ pending']) simp
      next
        case (Some limit)
        obtain k where k: "message_cost c m = Inr k"
          using message_cost_ok [OF 2(4)] by blast
        show ?thesis
        proof (cases "cost + k > limit")
          case True
          with go Request Some k 2(5) show ?thesis by (simp add: pending_ok_def)
        next
          case False
          from "2.IH"(2) [OF go Request Some k False] 2(4,5) obtain b inbox' pending' where
            "collect_loop c (avail - 1) rest (batch @ [(rid, p)]) (cost + k) pending = (Inr ((batch @ [(rid, p)]) @ b), inbox', pending')"
            "b @ requests (pending' @ inbox') = requests rest" "pending_ok pending'"
            "length pending' + length inbox' \<le> length pending + length rest"
            by blast
          with go Request Some k False show ?thesis
            by (intro exI [of _ "(rid, p) # b"] exI [of _ inbox'] exI [of _ pending']) simp
        qed
      qed
    qed
  qed
qed

lemma collect_batch_splits:
  assumes "cost_total c" and "requests pending = []"
  shows "\<exists>b inbox' pending'. collect_batch c avail m inbox pending = (Inr (m # b), inbox', pending') \<and>
    b @ requests (pending' @ inbox') = requests inbox \<and> pending_ok pending' \<and>
    length pending' + length inbox' \<le> length pending + length inbox \<and>
    (sg_batch_fn c = None \<longrightarrow> b = [])"
proof -
  obtain k where k: "message_cost c (Request (fst m) (snd m)) = Inr k"
    using message_cost_ok [OF assms(1)] by blast
  show ?thesis
  proof (cases "sg_batch_fn c = None \<or> sg_max_batch c \<le> 1")
    case True
    with assms(2) show ?thesis by (simp add: collect_batch_def pending_ok_def requests_tl)
  next
    case False
    with collect_loop_splits [OF assms, of avail inbox "[m]" k] k show ?thesis
      by (auto simp: collect_batch_def)
  qed
qed

section \<open>What one round answers\<close>

text \<open>Everything aborted so far or by the rest of the script.\<close>

definition ever_aborted :: "('p, 'r) simple \<Rightarrow> string set" where
  "ever_aborted s = sm_aborted s \<union> set (concat (sm_script s))"

text \<open>
  \<open>answers batch s s'\<close>: between the two states the members of the batch are answered in order,
  each at most once, the ones no one aborts exactly once, and nothing else changes in the queues.
\<close>

definition answers :: "(string \<times> 'p) list \<Rightarrow> ('p, 'r) simple \<Rightarrow> ('p, 'r) simple \<Rightarrow> bool" where
  "answers batch s s' \<longleftrightarrow>
     sm_inbox s' = sm_inbox s \<and> sm_pending s' = sm_pending s \<and> ever_aborted s' \<subseteq> ever_aborted s \<and>
     (\<exists>out. sm_outbox s' = sm_outbox s @ out \<and> subseq (map fst out) (map fst batch) \<and>
       (\<forall>rid \<in> fst ` set batch. rid \<notin> ever_aborted s \<longrightarrow> rid \<in> fst ` set out))"

lemma answers_refl: "answers [] s s"
  by (simp add: answers_def)

lemma answers_trans:
  assumes "answers b1 s t" and "answers b2 t u"
  shows "answers (b1 @ b2) s u"
proof -
  obtain o1 where 1: "sm_outbox t = sm_outbox s @ o1" "subseq (map fst o1) (map fst b1)"
    "\<forall>rid \<in> fst ` set b1. rid \<notin> ever_aborted s \<longrightarrow> rid \<in> fst ` set o1"
    and m1: "sm_inbox t = sm_inbox s" "sm_pending t = sm_pending s" "ever_aborted t \<subseteq> ever_aborted s"
    using assms(1) unfolding answers_def by blast
  obtain o2 where 2: "sm_outbox u = sm_outbox t @ o2" "subseq (map fst o2) (map fst b2)"
    "\<forall>rid \<in> fst ` set b2. rid \<notin> ever_aborted t \<longrightarrow> rid \<in> fst ` set o2"
    and m2: "sm_inbox u = sm_inbox t" "sm_pending u = sm_pending t" "ever_aborted u \<subseteq> ever_aborted t"
    using assms(2) unfolding answers_def by blast
  have "subseq (map fst (o1 @ o2)) (map fst (b1 @ b2))"
    using 1(2) 2(2) by (simp add: list_emb_append_mono)
  moreover have "\<forall>rid \<in> fst ` set (b1 @ b2). rid \<notin> ever_aborted s \<longrightarrow> rid \<in> fst ` set (o1 @ o2)"
    using 1(3) 2(3) m1(3) by auto
  ultimately show ?thesis
    unfolding answers_def using 1(1) 2(1) m1 m2
    by (intro conjI exI [of _ "o1 @ o2"]) auto
qed

lemma answers_then: "answers [] s t \<Longrightarrow> answers b t u \<Longrightarrow> answers b s u"
  using answers_trans [of "[]"] by simp

lemma abort_request_queues [simp]:
  "sm_inbox (abort_request c rid s) = sm_inbox s"
  "sm_pending (abort_request c rid s) = sm_pending s"
  "sm_outbox (abort_request c rid s) = sm_outbox s"
  "sm_script (abort_request c rid s) = sm_script s"
  by (simp_all add: abort_request_def)

lemma abort_requests_queues:
  "sm_inbox (fold (abort_request c) rs s) = sm_inbox s \<and>
   sm_pending (fold (abort_request c) rs s) = sm_pending s \<and>
   sm_outbox (fold (abort_request c) rs s) = sm_outbox s \<and>
   sm_script (fold (abort_request c) rs s) = sm_script s \<and>
   sm_aborted (fold (abort_request c) rs s) \<subseteq> sm_aborted s \<union> set rs"
proof (induction rs arbitrary: s)
  case (Cons r rs)
  have "sm_aborted (abort_request c r s) \<subseteq> insert r (sm_aborted s)"
    by (simp add: abort_request_def cap_set_subset)
  with Cons.IH [of "abort_request c r s"] show ?case by auto
qed simp

lemma interference_queues:
  "sm_inbox (interference c s) = sm_inbox s \<and> sm_pending (interference c s) = sm_pending s \<and>
   sm_outbox (interference c s) = sm_outbox s \<and> ever_aborted (interference c s) \<subseteq> ever_aborted s"
proof (cases "sm_script s")
  case (Cons rs rest)
  with abort_requests_queues [of c rs "s\<lparr>sm_script := rest\<rparr>"] show ?thesis
    by (auto simp: interference_def ever_aborted_def)
qed (simp add: interference_def)

lemma consume_answers:
  obtains gone s' where "consume_if_aborted c rid s = (Inr gone, s')" "answers [] s s'"
    "gone \<longrightarrow> rid \<in> ever_aborted s"
proof -
  let ?i = "interference c s"
  let ?r = "consume_if_aborted c rid s"
  have "answers [] s ?i" using interference_queues [of c s] by (simp add: answers_def)
  moreover have "ever_aborted (?i\<lparr>sm_aborted := sm_aborted ?i - {rid}, sm_cleanups := x\<rparr>) \<subseteq> ever_aborted ?i" for x
    by (auto simp: ever_aborted_def)
  ultimately have "answers [] s (snd ?r)"
    by (auto simp: consume_if_aborted_def Let_def answers_def)
  moreover have "fst ?r = Inr (rid \<in> sm_aborted ?i)"
    by (simp add: consume_if_aborted_def Let_def)
  moreover have "rid \<in> sm_aborted ?i \<Longrightarrow> rid \<in> ever_aborted s"
    using interference_queues [of c s] by (auto simp: ever_aborted_def)
  ultimately show ?thesis
    using that [of "rid \<in> sm_aborted ?i" "snd ?r"] by (metis prod.collapse)
qed

lemma answers_emit: "answers [(rid, p)] s (s\<lparr>sm_outbox := sm_outbox s @ [(rid, r)]\<rparr>)"
  by (auto simp: answers_def ever_aborted_def)

lemma answers_gone: "answers [] s s' \<Longrightarrow> rid \<in> ever_aborted s \<Longrightarrow> answers [(rid, p)] s s'"
  by (auto simp: answers_def)

lemma emit_unless_aborted_answers:
  obtains s' where "emit_unless_aborted c rid r s = (Inr (), s')" "answers [(rid, p)] s s'"
proof -
  obtain gone t where t: "consume_if_aborted c rid s = (Inr gone, t)" "answers [] s t"
    "gone \<longrightarrow> rid \<in> ever_aborted s"
    by (rule consume_answers [of c rid s])
  show ?thesis
  proof (cases gone)
    case True
    with t that [of t] answers_gone [of s t rid p] show ?thesis
      by (simp add: emit_unless_aborted_def)
  next
    case False
    with t that [of "t\<lparr>sm_outbox := sm_outbox t @ [(rid, r)]\<rparr>"] answers_then [OF t(2) answers_emit [of rid p t r]]
    show ?thesis by (simp add: emit_unless_aborted_def emit_def andthen_def)
  qed
qed

lemma emit_all_answers:
  "\<exists>s'. for_each (\<lambda>x. emit_unless_aborted c (fst (f x)) (g x)) xs s = (Inr (), s') \<and> answers (map f xs) s s'"
proof (induction xs arbitrary: s)
  case (Cons x xs)
  obtain t where t: "emit_unless_aborted c (fst (f x)) (g x) s = (Inr (), t)"
    "answers [(fst (f x), snd (f x))] s t"
    by (rule emit_unless_aborted_answers)
  obtain u where "for_each (\<lambda>x. emit_unless_aborted c (fst (f x)) (g x)) xs t = (Inr (), u)"
    "answers (map f xs) t u" using Cons.IH by blast
  with t answers_trans [OF t(2)] show ?case by force
qed (simp add: answers_refl)

lemma run_single_answers:
  "\<exists>r s'. run_single c m s = (r, s') \<and> (case r of Inl e \<Rightarrow> answers [] s s' | Inr u \<Rightarrow> answers [m] s s')"
proof -
  obtain gone t where t: "consume_if_aborted c (fst m) s = (Inr gone, t)" "answers [] s t"
    "gone \<longrightarrow> fst m \<in> ever_aborted s"
    by (rule consume_answers [of c "fst m" s])
  obtain gone2 u where u: "consume_if_aborted c (fst m) t = (Inr gone2, u)" "answers [] t u"
    "gone2 \<longrightarrow> fst m \<in> ever_aborted t"
    by (rule consume_answers [of c "fst m" t])
  have gone: "answers [] s v \<Longrightarrow> fst m \<in> ever_aborted s \<Longrightarrow> answers [m] s v" for v
    using answers_gone [of s v "fst m" "snd m"] by simp
  have sub: "ever_aborted t \<subseteq> ever_aborted s" using t(2) by (simp add: answers_def)
  show ?thesis
  proof (cases gone)
    case True
    with t gone show ?thesis by (simp add: run_single_def)
  next
    case running: False
    show ?thesis
    proof (cases "sg_fn c (snd m)")
      case (Inl e)
      with running t u gone sub answers_then [OF t(2) u(2)] show ?thesis
        by (cases gone2) (auto simp: run_single_def)
    next
      case (Inr r)
      obtain v where "emit_unless_aborted c (fst m) (Inr r) t = (Inr (), v)" "answers [(fst m, snd m)] t v"
        by (rule emit_unless_aborted_answers)
      with running t Inr answers_then [OF t(2), of "[m]" v] show ?thesis
        by (simp add: run_single_def)
    qed
  qed
qed

lemma run_batch_answers:
  assumes "sg_batch_fn c = None \<longrightarrow> length batch \<le> 1"
  shows "\<exists>r s'. run_batch c batch s = (r, s') \<and> (case r of Inl e \<Rightarrow> answers [] s s' | Inr u \<Rightarrow> answers batch s s')"
proof (cases "length batch \<le> 1")
  case True
  then consider "batch = []" | m where "batch = [m]"
    by (cases batch) auto
  then show ?thesis
  proof cases
    case 2
    obtain r s' where r: "run_single c m s = (r, s')"
      "case r of Inl e \<Rightarrow> answers [] s s' | Inr u \<Rightarrow> answers [m] s s'"
      using run_single_answers [of c m s] by blast
    then have "run_batch c batch s = (r, s')"
      by (cases r) (simp_all add: run_batch_def 2 split: option.split)
    with r 2 show ?thesis by (cases r) auto
  qed (simp add: run_batch_def answers_refl split: option.split)
next
  case False
  with assms obtain f where f: "sg_batch_fn c = Some f" by auto
  show ?thesis
  proof (cases "f (map snd batch)")
    case (Inl e)
    with False f show ?thesis by (simp add: run_batch_def answers_refl)
  next
    case (Inr results)
    show ?thesis
    proof (cases "length results = length batch")
      case True
      obtain s' where "for_each (\<lambda>x. emit_unless_aborted c (fst (fst x)) (Inr (snd x))) (zip batch results) s = (Inr (), s')"
        "answers (map fst (zip batch results)) s s'"
        using emit_all_answers [where f = fst and g = "\<lambda>x. Inr (snd x)"] by blast
      with True False f Inr show ?thesis
        by (simp add: run_batch_def case_prod_unfold map_fst_zip)
    next
      case False
      with \<open>\<not> length batch \<le> 1\<close> f Inr show ?thesis by (simp add: run_batch_def answers_refl)
    qed
  qed
qed

lemma guarded_batch_answers:
  assumes "sg_batch_fn c = None \<longrightarrow> length batch \<le> 1"
  shows "\<exists>s'. catch (run_batch c batch) (fail_batch c batch) s = (Inr (), s') \<and> answers batch s s'"
proof -
  obtain r t where t: "run_batch c batch s = (r, t)" "case r of Inl e \<Rightarrow> answers [] s t | Inr u \<Rightarrow> answers batch s t"
    using run_batch_answers [OF assms, of s] by blast
  show ?thesis
  proof (cases r)
    case (Inl e)
    obtain u where "for_each (\<lambda>m. emit_unless_aborted c (fst m) (Inl e)) batch t = (Inr (), u)"
      "answers batch t u"
      using emit_all_answers [of c "\<lambda>m. m" "\<lambda>m. Inl e" batch t] by auto
    with Inl t answers_then [of s t batch u] show ?thesis by (simp add: catch_def fail_batch_def)
  qed (use t in \<open>simp add: catch_def\<close>)
qed

text \<open>One round takes a prefix of the waiting requests and answers it.\<close>

definition round_ok :: "('p, 'r) simple \<Rightarrow> ('p, 'r) simple \<Rightarrow> bool" where
  "round_ok s s' \<longleftrightarrow>
     (\<exists>batch out. waiting s = batch @ waiting s' \<and> sm_outbox s' = sm_outbox s @ out \<and>
        subseq (map fst out) (map fst batch) \<and>
        (\<forall>rid \<in> fst ` set batch. rid \<notin> ever_aborted s \<longrightarrow> rid \<in> fst ` set out)) \<and>
     ever_aborted s' \<subseteq> ever_aborted s \<and> pending_ok (sm_pending s') \<and>
     length (sm_pending s') + length (sm_inbox s') \<le> length (sm_pending s) + length (sm_inbox s) - 1"

lemma round_ok_answers:
  assumes "answers batch s t" and "waiting s0 = batch @ waiting s"
    and "ever_aborted s = ever_aborted s0" and "sm_outbox s = sm_outbox s0" and "pending_ok (sm_pending s)"
    and "length (sm_pending s) + length (sm_inbox s) < length (sm_pending s0) + length (sm_inbox s0)"
  shows "round_ok s0 t"
  using assms unfolding round_ok_def answers_def waiting_def by auto

lemma handle_request_round:
  assumes "cost_total c" and "requests (sm_pending s) = []"
    and "waiting s0 = m # waiting s" and "ever_aborted s = ever_aborted s0" and "sm_outbox s = sm_outbox s0"
    and "length (sm_pending s) + length (sm_inbox s) < length (sm_pending s0) + length (sm_inbox s0)"
  shows "round_ok s0 (snd (handle_request c avail m s))"
proof -
  obtain gone t where t: "consume_if_aborted c (fst m) s = (Inr gone, t)" "answers [] s t"
    "gone \<longrightarrow> fst m \<in> ever_aborted s"
    by (rule consume_answers [of c "fst m" s])
  note tq = t(2) [unfolded answers_def]
  show ?thesis
  proof (cases gone)
    case True
    then have "answers [m] s t" using t answers_gone [of s t "fst m" "snd m"] by simp
    then have "round_ok s0 t"
      by (rule round_ok_answers) (use assms in \<open>simp_all add: pending_ok_def requests_tl\<close>)
    with True t show ?thesis by (simp add: handle_request_def)
  next
    case False
    obtain b inbox pending where b: "collect_batch c avail m (sm_inbox t) (sm_pending t) = (Inr (m # b), inbox, pending)"
      "b @ requests (pending @ inbox) = requests (sm_inbox t)" "pending_ok pending"
      "length pending + length inbox \<le> length (sm_pending t) + length (sm_inbox t)"
      "sg_batch_fn c = None \<longrightarrow> b = []"
      using collect_batch_splits [OF assms(1), of "sm_pending t" avail m "sm_inbox t"] assms(2) tq by auto
    let ?t = "t\<lparr>sm_inbox := inbox, sm_pending := pending\<rparr>"
    let ?s = "s\<lparr>sm_inbox := inbox, sm_pending := pending\<rparr>"
    have "answers [] ?s ?t" using tq by (simp add: answers_def ever_aborted_def)
    moreover obtain u where u: "catch (run_batch c (m # b)) (fail_batch c (m # b)) ?t = (Inr (), u)" "answers (m # b) ?t u"
      using guarded_batch_answers [of c "m # b" ?t] b(5) by auto
    ultimately have "answers (m # b) ?s u" using answers_then by blast
    then have "round_ok s0 u"
      by (rule round_ok_answers) (use assms b tq in \<open>auto simp: waiting_def ever_aborted_def\<close>)
    with False t b u show ?thesis by (simp add: handle_request_def)
  qed
qed

lemma handle_message_round:
  assumes "cost_total c" and "requests (sm_pending s) = []"
    and "waiting s0 = requests [m] @ waiting s" and "ever_aborted s = ever_aborted s0" and "sm_outbox s = sm_outbox s0"
    and "length (sm_pending s) + length (sm_inbox s) < length (sm_pending s0) + length (sm_inbox s0)"
  shows "round_ok s0 (snd (handle_message c avail m s))"
proof (cases m)
  case (Request rid p)
  with handle_request_round [OF assms(1,2) _ assms(4-6), of "(rid, p)" avail] assms(3) show ?thesis
    by (simp add: handle_message_def)
next
  case (Other rid)
  have "round_ok s0 s"
    using answers_refl by (rule round_ok_answers) (use assms Other in \<open>simp_all add: pending_ok_def requests_tl\<close>)
  with Other show ?thesis by (simp add: handle_message_def)
qed

lemma serial_step_round:
  assumes "cost_total c" and "pending_ok (sm_pending s)"
  shows "round_ok s (serial_step c avail s)"
proof (cases "sm_pending s")
  case (Cons m rest)
  moreover have "requests (m # rest @ sm_inbox s) = requests [m] @ requests (rest @ sm_inbox s)"
    using requests_append [of "[m]" "rest @ sm_inbox s"] by simp
  ultimately show ?thesis using assms
    by (auto simp: serial_step_def pending_ok_def waiting_def ever_aborted_def intro!: handle_message_round)
next
  case empty: Nil
  show ?thesis
  proof (cases "sm_inbox s")
    case Nil
    with empty assms show ?thesis
      by (auto simp: serial_step_def round_ok_def waiting_def)
  next
    case (Cons m rest)
    moreover have "requests (m # rest) = requests [m] @ requests rest"
      using requests_append [of "[m]" rest] by simp
    ultimately show ?thesis using assms empty
      by (auto simp: serial_step_def waiting_def ever_aborted_def intro!: handle_message_round)
  qed
qed

lemma subseq_distinct_list: "subseq xs ys \<Longrightarrow> distinct ys \<Longrightarrow> distinct xs"
  by (auto simp: subseq_conv_nths)

lemma distinct_count: "distinct xs \<Longrightarrow> x \<in> set xs \<Longrightarrow> count_list xs x = 1"
  by (induction xs) (auto simp: count_list_0_iff)

lemma serial_run_rounds:
  assumes "cost_total c" and "pending_ok (sm_pending s)"
  shows "(\<exists>batch out. waiting s = batch @ waiting (serial_run c avails s) \<and>
      sm_outbox (serial_run c avails s) = sm_outbox s @ out \<and> subseq (map fst out) (map fst batch) \<and>
      (\<forall>rid \<in> fst ` set batch. rid \<notin> ever_aborted s \<longrightarrow> rid \<in> fst ` set out)) \<and>
    length (sm_pending (serial_run c avails s)) + length (sm_inbox (serial_run c avails s))
      \<le> length (sm_pending s) + length (sm_inbox s) - length avails"
  using assms(2)
proof (induction avails arbitrary: s)
  case (Cons avail avails)
  let ?t = "serial_step c avail s"
  let ?u = "serial_run c avails ?t"
  have r: "round_ok s ?t" using serial_step_round [OF assms(1)] Cons.prems .
  then obtain b1 o1 where 1: "waiting s = b1 @ waiting ?t" "sm_outbox ?t = sm_outbox s @ o1"
    "subseq (map fst o1) (map fst b1)"
    "\<forall>rid \<in> fst ` set b1. rid \<notin> ever_aborted s \<longrightarrow> rid \<in> fst ` set o1"
    and sub: "ever_aborted ?t \<subseteq> ever_aborted s" and ok: "pending_ok (sm_pending ?t)"
    unfolding round_ok_def by blast
  obtain b2 o2 where 2: "waiting ?t = b2 @ waiting ?u" "sm_outbox ?u = sm_outbox ?t @ o2"
    "subseq (map fst o2) (map fst b2)"
    "\<forall>rid \<in> fst ` set b2. rid \<notin> ever_aborted ?t \<longrightarrow> rid \<in> fst ` set o2"
    using Cons.IH [OF ok] by blast
  have "subseq (map fst (o1 @ o2)) (map fst (b1 @ b2))"
    using 1(3) 2(3) by (simp add: list_emb_append_mono)
  moreover have "\<forall>rid \<in> fst ` set (b1 @ b2). rid \<notin> ever_aborted s \<longrightarrow> rid \<in> fst ` set (o1 @ o2)"
    using 1(4) 2(4) sub by auto
  moreover have "length (sm_pending ?u) + length (sm_inbox ?u) \<le> length (sm_pending s) + length (sm_inbox s) - Suc (length avails)"
    using conjunct2 [OF Cons.IH [OF ok]] r [unfolded round_ok_def, THEN conjunct2, THEN conjunct2, THEN conjunct2]
    by linarith
  ultimately show ?case
    using 1(1,2) 2(1,2) by (intro conjI exI [of _ "b1 @ b2"] exI [of _ "o1 @ o2"]) simp_all
qed simp

definition fresh_simple :: "'p message list \<Rightarrow> string list list \<Rightarrow> ('p, 'r) simple" where
  "fresh_simple inbox script =
     \<lparr>sm_inbox = inbox, sm_pending = [], sm_aborted = {}, sm_outbox = [], sm_cleanups = [], sm_script = script\<rparr>"

text \<open>
  C13: The serial loop of \<open>SimpleScheduler\<close> answers in arrival order and forgets no one, provided its
  cost function, if it has one, never raises (\<open>cost_total\<close>: a cost that raises loses the batch that was
  being collected, see \<open>simple_cost_error_loses_request\<close>) and request ids are distinct. Whatever the
  compute and batch functions do, errors included, whatever the batch size, the cost limit, the timing
  of the arrivals and the moments at which requests are aborted: after as many rounds as there are
  messages nothing is left in the inbox nor among the pending messages, the answers in the outbox
  follow the order in which the requests arrived, and a request that no one aborts is answered exactly
  once, with a result or with an error.
\<close>

theorem simple_answers_in_order:
  fixes c :: "('p, 'r) simple_config"
  assumes "cost_total c" and "distinct (map fst (requests inbox))" and "length inbox \<le> length avails"
  shows "sm_inbox (serial_run c avails (fresh_simple inbox script)) = [] \<and>
    sm_pending (serial_run c avails (fresh_simple inbox script)) = [] \<and>
    subseq (map fst (sm_outbox (serial_run c avails (fresh_simple inbox script)))) (map fst (requests inbox)) \<and>
    (\<forall>rid \<in> set (map fst (requests inbox)). rid \<notin> set (concat script) \<longrightarrow>
       count_list (map fst (sm_outbox (serial_run c avails (fresh_simple inbox script)))) rid = 1)"
proof -
  let ?s = "fresh_simple inbox script :: ('p, 'r) simple"
  let ?s' = "serial_run c avails ?s"
  have ok: "pending_ok (sm_pending ?s)" by (simp add: fresh_simple_def pending_ok_def)
  have drained: "sm_inbox ?s' = []" "sm_pending ?s' = []"
    using serial_run_rounds [OF assms(1) ok, of avails] assms(3) by (simp_all add: fresh_simple_def)
  obtain batch out where b: "waiting ?s = batch @ waiting ?s'" "sm_outbox ?s' = sm_outbox ?s @ out"
    "subseq (map fst out) (map fst batch)"
    "\<forall>rid \<in> fst ` set batch. rid \<notin> ever_aborted ?s \<longrightarrow> rid \<in> fst ` set out"
    using serial_run_rounds [OF assms(1) ok, of avails] by blast
  have all: "batch = requests inbox" "sm_outbox ?s' = out"
    using b(1,2) drained by (simp_all add: waiting_def fresh_simple_def)
  then have "distinct (map fst out)" using subseq_distinct_list [OF b(3)] assms(2) by simp
  then have "rid \<in> fst ` set out \<Longrightarrow> count_list (map fst out) rid = 1" for rid
    by (simp add: distinct_count)
  with b all drained show ?thesis by (auto simp: ever_aborted_def fresh_simple_def)
qed

section \<open>Batching is invisible\<close>

definition calm :: "('p, 'r) simple \<Rightarrow> bool" where
  "calm s \<longleftrightarrow> sm_script s = [] \<and> sm_aborted s = {}"

text \<open>The batch function computes what the single function computes, request by request.\<close>

definition batches_agree :: "('p, 'r) simple_config \<Rightarrow> ('p \<Rightarrow> 'r) \<Rightarrow> bool" where
  "batches_agree c f \<longleftrightarrow> (\<forall>p. sg_fn c p = Inr (f p)) \<and>
     (case sg_batch_fn c of None \<Rightarrow> True | Some g \<Rightarrow> (\<forall>ps. g ps = Inr (map f ps)))"

abbreviation answer :: "('p \<Rightarrow> 'r) \<Rightarrow> string \<times> 'p \<Rightarrow> string \<times> 'r result" where
  "answer f m \<equiv> (fst m, Inr (f (snd m)))"

lemma calm_consume: "calm s \<Longrightarrow> consume_if_aborted c rid s = (Inr False, s)"
  by (simp add: consume_if_aborted_def interference_def calm_def)

lemma calm_emit: "calm s \<Longrightarrow> emit_unless_aborted c rid r s = (Inr (), s\<lparr>sm_outbox := sm_outbox s @ [(rid, r)]\<rparr>)"
  using calm_consume [of s c rid] by (simp add: emit_unless_aborted_def emit_def andthen_def)

lemma calm_emit_all:
  "calm s \<Longrightarrow> for_each (\<lambda>x. emit_unless_aborted c (g x) (h x)) xs s =
     (Inr (), s\<lparr>sm_outbox := sm_outbox s @ map (\<lambda>x. (g x, h x)) xs\<rparr>)"
proof (induction xs arbitrary: s)
  case (Cons x xs)
  then have "calm (s\<lparr>sm_outbox := sm_outbox s @ [(g x, h x)]\<rparr>)" by (simp add: calm_def)
  with Cons show ?case by (simp add: calm_emit)
qed simp

lemma calm_run_batch:
  assumes "calm s" and "batches_agree c f" and "sg_batch_fn c = None \<longrightarrow> length batch \<le> 1"
  shows "run_batch c batch s = (Inr (), s\<lparr>sm_outbox := sm_outbox s @ map (answer f) batch\<rparr>)"
proof (cases "length batch \<le> 1")
  case True
  then consider "batch = []" | m where "batch = [m]"
    by (cases batch) auto
  then show ?thesis
  proof cases
    case 2
    have "run_single c m s = (Inr (), s\<lparr>sm_outbox := sm_outbox s @ [answer f m]\<rparr>)"
      using assms(2) calm_consume [OF assms(1), of c "fst m"] calm_emit [OF assms(1)]
      by (simp add: run_single_def batches_agree_def andthen_def)
    with 2 show ?thesis by (simp add: run_batch_def split: option.split)
  qed (simp add: run_batch_def split: option.split)
next
  case False
  with assms(2,3) obtain g where g: "sg_batch_fn c = Some g" "g (map snd batch) = Inr (map f (map snd batch))"
    by (auto simp: batches_agree_def)
  have "map (\<lambda>x. (fst (fst x), Inr (snd x))) (zip batch (map f (map snd batch))) = map (answer f) batch"
    by (induction batch) simp_all
  with False g calm_emit_all [OF assms(1), of c "\<lambda>x. fst (fst x)" "\<lambda>x. Inr (snd x)" "zip batch (map f (map snd batch))"] show ?thesis
    by (simp add: run_batch_def case_prod_unfold)
qed


lemma calm_batch:
  assumes "calm s" and "batches_agree c f" and "cost_total c" and "requests (sm_pending s) = []"
    and "waiting s0 = m # waiting s" and "sm_outbox s = sm_outbox s0"
  shows "\<exists>batch. waiting s0 = batch @ waiting (snd (handle_request c avail m s)) \<and>
    sm_outbox (snd (handle_request c avail m s)) = sm_outbox s0 @ map (answer f) batch \<and>
    calm (snd (handle_request c avail m s))"
proof -
  obtain b inbox pending where b: "collect_batch c avail m (sm_inbox s) (sm_pending s) = (Inr (m # b), inbox, pending)"
    "b @ requests (pending @ inbox) = requests (sm_inbox s)" "sg_batch_fn c = None \<longrightarrow> b = []"
    using collect_batch_splits [OF assms(3,4), of avail m "sm_inbox s"] by auto
  let ?s = "s\<lparr>sm_inbox := inbox, sm_pending := pending\<rparr>"
  have "calm ?s" using assms(1) by (simp add: calm_def)
  then have "run_batch c (m # b) ?s = (Inr (), ?s\<lparr>sm_outbox := sm_outbox ?s @ map (answer f) (m # b)\<rparr>)"
    by (rule calm_run_batch [OF _ assms(2)]) (use b in simp)
  then have "handle_request c avail m s = (Inr (), ?s\<lparr>sm_outbox := sm_outbox ?s @ map (answer f) (m # b)\<rparr>)"
    using b(1) calm_consume [OF assms(1), of c "fst m"]
    by (simp add: handle_request_def andthen_def catch_def)
  with b assms show ?thesis
    by (intro exI [of _ "m # b"]) (simp add: waiting_def calm_def)
qed

lemma calm_step:
  assumes "calm s" and "batches_agree c f" and "cost_total c" and "pending_ok (sm_pending s)"
  shows "\<exists>batch. waiting s = batch @ waiting (serial_step c avail s) \<and>
    sm_outbox (serial_step c avail s) = sm_outbox s @ map (answer f) batch \<and> calm (serial_step c avail s)"
proof (cases "sm_pending s @ sm_inbox s")
  case Nil
  with assms(1) show ?thesis by (simp add: serial_step_def)
next
  case (Cons m rest)
  define t where "t = (case sm_pending s of m # rest \<Rightarrow> s\<lparr>sm_pending := rest\<rparr> | [] \<Rightarrow> s\<lparr>sm_inbox := tl (sm_inbox s)\<rparr>)"
  have step: "serial_step c avail s = snd (handle_message c avail m t)"
    using Cons by (cases "sm_pending s") (auto simp: serial_step_def t_def)
  have t: "calm t" "requests (sm_pending t) = []" "sm_outbox t = sm_outbox s" "waiting t = requests rest"
    using Cons assms(1,4) by (cases "sm_pending s"; auto simp: t_def calm_def pending_ok_def waiting_def)+
  show ?thesis
  proof (cases m)
    case (Request rid p)
    with Cons have "waiting s = (rid, p) # waiting t"
      using t(4) by (simp add: waiting_def del: requests_append)
    from calm_batch [OF t(1) assms(2,3) t(2) this t(3), of avail] Request show ?thesis
      by (simp add: step handle_message_def)
  next
    case (Other rid)
    with Cons have "waiting s = waiting t"
      using t(4) by (simp add: waiting_def del: requests_append)
    with t Other show ?thesis by (simp add: step handle_message_def)
  qed
qed

lemma calm_run:
  assumes "calm s" and "batches_agree c f" and "cost_total c" and "pending_ok (sm_pending s)"
  shows "\<exists>batch. waiting s = batch @ waiting (serial_run c avails s) \<and>
    sm_outbox (serial_run c avails s) = sm_outbox s @ map (answer f) batch"
  using assms(1,4)
proof (induction avails arbitrary: s)
  case (Cons avail avails)
  obtain b1 where 1: "waiting s = b1 @ waiting (serial_step c avail s)"
    "sm_outbox (serial_step c avail s) = sm_outbox s @ map (answer f) b1" "calm (serial_step c avail s)"
    using calm_step [OF Cons.prems(1) assms(2,3) Cons.prems(2)] by blast
  have "pending_ok (sm_pending (serial_step c avail s))"
    using serial_step_round [OF assms(3) Cons.prems(2)] by (simp add: round_ok_def)
  from Cons.IH [OF 1(3) this] obtain b2 where
    "waiting (serial_step c avail s) = b2 @ waiting (serial_run c avails (serial_step c avail s))"
    "sm_outbox (serial_run c avails (serial_step c avail s)) = sm_outbox (serial_step c avail s) @ map (answer f) b2"
    by blast
  with 1 show ?case by (intro exI [of _ "b1 @ b2"]) simp
qed simp

text \<open>
  Batching is invisible. When the batch function computes what the single function computes and
  no one aborts, the outbox after the run is exactly one result per request, in arrival order, each
  the value of the single function on that request's payload: batch sizes, cost limits and the
  timing of the arrivals do not show.
\<close>

theorem simple_batching_is_invisible:
  fixes c :: "('p, 'r) simple_config"
  assumes "cost_total c" and "batches_agree c f" and "length inbox \<le> length avails"
  shows "sm_outbox (serial_run c avails (fresh_simple inbox [])) =
    map (\<lambda>(rid, p). (rid, Inr (f p))) (requests inbox)"
proof -
  let ?s = "fresh_simple inbox [] :: ('p, 'r) simple"
  have ok: "pending_ok (sm_pending ?s)" "calm ?s"
    by (simp_all add: fresh_simple_def pending_ok_def calm_def)
  have "waiting (serial_run c avails ?s) = []"
    using serial_run_rounds [OF assms(1) ok(1), of avails] assms(3)
    by (simp add: fresh_simple_def waiting_def)
  with calm_run [OF ok(2) assms(2,1) ok(1), of avails] show ?thesis
    by (auto simp: waiting_def fresh_simple_def case_prod_unfold)
qed

text \<open>
  A cost function that raises while a batch is being collected loses messages. The loop has
  already taken the second message out of the inbox, the exception leaves \<open>_collect_batch\<close>, and
  the handler only knows the first one: that one is answered with the error, the second request
  is in no queue any more and no answer for it is ever put into the outbox.
\<close>

theorem simple_cost_error_loses_request:
  fixes c :: "('p, 'r) simple_config"
  assumes "sg_batch_fn c = Some g" and "1 < sg_max_batch c"
    and "sg_cost_fn c = Some k" and "sg_max_cost c = Some limit"
    and "k p1 = Inr n" and "k p2 = Inl e"
  shows "sm_outbox (serial_step c (Suc avail) (fresh_simple (Request r1 p1 # Request r2 p2 # rest) [])) = [(r1, Inl e)] \<and>
    waiting (serial_step c (Suc avail) (fresh_simple (Request r1 p1 # Request r2 p2 # rest) [])) = requests rest"
proof -
  let ?s = "fresh_simple (Request r2 p2 # rest) [] :: ('p, 'r) simple"
  have calm: "calm ?s" "calm (?s\<lparr>sm_inbox := rest, sm_pending := []\<rparr>)" by (simp_all add: calm_def fresh_simple_def)
  have "collect_batch c (Suc avail) (r1, p1) (sm_inbox ?s) (sm_pending ?s) = (Inl e, rest, [])"
    using assms by (simp add: collect_batch_def message_cost_def fresh_simple_def)
  then have "handle_request c (Suc avail) (r1, p1) ?s = fail_batch c [(r1, p1)] e (?s\<lparr>sm_inbox := rest, sm_pending := []\<rparr>)"
    using calm_consume [OF calm(1), of c r1] by (simp add: handle_request_def andthen_def)
  then show ?thesis
    using calm_emit [OF calm(2), of c r1 "Inl e"]
    by (simp add: serial_step_def fresh_simple_def handle_message_def fail_batch_def waiting_def)
qed

text \<open>The three properties on a small scheduler: batches of two, cost limit five.\<close>

definition demo_batching :: "(int, int) simple_config" where
  "demo_batching = \<lparr>sg_fn = (\<lambda>p. Inr (p + 1)), sg_batch_fn = Some (\<lambda>ps. Inr (map (\<lambda>p. p + 1) ps)),
     sg_max_batch = 2, sg_cost_fn = Some (\<lambda>p. Inr p), sg_max_cost = Some 5, sg_order = (\<lambda>S. [])\<rparr>"

lemma simple_answers_in_order_witness:
  "count_list (map fst (sm_outbox (serial_run demo_batching [2, 0, 1]
     (fresh_simple [Request ''a'' 1, Request ''b'' 7, Request ''c'' 2] [[], [''b'']])))) ''c'' = 1"
  using simple_answers_in_order [of demo_batching "[Request ''a'' 1, Request ''b'' 7, Request ''c'' 2]" "[2, 0, 1]" "[[], [''b'']]"]
  by (simp add: demo_batching_def cost_total_def)

lemma simple_batching_is_invisible_witness:
  "sm_outbox (serial_run demo_batching [2, 0] (fresh_simple [Request ''a'' 1, Request ''b'' 2] [])) =
     [(''a'', Inr 2), (''b'', Inr 3)]"
  by (subst simple_batching_is_invisible [where f = "\<lambda>p. p + 1"])
    (simp_all add: demo_batching_def cost_total_def batches_agree_def)

lemma simple_cost_error_loses_request_witness:
  "sm_outbox (serial_step (demo_batching\<lparr>sg_cost_fn := Some (\<lambda>p. if p < 9 then Inr p else Inl (ValueError ''cost''))\<rparr>) 3
     (fresh_simple [Request ''a'' 1, Request ''b'' 9, Request ''c'' 1] [])) = [(''a'', Inl (ValueError ''cost''))]"
  using simple_cost_error_loses_request [of "demo_batching\<lparr>sg_cost_fn := Some (\<lambda>p. if p < 9 then Inr p else Inl (ValueError ''cost''))\<rparr>"
      _ _ 5 1 1 9 "ValueError ''cost''" 2 "''a''" "''b''" "[Request ''c'' 1]"]
  by (simp add: demo_batching_def numeral_3_eq_3 numeral_2_eq_2)

section \<open>The concurrent workers\<close>

text \<open>
  With \<open>max_concurrency > 1\<close> a bridge moves messages to an asyncio queue from which \<open>n\<close> workers take
  them. A worker drops an aborted request, runs the function in a thread and answers; what happens
  between the two is up to the scheduler, so the requests in the threads are a list and any of them
  may finish next.
\<close>

record ('p, 'r) workers =
  wk_base :: "('p, 'r) simple"
  wk_async :: "'p message list"
  wk_running :: "(string \<times> 'p) list"

definition bridge_inbox :: "('p, 'r) workers \<Rightarrow> ('p, 'r) workers" where
  "bridge_inbox w = (case sm_inbox (wk_base w) of
     [] \<Rightarrow> w
   | m # rest \<Rightarrow> w\<lparr>wk_base := (wk_base w)\<lparr>sm_inbox := rest\<rparr>, wk_async := wk_async w @ [m]\<rparr>)"

definition worker_take :: "('p, 'r) simple_config \<Rightarrow> ('p, 'r) workers \<Rightarrow> ('p, 'r) workers" where
  "worker_take c w = (case wk_async w of
     [] \<Rightarrow> w
   | Other rid # rest \<Rightarrow> w\<lparr>wk_async := rest\<rparr>
   | Request rid p # rest \<Rightarrow> (case consume_if_aborted c rid (wk_base w) of
       (gone, s) \<Rightarrow> w\<lparr>wk_base := s, wk_async := rest,
         wk_running := wk_running w @ (if gone = Inr False then [(rid, p)] else [])\<rparr>))"

definition worker_finish :: "('p, 'r) simple_config \<Rightarrow> nat \<Rightarrow> ('p, 'r) workers \<Rightarrow> ('p, 'r) workers" where
  "worker_finish c i w =
     (let m = wk_running w ! i in
      w\<lparr>wk_base := snd (emit_unless_aborted c (fst m) (sg_fn c (snd m)) (wk_base w)),
        wk_running := take i (wk_running w) @ drop (Suc i) (wk_running w)\<rparr>)"

text \<open>\<open>worker_reach c n inbox gone w\<close>: \<open>gone\<close> are the aborts so far.\<close>

inductive worker_reach ::
    "('p, 'r) simple_config \<Rightarrow> nat \<Rightarrow> 'p message list \<Rightarrow> string list \<Rightarrow> ('p, 'r) workers \<Rightarrow> bool"
  for c :: "('p, 'r) simple_config" and n :: nat and inbox :: "'p message list" where
  workers_start: "worker_reach c n inbox [] \<lparr>wk_base = fresh_simple inbox [], wk_async = [], wk_running = []\<rparr>"
| workers_bridge: "worker_reach c n inbox gone w \<Longrightarrow> worker_reach c n inbox gone (bridge_inbox w)"
| workers_take: "worker_reach c n inbox gone w \<Longrightarrow> length (wk_running w) < n \<Longrightarrow>
    worker_reach c n inbox gone (worker_take c w)"
| workers_finish: "worker_reach c n inbox gone w \<Longrightarrow> i < length (wk_running w) \<Longrightarrow>
    worker_reach c n inbox gone (worker_finish c i w)"
| workers_abort: "worker_reach c n inbox gone w \<Longrightarrow>
    worker_reach c n inbox (rid # gone) (w\<lparr>wk_base := abort_request c rid (wk_base w)\<rparr>)"

definition request_ids :: "'p message list \<Rightarrow> string multiset" where
  "request_ids ms = mset (map fst (requests ms))"

definition present :: "('p, 'r) workers \<Rightarrow> string multiset" where
  "present w = request_ids (sm_inbox (wk_base w)) + request_ids (wk_async w) +
     mset (map fst (wk_running w)) + mset (map fst (sm_outbox (wk_base w)))"

definition nothing_lost :: "nat \<Rightarrow> 'p message list \<Rightarrow> string list \<Rightarrow> ('p, 'r) workers \<Rightarrow> bool" where
  "nothing_lost n inbox gone w \<longleftrightarrow>
     length (wk_running w) \<le> n \<and> sm_script (wk_base w) = [] \<and> sm_aborted (wk_base w) \<subseteq> set gone \<and>
     (\<exists>dropped. set_mset dropped \<subseteq> set gone \<and> request_ids inbox = present w + dropped)"

lemma request_ids_simps [simp]:
  "request_ids [] = {#}"
  "request_ids (Request rid p # ms) = add_mset rid (request_ids ms)"
  "request_ids (Other rid # ms) = request_ids ms"
  "request_ids (xs @ ys) = request_ids xs + request_ids ys"
  by (simp_all add: request_ids_def)

lemma quiet_consume:
  "sm_script s = [] \<Longrightarrow> consume_if_aborted c rid s = (if rid \<notin> sm_aborted s then (Inr False, s)
     else (Inr True, s\<lparr>sm_aborted := sm_aborted s - {rid}, sm_cleanups := sm_cleanups s @ [rid]\<rparr>))"
  by (simp add: consume_if_aborted_def interference_def)

lemma mset_remove_nth:
  "i < length xs \<Longrightarrow> mset xs = add_mset (xs ! i) (mset (take i xs @ drop (Suc i) xs))"
  by (metis id_take_nth_drop mset.simps(2) mset_append union_mset_add_mset_right)

lemma nothing_lost_bridge: "nothing_lost n inbox gone w \<Longrightarrow> nothing_lost n inbox gone (bridge_inbox w)"
  unfolding nothing_lost_def bridge_inbox_def present_def
  by (cases "sm_inbox (wk_base w)" rule: requests.cases) (auto simp: ac_simps)

lemma nothing_lost_take:
  assumes "nothing_lost n inbox gone w" and "length (wk_running w) < n"
  shows "nothing_lost n inbox gone (worker_take c w)"
proof (cases "wk_async w" rule: requests.cases)
  case (2 rid p ms)
  obtain dropped where d: "set_mset dropped \<subseteq> set gone" "request_ids inbox = present w + dropped"
    using assms(1) unfolding nothing_lost_def by blast
  show ?thesis
  proof (cases "rid \<in> sm_aborted (wk_base w)")
    case True
    have "rid \<in> set gone" using True assms(1) by (auto simp: nothing_lost_def)
    with True 2 assms d show ?thesis
      by (auto simp: nothing_lost_def worker_take_def quiet_consume present_def
          intro!: exI [of _ "add_mset rid dropped"])
  next
    case False
    with 2 assms d show ?thesis
      by (auto simp: nothing_lost_def worker_take_def quiet_consume present_def intro!: exI [of _ dropped])
  qed
qed (use assms in \<open>auto simp: nothing_lost_def worker_take_def present_def\<close>)

lemma nothing_lost_finish:
  assumes "nothing_lost n inbox gone w" and "i < length (wk_running w)"
  shows "nothing_lost n inbox gone (worker_finish c i w)"
proof -
  let ?m = "wk_running w ! i"
  obtain dropped where d: "set_mset dropped \<subseteq> set gone" "request_ids inbox = present w + dropped"
    using assms(1) unfolding nothing_lost_def by blast
  have r: "mset (map fst (wk_running w)) =
      add_mset (fst ?m) (mset (map fst (take i (wk_running w) @ drop (Suc i) (wk_running w))))"
    using mset_remove_nth [OF assms(2)] by (metis image_mset_add_mset mset_map)
  show ?thesis
  proof (cases "fst ?m \<in> sm_aborted (wk_base w)")
    case True
    have "fst ?m \<in> set gone" using True assms(1) by (auto simp: nothing_lost_def)
    with True assms d r show ?thesis
      by (auto simp: nothing_lost_def worker_finish_def Let_def emit_unless_aborted_def andthen_def quiet_consume
          present_def intro!: exI [of _ "add_mset (fst ?m) dropped"])
  next
    case False
    with assms d r show ?thesis
      by (auto simp: nothing_lost_def worker_finish_def Let_def emit_unless_aborted_def andthen_def quiet_consume
          emit_def present_def intro!: exI [of _ dropped])
  qed
qed

text \<open>
  The concurrent workers lose no request and answer none twice. In every state the workers can
  reach, under every interleaving and every abort, the requests that came in are exactly those still
  queued, those in a thread, those answered and some that were aborted; and at most \<open>n\<close> are in a thread.
\<close>

theorem simple_workers_lose_nothing:
  fixes c :: "('p, 'r) simple_config"
  assumes "worker_reach c n inbox gone w"
  shows "length (wk_running w) \<le> n \<and>
    (\<exists>dropped. set_mset dropped \<subseteq> set gone \<and> mset (map fst (requests inbox)) = present w + dropped)"
proof -
  have "nothing_lost n inbox gone w"
    using assms
  proof induction
    case workers_start
    then show ?case by (simp add: nothing_lost_def present_def fresh_simple_def)
  next
    case (workers_abort gone w rid)
    then show ?case
      using cap_set_subset [of "sg_order c" 10000 5000 "insert rid (sm_aborted (wk_base w))"]
      by (auto simp: nothing_lost_def present_def abort_request_def)
  qed (auto intro: nothing_lost_bridge nothing_lost_take nothing_lost_finish)
  then show ?thesis by (simp add: nothing_lost_def request_ids_def)
qed

lemma simple_workers_lose_nothing_witness:
  "\<exists>w :: (int, int) workers. length (wk_running w) \<le> 2 \<and>
    (\<exists>dropped. set_mset dropped \<subseteq> {''b''} \<and> {#''a''#} = present w + dropped)"
proof -
  let ?w = "\<lparr>wk_base = fresh_simple [Request ''a'' 1] [], wk_async = [], wk_running = []\<rparr> :: (int, int) workers"
  have "worker_reach demo_batching 2 [Request ''a'' 1] [''b'']
      (worker_take demo_batching (bridge_inbox (?w\<lparr>wk_base := abort_request demo_batching ''b'' (wk_base ?w)\<rparr>)))"
    by (intro worker_reach.intros) (simp add: bridge_inbox_def fresh_simple_def)
  from simple_workers_lose_nothing [OF this] show ?thesis by auto
qed

end
