(* ===== verification/Tensor_Packing.thy ===== *)
theory Tensor_Packing
  imports Prelude
begin

text \<open>
  How the tensors of an object leave it and come back: \<open>extract_tensors\<close>, \<open>extract_cuda_tensors\<close>,
  \<open>restore_tensors\<close> and \<open>_pack_tensors\<close> of \<open>sglang_omni/comm/stage_io.py\<close>. The tensors themselves are
  torch's: their type and the operations the code applies to them are a parameter, the record
  \<open>torch\<close>, and what the code relies on is the hypothesis \<open>torch_ok\<close>.
\<close>

section \<open>Values with tensors\<close>

datatype 't tvalue =
    TTensor 't
  | TDict "(string \<times> 't tvalue) list"
  | TList "'t tvalue list"
  | TTuple "'t tvalue list"
  | TAtom pyval

text \<open>
  \<open>tc_view off bs dtype shape dev\<close> is \<open>buf[off : off + len(bs)].view(dtype).reshape(shape)\<close> for a byte
  buffer on device \<open>dev\<close> that holds \<open>bs\<close> at \<open>off\<close>; torch refuses a view whose offset is not a
  multiple of the element size.
\<close>

record 't torch =
  tc_shape :: "'t \<Rightarrow> int list"
  tc_dtype :: "'t \<Rightarrow> string"
  tc_device :: "'t \<Rightarrow> string"
  tc_is_cuda :: "'t \<Rightarrow> bool"
  tc_bytes :: "'t \<Rightarrow> nat list"
  tc_truth :: "'t \<Rightarrow> bool result"
  tc_itemsize :: "string \<Rightarrow> nat"
  tc_to :: "string \<Rightarrow> 't \<Rightarrow> 't"
  tc_view :: "nat \<Rightarrow> nat list \<Rightarrow> string \<Rightarrow> int list \<Rightarrow> string \<Rightarrow> 't result"

text \<open>Moving a tensor keeps its contents, and an aligned view of its bytes is the tensor.\<close>

definition torch_ok :: "'t torch \<Rightarrow> bool" where
  "torch_ok T \<longleftrightarrow>
     (\<forall>t. tc_to T (tc_device T t) t = t) \<and>
     (\<forall>t d d'. tc_to T d (tc_to T d' t) = tc_to T d t) \<and>
     (\<forall>t off d. off mod max (tc_itemsize T (tc_dtype T t)) 1 = 0 \<longrightarrow>
        tc_view T off (tc_bytes T t) (tc_dtype T t) (tc_shape T t) d = Inr (tc_to T d t))"

section \<open>Taking tensors out\<close>

definition child_key :: "string \<Rightarrow> string \<Rightarrow> string" where
  "child_key path key = (if path \<noteq> [] then path @ ''.'' @ key else key)"

definition child_index :: "string \<Rightarrow> nat \<Rightarrow> string" where
  "child_index path i = path @ ''['' @ digits i @ '']''"

definition placeholder :: "'t torch \<Rightarrow> string \<Rightarrow> 't \<Rightarrow> 't tvalue" where
  "placeholder T path t = TDict [(''_tensor_placeholder'', TAtom (PStr path)),
     (''shape'', TList (map (\<lambda>d. TAtom (PInt d)) (tc_shape T t))),
     (''dtype'', TAtom (PStr (tc_dtype T t))), (''device'', TAtom (PStr (tc_device T t)))]"

text \<open>\<open>tensors.update(child_tensors)\<close>.\<close>

definition update_all :: "(string \<times> 'a) list \<Rightarrow> (string \<times> 'a) list \<Rightarrow> (string \<times> 'a) list" where
  "update_all d e = foldl (\<lambda>d (k, v). AList.update k v d) d e"

text \<open>
  The two extractions differ in which tensors they take: \<open>take\<close> holds of all of them, or of those
  on a GPU. The others stay in the object.
\<close>

fun extract_with :: "'t torch \<Rightarrow> ('t \<Rightarrow> bool) \<Rightarrow> 't tvalue \<Rightarrow> string \<Rightarrow> 't tvalue \<times> (string \<times> 't) list"
  and extract_items :: "'t torch \<Rightarrow> ('t \<Rightarrow> bool) \<Rightarrow> (string \<times> 't tvalue) list \<Rightarrow> string \<Rightarrow>
    (string \<times> 't tvalue) list \<times> (string \<times> 't) list"
  and extract_elems :: "'t torch \<Rightarrow> ('t \<Rightarrow> bool) \<Rightarrow> 't tvalue list \<Rightarrow> nat \<Rightarrow> string \<Rightarrow>
    't tvalue list \<times> (string \<times> 't) list" where
  "extract_with T sel (TTensor t) path =
     (if sel t then (placeholder T path t, [(path, t)]) else (TTensor t, []))"
| "extract_with T sel (TDict d) path =
     (let (out, tensors) = extract_items T sel d path in (TDict out, update_all [] tensors))"
| "extract_with T sel (TList xs) path =
     (let (out, tensors) = extract_elems T sel xs 0 path in (TList out, update_all [] tensors))"
| "extract_with T sel (TTuple xs) path =
     (let (out, tensors) = extract_elems T sel xs 0 path in (TTuple out, update_all [] tensors))"
| "extract_with T sel (TAtom v) path = (TAtom v, [])"
| "extract_items T sel [] path = ([], [])"
| "extract_items T sel ((k, v) # d) path =
     (let (v', ts) = extract_with T sel v (child_key path k);
          (d', us) = extract_items T sel d path in ((k, v') # d', ts @ us))"
| "extract_elems T sel [] i path = ([], [])"
| "extract_elems T sel (v # xs) i path =
     (let (v', ts) = extract_with T sel v (child_index path i);
          (xs', us) = extract_elems T sel xs (Suc i) path in (v' # xs', ts @ us))"

definition extract_tensors :: "'t torch \<Rightarrow> 't tvalue \<Rightarrow> 't tvalue \<times> (string \<times> 't) list" where
  "extract_tensors T obj = extract_with T (\<lambda>t. True) obj ''''"

definition extract_cuda_tensors :: "'t torch \<Rightarrow> 't tvalue \<Rightarrow> 't tvalue \<times> (string \<times> 't) list" where
  "extract_cuda_tensors T obj = extract_with T (tc_is_cuda T) obj ''''"

text \<open>\<open>restore_tensors\<close>.\<close>

fun restore_tensors :: "(string \<Rightarrow> 't option) \<Rightarrow> 't tvalue \<Rightarrow> 't tvalue result"
  and restore_items :: "(string \<Rightarrow> 't option) \<Rightarrow> (string \<times> 't tvalue) list \<Rightarrow> (string \<times> 't tvalue) list result"
  and restore_elems :: "(string \<Rightarrow> 't option) \<Rightarrow> 't tvalue list \<Rightarrow> 't tvalue list result" where
  "restore_tensors ts (TDict d) = (case map_of d ''_tensor_placeholder'' of
     Some p \<Rightarrow> (case p of
       TAtom (PStr path) \<Rightarrow> (case ts path of
         None \<Rightarrow> Inl (KeyError (''missing tensor payload for placeholder '' @ path))
       | Some t \<Rightarrow> Inr (TTensor t))
     | _ \<Rightarrow> Inl (KeyError ''missing tensor payload for placeholder''))
   | None \<Rightarrow> bindE (restore_items ts d) (\<lambda>d'. Inr (TDict d')))"
| "restore_tensors ts (TList xs) = bindE (restore_elems ts xs) (\<lambda>ys. Inr (TList ys))"
| "restore_tensors ts (TTuple xs) = bindE (restore_elems ts xs) (\<lambda>ys. Inr (TTuple ys))"
| "restore_tensors ts (TTensor t) = Inr (TTensor t)"
| "restore_tensors ts (TAtom v) = Inr (TAtom v)"
| "restore_items ts [] = Inr []"
| "restore_items ts ((k, v) # d) =
     bindE (restore_tensors ts v) (\<lambda>v'. bindE (restore_items ts d) (\<lambda>d'. Inr ((k, v') # d')))"
| "restore_elems ts [] = Inr []"
| "restore_elems ts (v # xs) =
     bindE (restore_tensors ts v) (\<lambda>v'. bindE (restore_elems ts xs) (\<lambda>xs'. Inr (v' # xs')))"

section \<open>Packing\<close>

definition pad_offset :: "nat \<Rightarrow> nat \<Rightarrow> nat" where
  "pad_offset offset alignment = nat ((- int offset) mod int alignment)"

definition dtype_alignment :: "'t torch \<Rightarrow> string \<Rightarrow> nat" where
  "dtype_alignment T dtype = max (tc_itemsize T dtype) 1"

record packed_entry =
  en_path :: string
  en_shape :: "int list"
  en_dtype :: string
  en_device :: string
  en_offset :: nat
  en_size :: nat

text \<open>The loop of \<open>_pack_tensors\<close>: the chunks so far are the bytes \<open>buf\<close>, of length \<open>offset\<close>.\<close>

fun pack_loop :: "'t torch \<Rightarrow> (string \<times> 't) list \<Rightarrow> nat list \<Rightarrow> packed_entry list \<Rightarrow> nat \<Rightarrow> nat list \<times> packed_entry list" where
  "pack_loop T [] buf entries offset = (buf, entries)"
| "pack_loop T ((path, t) # rest) buf entries offset =
     (let flat = tc_bytes T t;
          padding = pad_offset offset (dtype_alignment T (tc_dtype T t));
          start = offset + padding
      in pack_loop T rest (buf @ replicate padding 0 @ flat)
           (entries @ [\<lparr>en_path = path, en_shape = tc_shape T t, en_dtype = tc_dtype T t,
              en_device = tc_device T t, en_offset = start, en_size = length flat\<rparr>])
           (start + length flat))"

definition pack_tensors :: "'t torch \<Rightarrow> (string \<times> 't) list \<Rightarrow> nat list \<times> packed_entry list" where
  "pack_tensors T tensors =
     (if tensors = [] then ([0], []) else pack_loop T tensors [] [] 0)"

section \<open>Restoring what was extracted\<close>

text \<open>The tensors an extraction takes, with their paths, before paths are used as keys.\<close>

fun listing :: "('t \<Rightarrow> bool) \<Rightarrow> 't tvalue \<Rightarrow> string \<Rightarrow> (string \<times> 't) list"
  and listing_items :: "('t \<Rightarrow> bool) \<Rightarrow> (string \<times> 't tvalue) list \<Rightarrow> string \<Rightarrow> (string \<times> 't) list"
  and listing_elems :: "('t \<Rightarrow> bool) \<Rightarrow> 't tvalue list \<Rightarrow> nat \<Rightarrow> string \<Rightarrow> (string \<times> 't) list" where
  "listing sel (TTensor t) path = (if sel t then [(path, t)] else [])"
| "listing sel (TDict d) path = listing_items sel d path"
| "listing sel (TList xs) path = listing_elems sel xs 0 path"
| "listing sel (TTuple xs) path = listing_elems sel xs 0 path"
| "listing sel (TAtom v) path = []"
| "listing_items sel [] path = []"
| "listing_items sel ((k, v) # d) path = listing sel v (child_key path k) @ listing_items sel d path"
| "listing_elems sel [] i path = []"
| "listing_elems sel (v # xs) i path = listing sel v (child_index path i) @ listing_elems sel xs (Suc i) path"

text \<open>No dictionary of the value uses the key of the placeholders.\<close>

fun unmarked :: "'t tvalue \<Rightarrow> bool"
  and unmarked_items :: "(string \<times> 't tvalue) list \<Rightarrow> bool"
  and unmarked_elems :: "'t tvalue list \<Rightarrow> bool" where
  "unmarked (TDict d) = unmarked_items d"
| "unmarked (TList xs) = unmarked_elems xs"
| "unmarked (TTuple xs) = unmarked_elems xs"
| "unmarked (TTensor t) = True"
| "unmarked (TAtom v) = True"
| "unmarked_items [] = True"
| "unmarked_items ((k, v) # d) = (k \<noteq> ''_tensor_placeholder'' \<and> unmarked v \<and> unmarked_items d)"
| "unmarked_elems [] = True"
| "unmarked_elems (v # xs) = (unmarked v \<and> unmarked_elems xs)"

lemma update_absent: "k \<notin> fst ` set d \<Longrightarrow> AList.update k v d = d @ [(k, v)]"
  by (induction d) auto

lemma update_all_distinct:
  "distinct (map fst (d @ e)) \<Longrightarrow> update_all d e = d @ e"
proof (induction e arbitrary: d)
  case (Cons x e)
  obtain k v where x: "x = (k, v)" by (cases x)
  have "AList.update k v d = d @ [(k, v)]"
    using Cons.prems x by (intro update_absent) auto
  with Cons.IH [of "d @ [x]"] Cons.prems x show ?case by (simp add: update_all_def)
qed (simp add: update_all_def)

lemma update_all_fresh: "distinct (map fst e) \<Longrightarrow> update_all [] e = e"
  using update_all_distinct [of "[]" e] by simp

lemma extract_listing:
  "distinct (map fst (listing sel obj path)) \<Longrightarrow> snd (extract_with T sel obj path) = listing sel obj path"
  "distinct (map fst (listing_items sel d path)) \<Longrightarrow> snd (extract_items T sel d path) = listing_items sel d path"
  "distinct (map fst (listing_elems sel xs i path)) \<Longrightarrow> snd (extract_elems T sel xs i path) = listing_elems sel xs i path"
  by (induction sel obj path and sel d path and sel xs i path rule: listing_listing_items_listing_elems.induct)
    (simp_all add: case_prod_unfold Let_def update_all_fresh)

lemma extract_keys: "map fst (fst (extract_items T sel d path)) = map fst d"
  by (induction d) (auto simp: case_prod_unfold Let_def)

lemma unmarked_keys: "unmarked_items d \<Longrightarrow> map_of d ''_tensor_placeholder'' = None"
  by (induction d) auto

lemma map_of_None_keys: "map fst d = map fst e \<Longrightarrow> map_of d k = None \<longleftrightarrow> map_of e k = None"
  by (metis map_of_eq_None_iff set_map)

text \<open>The receiver's copies \<open>f t\<close> of the extracted tensors land where the tensors were.\<close>

lemma restore_extracted:
  "unmarked obj \<Longrightarrow> (\<forall>(p, t) \<in> set (listing sel obj path). ts p = Some (f t)) \<Longrightarrow>
     restore_tensors ts (fst (extract_with T sel obj path)) = Inr (map_tvalue (\<lambda>t. if sel t then f t else t) obj)"
  "unmarked_items d \<Longrightarrow> (\<forall>(p, t) \<in> set (listing_items sel d path). ts p = Some (f t)) \<Longrightarrow>
     restore_items ts (fst (extract_items T sel d path)) = Inr (map (map_prod id (map_tvalue (\<lambda>t. if sel t then f t else t))) d)"
  "unmarked_elems xs \<Longrightarrow> (\<forall>(p, t) \<in> set (listing_elems sel xs i path). ts p = Some (f t)) \<Longrightarrow>
     restore_elems ts (fst (extract_elems T sel xs i path)) = Inr (map (map_tvalue (\<lambda>t. if sel t then f t else t)) xs)"
proof (induction sel obj path and sel d path and sel xs i path rule: listing_listing_items_listing_elems.induct)
  case (2 sel d path)
  then have "map_of (fst (extract_items T sel d path)) ''_tensor_placeholder'' = None"
    using map_of_None_keys [OF extract_keys, of T sel d path] unmarked_keys [of d] by simp
  with 2 show ?case by (simp add: case_prod_unfold Let_def id_def)
qed (simp_all add: case_prod_unfold placeholder_def Let_def ball_Un)

section \<open>Distinct paths\<close>

text \<open>
  Keys without a dot or an opening bracket, as the stages use, keep the paths apart: every dictionary
  has such keys, not empty and not repeated.
\<close>

definition plain_key :: "string \<Rightarrow> bool" where
  "plain_key k \<longleftrightarrow> k \<noteq> [] \<and> CHR ''.'' \<notin> set k \<and> CHR ''['' \<notin> set k \<and> k \<noteq> ''_tensor_placeholder''"

fun plain :: "'t tvalue \<Rightarrow> bool"
  and plain_items :: "(string \<times> 't tvalue) list \<Rightarrow> bool"
  and plain_elems :: "'t tvalue list \<Rightarrow> bool" where
  "plain (TDict d) = plain_items d"
| "plain (TList xs) = plain_elems xs"
| "plain (TTuple xs) = plain_elems xs"
| "plain (TTensor t) = True"
| "plain (TAtom v) = True"
| "plain_items [] = True"
| "plain_items ((k, v) # d) = (plain_key k \<and> k \<notin> fst ` set d \<and> plain v \<and> plain_items d)"
| "plain_elems [] = True"
| "plain_elems (v # xs) = (plain v \<and> plain_elems xs)"

text \<open>Paths relative to a value: what extraction appends to a path that is not empty.\<close>

fun rel :: "('t \<Rightarrow> bool) \<Rightarrow> 't tvalue \<Rightarrow> string list"
  and rel_items :: "('t \<Rightarrow> bool) \<Rightarrow> string \<Rightarrow> (string \<times> 't tvalue) list \<Rightarrow> string list"
  and rel_elems :: "('t \<Rightarrow> bool) \<Rightarrow> 't tvalue list \<Rightarrow> nat \<Rightarrow> string list" where
  "rel sel (TTensor t) = (if sel t then [[]] else [])"
| "rel sel (TDict d) = rel_items sel ''.'' d"
| "rel sel (TList xs) = rel_elems sel xs 0"
| "rel sel (TTuple xs) = rel_elems sel xs 0"
| "rel sel (TAtom v) = []"
| "rel_items sel sep [] = []"
| "rel_items sel sep ((k, v) # d) = map (\<lambda>r. sep @ k @ r) (rel sel v) @ rel_items sel sep d"
| "rel_elems sel [] i = []"
| "rel_elems sel (v # xs) i = map (\<lambda>r. ''['' @ digits i @ '']'' @ r) (rel sel v) @ rel_elems sel xs (Suc i)"

lemma plain_unmarked:
  fixes obj :: "'t tvalue" and d :: "(string \<times> 't tvalue) list" and xs :: "'t tvalue list"
  shows "plain obj \<Longrightarrow> unmarked obj"
  "plain_items d \<Longrightarrow> unmarked_items d"
  "plain_elems xs \<Longrightarrow> unmarked_elems xs"
  by (induction obj and d and xs rule: plain_plain_items_plain_elems.induct) (auto simp: plain_key_def)

lemma listing_rel:
  "path \<noteq> [] \<Longrightarrow> map fst (listing sel obj path) = map ((@) path) (rel sel obj)"
  "path \<noteq> [] \<Longrightarrow> map fst (listing_items sel d path) = map ((@) path) (rel_items sel ''.'' d)"
  "path \<noteq> [] \<or> path = [] \<Longrightarrow> map fst (listing_elems sel xs i path) = map ((@) path) (rel_elems sel xs i)"
  by (induction sel obj path and sel d path and sel xs i path rule: listing_listing_items_listing_elems.induct)
    (simp_all add: child_key_def child_index_def comp_def)

lemma listing_rel_root:
  "plain_items d \<Longrightarrow> map fst (listing_items sel d []) = rel_items sel [] d"
  by (induction d) (auto simp: child_key_def listing_rel plain_key_def comp_def)

definition is_tail :: "string \<Rightarrow> bool" where
  "is_tail r \<longleftrightarrow> r = [] \<or> hd r = CHR ''.'' \<or> hd r = CHR ''[''"

lemma rel_is_tail:
  fixes sel :: "'t \<Rightarrow> bool"
  shows "r \<in> set (rel sel obj) \<Longrightarrow> is_tail r"
  "sep = ''.'' \<Longrightarrow> r \<in> set (rel_items sel sep d) \<Longrightarrow> is_tail r"
  "r \<in> set (rel_elems sel xs i) \<Longrightarrow> is_tail r"
  by (induction sel obj and sel sep d and sel xs i rule: rel_rel_items_rel_elems.induct)
    (auto simp: is_tail_def split: if_splits)

lemma takeWhile_key: "plain_key k \<Longrightarrow> is_tail r \<Longrightarrow> takeWhile (\<lambda>c. c \<noteq> CHR ''.'' \<and> c \<noteq> CHR ''['') (k @ r) = k"
  by (cases r) (auto simp: plain_key_def is_tail_def intro!: takeWhile_append2 [THEN trans])

lemma key_split:
  assumes "plain_key k" and "plain_key k'" and "is_tail r" and "is_tail r'" and "k @ r = k' @ r'"
  shows "k = k'"
  using takeWhile_key [OF assms(1,3)] takeWhile_key [OF assms(2,4)] assms(5) by simp

lemma digits_no_bracket: "CHR '']'' \<notin> set (digits n)"
  by (auto dest: digits_chars)

lemma index_split:
  assumes "digits i @ '']'' @ r = digits j @ '']'' @ r'"
  shows "i = j"
proof -
  have "takeWhile (\<lambda>c. c \<noteq> CHR '']'') (digits k @ '']'' @ s) = digits k" for k s
    using digits_no_bracket by (subst takeWhile_append2) auto
  with assms show ?thesis by (metis digits_inject)
qed

lemma rel_items_keys:
  "x \<in> set (rel_items sel sep d) \<Longrightarrow> plain_items d \<Longrightarrow>
     \<exists>k r. k \<in> fst ` set d \<and> plain_key k \<and> is_tail r \<and> x = sep @ k @ r"
proof (induction d)
  case (Cons m d)
  obtain k v where m: "m = (k, v)" by (cases m)
  with Cons.prems consider r where "r \<in> set (rel sel v)" "x = sep @ k @ r" | "x \<in> set (rel_items sel sep d)"
    by auto
  then show ?case
  proof cases
    case 1
    moreover have "plain_key k" "k \<in> fst ` set (m # d)" using m Cons.prems(2) by simp_all
    ultimately show ?thesis using rel_is_tail(1) by blast
  next
    case 2
    have "plain_items d" using m Cons.prems(2) by simp
    from Cons.IH [OF 2 this] obtain k r where "k \<in> fst ` set d" "plain_key k" "is_tail r" "x = sep @ k @ r"
      by blast
    moreover from this(1) have "k \<in> fst ` set (m # d)" by simp
    ultimately show ?thesis by blast
  qed
qed simp

lemma rel_elems_index:
  "x \<in> set (rel_elems sel xs i) \<Longrightarrow> \<exists>j r. i \<le> j \<and> x = ''['' @ digits j @ '']'' @ r"
proof (induction xs arbitrary: i)
  case (Cons v xs)
  then consider r where "x = ''['' @ digits i @ '']'' @ r" | "x \<in> set (rel_elems sel xs (Suc i))"
    by auto
  then show ?case
  proof cases
    case 1
    then show ?thesis by (intro exI [of _ i] exI [of _ r]) simp
  next
    case 2
    from Cons.IH [OF this] obtain j r where "Suc i \<le> j" "x = ''['' @ digits j @ '']'' @ r" by blast
    then show ?thesis by (intro exI [of _ j] exI [of _ r]) simp
  qed
qed simp

lemma distinct_rel:
  fixes sel :: "'t \<Rightarrow> bool"
  shows "plain obj \<Longrightarrow> distinct (rel sel obj)"
    "plain_items d \<Longrightarrow> distinct (rel_items sel sep d)"
    "plain_elems xs \<Longrightarrow> distinct (rel_elems sel xs i)"
proof (induction sel obj and sel sep d and sel xs i rule: rel_rel_items_rel_elems.induct)
  case (7 sel sep k v d)
  have False if r: "r \<in> set (rel sel v)" and mem: "sep @ k @ r \<in> set (rel_items sel sep d)" for r
  proof -
    obtain k' r' where "k' \<in> fst ` set d" "plain_key k'" "is_tail r'" "sep @ k @ r = sep @ k' @ r'"
      using rel_items_keys [OF mem] 7(3) by auto
    moreover have "plain_key k" "k \<notin> fst ` set d" using 7(3) by auto
    ultimately show False
      using key_split [of k k' r r'] rel_is_tail(1) [OF r] by auto
  qed
  with 7 show ?case by (auto simp: distinct_map inj_on_def)
next
  case (9 sel v xs i)
  have False if mem: "''['' @ digits i @ '']'' @ r \<in> set (rel_elems sel xs (Suc i))" for r
  proof -
    obtain j r' where "Suc i \<le> j" "''['' @ digits i @ '']'' @ r = ''['' @ digits j @ '']'' @ r'"
      using rel_elems_index [OF mem] by blast
    then show False using index_split [of i r j r'] by simp
  qed
  with 9 show ?case by (auto simp: distinct_map inj_on_def)
qed auto

lemma distinct_listing: "plain obj \<Longrightarrow> distinct (map fst (listing sel obj []))"
proof (cases obj)
  case (TDict d)
  assume "plain obj"
  with TDict show ?thesis
    using listing_rel_root [of d sel] distinct_rel(2) [of d sel "[]"] by simp
qed (auto simp: listing_rel(3) distinct_rel(3) map_idI)

text \<open>
  C18: Extracting the tensors of an object and restoring them gives the object back, for both
  extractions: a value whose dictionaries have plain keys (no dots, no opening brackets) is rebuilt
  exactly, and the extracted tensors are as many as the value holds.
\<close>

theorem extract_restore:
  assumes "plain obj"
  shows "restore_tensors (map_of (snd (extract_tensors T obj))) (fst (extract_tensors T obj)) = Inr obj \<and>
    restore_tensors (map_of (snd (extract_cuda_tensors T obj))) (fst (extract_cuda_tensors T obj)) = Inr obj \<and>
    snd (extract_tensors T obj) = listing (\<lambda>t. True) obj []"
proof -
  have tensors: "snd (extract_with T sel obj []) = listing sel obj []" for sel
    using extract_listing(1) [OF distinct_listing [OF assms]] .
  have "restore_tensors (map_of (listing sel obj [])) (fst (extract_with T sel obj [])) = Inr obj" for sel
    using restore_extracted(1) [OF plain_unmarked(1) [OF assms], of sel "[]" "map_of (listing sel obj [])" "\<lambda>t. t" T]
    by (auto simp: map_of_is_SomeI distinct_listing [OF assms] tvalue.map_ident)
  with tensors show ?thesis by (simp add: extract_tensors_def extract_cuda_tensors_def)
qed

text \<open>
  Keys with dots make paths collide. In \<open>{"a.b": t, "a": {"b": u}}\<close> both tensors get the path
  \<open>a.b\<close>; only one of them is sent, and the receiver silently finds it in both places.
\<close>

theorem dotted_keys_swap_tensors:
  "snd (extract_tensors T (TDict [(''a.b'', TTensor t), (''a'', TDict [(''b'', TTensor u)])])) = [(''a.b'', u)] \<and>
   bindE (Inr (extract_tensors T (TDict [(''a.b'', TTensor t), (''a'', TDict [(''b'', TTensor u)])])))
     (\<lambda>(out, ts). restore_tensors (map_of ts) out) = Inr (TDict [(''a.b'', TTensor u), (''a'', TDict [(''b'', TTensor u)])])"
  by (simp add: extract_tensors_def child_key_def update_all_def placeholder_def)

text \<open>One-byte tensors, some of them on a GPU.\<close>

definition byte_torch :: "nat torch" where
  "byte_torch =
     \<lparr>tc_shape = (\<lambda>t. [1]), tc_dtype = (\<lambda>t. ''uint8''), tc_device = (\<lambda>t. if t < 8 then ''cpu'' else ''cuda:0''),
      tc_is_cuda = (\<lambda>t. 8 \<le> t), tc_bytes = (\<lambda>t. [t]), tc_truth = (\<lambda>t. Inr (t \<noteq> 0)), tc_itemsize = (\<lambda>d. 1),
      tc_to = (\<lambda>d t. t), tc_view = (\<lambda>n buf dt sh dev. Inr (hd buf))\<rparr>"

lemma extract_restore_witness:
  "restore_tensors (map_of (snd (extract_tensors byte_torch
       (TDict [(''x'', TList [TTensor (7 :: nat)]), (''y'', TDict [(''z'', TTensor 8)])]))))
     (fst (extract_tensors byte_torch (TDict [(''x'', TList [TTensor 7]), (''y'', TDict [(''z'', TTensor 8)])]))) =
   Inr (TDict [(''x'', TList [TTensor 7]), (''y'', TDict [(''z'', TTensor 8)])])"
  by (rule extract_restore [THEN conjunct1]) (simp add: plain_key_def)

section \<open>The packed buffer\<close>

definition align_of :: "'t torch \<Rightarrow> 't \<Rightarrow> nat" where
  "align_of T t = dtype_alignment T (tc_dtype T t)"

definition entry_describes :: "'t torch \<Rightarrow> nat list \<Rightarrow> string \<times> 't \<Rightarrow> packed_entry \<Rightarrow> bool" where
  "entry_describes T buf pt e \<longleftrightarrow>
     en_path e = fst pt \<and> en_shape e = tc_shape T (snd pt) \<and> en_dtype e = tc_dtype T (snd pt) \<and>
     en_device e = tc_device T (snd pt) \<and> en_size e = length (tc_bytes T (snd pt)) \<and>
     en_offset e mod align_of T (snd pt) = 0 \<and> en_offset e + en_size e \<le> length buf \<and>
     take (en_size e) (drop (en_offset e) buf) = tc_bytes T (snd pt)"

lemma pad_offset_aligned: "0 < a \<Longrightarrow> (off + pad_offset off a) mod a = 0"
proof -
  assume "0 < a"
  then have "int (off + pad_offset off a) = int off + (- int off) mod int a"
    by (simp add: pad_offset_def)
  moreover have "(int off + (- int off) mod int a) mod int a = 0"
    by (simp add: mod_add_right_eq)
  ultimately have "int ((off + pad_offset off a) mod a) = 0" by (simp add: zmod_int)
  then show ?thesis by simp
qed

lemma pad_offset_less: "0 < a \<Longrightarrow> pad_offset off a < a"
  by (simp add: pad_offset_def nat_less_iff)

lemma entry_describes_grow: "entry_describes T buf pt e \<Longrightarrow> entry_describes T (buf @ app) pt e"
  by (auto simp: entry_describes_def)

lemma pack_loop_layout:
  "\<exists>app new. pack_loop T ts buf es (length buf) = (buf @ app, es @ new) \<and>
     list_all2 (entry_describes T (buf @ app)) ts new \<and>
     (\<forall>e \<in> set new. length buf \<le> en_offset e) \<and>
     sorted_wrt (\<lambda>e f. en_offset e + en_size e \<le> en_offset f) new"
proof (induction ts arbitrary: buf es)
  case (Cons pt ts)
  obtain path t where pt: "pt = (path, t)" by (cases pt)
  let ?pad = "pad_offset (length buf) (dtype_alignment T (tc_dtype T t))"
  let ?buf = "buf @ replicate ?pad 0 @ tc_bytes T t"
  let ?e = "\<lparr>en_path = path, en_shape = tc_shape T t, en_dtype = tc_dtype T t, en_device = tc_device T t,
    en_offset = length buf + ?pad, en_size = length (tc_bytes T t)\<rparr>"
  obtain app new where ih: "pack_loop T ts ?buf (es @ [?e]) (length ?buf) = (?buf @ app, (es @ [?e]) @ new)"
    "list_all2 (entry_describes T (?buf @ app)) ts new" "\<forall>e \<in> set new. length ?buf \<le> en_offset e"
    "sorted_wrt (\<lambda>e f. en_offset e + en_size e \<le> en_offset f) new"
    using Cons.IH by blast
  have "entry_describes T ?buf pt ?e"
    using pad_offset_aligned [of "dtype_alignment T (tc_dtype T t)" "length buf"]
    by (simp add: entry_describes_def pt align_of_def dtype_alignment_def)
  from entry_describes_grow [OF this, of app]
  have "list_all2 (entry_describes T (?buf @ app)) (pt # ts) (?e # new)" using ih(2) by simp
  moreover have "pack_loop T (pt # ts) buf es (length buf) = (?buf @ app, es @ ?e # new)"
    using ih(1) by (simp add: pt Let_def add.assoc)
  ultimately show ?case
    using ih(3,4) by (intro exI [of _ "replicate ?pad 0 @ tc_bytes T t @ app"] exI [of _ "?e # new"]) fastforce
qed simp

text \<open>
  C19: The packed buffer holds every tensor at an aligned offset. The entries follow the tensors one
  by one; each lies inside the buffer, starts at a multiple of the element size of its dtype, ends
  before the next one begins, and the bytes it delimits are the bytes of its tensor.
\<close>

theorem pack_tensors_layout:
  "list_all2 (entry_describes T (fst (pack_tensors T ts))) ts (snd (pack_tensors T ts)) \<and>
   sorted_wrt (\<lambda>e f. en_offset e + en_size e \<le> en_offset f) (snd (pack_tensors T ts))"
proof (cases "ts = []")
  case False
  with pack_loop_layout [of T ts "[]" "[]"] show ?thesis
    by (auto simp: pack_tensors_def)
qed (simp add: pack_tensors_def)

end
