(* ===== verification/Stage_IO.thy ===== *)
theory Stage_IO
  imports Tensor_Packing Data_Ref
begin

text \<open>
  Payloads and stream chunks on the data plane: the relay side of \<open>sglang_omni/comm/stage_io.py\<close>.
  The sender takes the tensors out of the payload, packs their bytes into one buffer, hands the
  buffer to a relay and describes it by a \<open>DataRef\<close> that carries the rest of the payload in its
  header; the receiver undoes each step. Relays, torch and pickle are parameters; what is assumed of
  them are the hypotheses \<open>relay_link\<close>, \<open>torch_ok\<close> and \<open>pickles\<close>.
\<close>

section \<open>The environment\<close>

record 't io_payload =
  ip_request_id :: string
  ip_request :: pyval
  ip_data :: "'t tvalue"

text \<open>
  A relay end: its device, what \<open>put_async\<close> returns as metadata for a buffer (by request id and
  receiver) and what \<open>get_async\<close> fills a buffer of a given length with.
\<close>

record relay_end =
  rl_device :: string
  rl_put :: "string \<Rightarrow> string option \<Rightarrow> nat list \<Rightarrow> pydict"
  rl_get :: "string \<Rightarrow> pydict \<Rightarrow> nat \<Rightarrow> nat list result"

text \<open>\<open>base64.b64encode(pickle.dumps(header))\<close> and back.\<close>

record 't pickler =
  pk_dumps :: "'t io_payload \<Rightarrow> string"
  pk_loads :: "string \<Rightarrow> 't io_payload result"

definition pickles :: "'t pickler \<Rightarrow> 't io_payload \<Rightarrow> bool" where
  "pickles P h \<longleftrightarrow> pk_loads P (pk_dumps P h) = Inr h"

definition relay_link :: "relay_end \<Rightarrow> relay_end \<Rightarrow> bool" where
  "relay_link W R \<longleftrightarrow> (\<forall>rid to bs.
     (\<exists>info. map_of (rl_put W rid to bs) ''transfer_info'' = Some (PDict info) \<and>
        map_of info ''size'' = Some (PInt (int (length bs)))) \<and>
     rl_get R rid (rl_put W rid to bs) (length bs) = Inr bs)"

section \<open>Helpers\<close>

text \<open>\<open>buf[a:b]\<close> with Python's treatment of negative and large bounds: where it starts, and its bytes.\<close>

definition clamp :: "nat \<Rightarrow> int \<Rightarrow> nat" where
  "clamp n i = (if i < 0 then nat (max 0 (int n + i)) else min n (nat i))"

definition slice :: "'a list \<Rightarrow> int \<Rightarrow> int \<Rightarrow> 'a list" where
  "slice xs a b = take (clamp (length xs) b - clamp (length xs) a) (drop (clamp (length xs) a) xs)"

definition torch_dtypes :: "string list" where
  "torch_dtypes = [''torch.bool'', ''torch.uint8'', ''torch.int8'', ''torch.int16'', ''torch.int32'', ''torch.int64'',
     ''torch.float16'', ''torch.bfloat16'', ''torch.float32'', ''torch.float64'', ''torch.complex64'', ''torch.complex128'']"

definition torch_dtype :: "string \<Rightarrow> string result" where
  "torch_dtype d = (if d \<in> set torch_dtypes then Inr d
     else Inl (ValueError (''unsupported tensor dtype metadata: '' @ d)))"

text \<open>\<open>torch.device(device).type\<close>: what precedes the colon of a device string.\<close>

definition device_type :: "string \<Rightarrow> string" where
  "device_type d = takeWhile (\<lambda>c. c \<noteq> CHR '':'') d"

definition restore_tensor_device :: "'t torch \<Rightarrow> 't \<Rightarrow> string \<Rightarrow> 't" where
  "restore_tensor_device T t device = (if device_type device = ''cpu'' then tc_to T ''cpu'' t else t)"

definition meta_of_entry :: "packed_entry \<Rightarrow> tensor_meta" where
  "meta_of_entry e = \<lparr>tm_path = en_path e, tm_shape = en_shape e, tm_dtype = en_dtype e,
     tm_device = en_device e, tm_offset = int (en_offset e), tm_size = int (en_size e)\<rparr>"

definition or_empty :: "string option \<Rightarrow> string" where
  "or_empty s = (case s of None \<Rightarrow> [] | Some x \<Rightarrow> x)"

section \<open>Payloads\<close>

definition write_payload ::
    "'t torch \<Rightarrow> 't pickler \<Rightarrow> relay_end \<Rightarrow> string \<Rightarrow> 't io_payload \<Rightarrow> transport \<Rightarrow> string option \<Rightarrow>
     string option \<Rightarrow> data_ref result" where
  "write_payload T P W rid p transport from_stage to_stage =
     (let (data, tensors) = extract_tensors T (ip_data p);
          (packed, entries) = pack_tensors T tensors
      in bindE (backend_from_relay_info transport (rl_put W rid to_stage packed)) (\<lambda>buffer.
         Inr (DataRef 1 StagePayloadData
           (rid @ '':payload:'' @ or_empty from_stage @ '':'' @ or_empty to_stage) transport PackedTensors buffer
           (Some (pk_dumps P (p\<lparr>ip_data := data\<rparr>))) (map meta_of_entry entries) None None None None [])))"

definition read_transfer_buffer :: "relay_end \<Rightarrow> string \<Rightarrow> data_ref \<Rightarrow> nat list result" where
  "read_transfer_buffer R rid ref =
     (if br_length (ref_buffer ref) < 0 then Inl (RuntimeError ''negative dimension'')
      else rl_get R rid (br_info (ref_buffer ref)) (nat (br_length (ref_buffer ref))))"

definition read_entry :: "'t torch \<Rightarrow> string \<Rightarrow> nat list \<Rightarrow> tensor_meta \<Rightarrow> (string \<times> 't) result" where
  "read_entry T device buf e =
     bindE (torch_dtype (tm_dtype e)) (\<lambda>dtype.
     bindE (tc_view T (clamp (length buf) (tm_offset e)) (slice buf (tm_offset e) (tm_offset e + tm_size e))
       dtype (tm_shape e) device) (\<lambda>t.
     Inr (tm_path e, restore_tensor_device T t (tm_device e))))"

definition read_payload ::
    "'t torch \<Rightarrow> 't pickler \<Rightarrow> relay_end \<Rightarrow> string \<Rightarrow> data_ref \<Rightarrow> 't io_payload result" where
  "read_payload T P R rid ref =
     bindE (guardE (ref_kind ref = StagePayloadData) (ValueError (''expected stage_payload, got '' @ kind_value (ref_kind ref)))) (\<lambda>_.
     bindE (case ref_header ref of None \<Rightarrow> Inl (ValueError ''stage_payload data_ref is missing header'')
            | Some h \<Rightarrow> pk_loads P h) (\<lambda>header.
     bindE (read_transfer_buffer R rid ref) (\<lambda>buf.
     bindE (mapE (read_entry T (rl_device R) buf) (ref_tensors ref)) (\<lambda>tensors.
     bindE (restore_tensors (map_of (update_all [] tensors)) (ip_data header)) (\<lambda>data.
     Inr (header\<lparr>ip_data := data\<rparr>))))))"

section \<open>Tensors and stream chunks\<close>

definition write_tensor ::
    "'t torch \<Rightarrow> relay_end \<Rightarrow> string \<Rightarrow> 't \<Rightarrow> transport \<Rightarrow> data_kind \<Rightarrow> string option \<Rightarrow> data_ref result" where
  "write_tensor T W oid t transport kind to_stage =
     (let offset = pad_offset 0 (dtype_alignment T (tc_dtype T t));
          packed = replicate offset 0 @ tc_bytes T t
      in bindE (backend_from_relay_info transport (rl_put W oid to_stage packed)) (\<lambda>buffer.
         Inr (DataRef 1 kind oid transport RawTensor buffer None [] (Some (tc_shape T t)) (Some (tc_dtype T t))
           (Some (int offset)) None [])))"

definition required_opt :: "string \<Rightarrow> 'a option \<Rightarrow> 'a result" where
  "required_opt what x = (case x of None \<Rightarrow> Inl (ValueError (''raw tensor data_ref is missing '' @ what)) | Some v \<Rightarrow> Inr v)"

definition read_tensor :: "'t torch \<Rightarrow> relay_end \<Rightarrow> data_ref \<Rightarrow> 't result" where
  "read_tensor T R ref =
     bindE (guardE (ref_layout ref = RawTensor) (ValueError (''expected raw_tensor layout, got '' @ layout_value (ref_layout ref)))) (\<lambda>_.
     bindE (required_opt ''shape'' (ref_shape ref)) (\<lambda>shape.
     bindE (required_opt ''dtype'' (ref_dtype ref)) (\<lambda>dtype.
     bindE (required_opt ''offset'' (ref_offset ref)) (\<lambda>offset.
     bindE (read_transfer_buffer R (ref_object_id ref) ref) (\<lambda>buf.
     bindE (torch_dtype dtype) (\<lambda>dtype.
     tc_view T (clamp (length buf) offset) (slice buf offset (int (length buf))) dtype shape (rl_device R)))))))"

text \<open>
  The metadata of a chunk, once its tensors are out, is part of the \<open>DataRef\<close> and therefore a wire
  value; the wire has no tuples, they become lists.
\<close>

fun to_wire :: "'t tvalue \<Rightarrow> pyval" where
  "to_wire (TDict d) = PDict (map (\<lambda>(k, v). (k, to_wire v)) d)"
| "to_wire (TList xs) = PList (map to_wire xs)"
| "to_wire (TTuple xs) = PList (map to_wire xs)"
| "to_wire (TAtom v) = v"
| "to_wire (TTensor t) = PNone"

fun of_wire :: "pyval \<Rightarrow> 't tvalue" where
  "of_wire (PDict d) = TDict (map (\<lambda>(k, v). (k, of_wire v)) d)"
| "of_wire (PList xs) = TList (map of_wire xs)"
| "of_wire v = TAtom v"

definition wire_items :: "(string \<times> 't tvalue) list \<Rightarrow> pydict" where
  "wire_items d = map (\<lambda>(k, v). (k, to_wire v)) d"

definition with_stream_metadata ::
    "'t torch \<Rightarrow> relay_end \<Rightarrow> data_ref \<Rightarrow> (string \<times> 't tvalue) list option \<Rightarrow> transport \<Rightarrow> string option \<Rightarrow>
     data_ref result" where
  "with_stream_metadata T W ref metadata transport receiver = (case metadata of
     None \<Rightarrow> Inr ref
   | Some m \<Rightarrow>
       (let (plain, tensors) = extract_items T (\<lambda>t. True) m '''' in
        bindE (mapE (\<lambda>(idx, path, t).
            bindE (write_tensor T W (ref_object_id ref @ '':meta:'' @ digits idx) t transport StreamMetadataTensor receiver)
              (\<lambda>r. Inr (path, r))) (enumerate 0 (update_all [] tensors))) (\<lambda>refs.
        Inr (DataRef (ref_version ref) (ref_kind ref) (ref_object_id ref) (ref_transport ref) (ref_layout ref)
          (ref_buffer ref) None [] (ref_shape ref) (ref_dtype ref) (ref_offset ref) (Some (wire_items plain)) refs))))"

definition write_stream_chunk ::
    "'t torch \<Rightarrow> relay_end \<Rightarrow> string \<Rightarrow> 't \<Rightarrow> string \<Rightarrow> string \<Rightarrow> nat \<Rightarrow> (string \<times> 't tvalue) list option \<Rightarrow>
     transport \<Rightarrow> data_ref result" where
  "write_stream_chunk T W rid t target_stage from_stage chunk_id metadata transport =
     bindE (write_tensor T W (rid @ '':stream:'' @ from_stage @ '':'' @ target_stage @ '':'' @ digits chunk_id) t
       transport StreamChunkData (Some target_stage)) (\<lambda>ref.
     with_stream_metadata T W ref metadata transport (Some target_stage))"

text \<open>\<open>metadata or None\<close>.\<close>

fun or_none :: "'t torch \<Rightarrow> 't tvalue \<Rightarrow> 't tvalue option result" where
  "or_none T (TDict d) = Inr (if d = [] then None else Some (TDict d))"
| "or_none T (TTensor t) = bindE (tc_truth T t) (\<lambda>b. Inr (if b then Some (TTensor t) else None))"
| "or_none T v = Inr (Some v)"

definition read_stream_chunk ::
    "'t torch \<Rightarrow> relay_end \<Rightarrow> data_ref \<Rightarrow> ('t \<times> 't tvalue option) result" where
  "read_stream_chunk T R ref =
     bindE (read_tensor T R ref) (\<lambda>t.
     (let raw = (case ref_metadata ref of None \<Rightarrow> [] | Some m \<Rightarrow> map (\<lambda>(k, v). (k, of_wire v)) m) in
     bindE (if ref_metadata_tensors ref = [] then Inr (TDict raw)
            else bindE (mapE (\<lambda>(path, r). bindE (read_tensor T R r) (\<lambda>t. Inr (path, t))) (ref_metadata_tensors ref))
              (\<lambda>tensors. restore_tensors (map_of (update_all [] tensors)) (TDict raw))) (\<lambda>metadata.
     bindE (or_none T metadata) (\<lambda>m. Inr (t, m)))))"

section \<open>A payload reaches the next stage\<close>

text \<open>Where a tensor ends up when it is read on the device of the receiver's relay.\<close>

definition landed :: "'t torch \<Rightarrow> string \<Rightarrow> 't \<Rightarrow> 't" where
  "landed T dev t = (if device_type (tc_device T t) = ''cpu'' then tc_to T ''cpu'' t else tc_to T dev t)"

lemma clamp_int: "n \<le> len \<Longrightarrow> clamp len (int n) = n"
  by (simp add: clamp_def)

lemma slice_int: "a + n \<le> length xs \<Longrightarrow> slice xs (int a) (int a + int n) = take n (drop a xs)"
  using clamp_int [of a "length xs"] clamp_int [of "a + n" "length xs"] by (simp add: slice_def)

lemma slice_all: "slice xs 0 (int (length xs)) = xs"
  using slice_int [of 0 "length xs" xs] by simp



lemma backend_delivered:
  assumes "relay_link W R"
  shows "\<exists>b. backend_from_relay_info t (rl_put W rid to bs) = Inr b \<and>
    br_length b = int (length bs) \<and> rl_get R rid (br_info b) (length bs) = Inr bs"
proof -
  obtain info where info: "map_of (rl_put W rid to bs) ''transfer_info'' = Some (PDict info)"
    "map_of info ''size'' = Some (PInt (int (length bs)))" "rl_get R rid (rl_put W rid to bs) (length bs) = Inr bs"
    using assms unfolding relay_link_def by blast
  then have "required_dict (rl_put W rid to bs) ''transfer_info'' = Inr info"
    "required_int info ''size'' = Inr (int (length bs))"
    by (simp_all add: codec_iff)
  with info(3) show ?thesis by (simp add: backend_from_relay_info_def)
qed


section \<open>A stream chunk reaches the next stage\<close>

lemma pad_offset_0 [simp]: "pad_offset 0 a = 0"
  by (simp add: pad_offset_def)

lemma tensor_transfer:
  assumes "torch_ok T" and "relay_link W R" and "tc_dtype T t \<in> set torch_dtypes"
  shows "\<exists>ref. write_tensor T W oid t transport kind to_stage = Inr ref \<and> ref_kind ref = kind \<and>
    ref_object_id ref = oid \<and> ref_supported ref \<and> ref_metadata ref = None \<and> ref_metadata_tensors ref = [] \<and>
    ref_layout ref = RawTensor \<and> ref_shape ref = Some (tc_shape T t) \<and> ref_dtype ref = Some (tc_dtype T t) \<and>
    ref_offset ref = Some 0 \<and>
    (\<forall>ref'. ref_layout ref' = RawTensor \<and> ref_shape ref' = ref_shape ref \<and> ref_dtype ref' = ref_dtype ref \<and>
       ref_offset ref' = ref_offset ref \<and> ref_buffer ref' = ref_buffer ref \<and> ref_object_id ref' = oid \<longrightarrow>
       read_tensor T R ref' = Inr (tc_to T (rl_device R) t))"
proof -
  obtain b where b: "backend_from_relay_info transport (rl_put W oid to_stage (tc_bytes T t)) = Inr b"
    "br_length b = int (length (tc_bytes T t))" "rl_get R oid (br_info b) (length (tc_bytes T t)) = Inr (tc_bytes T t)"
    using backend_delivered [OF assms(2)] by blast
  have "tc_view T 0 (tc_bytes T t) (tc_dtype T t) (tc_shape T t) d = Inr (tc_to T d t)" for d
    using assms(1) by (auto simp: torch_ok_def)
  with b assms(3) slice_all [of "tc_bytes T t"] clamp_int [of 0] show ?thesis
    by (auto simp: write_tensor_def read_tensor_def required_opt_def read_transfer_buffer_def torch_dtype_def)
qed

text \<open>Metadata that the wire can carry: no tuples, and atoms that are neither lists nor dictionaries.\<close>

fun scalar :: "pyval \<Rightarrow> bool" where
  "scalar (PList xs) = False"
| "scalar (PDict d) = False"
| "scalar v = True"

fun wire_value :: "'t tvalue \<Rightarrow> bool" where
  "wire_value (TDict d) = (\<forall>(k, v) \<in> set d. wire_value v)"
| "wire_value (TList xs) = (\<forall>v \<in> set xs. wire_value v)"
| "wire_value (TTuple xs) = False"
| "wire_value (TAtom v) = scalar v"
| "wire_value (TTensor t) = True"

lemma of_wire_atom: "scalar v \<Longrightarrow> of_wire v = TAtom v"
  by (cases v) auto

lemma wire_extracted:
  fixes T :: "'t torch"
  shows "wire_value obj \<Longrightarrow> of_wire (to_wire (fst (extract_with T (\<lambda>t. True) obj path))) = fst (extract_with T (\<lambda>t. True) obj path)"
  "\<forall>(k, v) \<in> set d. wire_value v \<Longrightarrow> map (\<lambda>(k, v). (k, of_wire v)) (map (\<lambda>(k, v). (k, to_wire v)) (fst (extract_items T (\<lambda>t. True) d path)))
     = fst (extract_items T (\<lambda>t. True) d path)"
  "\<forall>v \<in> set xs. wire_value v \<Longrightarrow> map of_wire (map to_wire (fst (extract_elems T (\<lambda>t. True) xs i path)))
     = fst (extract_elems T (\<lambda>t. True) xs i path)"
  by (induction "\<lambda>t::'t. True" obj path and "\<lambda>t::'t. True" d path and "\<lambda>t::'t. True" xs i path
      rule: listing_listing_items_listing_elems.induct)
    (simp_all add: case_prod_unfold Let_def placeholder_def of_wire_atom)

lemma nothing_listed:
  fixes T :: "'t torch"
  shows "listing (\<lambda>t. True) obj path = [] \<Longrightarrow> fst (extract_with T (\<lambda>t. True) obj path) = map_tvalue f obj"
  "listing_items (\<lambda>t. True) d path = [] \<Longrightarrow> fst (extract_items T (\<lambda>t. True) d path) = map (map_prod id (map_tvalue f)) d"
  "listing_elems (\<lambda>t. True) xs i path = [] \<Longrightarrow> fst (extract_elems T (\<lambda>t. True) xs i path) = map (map_tvalue f) xs"
  by (induction "\<lambda>t::'t. True" obj path and "\<lambda>t::'t. True" d path and "\<lambda>t::'t. True" xs i path
      rule: listing_listing_items_listing_elems.induct)
    (simp_all add: case_prod_unfold Let_def id_def)

lemma metadata_refs:
  assumes "torch_ok T" and "relay_link W R" and "\<forall>pt \<in> set ts. tc_dtype T (snd pt) \<in> set torch_dtypes"
  shows "\<exists>refs. mapE (\<lambda>(idx, path, t). bindE (write_tensor T W (oid @ '':meta:'' @ digits idx) t transport kind to_stage)
      (\<lambda>r. Inr (path, r))) (enumerate n ts) = Inr refs \<and> length refs = length ts \<and>
    (\<forall>(path, r) \<in> set refs. ref_supported r) \<and>
    mapE (\<lambda>(path, r). bindE (read_tensor T R r) (\<lambda>t. Inr (path, t))) refs = Inr (map (\<lambda>pt. (fst pt, tc_to T (rl_device R) (snd pt))) ts)"
  using assms(3)
proof (induction ts arbitrary: n)
  case (Cons pt ts)
  obtain path t where pt: "pt = (path, t)" by (cases pt)
  obtain r where "write_tensor T W (oid @ '':meta:'' @ digits n) t transport kind to_stage = Inr r" "ref_supported r"
    "read_tensor T R r = Inr (tc_to T (rl_device R) t)"
    using tensor_transfer [OF assms(1,2), of t "oid @ '':meta:'' @ digits n" transport kind to_stage] Cons.prems
    by (auto simp: pt)
  moreover obtain refs where "mapE (\<lambda>(idx, path, t). bindE (write_tensor T W (oid @ '':meta:'' @ digits idx) t transport kind to_stage)
      (\<lambda>r. Inr (path, r))) (enumerate (Suc n) ts) = Inr refs" "length refs = length ts"
    "\<forall>(path, r) \<in> set refs. ref_supported r"
    "mapE (\<lambda>(path, r). bindE (read_tensor T R r) (\<lambda>t. Inr (path, t))) refs = Inr (map (\<lambda>pt. (fst pt, tc_to T (rl_device R) (snd pt))) ts)"
    using Cons.IH [of "Suc n"] Cons.prems by auto
  ultimately show ?case by (intro exI [of _ "(path, r) # refs"]) (simp add: pt)
qed simp

definition metadata_carried :: "'t torch \<Rightarrow> (string \<times> 't tvalue) list \<Rightarrow> bool" where
  "metadata_carried T m \<longleftrightarrow> plain_items m \<and> (\<forall>(k, v) \<in> set m. wire_value v) \<and>
     (\<forall>pt \<in> set (listing_items (\<lambda>t. True) m []). tc_dtype T (snd pt) \<in> set torch_dtypes)"

text \<open>
  A stream chunk reaches the next stage with its metadata. Chunk and metadata tensors are
  written one relay transfer each; the reader gets the chunk back and every tensor of the metadata in
  its place, on its relay's device. An empty metadata dictionary arrives as none at all.
\<close>

theorem stream_chunk_transfer:
  assumes "torch_ok T" and "relay_link W R" and "tc_dtype T t \<in> set torch_dtypes"
    and "\<forall>m. metadata = Some m \<longrightarrow> metadata_carried T m"
  shows "bindE (write_stream_chunk T W rid t target_stage from_stage n metadata transport) (\<lambda>ref.
      bindE (data_ref_from_dict (data_ref_to_dict ref)) (read_stream_chunk T R)) =
    Inr (tc_to T (rl_device R) t, case metadata of None \<Rightarrow> None
      | Some m \<Rightarrow> if m = [] then None else Some (map_tvalue (tc_to T (rl_device R)) (TDict m)))"
proof -
  define oid where "oid = rid @ '':stream:'' @ from_stage @ '':'' @ target_stage @ '':'' @ digits n"
  have chunk: "write_stream_chunk T W rid t target_stage from_stage n metadata transport =
    bindE (write_tensor T W oid t transport StreamChunkData (Some target_stage))
      (\<lambda>ref. with_stream_metadata T W ref metadata transport (Some target_stage))"
    unfolding write_stream_chunk_def oid_def ..
  obtain ref where ref: "write_tensor T W oid t transport StreamChunkData (Some target_stage) = Inr ref"
    "ref_object_id ref = oid" "ref_supported ref" "ref_metadata ref = None" "ref_metadata_tensors ref = []"
    and rereads: "\<And>ref'. ref_layout ref' = RawTensor \<Longrightarrow> ref_shape ref' = ref_shape ref \<Longrightarrow> ref_dtype ref' = ref_dtype ref \<Longrightarrow>
       ref_offset ref' = ref_offset ref \<Longrightarrow> ref_buffer ref' = ref_buffer ref \<Longrightarrow> ref_object_id ref' = oid \<Longrightarrow>
       read_tensor T R ref' = Inr (tc_to T (rl_device R) t)"
    and raw: "ref_layout ref = RawTensor"
    using tensor_transfer [OF assms(1-3), of oid transport StreamChunkData "Some target_stage"] by blast
  show ?thesis
  proof (cases metadata)
    case None
    have "write_stream_chunk T W rid t target_stage from_stage n metadata transport = Inr ref"
      unfolding chunk unfolding None with_stream_metadata_def by (simp only: ref(1) bindE_simps option.case)
    moreover have "read_stream_chunk T R ref = Inr (tc_to T (rl_device R) t, None)"
      using rereads [of ref] raw ref by (simp add: read_stream_chunk_def)
    ultimately show ?thesis by (simp add: None data_ref_roundtrip_lemma [OF ref(3)])
  next
    case (Some m)
    have m: "plain_items m" "\<forall>(k, v) \<in> set m. wire_value v"
      "\<forall>pt \<in> set (listing_items (\<lambda>t. True) m []). tc_dtype T (snd pt) \<in> set torch_dtypes"
      using assms(4) Some by (simp_all add: metadata_carried_def)
    let ?ts = "listing_items (\<lambda>t. True) m []"
    have distinct: "distinct (map fst ?ts)"
      using listing_rel_root [OF m(1)] distinct_rel(2) [OF m(1)] by metis
    obtain out where ex: "extract_items T (\<lambda>t. True) m [] = (out, ?ts)"
      using extract_listing(2) [OF distinct, of T] by (metis prod.collapse)
    obtain refs where refs: "mapE (\<lambda>(idx, path, t). bindE (write_tensor T W (oid @ '':meta:'' @ digits idx) t transport
        StreamMetadataTensor (Some target_stage)) (\<lambda>r. Inr (path, r))) (enumerate 0 ?ts) = Inr refs" "length refs = length ?ts"
      "\<forall>(path, r) \<in> set refs. ref_supported r"
      "mapE (\<lambda>(path, r). bindE (read_tensor T R r) (\<lambda>t. Inr (path, t))) refs = Inr (map (\<lambda>pt. (fst pt, tc_to T (rl_device R) (snd pt))) ?ts)"
      using metadata_refs [OF assms(1,2) m(3), of oid transport StreamMetadataTensor "Some target_stage" 0] by blast
    let ?ref = "DataRef (ref_version ref) (ref_kind ref) (ref_object_id ref) (ref_transport ref) (ref_layout ref)
          (ref_buffer ref) None [] (ref_shape ref) (ref_dtype ref) (ref_offset ref) (Some (wire_items out)) refs"
    have written: "write_stream_chunk T W rid t target_stage from_stage n metadata transport = Inr ?ref"
      unfolding chunk unfolding Some with_stream_metadata_def
      by (simp only: ref(1) bindE_simps option.case ex Let_def prod.case update_all_fresh [OF distinct] ref(2) refs(1))
    have supported: "ref_supported ?ref" using ref(3) refs(3) by (cases ref) simp
    let ?m = "map (map_prod id (map_tvalue (tc_to T (rl_device R)))) m"
    have wire: "map (\<lambda>(k, v). (k, of_wire v)) (wire_items out) = out"
      using wire_extracted(2) [OF m(2), of T "[]"] by (simp only: wire_items_def ex fst_conv)
    have metadata: "(if refs = [] then Inr (TDict out)
        else bindE (mapE (\<lambda>(path, r). bindE (read_tensor T R r) (\<lambda>t. Inr (path, t))) refs)
          (\<lambda>tensors. restore_tensors (map_of (update_all [] tensors)) (TDict out))) = Inr (TDict ?m)"
    proof (cases "refs = []")
      case True
      with refs(2) nothing_listed(2) [of m "[]" T] show ?thesis by (simp add: ex)
    next
      case False
      let ?landed = "map (\<lambda>pt. (fst pt, tc_to T (rl_device R) (snd pt))) ?ts"
      have keys: "distinct (map fst ?landed)" using distinct by (simp add: comp_def)
      have "\<forall>(p, t) \<in> set ?ts. map_of ?landed p = Some (tc_to T (rl_device R) t)"
        using keys by (force intro!: map_of_is_SomeI)
      from restore_extracted(2) [OF plain_unmarked(2) [OF m(1)] this, of T]
      have "restore_items (map_of ?landed) out = Inr ?m" by (simp add: ex)
      moreover have "map_of out ''_tensor_placeholder'' = None"
        using map_of_None_keys [OF extract_keys, of T "\<lambda>t. True" m "[]"] unmarked_keys [OF plain_unmarked(2) [OF m(1)]] by (simp add: ex)
      ultimately show ?thesis using False refs(4) update_all_fresh [OF keys] by simp
    qed
    have "read_stream_chunk T R ?ref = Inr (tc_to T (rl_device R) t, if m = [] then None else Some (TDict ?m))"
    proof -
      have "read_tensor T R ?ref = Inr (tc_to T (rl_device R) t)"
        using rereads [of ?ref] raw ref(2) by simp
      then have "read_stream_chunk T R ?ref = bindE (Inr (TDict ?m)) (\<lambda>metadata.
          bindE (or_none T metadata) (\<lambda>m. Inr (tc_to T (rl_device R) t, m)))"
        by (simp only: read_stream_chunk_def bindE_simps data_ref.sel option.case Let_def wire metadata)
      then show ?thesis by simp
    qed
    then show ?thesis
      unfolding written bindE_simps data_ref_roundtrip_lemma [OF supported] by (simp add: Some id_def)
  qed
qed

text \<open>
  An environment in which both transfers can be watched: a tensor is its device and its bytes, of
  dtype \<open>torch.uint8\<close> and one dimension; a relay keeps the buffer in the metadata; a header is pickled by
  an index into a table with one entry.
\<close>

type_synonym sample_tensor = "string \<times> nat list"

definition sample_torch :: "sample_tensor torch" where
  "sample_torch = \<lparr>tc_shape = (\<lambda>t. [int (length (snd t))]), tc_dtype = (\<lambda>t. ''torch.uint8''), tc_device = fst,
     tc_is_cuda = (\<lambda>t. device_type (fst t) = ''cuda''), tc_bytes = snd, tc_truth = (\<lambda>t. Inr True),
     tc_itemsize = (\<lambda>d. 1), tc_to = (\<lambda>d t. (d, snd t)), tc_view = (\<lambda>off bs dtype shape d. Inr (d, bs))\<rparr>"

definition sample_relay :: "string \<Rightarrow> relay_end" where
  "sample_relay d = \<lparr>rl_device = d,
     rl_put = (\<lambda>rid to bs. [(''transfer_info'', PDict [(''size'', PInt (int (length bs))),
        (''bytes'', PList (map (\<lambda>b. PInt (int b)) bs))])]),
     rl_get = (\<lambda>rid info n. bindE (required_dict info ''transfer_info'') (\<lambda>i.
        bindE (int_tuple i ''bytes'') (\<lambda>bs. Inr (map nat bs))))\<rparr>"

lemma sample_torch_ok: "torch_ok sample_torch"
  by (auto simp: torch_ok_def sample_torch_def)

lemma sample_relay_link: "relay_link (sample_relay d) (sample_relay d')"
proof -
  have "int_tuple [(''size'', PInt (int (length bs))), (''bytes'', PList (map (\<lambda>b. PInt (int b)) bs))] ''bytes''
      = Inr (map int bs)" for bs
    by (simp add: codec_iff comp_def)
  then show ?thesis
    by (simp add: relay_link_def sample_relay_def required_dict_def dindex_def comp_def)
qed

definition sample_payload :: "sample_tensor io_payload" where
  "sample_payload = \<lparr>ip_request_id = ''r'', ip_request = PNone,
     ip_data = TDict [(''audio'', TTensor (''cpu'', [1, 2])), (''text'', TAtom (PStr ''hi''))]\<rparr>"


lemma stream_chunk_transfer_witness:
  "bindE (write_stream_chunk sample_torch (sample_relay ''cuda:0'') ''r'' (''cuda:0'', [5]) ''b'' ''a'' 0
      (Some [(''codes'', TTensor (''cuda:0'', [9])), (''final'', TAtom (PBool True))]) CudaIpc) (\<lambda>ref.
      bindE (data_ref_from_dict (data_ref_to_dict ref)) (read_stream_chunk sample_torch (sample_relay ''cuda:1''))) =
    Inr ((''cuda:1'', [5]), Some (TDict [(''codes'', TTensor (''cuda:1'', [9])), (''final'', TAtom (PBool True))]))"
  by (subst stream_chunk_transfer [OF sample_torch_ok sample_relay_link])
    (simp_all add: metadata_carried_def plain_key_def child_key_def sample_torch_def torch_dtypes_def sample_relay_def)

text \<open>
  A payload with a tensor of a dtype outside the reader's table is sent and cannot be read. The
  writer packs any dtype and announces the transfer; the receiver raises instead of delivering, for
  instance on a float8 tensor.
\<close>

theorem unsupported_dtype_fails_at_reader:
  assumes "torch_ok T" and "relay_link W R" and "tc_dtype T t \<notin> set torch_dtypes"
    and "pickles P (p\<lparr>ip_data := placeholder T [] t\<rparr>)" and "ip_data p = TTensor t"
  shows "\<exists>ref. write_payload T P W rid p transport from_stage to_stage = Inr ref \<and>
    read_payload T P R rid ref = Inl (ValueError (''unsupported tensor dtype metadata: '' @ tc_dtype T t))"
proof -
  have ex: "extract_tensors T (ip_data p) = (placeholder T [] t, [([], t)])"
    by (simp add: extract_tensors_def assms(5))
  obtain e where pack: "pack_tensors T [([], t)] = (tc_bytes T t, [e])" and e: "en_dtype e = tc_dtype T t"
    by (simp add: pack_tensors_def Let_def pad_offset_def)
  obtain b where b: "backend_from_relay_info transport (rl_put W rid to_stage (tc_bytes T t)) = Inr b"
    "br_length b = int (length (tc_bytes T t))" "rl_get R rid (br_info b) (length (tc_bytes T t)) = Inr (tc_bytes T t)"
    using backend_delivered [OF assms(2)] by blast
  show ?thesis
    using b assms(3,4) e
    by (simp add: write_payload_def ex pack read_payload_def read_transfer_buffer_def pickles_def
        read_entry_def meta_of_entry_def torch_dtype_def)
qed

lemma unsupported_dtype_fails_at_reader_witness:
  "\<exists>P ref. read_payload (sample_torch\<lparr>tc_dtype := (\<lambda>t. ''torch.float8_e4m3fn'')\<rparr>) P (sample_relay ''cpu'') ''r'' ref =
     Inl (ValueError ''unsupported tensor dtype metadata: torch.float8_e4m3fn'')"
proof -
  let ?T = "sample_torch\<lparr>tc_dtype := (\<lambda>t. ''torch.float8_e4m3fn'')\<rparr>" and ?t = "(''cpu'', [1]) :: sample_tensor"
  let ?p = "sample_payload\<lparr>ip_data := TTensor ?t\<rparr>"
  let ?P = "\<lparr>pk_dumps = (\<lambda>h. ''gASV''), pk_loads = (\<lambda>s. Inr (?p\<lparr>ip_data := placeholder ?T [] ?t\<rparr>))\<rparr>"
  have "torch_ok ?T" by (auto simp: torch_ok_def sample_torch_def)
  then show ?thesis
    using unsupported_dtype_fails_at_reader [of ?T "sample_relay ''cpu''" "sample_relay ''cpu''" ?t ?P ?p "''r''" Shm None None]
      sample_relay_link [of "''cpu''" "''cpu''"]
    by (auto simp: pickles_def torch_dtypes_def)
qed

end
