(* ===== verification/Stage_Cache.thy ===== *)
theory Stage_Cache
  imports Prelude
begin

text \<open>
  The bounded LRU caches: \<open>sglang_omni/scheduling/stage_cache.py\<close> and, on top of it,
  \<open>speaker_cache.py\<close>. The ordered dictionary is an association list with the least recently used
  entry first. Cached objects are references: equality of \<open>'d\<close> is Python's \<open>is\<close>.
\<close>

section \<open>Values\<close>

text \<open>
  What \<open>_detach_value\<close> and \<open>_value_size_bytes\<close> distinguish. A tensor has a number of elements, an
  element size, a device and whether it is attached to a graph.
\<close>

datatype artifact =
    ATensor nat nat string bool
  | ABytes nat
  | ADict "(string \<times> artifact) list"
  | ASeq "artifact list"
  | AOther

fun detach_value :: "string option \<Rightarrow> artifact \<Rightarrow> artifact" where
  "detach_value dev (ATensor n b d g) = ATensor n b (case dev of None \<Rightarrow> d | Some d' \<Rightarrow> d') False"
| "detach_value dev (ADict kvs) = ADict (map (\<lambda>(k, v). (k, detach_value dev v)) kvs)"
| "detach_value dev (ASeq xs) = ASeq (map (detach_value dev) xs)"
| "detach_value dev v = v"

fun value_size_bytes :: "artifact \<Rightarrow> int" where
  "value_size_bytes (ATensor n b d g) = int (n * b)"
| "value_size_bytes (ABytes n) = int n"
| "value_size_bytes (ADict kvs) = sum_list (map (\<lambda>(k, v). value_size_bytes v) kvs)"
| "value_size_bytes (ASeq xs) = sum_list (map value_size_bytes xs)"
| "value_size_bytes AOther = 0"

lemma detach_size: "value_size_bytes (detach_value dev v) = value_size_bytes v"
  by (induction dev v rule: detach_value.induct)
    (auto simp: comp_def case_prod_unfold intro!: arg_cong [of _ _ sum_list] map_cong)

lemma value_size_nonneg: "0 \<le> value_size_bytes v"
  by (induction v rule: value_size_bytes.induct) (auto intro!: sum_list_nonneg)

section \<open>The cache\<close>

record 'd cache_config =
  cc_max_size :: "int option"
  cc_max_bytes :: "int option"
  cc_size :: "'d \<Rightarrow> int"
  cc_store :: "'d \<Rightarrow> 'd"

definition new_cache_config ::
    "int option \<Rightarrow> int option \<Rightarrow> ('d \<Rightarrow> int) \<Rightarrow> ('d \<Rightarrow> 'd) \<Rightarrow> 'd cache_config result" where
  "new_cache_config max_size max_bytes sz st =
     bindE (guardE (case max_size of None \<Rightarrow> True | Some n \<Rightarrow> 0 \<le> n) (ValueError ''max_size must be non-negative'')) (\<lambda>_.
     bindE (guardE (case max_bytes of None \<Rightarrow> True | Some n \<Rightarrow> 0 \<le> n) (ValueError ''max_bytes must be non-negative'')) (\<lambda>_.
     Inr \<lparr>cc_max_size = max_size, cc_max_bytes = max_bytes, cc_size = sz, cc_store = st\<rparr>))"

record 'd cache_entry =
  ce_data :: 'd
  ce_size :: int

record 'd cache =
  ch_entries :: "(string \<times> 'd cache_entry) list"
  ch_bytes :: int
  ch_evictions :: nat

definition empty_cache :: "'d cache" where
  "empty_cache = \<lparr>ch_entries = [], ch_bytes = 0, ch_evictions = 0\<rparr>"

definition cache_get :: "string option \<Rightarrow> 'd cache \<Rightarrow> 'd option \<times> 'd cache" where
  "cache_get key s = (case key of
     None \<Rightarrow> (None, s)
   | Some k \<Rightarrow> (case map_of (ch_entries s) k of
       None \<Rightarrow> (None, s)
     | Some e \<Rightarrow> (Some (ce_data e), s\<lparr>ch_entries := AList.delete k (ch_entries s) @ [(k, e)]\<rparr>)))"

text \<open>The two loops of \<open>_evict_over_budget\<close>, on the entries, the byte count and the eviction count.\<close>

fun evict_count :: "int \<Rightarrow> (string \<times> 'd cache_entry) list \<Rightarrow> int \<Rightarrow> nat \<Rightarrow>
    (string \<times> 'd cache_entry) list \<times> int \<times> nat" where
  "evict_count limit [] bytes ev = ([], bytes, ev)"
| "evict_count limit (e # es) bytes ev =
     (if int (length (e # es)) > limit then evict_count limit es (bytes - ce_size (snd e)) (Suc ev)
      else (e # es, bytes, ev))"

fun evict_bytes :: "int \<Rightarrow> (string \<times> 'd cache_entry) list \<Rightarrow> int \<Rightarrow> nat \<Rightarrow>
    (string \<times> 'd cache_entry) list \<times> int \<times> nat" where
  "evict_bytes limit [] bytes ev = ([], if bytes > limit then 0 else bytes, ev)"
| "evict_bytes limit (e # es) bytes ev =
     (if bytes > limit then evict_bytes limit es (bytes - ce_size (snd e)) (Suc ev)
      else (e # es, bytes, ev))"

definition evict_over_budget :: "'d cache_config \<Rightarrow> 'd cache \<Rightarrow> 'd cache" where
  "evict_over_budget c s =
     (let (es, bytes, ev) = (case cc_max_size c of
            None \<Rightarrow> (ch_entries s, ch_bytes s, ch_evictions s)
          | Some n \<Rightarrow> evict_count n (ch_entries s) (ch_bytes s) (ch_evictions s));
          (es, bytes, ev) = (case cc_max_bytes c of
            None \<Rightarrow> (es, bytes, ev) | Some n \<Rightarrow> evict_bytes n es bytes ev)
      in \<lparr>ch_entries = es, ch_bytes = bytes, ch_evictions = ev\<rparr>)"

definition drop_key :: "string \<Rightarrow> 'd cache \<Rightarrow> 'd cache" where
  "drop_key k s = (case map_of (ch_entries s) k of
     None \<Rightarrow> s
   | Some e \<Rightarrow> s\<lparr>ch_entries := AList.delete k (ch_entries s), ch_bytes := ch_bytes s - ce_size e\<rparr>)"

definition too_big :: "'d cache_config \<Rightarrow> 'd \<Rightarrow> bool" where
  "too_big c d = (case cc_max_bytes c of None \<Rightarrow> False | Some n \<Rightarrow> cc_size c d > n)"

definition cache_put :: "'d cache_config \<Rightarrow> string option \<Rightarrow> 'd \<Rightarrow> 'd cache \<Rightarrow> 'd cache" where
  "cache_put c key d s = (case key of
     None \<Rightarrow> s
   | Some k \<Rightarrow>
       (let s = drop_key k s in
        if too_big c d then s
        else evict_over_budget c (s\<lparr>
          ch_entries := ch_entries s @ [(k, \<lparr>ce_data = cc_store c d, ce_size = cc_size c d\<rparr>)],
          ch_bytes := ch_bytes s + cc_size c d\<rparr>)))"

definition cache_clear :: "'d cache \<Rightarrow> 'd cache" where
  "cache_clear s = s\<lparr>ch_entries := [], ch_bytes := 0\<rparr>"

definition remove_if_same :: "string option \<Rightarrow> 'd \<Rightarrow> 'd cache \<Rightarrow> bool \<times> 'd cache" where
  "remove_if_same key d s = (case key of
     None \<Rightarrow> (False, s)
   | Some k \<Rightarrow> (case map_of (ch_entries s) k of
       None \<Rightarrow> (False, s)
     | Some e \<Rightarrow> (if ce_data e \<noteq> d then (False, s) else (True, drop_key k s))))"

text \<open>
  \<open>remove_if\<close> takes the lock twice: it copies the keys under it, tests them without it, and takes it again
  to remove those that passed one by one (\<open>remove_keys\<close>), counting the keys that are still there.
  \<open>remove_if\<close> below is the call of a single thread, with nothing between the two; what another thread does
  in between makes the second part run on another cache, and \<open>remove_keys_ok\<close> (the invariant holds after
  it) is proved for any keys and any cache.
\<close>

definition remove_keys :: "string list \<Rightarrow> 'd cache \<Rightarrow> nat \<times> 'd cache" where
  "remove_keys ks s = fold (\<lambda>k (n, s).
     if map_of (ch_entries s) k = None then (n, s) else (Suc n, drop_key k s)) ks (0, s)"

definition remove_if :: "(string \<Rightarrow> bool) \<Rightarrow> 'd cache \<Rightarrow> nat \<times> 'd cache" where
  "remove_if p s = remove_keys (filter p (map fst (ch_entries s))) s"

section \<open>The invariant\<close>

definition sizes :: "(string \<times> 'd cache_entry) list \<Rightarrow> int" where
  "sizes es = sum_list (map (\<lambda>e. ce_size (snd e)) es)"

definition config_ok :: "'d cache_config \<Rightarrow> bool" where
  "config_ok c \<longleftrightarrow> (\<forall>n. cc_max_size c = Some n \<longrightarrow> 0 \<le> n) \<and> (\<forall>n. cc_max_bytes c = Some n \<longrightarrow> 0 \<le> n) \<and>
     (\<forall>d. 0 \<le> cc_size c d)"

definition within :: "'d cache_config \<Rightarrow> (string \<times> 'd cache_entry) list \<Rightarrow> bool" where
  "within c es \<longleftrightarrow> (\<forall>n. cc_max_size c = Some n \<longrightarrow> int (length es) \<le> n) \<and>
     (\<forall>n. cc_max_bytes c = Some n \<longrightarrow> sizes es \<le> n)"

definition cache_ok :: "'d cache_config \<Rightarrow> 'd cache \<Rightarrow> bool" where
  "cache_ok c s \<longleftrightarrow> distinct (map fst (ch_entries s)) \<and> ch_bytes s = sizes (ch_entries s) \<and>
     (\<forall>e \<in> set (ch_entries s). 0 \<le> ce_size (snd e)) \<and> within c (ch_entries s)"

lemma sizes_simps [simp]:
  "sizes [] = 0" "sizes (e # es) = ce_size (snd e) + sizes es" "sizes (es @ fs) = sizes es + sizes fs"
  by (simp_all add: sizes_def)

lemma sizes_delete:
  "distinct (map fst es) \<Longrightarrow> map_of es k = Some e \<Longrightarrow> sizes (AList.delete k es) = sizes es - ce_size e"
proof (induction es)
  case (Cons x es)
  have "AList.delete (fst x) es = es" if "fst x \<notin> fst ` set es"
    using that by simp
  with Cons show ?case by (auto split: if_splits)
qed simp

lemma evict_count_spec:
  "\<exists>n. evict_count limit es (sizes es) ev = (drop n es, sizes (drop n es), ev + n) \<and>
     (0 \<le> limit \<longrightarrow> int (length (drop n es)) \<le> limit) \<and> n \<le> length es \<and> (\<forall>i<n. int (length (drop i es)) > limit)"
proof (induction es arbitrary: ev)
  case (Cons e es)
  show ?case
  proof (cases "int (length (e # es)) > limit")
    case True
    obtain n where n: "evict_count limit es (sizes es) (Suc ev) = (drop n es, sizes (drop n es), Suc ev + n)"
      "0 \<le> limit \<longrightarrow> int (length (drop n es)) \<le> limit" "n \<le> length es" "\<forall>i<n. int (length (drop i es)) > limit"
      using Cons.IH by blast
    with True show ?thesis
      by (intro exI [of _ "Suc n"]) (auto simp: less_Suc_eq_0_disj)
  qed (intro exI [of _ 0], auto)
qed simp

lemma evict_bytes_spec:
  "0 \<le> limit \<Longrightarrow> \<exists>n. evict_bytes limit es (sizes es) ev = (drop n es, sizes (drop n es), ev + n) \<and>
     sizes (drop n es) \<le> limit \<and> n \<le> length es \<and> (\<forall>i<n. sizes (drop i es) > limit)"
proof (induction es arbitrary: ev)
  case (Cons e es)
  show ?case
  proof (cases "sizes (e # es) > limit")
    case True
    obtain n where n: "evict_bytes limit es (sizes es) (Suc ev) = (drop n es, sizes (drop n es), Suc ev + n)"
      "sizes (drop n es) \<le> limit" "n \<le> length es" "\<forall>i<n. sizes (drop i es) > limit"
      using Cons.IH [OF Cons.prems] by blast
    with True show ?thesis
      by (intro exI [of _ "Suc n"]) (auto simp: less_Suc_eq_0_disj)
  qed (intro exI [of _ 0], auto)
qed simp

lemma evict_spec:
  assumes "config_ok c" and "ch_bytes s = sizes (ch_entries s)"
  shows "\<exists>n \<le> length (ch_entries s).
    evict_over_budget c s = \<lparr>ch_entries = drop n (ch_entries s), ch_bytes = sizes (drop n (ch_entries s)),
      ch_evictions = ch_evictions s + n\<rparr> \<and>
    within c (drop n (ch_entries s)) \<and> (\<forall>i<n. \<not> within c (drop i (ch_entries s)))"
proof -
  obtain es b ev where s: "s = \<lparr>ch_entries = es, ch_bytes = b, ch_evictions = ev\<rparr>" by (cases s)
  have b: "b = sizes es" using assms(2) by (simp add: s)
  have "\<exists>n \<le> length es. (case cc_max_size c of None \<Rightarrow> (es, b, ev) | Some l \<Rightarrow> evict_count l es b ev)
      = (drop n es, sizes (drop n es), ev + n) \<and> (\<forall>l. cc_max_size c = Some l \<longrightarrow> int (length (drop n es)) \<le> l) \<and>
      (\<forall>i<n. \<not> within c (drop i es))"
  proof (cases "cc_max_size c")
    case (Some l)
    then have "0 \<le> l" using assms(1) by (simp add: config_ok_def)
    then obtain n where n: "evict_count l es (sizes es) ev = (drop n es, sizes (drop n es), ev + n)"
      "int (length (drop n es)) \<le> l" "n \<le> length es" "\<forall>i<n. int (length (drop i es)) > l"
      using evict_count_spec [of l es ev] by blast
    then have "\<not> within c (drop i es)" if "i < n" for i
      using that Some by (auto simp: within_def simp del: length_drop)
    with Some n show ?thesis by (intro exI [of _ n]) (simp add: b)
  qed (simp add: b)
  then obtain n where n: "n \<le> length es" "(case cc_max_size c of None \<Rightarrow> (es, b, ev) | Some l \<Rightarrow> evict_count l es b ev)
      = (drop n es, sizes (drop n es), ev + n)" "\<forall>l. cc_max_size c = Some l \<longrightarrow> int (length (drop n es)) \<le> l"
    "\<forall>i<n. \<not> within c (drop i es)" by blast
  have "\<exists>m \<le> length (drop n es). (case cc_max_bytes c of None \<Rightarrow> (drop n es, sizes (drop n es), ev + n)
        | Some l \<Rightarrow> evict_bytes l (drop n es) (sizes (drop n es)) (ev + n))
      = (drop m (drop n es), sizes (drop m (drop n es)), ev + n + m) \<and>
      (\<forall>l. cc_max_bytes c = Some l \<longrightarrow> sizes (drop m (drop n es)) \<le> l) \<and> (\<forall>i<m. \<not> within c (drop i (drop n es)))"
  proof (cases "cc_max_bytes c")
    case (Some l)
    then have "0 \<le> l" using assms(1) by (simp add: config_ok_def)
    then obtain m where m: "evict_bytes l (drop n es) (sizes (drop n es)) (ev + n) =
        (drop m (drop n es), sizes (drop m (drop n es)), ev + n + m)" "sizes (drop m (drop n es)) \<le> l"
      "m \<le> length (drop n es)" "\<forall>i<m. sizes (drop i (drop n es)) > l"
      using evict_bytes_spec [of l "drop n es" "ev + n"] by blast
    then have "\<not> within c (drop i (drop n es))" if "i < m" for i
      using that Some by (auto simp: within_def simp del: drop_drop)
    with Some m show ?thesis by (intro exI [of _ m]) simp
  qed simp
  then obtain m where m: "m \<le> length (drop n es)" "(case cc_max_bytes c of None \<Rightarrow> (drop n es, sizes (drop n es), ev + n)
        | Some l \<Rightarrow> evict_bytes l (drop n es) (sizes (drop n es)) (ev + n))
      = (drop m (drop n es), sizes (drop m (drop n es)), ev + n + m)"
    "\<forall>l. cc_max_bytes c = Some l \<longrightarrow> sizes (drop m (drop n es)) \<le> l" "\<forall>i<m. \<not> within c (drop i (drop n es))"
    by blast
  have "evict_over_budget c s = \<lparr>ch_entries = drop m (drop n es), ch_bytes = sizes (drop m (drop n es)), ch_evictions = ev + n + m\<rparr>"
    unfolding evict_over_budget_def s by (simp only: cache.simps n(2) m(2) Let_def prod.case)
  then have "evict_over_budget c s = \<lparr>ch_entries = drop (n + m) es, ch_bytes = sizes (drop (n + m) es), ch_evictions = ev + (n + m)\<rparr>"
    by (simp only: drop_drop add.commute [of m n] add.assoc)
  moreover have "within c (drop (n + m) es)"
  proof -
    have "int (length (drop (n + m) es)) \<le> l" if "cc_max_size c = Some l" for l
      using n(3) that by fastforce
    moreover have "sizes (drop (n + m) es) \<le> l" if "cc_max_bytes c = Some l" for l
      using m(3) that by (simp add: add.commute [of m n])
    ultimately show ?thesis by (simp add: within_def del: length_drop)
  qed
  moreover have "\<not> within c (drop i es)" if "i < n + m" for i
  proof (cases "i < n")
    case False
    then have "drop i es = drop (i - n) (drop n es)" "i - n < m" using that by auto
    with m(4) show ?thesis by metis
  qed (use n(4) in simp)
  ultimately show ?thesis using n(1) m(1) by (intro exI [of _ "n + m"]) (simp add: s)
qed

lemma drop_key_entries: "ch_entries (drop_key k s) = AList.delete k (ch_entries s)"
  by (auto simp: drop_key_def delete_id map_of_eq_None_iff split: option.split)

lemma drop_key_evictions [simp]: "ch_evictions (drop_key k s) = ch_evictions s"
  by (simp add: drop_key_def split: option.split)

lemma set_delete: "set (AList.delete k es) = {e \<in> set es. fst e \<noteq> k}"
  by (induction es) auto

lemma length_delete_present:
  "distinct (map fst es) \<Longrightarrow> map_of es k = Some e \<Longrightarrow> Suc (length (AList.delete k es)) = length es"
  by (induction es) (auto split: if_splits)

lemma within_delete: "\<forall>e \<in> set es. 0 \<le> ce_size (snd e) \<Longrightarrow> within c es \<Longrightarrow> within c (AList.delete k es)"
proof -
  assume *: "\<forall>e \<in> set es. 0 \<le> ce_size (snd e)" and w: "within c es"
  have "sizes (AList.delete k es) \<le> sizes es"
    using * by (induction es) auto
  moreover have "length (AList.delete k es) \<le> length es"
    by (simp add: length_delete_le)
  ultimately show ?thesis using w by (fastforce simp: within_def)
qed

lemma drop_key_ok: "cache_ok c s \<Longrightarrow> cache_ok c (drop_key k s)"
proof (cases "map_of (ch_entries s) k")
  case (Some e)
  assume ok: "cache_ok c s"
  with Some have "sizes (AList.delete k (ch_entries s)) = sizes (ch_entries s) - ce_size e"
    "within c (AList.delete k (ch_entries s))"
    by (simp_all add: cache_ok_def sizes_delete within_delete)
  with ok Some show ?thesis
    by (simp add: cache_ok_def drop_key_def distinct_delete set_delete)
qed (simp add: drop_key_def)

lemma cache_get_ok: "cache_ok c s \<Longrightarrow> cache_ok c (snd (cache_get key s))"
proof (cases "\<exists>k e. key = Some k \<and> map_of (ch_entries s) k = Some e")
  case True
  then obtain k e where k: "key = Some k" "map_of (ch_entries s) k = Some e" by blast
  assume ok: "cache_ok c s"
  let ?es = "AList.delete k (ch_entries s) @ [(k, e)]"
  have e: "0 \<le> ce_size e" using ok map_of_SomeD [OF k(2)] by (auto simp: cache_ok_def)
  have same: "sizes ?es = sizes (ch_entries s)" "length ?es = length (ch_entries s)"
    using ok sizes_delete [OF _ k(2)] length_delete_present [OF _ k(2)] by (simp_all add: cache_ok_def)
  have "distinct (map fst ?es)"
    using ok delete_notin_dom [of k "ch_entries s"] by (simp add: cache_ok_def distinct_delete)
  with ok e same k show ?thesis
    by (simp add: cache_ok_def cache_get_def within_def set_delete ball_Un)
qed (auto simp: cache_get_def split: option.splits)

text \<open>\<open>put\<close> of an artifact that fits keeps the longest suffix that fits, the new entry last.\<close>

lemma cache_put_keeps:
  fixes k :: string
  assumes "config_ok c" and "cache_ok c s" and "\<not> too_big c d"
  defines "es \<equiv> AList.delete k (ch_entries s) @ [(k, \<lparr>ce_data = cc_store c d, ce_size = cc_size c d\<rparr>)]"
  shows "\<exists>n \<le> length es. cache_put c (Some k) d s = \<lparr>ch_entries = drop n es, ch_bytes = sizes (drop n es),
      ch_evictions = ch_evictions s + n\<rparr> \<and> within c (drop n es) \<and> (\<forall>i<n. \<not> within c (drop i es))"
proof -
  let ?s = "(drop_key k s)\<lparr>ch_entries := es, ch_bytes := ch_bytes (drop_key k s) + cc_size c d\<rparr>"
  have "ch_bytes (drop_key k s) = sizes (AList.delete k (ch_entries s))"
    using drop_key_ok [OF assms(2), of k] by (simp add: cache_ok_def drop_key_entries)
  then have "ch_bytes ?s = sizes (ch_entries ?s)" by (simp add: es_def)
  from evict_spec [OF assms(1) this]
  obtain n where "n \<le> length es" "evict_over_budget c ?s = \<lparr>ch_entries = drop n es, ch_bytes = sizes (drop n es),
      ch_evictions = ch_evictions s + n\<rparr>" "within c (drop n es)" "\<forall>i<n. \<not> within c (drop i es)"
    by auto
  moreover have "cache_put c (Some k) d s = evict_over_budget c ?s"
    using assms(3) by (simp add: cache_put_def drop_key_entries es_def Let_def)
  ultimately show ?thesis by auto
qed

lemma cache_put_ok: "config_ok c \<Longrightarrow> cache_ok c s \<Longrightarrow> cache_ok c (cache_put c key d s)"
proof (cases key)
  case (Some k)
  assume c: "config_ok c" and ok: "cache_ok c s"
  show ?thesis
  proof (cases "too_big c d")
    case True
    with ok Some show ?thesis by (simp add: cache_put_def drop_key_ok)
  next
    case False
    let ?es = "AList.delete k (ch_entries s) @ [(k, \<lparr>ce_data = cc_store c d, ce_size = cc_size c d\<rparr>)]"
    have es: "distinct (map fst ?es)" "\<forall>e \<in> set ?es. 0 \<le> ce_size (snd e)"
      using ok c delete_notin_dom [of k "ch_entries s"]
      by (auto simp: cache_ok_def config_ok_def distinct_delete set_delete)
    obtain n where n: "cache_put c (Some k) d s = \<lparr>ch_entries = drop n ?es, ch_bytes = sizes (drop n ?es),
        ch_evictions = ch_evictions s + n\<rparr>" "within c (drop n ?es)"
      using cache_put_keeps [OF c ok False, of k] by blast
    have "distinct (map fst (drop n ?es))" using es(1) by (metis distinct_drop drop_map)
    moreover have "\<forall>e \<in> set (drop n ?es). 0 \<le> ce_size (snd e)" using es(2) by (meson in_set_dropD)
    ultimately show ?thesis using n(2) unfolding Some cache_ok_def n(1) cache.simps by blast
  qed
qed (simp add: cache_put_def)

lemma remove_keys_ok: "cache_ok c s \<Longrightarrow> cache_ok c (snd (remove_keys ks s))"
proof -
  have "cache_ok c s \<Longrightarrow> cache_ok c (snd (fold (\<lambda>k (n, s).
     if map_of (ch_entries s) k = None then (n, s) else (Suc n, drop_key k s)) ks (n, s)))" for n
    by (induction ks arbitrary: n s) (auto simp: drop_key_ok)
  then show "cache_ok c s \<Longrightarrow> ?thesis" by (simp add: remove_keys_def)
qed

section \<open>Operations in sequence\<close>

datatype 'd cache_op =
    CGet "string option" | CPut "string option" 'd | CClear
  | CRemoveSame "string option" 'd | CRemoveIf "string \<Rightarrow> bool"

datatype 'd cache_result = RData "'d option" | RNone | RBool bool | RCount nat

fun cache_step :: "'d cache_config \<Rightarrow> 'd cache_op \<Rightarrow> 'd cache \<Rightarrow> 'd cache_result \<times> 'd cache" where
  "cache_step c (CGet key) s = (let (r, s') = cache_get key s in (RData r, s'))"
| "cache_step c (CPut key d) s = (RNone, cache_put c key d s)"
| "cache_step c CClear s = (RNone, cache_clear s)"
| "cache_step c (CRemoveSame key d) s = (let (b, s') = remove_if_same key d s in (RBool b, s'))"
| "cache_step c (CRemoveIf p) s = (let (n, s') = remove_if p s in (RCount n, s'))"

fun cache_run :: "'d cache_config \<Rightarrow> 'd cache_op list \<Rightarrow> 'd cache \<Rightarrow> 'd cache_result list \<times> 'd cache" where
  "cache_run c [] s = ([], s)"
| "cache_run c (op # ops) s =
     (let (r, s) = cache_step c op s; (rs, s) = cache_run c ops s in (r # rs, s))"

lemma cache_step_ok: "config_ok c \<Longrightarrow> cache_ok c s \<Longrightarrow> cache_ok c (snd (cache_step c op s))"
proof (cases op)
  case (CGet key)
  assume "cache_ok c s"
  then show ?thesis using cache_get_ok [of c s key] by (simp add: CGet case_prod_unfold Let_def)
next
  case (CRemoveSame key d)
  assume "cache_ok c s"
  then show ?thesis
    using drop_key_ok [of c s] by (auto simp: CRemoveSame remove_if_same_def Let_def split: option.splits)
next
  case (CRemoveIf p)
  assume "cache_ok c s"
  then show ?thesis using remove_keys_ok [of c s] by (simp add: CRemoveIf remove_if_def case_prod_unfold Let_def)
next
  case (CPut key d)
  assume "config_ok c" and "cache_ok c s"
  then show ?thesis by (simp add: CPut cache_put_ok)
qed (auto simp: cache_ok_def cache_clear_def within_def config_ok_def)

lemma cache_run_ok: "config_ok c \<Longrightarrow> cache_ok c s \<Longrightarrow> cache_ok c (snd (cache_run c ops s))"
  by (induction ops arbitrary: s) (auto simp: case_prod_unfold Let_def cache_step_ok)

lemma empty_cache_ok: "config_ok c \<Longrightarrow> cache_ok c empty_cache"
  by (auto simp: cache_ok_def empty_cache_def within_def config_ok_def)

section \<open>The cache refines a dictionary\<close>

text \<open>
  The abstract contract: a plain dictionary without any bound, from which artifacts that do not fit
  are left out.
\<close>

fun dict_step :: "'d cache_config \<Rightarrow> 'd cache_op \<Rightarrow> (string \<rightharpoonup> 'd) \<Rightarrow> 'd cache_result \<times> (string \<rightharpoonup> 'd)" where
  "dict_step c (CGet key) m = (RData (case key of None \<Rightarrow> None | Some k \<Rightarrow> m k), m)"
| "dict_step c (CPut key d) m = (RNone, case key of None \<Rightarrow> m
     | Some k \<Rightarrow> if too_big c d then m(k := None) else m(k \<mapsto> cc_store c d))"
| "dict_step c CClear m = (RNone, Map.empty)"
| "dict_step c (CRemoveSame key d) m = (case key of None \<Rightarrow> (RBool False, m)
     | Some k \<Rightarrow> if m k = Some d then (RBool True, m(k := None)) else (RBool False, m))"
| "dict_step c (CRemoveIf p) m = (RCount (card {k \<in> dom m. p k}), (\<lambda>k. if p k then None else m k))"

fun dict_run :: "'d cache_config \<Rightarrow> 'd cache_op list \<Rightarrow> (string \<rightharpoonup> 'd) \<Rightarrow> 'd cache_result list \<times> (string \<rightharpoonup> 'd)" where
  "dict_run c [] m = ([], m)"
| "dict_run c (op # ops) m =
     (let (r, m) = dict_step c op m; (rs, m) = dict_run c ops m in (r # rs, m))"

definition abs_cache :: "'d cache \<Rightarrow> (string \<rightharpoonup> 'd)" where
  "abs_cache s = (\<lambda>k. map_option ce_data (map_of (ch_entries s) k))"

text \<open>A cache may have forgotten, and answers as if the artifact had never been stored.\<close>

fun weaker :: "'d cache_result \<Rightarrow> 'd cache_result \<Rightarrow> bool" where
  "weaker (RData x) (RData y) = (x = None \<or> x = y)"
| "weaker RNone RNone = True"
| "weaker (RBool a) (RBool b) = (a \<longrightarrow> b)"
| "weaker (RCount m) (RCount n) = (m \<le> n)"
| "weaker _ _ = False"

lemma abs_drop_key [simp]: "abs_cache (drop_key k s) = (abs_cache s)(k := None)"
  by (simp add: abs_cache_def drop_key_entries delete_conv' fun_eq_iff)

lemma abs_get: "abs_cache (snd (cache_get key s)) = abs_cache s"
  by (auto simp: cache_get_def abs_cache_def fun_eq_iff map_add_def delete_conv' split: option.splits)

lemma get_result: "fst (cache_get key s) = (case key of None \<Rightarrow> None | Some k \<Rightarrow> abs_cache s k)"
  by (simp add: cache_get_def abs_cache_def split: option.splits)

fun remove_loop :: "string list \<Rightarrow> nat \<Rightarrow> 'd cache \<Rightarrow> nat \<times> 'd cache" where
  "remove_loop [] n s = (n, s)"
| "remove_loop (k # ks) n s =
     (if map_of (ch_entries s) k = None then remove_loop ks n s else remove_loop ks (Suc n) (drop_key k s))"

lemma remove_keys_loop: "remove_keys ks s = remove_loop ks 0 s"
proof -
  have "fold (\<lambda>k (n, s). if map_of (ch_entries s) k = None then (n, s) else (Suc n, drop_key k s)) ks (n, s) = remove_loop ks n s" for n
    by (induction ks arbitrary: n s) auto
  then show ?thesis by (simp add: remove_keys_def)
qed

lemma abs_remove_loop:
  "distinct ks \<Longrightarrow> set ks \<subseteq> dom (abs_cache s) \<Longrightarrow>
     \<exists>s'. remove_loop ks n s = (n + length ks, s') \<and>
       abs_cache s' = (\<lambda>k. if k \<in> set ks then None else abs_cache s k) \<and> ch_evictions s' = ch_evictions s"
proof (induction ks arbitrary: n s)
  case (Cons k ks)
  have present: "map_of (ch_entries s) k \<noteq> None" using Cons.prems(2) by (auto simp: abs_cache_def)
  have "set ks \<subseteq> dom (abs_cache (drop_key k s))" using Cons.prems by auto
  from Cons.IH [OF _ this, of "Suc n"] Cons.prems(1) obtain s' where
    "remove_loop ks (Suc n) (drop_key k s) = (Suc n + length ks, s')"
    "abs_cache s' = (\<lambda>j. if j \<in> set ks then None else abs_cache (drop_key k s) j)"
    "ch_evictions s' = ch_evictions (drop_key k s)" by auto
  with present show ?case by (auto simp: fun_eq_iff)
qed simp

lemma abs_keys: "dom (abs_cache s) = fst ` set (ch_entries s)"
  by (auto simp: abs_cache_def dom_def map_of_eq_None_iff)

lemma abs_remove_if:
  assumes "distinct (map fst (ch_entries s))"
  shows "\<exists>s'. remove_if p s = (card {k \<in> dom (abs_cache s). p k}, s') \<and>
    abs_cache s' = (\<lambda>k. if p k then None else abs_cache s k) \<and> ch_evictions s' = ch_evictions s"
proof -
  let ?ks = "filter p (map fst (ch_entries s))"
  have ks: "distinct ?ks" "set ?ks = {k \<in> dom (abs_cache s). p k}"
    using assms by (auto simp: abs_keys)
  then have "length ?ks = card {k \<in> dom (abs_cache s). p k}" by (metis distinct_card)
  moreover have "(\<lambda>k. if k \<in> set ?ks then None else abs_cache s k) = (\<lambda>k. if p k then None else abs_cache s k)"
    using ks(2) by (auto simp: fun_eq_iff dom_def)
  ultimately show ?thesis
    using abs_remove_loop [OF ks(1), of s 0] ks(2) by (auto simp: remove_if_def remove_keys_loop)
qed

text \<open>One operation: the cache holds part of what the dictionary holds, all of it if it never evicted.\<close>

definition simulates :: "'d cache \<Rightarrow> (string \<rightharpoonup> 'd) \<Rightarrow> bool" where
  "simulates s m \<longleftrightarrow> abs_cache s \<subseteq>\<^sub>m m \<and> finite (dom m) \<and> (ch_evictions s = 0 \<longrightarrow> abs_cache s = m)"

lemma abs_suffix:
  assumes "distinct (map fst es)"
  shows "(\<lambda>k. map_option ce_data (map_of (drop n es) k)) \<subseteq>\<^sub>m (\<lambda>k. map_option ce_data (map_of es k))"
proof -
  have "map_of es k = Some e" if "map_of (drop n es) k = Some e" for k e
    using assms that by (metis in_set_dropD map_of_SomeD map_of_is_SomeI)
  then show ?thesis by (auto simp: map_le_def dom_def)
qed

lemma map_le_delete: "m \<subseteq>\<^sub>m m' \<Longrightarrow> m(k := None) \<subseteq>\<^sub>m m'(k := None)"
  by (auto simp: map_le_def dom_def)

lemma simulates_put:
  assumes "config_ok c" and "cache_ok c s" and "simulates s m"
  shows "simulates (cache_put c (Some k) d s) (if too_big c d then m(k := None) else m(k \<mapsto> cc_store c d)) \<and>
    ch_evictions s \<le> ch_evictions (cache_put c (Some k) d s)"
proof (cases "too_big c d")
  case True
  then have "cache_put c (Some k) d s = drop_key k s" by (simp add: cache_put_def)
  with True assms(3) show ?thesis
    by (auto simp: simulates_def map_le_delete finite_dom_delete)
next
  case False
  let ?es = "AList.delete k (ch_entries s) @ [(k, \<lparr>ce_data = cc_store c d, ce_size = cc_size c d\<rparr>)]"
  have distinct: "distinct (map fst ?es)"
    using assms(2) delete_notin_dom [of k "ch_entries s"] by (simp add: cache_ok_def distinct_delete)
  obtain n where n: "cache_put c (Some k) d s = \<lparr>ch_entries = drop n ?es, ch_bytes = sizes (drop n ?es),
      ch_evictions = ch_evictions s + n\<rparr>" using cache_put_keeps [OF assms(1,2) False, of k] by blast
  have full: "(\<lambda>j. map_option ce_data (map_of ?es j)) = (abs_cache s)(k \<mapsto> cc_store c d)"
    by (auto simp: fun_eq_iff abs_cache_def map_add_def delete_conv' split: option.split)
  have "abs_cache (cache_put c (Some k) d s) \<subseteq>\<^sub>m (abs_cache s)(k \<mapsto> cc_store c d)"
    using abs_suffix [OF distinct, of n] unfolding full by (simp add: n abs_cache_def del: drop_append)
  also have "\<dots> \<subseteq>\<^sub>m m(k \<mapsto> cc_store c d)"
    using assms(3) by (simp add: simulates_def map_le_upd)
  finally have "abs_cache (cache_put c (Some k) d s) \<subseteq>\<^sub>m m(k \<mapsto> cc_store c d)" .
  moreover have "abs_cache (cache_put c (Some k) d s) = m(k \<mapsto> cc_store c d)"
    if "ch_evictions (cache_put c (Some k) d s) = 0"
  proof -
    have "n = 0" "ch_evictions s = 0" using that by (simp_all add: n)
    then have "abs_cache (cache_put c (Some k) d s) = (\<lambda>j. map_option ce_data (map_of ?es j))"
      by (simp add: n abs_cache_def)
    with full show ?thesis using assms(3) \<open>ch_evictions s = 0\<close> by (simp add: simulates_def)
  qed
  ultimately show ?thesis using False assms(3) by (simp add: simulates_def n)
qed

lemma simulates_step:
  assumes "config_ok c" and "cache_ok c s" and "simulates s m"
  shows "simulates (snd (cache_step c op s)) (snd (dict_step c op m)) \<and>
    weaker (fst (cache_step c op s)) (fst (dict_step c op m)) \<and>
    ch_evictions s \<le> ch_evictions (snd (cache_step c op s)) \<and>
    (ch_evictions (snd (cache_step c op s)) = 0 \<longrightarrow> fst (cache_step c op s) = fst (dict_step c op m))"
proof (cases op)
  case (CGet key)
  have "ch_evictions (snd (cache_get key s)) = ch_evictions s"
    by (auto simp: cache_get_def split: option.splits)
  moreover have "x = None \<or> x = y" if "abs_cache s k = x" "m k = y" for k x y
    using assms(3) that by (auto simp: simulates_def map_le_def dom_def)
  ultimately show ?thesis using assms(3)
    by (auto simp: CGet case_prod_unfold Let_def get_result abs_get simulates_def split: option.splits)
next
  case (CPut key d)
  with assms show ?thesis using simulates_put [OF assms] by (cases key) (simp_all add: cache_put_def [of c None])
next
  case CClear
  with assms show ?thesis by (auto simp: simulates_def cache_clear_def abs_cache_def)
next
  case (CRemoveSame key d)
  show ?thesis
  proof (cases key)
    case (Some k)
    have rem: "remove_if_same (Some k) d s = (if abs_cache s k = Some d then (True, drop_key k s) else (False, s))"
      by (auto simp: remove_if_same_def abs_cache_def split: option.splits)
    have le: "abs_cache s \<subseteq>\<^sub>m m" "finite (dom m)" and eq: "ch_evictions s = 0 \<Longrightarrow> abs_cache s = m"
      using assms(3) by (auto simp: simulates_def)
    show ?thesis
    proof (cases "abs_cache s k = Some d")
      case True
      with le(1) have "m k = Some d" by (metis domI map_le_def)
      moreover have "(abs_cache s)(k := None) \<subseteq>\<^sub>m m(k := None)"
        using le(1) by (auto simp: map_le_def dom_def)
      ultimately show ?thesis using True le eq
        by (auto simp: CRemoveSame rem Some Let_def simulates_def finite_dom_delete)
    next
      case False
      have "abs_cache s \<subseteq>\<^sub>m m(k := None)" if "m k = Some d"
        using False le(1) that by (auto simp: map_le_def dom_def)
      with False le eq show ?thesis
        by (auto simp: CRemoveSame rem Some Let_def simulates_def finite_dom_delete)
    qed
  qed (use assms(3) in \<open>simp add: CRemoveSame remove_if_same_def\<close>)
next
  case (CRemoveIf p)
  obtain s' where s': "remove_if p s = (card {k \<in> dom (abs_cache s). p k}, s')"
    "abs_cache s' = (\<lambda>k. if p k then None else abs_cache s k)" "ch_evictions s' = ch_evictions s"
    using abs_remove_if [of s p] assms(2) by (auto simp: cache_ok_def)
  have le: "abs_cache s \<subseteq>\<^sub>m m" "finite (dom m)" and eq: "ch_evictions s = 0 \<Longrightarrow> abs_cache s = m"
    using assms(3) by (auto simp: simulates_def)
  have "card {k \<in> dom (abs_cache s). p k} \<le> card {k \<in> dom m. p k}"
    using le by (intro card_mono) (auto simp: map_le_def dom_def)
  moreover have "(\<lambda>k. if p k then None else abs_cache s k) \<subseteq>\<^sub>m (\<lambda>k. if p k then None else m k)"
    using le(1) by (auto simp: map_le_def dom_def split: if_splits)
  moreover have "finite (dom (\<lambda>k. if p k then None else m k))"
    using le(2) by (rule rev_finite_subset) (auto simp: dom_def split: if_splits)
  ultimately show ?thesis using s' eq by (auto simp: CRemoveIf Let_def simulates_def)
qed

lemma simulates_run:
  assumes "config_ok c" and "cache_ok c s" and "simulates s m"
  shows "list_all2 weaker (fst (cache_run c ops s)) (fst (dict_run c ops m)) \<and>
    ch_evictions s \<le> ch_evictions (snd (cache_run c ops s)) \<and>
    (ch_evictions (snd (cache_run c ops s)) = 0 \<longrightarrow> fst (cache_run c ops s) = fst (dict_run c ops m))"
  using assms(2,3)
proof (induction ops arbitrary: s m)
  case (Cons op ops)
  note step = simulates_step [OF assms(1) Cons.prems, of op]
  have "list_all2 weaker (fst (cache_run c ops (snd (cache_step c op s)))) (fst (dict_run c ops (snd (dict_step c op m)))) \<and>
    ch_evictions (snd (cache_step c op s)) \<le> ch_evictions (snd (cache_run c ops (snd (cache_step c op s)))) \<and>
    (ch_evictions (snd (cache_run c ops (snd (cache_step c op s)))) = 0 \<longrightarrow>
       fst (cache_run c ops (snd (cache_step c op s))) = fst (dict_run c ops (snd (dict_step c op m))))"
    using Cons.IH cache_step_ok [OF assms(1) Cons.prems(1)] step by blast
  with step show ?case by (simp add: case_prod_unfold Let_def)
qed simp

text \<open>
  C21: The stage cache is a dictionary that may forget. Over any sequence of lookups, insertions,
  conditional removals and clears, every lookup answers what an unbounded dictionary would or
  nothing, never an outdated artifact; as long as nothing has been evicted all answers are the
  dictionary's. The number of entries and the bytes stay within their limits throughout, and the
  byte counter is the sum of the sizes of the entries.
\<close>

theorem cache_refines_dictionary:
  assumes "config_ok c"
  shows "list_all2 weaker (fst (cache_run c ops empty_cache)) (fst (dict_run c ops Map.empty)) \<and>
    (ch_evictions (snd (cache_run c ops empty_cache)) = 0 \<longrightarrow>
       fst (cache_run c ops empty_cache) = fst (dict_run c ops Map.empty)) \<and>
    cache_ok c (snd (cache_run c ops empty_cache))"
proof -
  have "simulates empty_cache Map.empty" by (simp add: simulates_def empty_cache_def abs_cache_def)
  then show ?thesis
    using simulates_run [OF assms empty_cache_ok [OF assms], of Map.empty ops]
      cache_run_ok [OF assms empty_cache_ok [OF assms], of ops] by blast
qed

definition demo_cache :: "artifact cache_config" where
  "demo_cache = \<lparr>cc_max_size = Some 2, cc_max_bytes = Some 10, cc_size = value_size_bytes, cc_store = detach_value None\<rparr>"

lemma cache_refines_dictionary_witness:
  "cache_ok demo_cache (snd (cache_run demo_cache
     [CPut (Some ''a'') (ABytes 4), CPut (Some ''b'') (ABytes 5), CGet (Some ''a''), CPut (Some ''c'') (ABytes 3)] empty_cache))"
  using cache_refines_dictionary [of demo_cache
      "[CPut (Some ''a'') (ABytes 4), CPut (Some ''b'') (ABytes 5), CGet (Some ''a''), CPut (Some ''c'') (ABytes 3)]"]
  by (simp add: demo_cache_def config_ok_def value_size_nonneg)

text \<open>Least recently used first: what a lookup touched outlives what it did not.\<close>

lemma demo_cache_order:
  "map fst (ch_entries (snd (cache_run demo_cache
     [CPut (Some ''a'') (ABytes 4), CPut (Some ''b'') (ABytes 5), CGet (Some ''a''), CPut (Some ''c'') (ABytes 3)] empty_cache)))
   = [''a'', ''c'']"
  by (simp add: demo_cache_def empty_cache_def cache_put_def drop_key_def too_big_def evict_over_budget_def cache_get_def Let_def)

section \<open>The speaker cache\<close>

record speaker_key =
  sk_model_type :: string
  sk_voice_name :: string
  sk_voice_version :: int
  sk_artifact_kind :: string

definition key_separator :: char where
  "key_separator = CHR 0x1F"

definition encode_key :: "speaker_key \<Rightarrow> string" where
  "encode_key k = sk_model_type k @ [key_separator] @ sk_voice_name k @ [key_separator] @
     decimal (sk_voice_version k) @ [key_separator] @ sk_artifact_kind k"

text \<open>\<open>key.split(sep, n)\<close>: at most \<open>n\<close> splits.\<close>

fun split_max :: "char \<Rightarrow> nat \<Rightarrow> string \<Rightarrow> string list" where
  "split_max sep n s = (if n = 0 \<or> sep \<notin> set s then [s]
     else takeWhile (\<lambda>c. c \<noteq> sep) s # split_max sep (n - 1) (tl (dropWhile (\<lambda>c. c \<noteq> sep) s)))"

declare split_max.simps [simp del]

definition encoded_key_voice_name :: "string \<Rightarrow> string" where
  "encoded_key_voice_name key = (let parts = split_max key_separator 3 key in
     if length parts = 4 then parts ! 1 else [])"

record 'd speaker_cache =
  sc_cache :: "'d cache"
  sc_hits :: nat
  sc_misses :: nat
  sc_invalidations :: nat

definition speaker_get :: "speaker_key \<Rightarrow> 'd speaker_cache \<Rightarrow> 'd option \<times> 'd speaker_cache" where
  "speaker_get k s = (case cache_get (Some (encode_key k)) (sc_cache s) of
     (None, c) \<Rightarrow> (None, s\<lparr>sc_cache := c, sc_misses := Suc (sc_misses s)\<rparr>)
   | (Some d, c) \<Rightarrow> (Some d, s\<lparr>sc_cache := c, sc_hits := Suc (sc_hits s)\<rparr>))"

definition speaker_put :: "'d cache_config \<Rightarrow> speaker_key \<Rightarrow> 'd \<Rightarrow> 'd speaker_cache \<Rightarrow> 'd speaker_cache" where
  "speaker_put c k d s = s\<lparr>sc_cache := cache_put c (Some (encode_key k)) d (sc_cache s)\<rparr>"

definition clear_voice :: "string \<Rightarrow> 'd speaker_cache \<Rightarrow> 'd speaker_cache" where
  "clear_voice name s = (case remove_if (\<lambda>key. lower (encoded_key_voice_name key) = lower name) (sc_cache s) of
     (n, c) \<Rightarrow> s\<lparr>sc_cache := c, sc_invalidations := sc_invalidations s + n\<rparr>)"

lemma split_max_piece: "sep \<notin> set a \<Longrightarrow> 0 < n \<Longrightarrow> split_max sep n (a @ sep # b) = a # split_max sep (n - 1) b"
proof -
  assume "sep \<notin> set a" and "0 < n"
  moreover from this have "takeWhile (\<lambda>c. c \<noteq> sep) a = a" "dropWhile (\<lambda>c. c \<noteq> sep) a = []" "\<forall>x \<in> set a. x \<noteq> sep"
    by (auto simp: takeWhile_eq_all_conv dropWhile_eq_Nil_conv)
  ultimately show ?thesis
    by (subst split_max.simps) (simp add: takeWhile_append2 dropWhile_append2)
qed

definition sound_key :: "speaker_key \<Rightarrow> bool" where
  "sound_key k \<longleftrightarrow> key_separator \<notin> set (sk_model_type k) \<and> key_separator \<notin> set (sk_voice_name k)"

lemma separator_not_decimal: "key_separator \<notin> set (decimal i)"
  using decimal_chars [of key_separator i] by (auto simp: key_separator_def)

lemma encoded_voice: "sound_key k \<Longrightarrow> encoded_key_voice_name (encode_key k) = sk_voice_name k"
proof -
  assume "sound_key k"
  then have "split_max key_separator 3 (encode_key k) =
      [sk_model_type k, sk_voice_name k, decimal (sk_voice_version k)] @ split_max key_separator 0 (sk_artifact_kind k)"
    using separator_not_decimal [of "sk_voice_version k"]
    by (simp add: encode_key_def split_max_piece sound_key_def)
  moreover have "split_max key_separator 0 x = [x]" for x by (subst split_max.simps) simp
  ultimately show ?thesis by (simp add: encoded_key_voice_name_def)
qed

lemma abs_clear_voice:
  assumes "distinct (map fst (ch_entries (sc_cache s)))"
  shows "abs_cache (sc_cache (clear_voice name s)) =
    (\<lambda>key. if lower (encoded_key_voice_name key) = lower name then None else abs_cache (sc_cache s) key)"
  using abs_remove_if [OF assms, of "\<lambda>key. lower (encoded_key_voice_name key) = lower name"]
  by (auto simp: clear_voice_def)

text \<open>
  Deleting a voice removes exactly its artifacts. After \<open>clear_voice\<close> no artifact of that voice is
  found, in any model, version or kind and whatever the case of the name, and every artifact of
  another voice is still there.
\<close>

theorem clear_voice_exact:
  assumes "cache_ok c (sc_cache s)" and "sound_key k"
  shows "fst (speaker_get k (clear_voice name s)) =
    (if lower (sk_voice_name k) = lower name then None else fst (speaker_get k s))"
proof -
  have get: "fst (speaker_get k t) = abs_cache (sc_cache t) (encode_key k)" for t
    using get_result [of "Some (encode_key k)" "sc_cache t"]
    by (auto simp: speaker_get_def split: prod.split option.split)
  show ?thesis
    using abs_clear_voice [of s name] assms by (simp add: get cache_ok_def encoded_voice)
qed

lemma clear_voice_exact_witness:
  "let k = \<lparr>sk_model_type = ''higgs'', sk_voice_name = ''anna'', sk_voice_version = 2, sk_artifact_kind = ''codes''\<rparr>;
       s = speaker_put demo_cache k (ABytes 4) \<lparr>sc_cache = empty_cache, sc_hits = 0, sc_misses = 0, sc_invalidations = 0\<rparr>
   in fst (speaker_get k (clear_voice ''anna'' s)) = None"
proof -
  let ?k = "\<lparr>sk_model_type = ''higgs'', sk_voice_name = ''anna'', sk_voice_version = 2, sk_artifact_kind = ''codes''\<rparr>"
  let ?s = "speaker_put demo_cache ?k (ABytes 4) \<lparr>sc_cache = empty_cache, sc_hits = 0, sc_misses = 0, sc_invalidations = 0\<rparr>"
  have "config_ok demo_cache" by (simp add: demo_cache_def config_ok_def value_size_nonneg)
  then have "cache_ok demo_cache (sc_cache ?s)"
    by (simp add: speaker_put_def cache_put_ok empty_cache_ok)
  moreover have "sound_key ?k" by (simp add: sound_key_def key_separator_def)
  moreover have "lower (sk_voice_name ?k) = lower ''anna''" by (simp add: lower_def lower_char_def)
  ultimately show ?thesis using clear_voice_exact [of demo_cache ?s ?k "''anna''"] by (simp add: Let_def)
qed

end
