(* ===== verification/Router_Worker.thy ===== *)
theory Router_Worker
  imports Prelude "HOL-Library.Multiset"
begin

text \<open>
  The external router's view of a worker and its choice of one:
  \<open>sglang_omni_router/worker.py\<close>, \<open>selector.py\<close> and the probe of \<open>health.py\<close>. Identity, timestamps
  and logging are left out of the record.
\<close>

section \<open>Workers\<close>

datatype capability = Chat | Speech | Streaming | Image_Input | Audio_Input | Video_Input | Audio_Output

datatype worker_state = Dead | Healthy | Unknown | Unhealthy

record worker =
  wk_url :: string
  wk_model :: "string option"
  wk_capabilities :: "capability set"
  wk_active :: nat
  wk_state :: worker_state
  wk_disabled :: bool
  wk_failures :: nat
  wk_successes :: nat
  wk_routed :: nat
  wk_succeeded :: nat
  wk_failed :: nat
  wk_last_status :: "int option"
  wk_last_error :: "string option"

definition new_worker :: "string \<Rightarrow> string option \<Rightarrow> capability set \<Rightarrow> worker" where
  "new_worker url model caps =
     \<lparr>wk_url = url, wk_model = model, wk_capabilities = caps, wk_active = 0, wk_state = Unknown,
      wk_disabled = False, wk_failures = 0, wk_successes = 0, wk_routed = 0, wk_succeeded = 0,
      wk_failed = 0, wk_last_status = None, wk_last_error = None\<rparr>"

definition is_dead :: "worker \<Rightarrow> bool" where
  "is_dead w \<longleftrightarrow> wk_state w = Dead"

definition is_routable :: "worker \<Rightarrow> bool" where
  "is_routable w \<longleftrightarrow> wk_state w = Healthy \<and> \<not> wk_disabled w"

definition supports :: "worker \<Rightarrow> capability \<Rightarrow> bool" where
  "supports w c \<longleftrightarrow> c \<in> wk_capabilities w"

definition replace_config :: "string \<Rightarrow> string option \<Rightarrow> capability set \<Rightarrow> worker \<Rightarrow> worker result" where
  "replace_config url model caps w =
     bindE (guardE (url = wk_url w) (ValueError ''worker URL cannot be changed'')) (\<lambda>_.
     Inr (w\<lparr>wk_model := model, wk_capabilities := caps\<rparr>))"

definition mark_dead :: "string option \<Rightarrow> worker \<Rightarrow> worker" where
  "mark_dead err w = w\<lparr>wk_state := Dead, wk_last_error := (case err of None \<Rightarrow> wk_last_error w | Some e \<Rightarrow> Some e)\<rparr>"

definition clear_dead :: "worker \<Rightarrow> worker" where
  "clear_dead w = w\<lparr>wk_state := (if is_dead w then Unknown else wk_state w), wk_failures := 0, wk_successes := 0\<rparr>"

definition set_disabled :: "bool \<Rightarrow> worker \<Rightarrow> worker" where
  "set_disabled b w = w\<lparr>wk_disabled := b\<rparr>"

definition increment_active :: "worker \<Rightarrow> worker" where
  "increment_active w = w\<lparr>wk_active := wk_active w + 1\<rparr>"

definition decrement_active :: "worker \<Rightarrow> worker result" where
  "decrement_active w =
     bindE (guardE (wk_active w > 0) (AssertionError ''active request count cannot be negative'')) (\<lambda>_.
     Inr (w\<lparr>wk_active := wk_active w - 1\<rparr>))"

definition record_routed_request :: "int option \<Rightarrow> worker \<Rightarrow> worker" where
  "record_routed_request status w =
     (let w = w\<lparr>wk_routed := wk_routed w + 1\<rparr> in
      case status of
        Some c \<Rightarrow> (if 200 \<le> c \<and> c < 400 then w\<lparr>wk_succeeded := wk_succeeded w + 1\<rparr>
                  else w\<lparr>wk_failed := wk_failed w + 1\<rparr>)
      | None \<Rightarrow> w\<lparr>wk_failed := wk_failed w + 1\<rparr>)"

definition record_failure :: "nat \<Rightarrow> worker \<Rightarrow> worker" where
  "record_failure threshold w =
     (let w = w\<lparr>wk_failures := wk_failures w + 1, wk_successes := 0\<rparr> in
      if wk_failures w \<ge> threshold then w\<lparr>wk_state := Unhealthy\<rparr> else w)"

definition record_health_result ::
    "nat \<Rightarrow> nat \<Rightarrow> bool \<Rightarrow> int option \<Rightarrow> string option \<Rightarrow> worker \<Rightarrow> worker" where
  "record_health_result failure_threshold success_threshold ok status err w =
     (let w = w\<lparr>wk_last_status := status, wk_last_error := err\<rparr> in
      if ok then
        (let w = w\<lparr>wk_successes := wk_successes w + 1, wk_failures := 0\<rparr> in
         if wk_successes w \<ge> success_threshold then w\<lparr>wk_state := Healthy\<rparr> else w)
      else record_failure failure_threshold w)"

definition record_request_failure ::
    "nat \<Rightarrow> int option \<Rightarrow> string option \<Rightarrow> worker \<Rightarrow> worker" where
  "record_request_failure failure_threshold status err w =
     record_failure failure_threshold (w\<lparr>wk_last_status := status, wk_last_error := err\<rparr>)"

text \<open>\<open>ProxyHandler._record_worker_request_failure\<close> leaves dead workers alone.\<close>

definition record_worker_request_failure ::
    "nat \<Rightarrow> int option \<Rightarrow> string option \<Rightarrow> worker \<Rightarrow> worker" where
  "record_worker_request_failure failure_threshold status err w =
     (if is_dead w then w else record_request_failure failure_threshold status err w)"

section \<open>Health checks\<close>

text \<open>
  A probe looks at the worker, waits for the answer and records it: two steps, between which other
  requests run. \<open>Answered c text\<close> is a response, \<open>Failed e\<close> an \<open>httpx.HTTPError\<close>.
\<close>

datatype probe_answer = Answered int string | Failed string

definition probe_starts :: "worker \<Rightarrow> bool" where
  "probe_starts w \<longleftrightarrow> \<not> is_dead w"

definition probe_finishes :: "nat \<Rightarrow> nat \<Rightarrow> probe_answer \<Rightarrow> worker \<Rightarrow> worker" where
  "probe_finishes ft st answer w = (case answer of
     Failed e \<Rightarrow> record_health_result ft st False None (Some e) w
   | Answered c text \<Rightarrow>
       (let ok = (200 \<le> c \<and> c < 300) in
        record_health_result ft st ok (Some c)
          (if ok then None else Some (if text = [] then ''status='' @ decimal c else take 512 text)) w))"

section \<open>Selection\<close>

datatype policy = Round_Robin | Least_Request | Random_Choice

text \<open>The state of a selector is its index; \<open>pick n\<close> is the index \<open>random.choice\<close> takes below \<open>n\<close>.\<close>

definition candidates_for ::
    "worker list \<Rightarrow> capability set \<Rightarrow> string option \<Rightarrow> worker list" where
  "candidates_for workers required model =
     (let cs = filter (\<lambda>w. is_routable w \<and> (\<forall>c \<in> required. supports w c)) workers in
      if model \<noteq> None \<and> list_ex (\<lambda>w. wk_model w \<noteq> None) cs then filter (\<lambda>w. wk_model w = model) cs else cs)"

definition select_round_robin :: "'w list \<Rightarrow> nat \<Rightarrow> 'w \<times> nat" where
  "select_round_robin cs rr = (cs ! (rr mod length cs), (rr + 1) mod length cs)"

definition least_loaded :: "worker list \<Rightarrow> worker list" where
  "least_loaded cs = filter (\<lambda>w. wk_active w = Min (wk_active ` set cs)) cs"

definition select ::
    "policy \<Rightarrow> (nat \<Rightarrow> nat) \<Rightarrow> worker list \<Rightarrow> capability set \<Rightarrow> string option \<Rightarrow> nat \<Rightarrow> (worker \<times> nat) result" where
  "select pol pick workers required model rr =
     (let cs = candidates_for workers required model in
      bindE (guardE (cs \<noteq> []) (RuntimeError ''no eligible healthy workers'')) (\<lambda>_.
      case pol of
        Round_Robin \<Rightarrow> Inr (select_round_robin cs rr)
      | Least_Request \<Rightarrow> Inr (select_round_robin (least_loaded cs) rr)
      | Random_Choice \<Rightarrow> Inr (cs ! pick (length cs), rr)))"

section \<open>What selection guarantees\<close>

definition eligible :: "capability set \<Rightarrow> worker \<Rightarrow> bool" where
  "eligible required w \<longleftrightarrow> wk_state w = Healthy \<and> \<not> wk_disabled w \<and> required \<subseteq> wk_capabilities w"

lemma candidates_eq:
  "candidates_for ws required model =
     (let cs = filter (eligible required) ws in
      if model \<noteq> None \<and> (\<exists>w \<in> set cs. wk_model w \<noteq> None) then filter (\<lambda>w. wk_model w = model) cs else cs)"
proof -
  have "(\<lambda>w. is_routable w \<and> (\<forall>c \<in> required. supports w c)) = eligible required"
    by (auto simp: fun_eq_iff eligible_def is_routable_def supports_def)
  then show ?thesis by (simp add: candidates_for_def list_ex_iff)
qed

lemma candidates_eligible:
  "set (candidates_for ws required model) \<subseteq> {w \<in> set ws. eligible required w}"
  by (auto simp: candidates_eq Let_def)

lemma candidates_model:
  "w \<in> set (candidates_for ws required (Some m)) \<Longrightarrow>
     wk_model w = Some m \<or> (\<forall>v \<in> set ws. eligible required v \<longrightarrow> wk_model v = None)"
  by (auto simp: candidates_eq Let_def split: if_splits)

lemma candidates_empty:
  "candidates_for ws required model = [] \<Longrightarrow> w \<in> set ws \<Longrightarrow> eligible required w \<Longrightarrow>
     model \<noteq> None \<and> wk_model w \<noteq> model"
  by (auto simp: candidates_eq Let_def filter_empty_conv split: if_splits)

lemma least_loaded_nonempty: "cs \<noteq> [] \<Longrightarrow> least_loaded cs \<noteq> []"
proof -
  assume "cs \<noteq> []"
  then have "Min (wk_active ` set cs) \<in> wk_active ` set cs" by (intro Min_in) auto
  then show ?thesis by (auto simp: least_loaded_def filter_empty_conv)
qed

lemma round_robin_member: "cs \<noteq> [] \<Longrightarrow> fst (select_round_robin cs rr) \<in> set cs"
  by (simp add: select_round_robin_def)

lemma select_candidate:
  assumes "\<forall>n > 0. pick n < n" and ne: "candidates_for ws required model \<noteq> []"
  shows "\<exists>w rr'. select pol pick ws required model rr = Inr (w, rr') \<and> w \<in> set (candidates_for ws required model) \<and>
    (pol = Least_Request \<longrightarrow> w \<in> set (least_loaded (candidates_for ws required model)))"
proof -
  let ?cs = "candidates_for ws required model"
  have least: "fst (select_round_robin (least_loaded ?cs) rr) \<in> set (least_loaded ?cs)"
    using round_robin_member least_loaded_nonempty [OF ne] by blast
  show ?thesis
  proof (cases pol)
    case Round_Robin
    with ne round_robin_member [of ?cs rr] show ?thesis
      by (cases "select_round_robin ?cs rr") (simp add: select_def Let_def)
  next
    case Least_Request
    with ne least show ?thesis
      by (cases "select_round_robin (least_loaded ?cs) rr") (simp add: select_def Let_def least_loaded_def)
  next
    case Random_Choice
    with ne assms(1) show ?thesis by (simp add: select_def Let_def)
  qed
qed

lemma select_eligible:
  assumes "\<forall>n > 0. pick n < n" "select pol pick ws required model rr = Inr (w, rr')"
  shows "w \<in> set ws \<and> eligible required w"
proof -
  have "candidates_for ws required model \<noteq> []" using assms(2) by (auto simp: select_def Let_def)
  with select_candidate [OF assms(1) this, of pol rr] assms(2) candidates_eligible show ?thesis by fastforce
qed

text \<open>
  The selector only hands out workers that can serve the request. Under every policy the chosen
  worker is registered, healthy, not disabled and has every required capability; it serves the
  requested model whenever the eligible workers name models at all; under \<open>least_request\<close> no
  other candidate has fewer requests in flight. When it raises, every eligible worker serves another
  model than the requested one.
\<close>

theorem selected_worker_is_eligible:
  assumes "\<forall>n > 0. pick n < n"
  shows "case select pol pick ws required model rr of
      Inl e \<Rightarrow> e = RuntimeError ''no eligible healthy workers'' \<and>
        (\<forall>w \<in> set ws. eligible required w \<longrightarrow> model \<noteq> None \<and> wk_model w \<noteq> model)
    | Inr (w, rr') \<Rightarrow> w \<in> set ws \<and> eligible required w \<and>
        (\<forall>m. model = Some m \<longrightarrow> wk_model w = Some m \<or> (\<forall>v \<in> set ws. eligible required v \<longrightarrow> wk_model v = None)) \<and>
        (pol = Least_Request \<longrightarrow> (\<forall>v \<in> set (candidates_for ws required model). wk_active w \<le> wk_active v))"
proof (cases "candidates_for ws required model = []")
  case True
  then show ?thesis using candidates_empty [OF True] by (simp add: select_def Let_def)
next
  case False
  let ?cs = "candidates_for ws required model"
  obtain w rr' where s: "select pol pick ws required model rr = Inr (w, rr')" "w \<in> set ?cs"
    "pol = Least_Request \<longrightarrow> w \<in> set (least_loaded ?cs)"
    using select_candidate [OF assms False] by blast
  have "wk_active w \<le> wk_active v" if "pol = Least_Request" "v \<in> set ?cs" for v
    using s(3) that by (auto simp: least_loaded_def)
  with s(1,2) candidates_eligible [of ws required model] candidates_model [of w ws required] show ?thesis
    by auto
qed

definition demo_pool :: "worker list" where
  "demo_pool = [(new_worker ''http://a'' None {Chat, Streaming})\<lparr>wk_state := Healthy, wk_active := 2\<rparr>,
     (new_worker ''http://b'' None {Chat})\<lparr>wk_state := Healthy, wk_active := 1\<rparr>,
     (new_worker ''http://c'' None {Chat})\<lparr>wk_state := Unhealthy\<rparr>]"

lemma selected_worker_is_eligible_witness:
  "case select Least_Request (\<lambda>n. 0) demo_pool {Chat} None 5 of
     Inl e \<Rightarrow> False | Inr (w, rr') \<Rightarrow> wk_url w = ''http://b'' \<and> eligible {Chat} w"
proof -
  have "case select Least_Request (\<lambda>n. 0) demo_pool {Chat} None 5 of Inl e \<Rightarrow> False | Inr (w, rr') \<Rightarrow> wk_url w = ''http://b''"
    by (simp add: select_def candidates_eq eligible_def Let_def least_loaded_def demo_pool_def new_worker_def
        select_round_robin_def)
  then show ?thesis
    using selected_worker_is_eligible [where pick = "\<lambda>n. 0" and pol = Least_Request and ws = demo_pool
        and required = "{Chat}" and model = None and rr = 5]
    by (auto split: sum.splits)
qed

section \<open>Round robin is fair\<close>

fun selections ::
    "nat \<Rightarrow> policy \<Rightarrow> (nat \<Rightarrow> nat) \<Rightarrow> worker list \<Rightarrow> capability set \<Rightarrow> string option \<Rightarrow> nat \<Rightarrow> worker list" where
  "selections 0 pol pick ws required model rr = []"
| "selections (Suc n) pol pick ws required model rr = (case select pol pick ws required model rr of
     Inl e \<Rightarrow> [] | Inr (w, rr') \<Rightarrow> w # selections n pol pick ws required model rr')"

lemma selections_rotate:
  assumes "candidates_for ws required model = cs" and "cs \<noteq> []"
  shows "selections n Round_Robin pick ws required model rr = map (\<lambda>k. cs ! ((rr + k) mod length cs)) [0..<n]"
proof (induction n arbitrary: rr)
  case (Suc n)
  have "selections (Suc n) Round_Robin pick ws required model rr =
      cs ! (rr mod length cs) # selections n Round_Robin pick ws required model ((rr + 1) mod length cs)"
    using assms by (simp add: select_def Let_def select_round_robin_def)
  also have "\<dots> = cs ! (rr mod length cs) # map (\<lambda>k. cs ! ((rr + Suc k) mod length cs)) [0..<n]"
    unfolding Suc.IH by (simp add: mod_add_left_eq)
  also have "\<dots> = map (\<lambda>k. cs ! ((rr + k) mod length cs)) [0..<Suc n]"
    by (simp only: upt_conv_Cons [OF zero_less_Suc] list.map map_Suc_upt [symmetric] map_map comp_def add_0_right)
  finally show ?case .
qed simp

text \<open>
  Round robin is fair. While the pool does not change, as many selections in a row as there are
  candidates pick every candidate once, whatever the index left over from earlier, differently sized
  pools.
\<close>

theorem round_robin_is_fair:
  "mset (selections (length (candidates_for ws required model)) Round_Robin pick ws required model rr) =
   mset (candidates_for ws required model)"
proof (cases "candidates_for ws required model = []")
  case False
  let ?cs = "candidates_for ws required model"
  have "selections (length ?cs) Round_Robin pick ws required model rr = rotate rr ?cs"
    unfolding selections_rotate [OF refl False]
    by (rule nth_equalityI) (simp_all add: nth_rotate add.commute)
  moreover have "mset (rotate rr ?cs) = mset ?cs"
    by (metis add.commute append_take_drop_id mset_append rotate_drop_take)
  ultimately show ?thesis by simp
qed simp

section \<open>The health automaton\<close>

text \<open>What can happen to a worker besides requests passing through it.\<close>

datatype health_event =
    Probe bool | Request_Failed | Mark_Dead | Clear_Dead

fun health_step :: "nat \<Rightarrow> nat \<Rightarrow> health_event \<Rightarrow> worker \<Rightarrow> worker" where
  "health_step ft st (Probe ok) w = (if probe_starts w
     then probe_finishes ft st (if ok then Answered 200 [] else Failed ''ConnectError'') w else w)"
| "health_step ft st Request_Failed w = record_worker_request_failure ft None (Some ''ConnectError'') w"
| "health_step ft st Mark_Dead w = mark_dead None w"
| "health_step ft st Clear_Dead w = clear_dead w"

definition counters_ok :: "nat \<Rightarrow> nat \<Rightarrow> worker \<Rightarrow> bool" where
  "counters_ok ft st w \<longleftrightarrow> (wk_failures w = 0 \<or> wk_successes w = 0) \<and>
     (wk_state w = Healthy \<longrightarrow> wk_failures w < ft) \<and>
     (wk_state w = Unhealthy \<longrightarrow> wk_successes w < st)"

fun event_fails :: "health_event \<Rightarrow> bool" where
  "event_fails (Probe ok) = (\<not> ok)"
| "event_fails Request_Failed = True"
| "event_fails _ = False"

lemma health_step_counters:
  "0 < ft \<Longrightarrow> 0 < st \<Longrightarrow> counters_ok ft st w \<Longrightarrow> counters_ok ft st (health_step ft st e w)"
  by (cases e) (auto simp: counters_ok_def probe_starts_def probe_finishes_def record_health_result_def
      record_failure_def record_worker_request_failure_def record_request_failure_def mark_dead_def
      clear_dead_def is_dead_def Let_def)

text \<open>
  Health changes need their thresholds. Over any sequence of complete probes, failed requests,
  quarantines and recoveries: a dead worker stays dead until it is cleared; a worker becomes healthy
  only by the last of \<open>st\<close> successful probes in a row; a healthy worker becomes unhealthy only by the
  last of \<open>ft\<close> failures in a row; nothing but \<open>mark_dead\<close> makes it dead.
\<close>

theorem health_needs_thresholds:
  assumes "0 < ft" and "0 < st" and "w = fold (health_step ft st) es (new_worker url model caps)"
    and "w' = health_step ft st e w"
  shows "counters_ok ft st w' \<and>
    (is_dead w \<and> e \<noteq> Clear_Dead \<longrightarrow> is_dead w') \<and>
    (is_dead w' \<and> \<not> is_dead w \<longrightarrow> e = Mark_Dead) \<and>
    (wk_state w \<noteq> Healthy \<and> wk_state w' = Healthy \<longrightarrow> e = Probe True \<and> wk_successes w' \<ge> st) \<and>
    (wk_state w = Healthy \<and> wk_state w' = Unhealthy \<longrightarrow> event_fails e \<and> wk_failures w' = ft)"
proof -
  have "counters_ok ft st (fold (health_step ft st) es v)" if "counters_ok ft st v" for v
    using that by (induction es arbitrary: v) (auto intro: health_step_counters [OF assms(1,2)])
  moreover have "counters_ok ft st (new_worker url model caps)"
    by (simp add: counters_ok_def new_worker_def)
  ultimately have ok: "counters_ok ft st w" by (simp add: assms(3))
  show ?thesis
    using health_step_counters [OF assms(1,2) ok, of e] ok assms(4)
    by (cases e) (auto simp: counters_ok_def probe_starts_def probe_finishes_def record_health_result_def
        record_failure_def record_worker_request_failure_def record_request_failure_def mark_dead_def
        clear_dead_def is_dead_def Let_def)
qed

lemma health_needs_thresholds_witness:
  "counters_ok 3 2 (health_step 3 2 (Probe True) (health_step 3 2 (Probe True) (new_worker ''http://a'' None {Chat})))"
  using health_needs_thresholds [of 3 2 _ "[Probe True]" "''http://a''" None "{Chat}" _ "Probe True"] by simp

text \<open>
  A probe under way brings a quarantined worker back. The check that a worker is dead is made
  before the probe is sent and not when its answer is recorded: if the operator marks a healthy worker
  dead while a probe is in flight, the answer makes it healthy and routable again. A failed answer makes
  it unhealthy, and so open to later probes.
\<close>

theorem probe_in_flight_revives_dead_worker:
  assumes "probe_starts w" and "st \<le> wk_successes w + 1" and "200 \<le> c" and "c < 300" and "\<not> wk_disabled w"
  shows "is_routable (probe_finishes ft st (Answered c text) (mark_dead err w)) \<and>
    (ft \<le> wk_failures w + 1 \<longrightarrow> \<not> is_dead (probe_finishes ft st (Failed e) (mark_dead err w)))"
  using assms by (simp add: is_routable_def probe_finishes_def record_health_result_def mark_dead_def Let_def
      record_failure_def is_dead_def)

lemma probe_in_flight_revives_dead_worker_witness:
  "is_routable (probe_finishes 3 2 (Answered 200 []) (mark_dead None
     ((new_worker ''http://a'' None {Chat})\<lparr>wk_state := Healthy, wk_successes := 5\<rparr>)))"
  using probe_in_flight_revives_dead_worker [of "(new_worker ''http://a'' None {Chat})\<lparr>wk_state := Healthy, wk_successes := 5\<rparr>" 2 200 3 "[]" None]
  by (simp add: probe_starts_def is_dead_def new_worker_def)

end
