(* ===== verification/Json_Scanner.thy ===== *)
theory Json_Scanner
  imports Prelude "HOL-Library.Sublist"
begin

text \<open>
  The scanner that reads the routing fields of a large JSON body without parsing it:
  \<open>_JsonTopLevelScanner\<close> of \<open>sglang_omni_router/route_metadata.py\<close>. A position in the body is the
  list of bytes from it on. A decoded Python string is kept as its UTF-8 bytes. The recursion of
  \<open>_skip_value\<close> and its loops take fuel; \<open>None\<close> is running out of it.
\<close>

type_synonym bytes = "nat list"

abbreviation byte :: "char \<Rightarrow> nat" where
  "byte c \<equiv> of_char c"

definition bytes_of :: "string \<Rightarrow> bytes" where
  "bytes_of s = map of_char s"

section \<open>The standard library\<close>

text \<open>
  \<open>bytes.decode("utf-8")\<close> succeeds on these; with \<open>surrogatepass\<close>, which \<open>json.loads\<close> uses, encoded
  surrogates are let through.
\<close>

definition continuation :: "nat \<Rightarrow> bool" where
  "continuation b \<longleftrightarrow> 128 \<le> b \<and> b < 192"

fun utf8_valid :: "bool \<Rightarrow> bytes \<Rightarrow> bool" where
  "utf8_valid sp [] = True"
| "utf8_valid sp (b # bs) =
     (if b < 128 then utf8_valid sp bs
      else if 194 \<le> b \<and> b < 224 then (case bs of
        c # bs' \<Rightarrow> continuation c \<and> utf8_valid sp bs' | _ \<Rightarrow> False)
      else if 224 \<le> b \<and> b < 240 then (case bs of
        c # d # bs' \<Rightarrow> continuation c \<and> continuation d \<and> (b = 224 \<longrightarrow> 160 \<le> c) \<and>
          (b = 237 \<and> \<not> sp \<longrightarrow> c < 160) \<and> utf8_valid sp bs'
      | _ \<Rightarrow> False)
      else if 240 \<le> b \<and> b < 245 then (case bs of
        c # d # e # bs' \<Rightarrow> continuation c \<and> continuation d \<and> continuation e \<and> (b = 240 \<longrightarrow> 144 \<le> c) \<and>
          (b = 244 \<longrightarrow> c < 144) \<and> utf8_valid sp bs'
      | _ \<Rightarrow> False)
      else False)"

definition utf8_encode :: "nat \<Rightarrow> bytes" where
  "utf8_encode u =
     (if u < 128 then [u]
      else if u < 2048 then [192 + u div 64, 128 + u mod 64]
      else if u < 65536 then [224 + u div 4096, 128 + u div 64 mod 64, 128 + u mod 64]
      else [240 + u div 262144, 128 + u div 4096 mod 64, 128 + u div 64 mod 64, 128 + u mod 64])"

definition hex_digit :: "nat \<Rightarrow> nat option" where
  "hex_digit b =
     (if 48 \<le> b \<and> b \<le> 57 then Some (b - 48)
      else if 65 \<le> b \<and> b \<le> 70 then Some (b - 55)
      else if 97 \<le> b \<and> b \<le> 102 then Some (b - 87) else None)"

fun hex4 :: "bytes \<Rightarrow> (nat \<times> bytes) option" where
  "hex4 (a # b # c # d # bs) = (case (hex_digit a, hex_digit b, hex_digit c, hex_digit d) of
     (Some w, Some x, Some y, Some z) \<Rightarrow> Some (4096 * w + 256 * x + 16 * y + z, bs)
   | _ \<Rightarrow> None)"
| "hex4 _ = None"

definition simple_escape :: "nat \<Rightarrow> nat option" where
  "simple_escape b = map_of [(34, 34), (92, 92), (47, 47), (98, 8), (102, 12), (110, 10), (114, 13), (116, 9)] b"

definition invalid_json :: "'a result" where
  "invalid_json = Inl (ValueError ''invalid JSON'')"

lemma hex4_length: "hex4 bs = Some (u, bs') \<Longrightarrow> length bs' < length bs"
  by (cases bs rule: hex4.cases) (auto split: option.splits)

text \<open>
  \<open>json.loads\<close> on what lies between the quotes of a string: escapes become characters, the two halves
  of a surrogate pair one.
\<close>

function (sequential) unescape :: "bytes \<Rightarrow> bytes result" where
  "unescape [] = Inr []"
| "unescape (b # bs) =
     (if b < 32 \<or> b = 34 then invalid_json
      else if b \<noteq> 92 then bindE (unescape bs) (\<lambda>r. Inr (b # r))
      else case bs of
        [] \<Rightarrow> invalid_json
      | e # bs' \<Rightarrow>
          (if e \<noteq> 117 then (case simple_escape e of
             None \<Rightarrow> invalid_json | Some c \<Rightarrow> bindE (unescape bs') (\<lambda>r. Inr (c # r)))
           else case hex4 bs' of
             None \<Rightarrow> invalid_json
           | Some (u, rest) \<Rightarrow>
               (if 55296 \<le> u \<and> u \<le> 56319 \<and> take 2 rest = [92, 117] then
                  (case hex4 (drop 2 rest) of
                     None \<Rightarrow> invalid_json
                   | Some (v, rest') \<Rightarrow>
                       (if 56320 \<le> v \<and> v \<le> 57343
                        then bindE (unescape rest') (\<lambda>r. Inr (utf8_encode (65536 + (u - 55296) * 1024 + (v - 56320)) @ r))
                        else bindE (unescape rest) (\<lambda>r. Inr (utf8_encode u @ r))))
                else bindE (unescape rest) (\<lambda>r. Inr (utf8_encode u @ r)))))"
  by pat_completeness auto
termination
  by (relation "measure length") (auto dest!: hex4_length)

definition loads_string :: "bytes \<Rightarrow> bytes result" where
  "loads_string content = (if utf8_valid True content then unescape content else invalid_json)"

text \<open>
  \<open>JSONDecoder().raw_decode(text)\<close> where only a number can be meant: how many bytes the number takes.
\<close>

definition is_digit :: "nat \<Rightarrow> bool" where
  "is_digit b \<longleftrightarrow> 48 \<le> b \<and> b \<le> 57"

definition digit_run :: "bytes \<Rightarrow> nat" where
  "digit_run bs = length (takeWhile is_digit bs)"

definition integer_part :: "bytes \<Rightarrow> nat option" where
  "integer_part bs = (case bs of
     [] \<Rightarrow> None
   | b # rest \<Rightarrow> if b = 48 then Some 1 else if is_digit b then Some (1 + digit_run rest) else None)"

definition fraction_part :: "bytes \<Rightarrow> nat" where
  "fraction_part bs = (case bs of
     b # rest \<Rightarrow> if b = byte CHR ''.'' \<and> 0 < digit_run rest then 1 + digit_run rest else 0
   | [] \<Rightarrow> 0)"

definition exponent_part :: "bytes \<Rightarrow> nat" where
  "exponent_part bs = (case bs of
     b # rest \<Rightarrow>
       (if b = byte CHR ''e'' \<or> b = byte CHR ''E'' then
          (case rest of
             s # rest' \<Rightarrow>
               (if (s = byte CHR ''+'' \<or> s = byte CHR ''-'') then (if 0 < digit_run rest' then 2 + digit_run rest' else 0)
                else if 0 < digit_run rest then 1 + digit_run rest else 0)
           | [] \<Rightarrow> 0)
        else 0)
   | [] \<Rightarrow> 0)"

definition raw_decode_number :: "bytes \<Rightarrow> nat option" where
  "raw_decode_number bs =
     (let sign = (if take 1 bs = bytes_of ''-'' then 1 else 0) in
      case integer_part (drop sign bs) of
        Some n \<Rightarrow>
          (let n = sign + n; n = n + fraction_part (drop n bs) in Some (n + exponent_part (drop n bs)))
      | None \<Rightarrow>
          (if take 3 bs = bytes_of ''NaN'' then Some 3
           else if take 8 bs = bytes_of ''Infinity'' then Some 8
           else if take 9 bs = bytes_of ''-Infinity'' then Some 9 else None))"

section \<open>Strings, numbers and literals\<close>

definition is_ws :: "nat \<Rightarrow> bool" where
  "is_ws b \<longleftrightarrow> b \<in> {32, 9, 13, 10}"

definition skip_ws :: "bytes \<Rightarrow> bytes" where
  "skip_ws bs = dropWhile is_ws bs"

text \<open>The loop of \<open>_skip_string\<close>, after the opening quote: what follows the closing one.\<close>

fun string_loop :: "bytes \<Rightarrow> bytes result" where
  "string_loop [] = Inl (ValueError ''unterminated string'')"
| "string_loop (b # bs) =
     (if b = 34 then Inr bs
      else if b = 92 then (case bs of [] \<Rightarrow> Inl (ValueError ''unterminated string'') | c # bs' \<Rightarrow> string_loop bs')
      else if b < 32 then Inl (ValueError ''invalid string control character'')
      else string_loop bs)"

definition skip_string :: "bytes \<Rightarrow> bytes result" where
  "skip_string bs = (case bs of
     b # rest \<Rightarrow> if b = 34 then string_loop rest else Inl (ValueError ''expected string'')
   | [] \<Rightarrow> Inl (ValueError ''expected string''))"

definition parse_string :: "bytes \<Rightarrow> (bytes \<times> bytes) result" where
  "parse_string bs =
     bindE (skip_string bs) (\<lambda>rest.
     bindE (loads_string (take (length bs - length rest - 2) (drop 1 bs))) (\<lambda>v. Inr (v, rest)))"

definition starts_with :: "string \<Rightarrow> bytes \<Rightarrow> bool" where
  "starts_with s bs \<longleftrightarrow> take (length s) bs = bytes_of s"

definition skip_number :: "bytes \<Rightarrow> bytes result" where
  "skip_number bs =
     (if \<not> utf8_valid False (take 128 bs) then Inl (ValueError ''UnicodeDecodeError'')
      else case raw_decode_number (take 128 bs) of
        None \<Rightarrow> Inl (ValueError ''Expecting value'')
      | Some n \<Rightarrow> Inr (drop n bs))"

section \<open>Values\<close>

abbreviation lift_err :: "'a result \<Rightarrow> ('a \<Rightarrow> 'b result option) \<Rightarrow> 'b result option" where
  "lift_err m f \<equiv> (case m of Inl e \<Rightarrow> Some (Inl e) | Inr x \<Rightarrow> f x)"

text \<open>
  Every nested object or array costs the interpreter two frames of its stack. \<open>dp\<close> is the number of
  containers there is still room for; entering one more raises \<open>RecursionError\<close>, a \<open>RuntimeError\<close>.
  (The interpreter counts frames, so a helper called at the innermost level can shift the limit by
  one level.)
\<close>

definition recursion_error :: py_error where
  "recursion_error = RuntimeError ''maximum recursion depth exceeded''"

fun skip_value :: "nat \<Rightarrow> nat \<Rightarrow> bytes \<Rightarrow> bytes result option"
  and object_loop :: "nat \<Rightarrow> nat \<Rightarrow> bytes \<Rightarrow> bytes result option"
  and array_loop :: "nat \<Rightarrow> nat \<Rightarrow> bytes \<Rightarrow> bytes result option" where
  "skip_value dp 0 bs = None"
| "object_loop dp 0 bs = None"
| "array_loop dp 0 bs = None"
| "skip_value dp (Suc n) bs = (case skip_ws bs of
     [] \<Rightarrow> Some (Inl (ValueError ''missing value''))
   | b # rest \<Rightarrow>
       (if b = 34 then Some (skip_string (b # rest))
        else if b = byte CHR ''{'' then
          (if dp = 0 then Some (Inl recursion_error)
           else case skip_ws rest of
             c # rest' \<Rightarrow> if c = byte CHR ''}'' then Some (Inr rest') else object_loop (dp - 1) n (c # rest')
           | [] \<Rightarrow> object_loop (dp - 1) n [])
        else if b = byte CHR ''['' then
          (if dp = 0 then Some (Inl recursion_error)
           else case skip_ws rest of
             c # rest' \<Rightarrow> if c = byte CHR '']'' then Some (Inr rest') else array_loop (dp - 1) n (c # rest')
           | [] \<Rightarrow> array_loop (dp - 1) n [])
        else if starts_with ''true'' (b # rest) then Some (Inr (drop 4 (b # rest)))
        else if starts_with ''false'' (b # rest) then Some (Inr (drop 5 (b # rest)))
        else if starts_with ''null'' (b # rest) then Some (Inr (drop 4 (b # rest)))
        else Some (skip_number (b # rest))))"
| "object_loop dp (Suc n) bs =
     lift_err (skip_string (skip_ws bs)) (\<lambda>bs.
     case skip_ws bs of
       [] \<Rightarrow> Some (Inl (ValueError ''missing object separator''))
     | c # rest \<Rightarrow>
         (if c \<noteq> byte CHR '':'' then Some (Inl (ValueError ''missing object separator''))
          else case skip_value dp n rest of None \<Rightarrow> None | Some r \<Rightarrow> lift_err r (\<lambda>bs.
            case skip_ws bs of
              [] \<Rightarrow> Some (Inl (ValueError ''unterminated object''))
            | d # rest \<Rightarrow>
                (if d = byte CHR ''}'' then Some (Inr rest)
                 else if d \<noteq> byte CHR '','' then Some (Inl (ValueError ''invalid object separator''))
                 else object_loop dp n rest))))"
| "array_loop dp (Suc n) bs =
     (case skip_value dp n bs of None \<Rightarrow> None | Some r \<Rightarrow> lift_err r (\<lambda>bs.
        case skip_ws bs of
          [] \<Rightarrow> Some (Inl (ValueError ''unterminated array''))
        | d # rest \<Rightarrow>
            (if d = byte CHR '']'' then Some (Inr rest)
             else if d \<noteq> byte CHR '','' then Some (Inl (ValueError ''invalid array separator''))
             else array_loop dp n rest)))"

section \<open>The top level\<close>

record large_metadata =
  lm_request_id :: "bytes option"
  lm_model :: "bytes option"
  lm_stream :: "bool option"

definition no_metadata :: large_metadata where
  "no_metadata = \<lparr>lm_request_id = None, lm_model = None, lm_stream = None\<rparr>"

definition read_metadata_value ::
    "nat \<Rightarrow> nat \<Rightarrow> large_metadata \<Rightarrow> bytes \<Rightarrow> bytes \<Rightarrow> (large_metadata \<times> bytes) result option" where
  "read_metadata_value dp n m key bs =
     (if key = bytes_of ''stream'' then
        (if starts_with ''true'' bs then Some (Inr (m\<lparr>lm_stream := Some True\<rparr>, drop 4 bs))
         else if starts_with ''false'' bs then Some (Inr (m\<lparr>lm_stream := Some False\<rparr>, drop 5 bs))
         else case skip_value dp n bs of None \<Rightarrow> None | Some r \<Rightarrow> lift_err r (\<lambda>bs. Some (Inr (m, bs))))
      else if take 1 bs = [34] then
        lift_err (parse_string bs) (\<lambda>(v, rest). Some (Inr
          (if v = [] then m
           else if key = bytes_of ''model'' then m\<lparr>lm_model := Some v\<rparr> else m\<lparr>lm_request_id := Some v\<rparr>, rest)))
      else case skip_value dp n bs of None \<Rightarrow> None | Some r \<Rightarrow> lift_err r (\<lambda>bs. Some (Inr (m, bs))))"

definition metadata_keys :: "bytes list" where
  "metadata_keys = map bytes_of [''model'', ''request_id'', ''stream'']"

definition member_value ::
    "nat \<Rightarrow> nat \<Rightarrow> large_metadata \<Rightarrow> bytes \<Rightarrow> bytes \<Rightarrow> (large_metadata \<times> bytes) result option" where
  "member_value dp n m key bs =
     (if key \<in> set metadata_keys then read_metadata_value dp n m key (skip_ws bs)
      else case skip_value dp n (skip_ws bs) of
        None \<Rightarrow> None | Some r \<Rightarrow> lift_err r (\<lambda>bs. Some (Inr (m, bs))))"

fun top_loop :: "nat \<Rightarrow> nat \<Rightarrow> large_metadata \<Rightarrow> bytes \<Rightarrow> large_metadata result option" where
  "top_loop dp 0 m bs = None"
| "top_loop dp (Suc n) m bs =
     lift_err (parse_string (skip_ws bs)) (\<lambda>(key, bs).
     case skip_ws bs of
       [] \<Rightarrow> Some (Inl (ValueError ''missing object separator''))
     | c # rest \<Rightarrow>
         (if c \<noteq> byte CHR '':'' then Some (Inl (ValueError ''missing object separator''))
          else case member_value dp n m key rest of
            None \<Rightarrow> None
          | Some r \<Rightarrow> lift_err r (\<lambda>(m, bs).
              case skip_ws bs of
                [] \<Rightarrow> Some (Inl (ValueError ''unterminated object''))
              | d # rest \<Rightarrow>
                  (if d = byte CHR ''}'' then
                     Some (if skip_ws rest \<noteq> [] then Inl (ValueError ''trailing data'') else Inr m)
                   else if d \<noteq> byte CHR '','' then Some (Inl (ValueError ''invalid object separator''))
                   else top_loop dp n m rest))))"

definition scan_metadata_fuel :: "nat \<Rightarrow> nat \<Rightarrow> bytes \<Rightarrow> large_metadata result option" where
  "scan_metadata_fuel dp n body = (case skip_ws body of
     [] \<Rightarrow> Some (Inl (ValueError ''JSON request body must be an object''))
   | b # rest \<Rightarrow>
       (if b \<noteq> byte CHR ''{'' then Some (Inl (ValueError ''JSON request body must be an object''))
        else case skip_ws rest of
          c # rest' \<Rightarrow>
            (if c = byte CHR ''}'' then
               Some (if skip_ws rest' \<noteq> [] then Inl (ValueError ''trailing data'') else Inr no_metadata)
             else top_loop dp n no_metadata (c # rest'))
        | [] \<Rightarrow> top_loop dp n no_metadata []))"


section \<open>The scanner returns\<close>

lemma skip_ws_length: "length (skip_ws bs) \<le> length bs"
  unfolding skip_ws_def by (rule length_dropWhile_le)

lemma string_loop_length: "string_loop bs = Inr r \<Longrightarrow> length r < length bs"
  by (induction bs rule: string_loop.induct) (auto split: if_splits list.splits)

lemma skip_string_length: "skip_string bs = Inr r \<Longrightarrow> length r + 2 \<le> length bs"
  by (auto simp: skip_string_def split: list.splits if_splits dest!: string_loop_length)

lemma parse_string_length: "parse_string bs = Inr (v, r) \<Longrightarrow> length r + 2 \<le> length bs"
  by (auto simp: parse_string_def bindE_def split: sum.splits dest!: skip_string_length)

lemma skip_number_length: "skip_number bs = Inr r \<Longrightarrow> length r \<le> length bs"
  by (auto simp: skip_number_def split: if_splits option.splits)

lemma skip_ws_Cons: "skip_ws bs = b # r \<Longrightarrow> length r < length bs"
  using skip_ws_length [of bs] by simp

lemma lift_err_Some_Inr:
  "lift_err m f = Some (Inr y) \<longleftrightarrow> (\<exists>x. m = Inr x \<and> f x = Some (Inr y))"
  by (auto split: sum.splits)

lemma skip_lengths:
  "skip_value dp n bs = Some (Inr r) \<Longrightarrow> length r \<le> length bs"
  "object_loop dp n bs = Some (Inr r) \<Longrightarrow> length r \<le> length bs"
  "array_loop dp n bs = Some (Inr r) \<Longrightarrow> length r \<le> length bs"
proof (induction dp n bs and dp n bs and dp n bs arbitrary: r and r and r rule: skip_value_object_loop_array_loop.induct)
  case (4 dp n bs)
  show ?case
  proof (cases "skip_ws bs")
    case Nil
    with "4.prems" show ?thesis by simp
  next
    case (Cons b rest)
    have l: "length rest < length bs" by (rule skip_ws_Cons [OF Cons])
    note IH = "4.IH" [OF Cons]
    show ?thesis
      using "4.prems" Cons l IH skip_string_length [of "b # rest" r] skip_number_length [of "b # rest" r]
        skip_ws_length [of rest]
      apply (auto split: if_splits list.splits)
       apply (fastforce | force)+
      done
  qed
next
  case (5 dp n bs)
  from "5.prems" obtain b1 where b1: "skip_string (skip_ws bs) = Inr b1"
    by (auto split: sum.splits)
  from "5.prems" b1 obtain c rest where c: "skip_ws b1 = c # rest" "c = byte CHR '':''"
    by (auto split: list.splits if_splits)
  from "5.prems" b1 c obtain b2 where b2: "skip_value dp n rest = Some (Inr b2)"
    by (auto split: option.splits sum.splits)
  from "5.prems" b1 c b2 obtain d rest' where d: "skip_ws b2 = d # rest'"
    by (auto split: list.splits)
  have l: "length rest' < length bs"
    using skip_ws_length [of bs] skip_string_length [OF b1] skip_ws_Cons [OF c(1)] "5.IH"(1) [OF b1 c(1) _ b2]
      skip_ws_Cons [OF d] c(2) by simp
  from "5.prems" b1 c b2 d have "r = rest' \<or> object_loop dp n rest' = Some (Inr r) \<and> d \<noteq> byte CHR ''}'' \<and> d = byte CHR '',''"
    by (auto split: if_splits)
  then show ?case using l "5.IH"(2) [OF b1 c(1) _ b2 _ d] c(2) by auto
next
  case (6 dp n bs)
  from "6.prems" obtain b2 where b2: "skip_value dp n bs = Some (Inr b2)"
    by (auto split: option.splits sum.splits)
  from "6.prems" b2 obtain d rest' where d: "skip_ws b2 = d # rest'"
    by (auto split: list.splits)
  have l: "length rest' < length bs"
    using "6.IH"(1) [OF b2] skip_ws_Cons [OF d] by simp
  from "6.prems" b2 d have "r = rest' \<or> array_loop dp n rest' = Some (Inr r) \<and> d \<noteq> byte CHR '']'' \<and> d = byte CHR '',''"
    by (auto split: if_splits)
  then show ?case using l "6.IH"(2) [OF b2 _ d] by auto
qed simp_all

lemmas value_length = skip_lengths(1) and object_length = skip_lengths(2) and array_length = skip_lengths(3)

text \<open>
  The recursion error needs nesting: it is raised only on a body with more opening brackets than there
  is room for.
\<close>

definition opens :: "bytes \<Rightarrow> nat" where
  "opens bs = length (filter (\<lambda>b. b = 123 \<or> b = 91) bs)"

lemma opens_Cons: "opens (b # bs) = (if b = 123 \<or> b = 91 then Suc (opens bs) else opens bs)"
  by (simp add: opens_def)

lemma opens_suffix: "suffix r bs \<Longrightarrow> opens r \<le> opens bs"
  by (auto simp: suffix_def opens_def)

lemma opens_ws: "opens (skip_ws bs) \<le> opens bs"
  by (rule opens_suffix) (simp add: skip_ws_def suffix_dropWhile)

lemma opens_ws_Cons: "skip_ws bs = b # r \<Longrightarrow> opens r \<le> opens bs"
  using opens_ws [of bs] by (simp add: opens_Cons split: if_splits)

lemma string_loop_suffix: "string_loop bs = Inr r \<Longrightarrow> suffix r bs"
  by (induction bs rule: string_loop.induct) (auto split: if_splits list.splits intro: suffix_ConsI)

lemma skip_string_opens: "skip_string bs = Inr r \<Longrightarrow> opens r \<le> opens bs"
  by (rule opens_suffix)
    (auto simp: skip_string_def split: list.splits if_splits intro: suffix_ConsI dest: string_loop_suffix)

lemma skip_number_opens: "skip_number bs = Inr r \<Longrightarrow> opens r \<le> opens bs"
  by (rule opens_suffix) (auto simp: skip_number_def suffix_drop split: if_splits option.splits)

lemma skip_opens:
  "skip_value dp n bs = Some (Inr r) \<Longrightarrow> opens r \<le> opens bs"
  "object_loop dp n bs = Some (Inr r) \<Longrightarrow> opens r \<le> opens bs"
  "array_loop dp n bs = Some (Inr r) \<Longrightarrow> opens r \<le> opens bs"
proof (induction dp n bs and dp n bs and dp n bs arbitrary: r and r and r rule: skip_value_object_loop_array_loop.induct)
  case (4 dp n bs)
  show ?case
  proof (cases "skip_ws bs")
    case Nil
    with "4.prems" show ?thesis by simp
  next
    case (Cons b rest)
    have l: "opens rest \<le> opens bs" "opens (b # rest) \<le> opens bs"
      using opens_ws_Cons [OF Cons] opens_ws [of bs] Cons by simp_all
    have dr: "opens (drop k (b # rest)) \<le> opens bs" for k
      using opens_suffix [OF suffix_drop, of k "b # rest"] l(2) by (rule le_trans)
    have ws: "opens (skip_ws rest) \<le> opens bs"
      using opens_ws [of rest] l(1) by (rule le_trans)
    note IH = "4.IH" [OF Cons]
    consider (object) "b = byte CHR ''{''" | (array) "b = byte CHR ''[''"
      | (scalar) "b \<noteq> byte CHR ''{''" "b \<noteq> byte CHR ''[''" by blast
    then show ?thesis
    proof cases
      case object
      then show ?thesis
        using "4.prems" Cons IH(1,2) ws opens_ws_Cons [of rest] l(1)
        by (auto split: list.splits if_splits intro: le_trans)
    next
      case array
      then show ?thesis
        using "4.prems" Cons IH(3,4) ws opens_ws_Cons [of rest] l(1)
        by (auto split: list.splits if_splits intro: le_trans)
    next
      case scalar
      then show ?thesis
        using "4.prems" Cons dr [of 4] dr [of 5] l(2) skip_string_opens [of "b # rest" r] skip_number_opens [of "b # rest" r]
        by (auto split: if_splits)
    qed
  qed
next
  case (5 dp n bs)
  from "5.prems" obtain b1 where b1: "skip_string (skip_ws bs) = Inr b1"
    by (auto split: sum.splits)
  from "5.prems" b1 obtain c rest where c: "skip_ws b1 = c # rest" "c = byte CHR '':''"
    by (auto split: list.splits if_splits)
  from "5.prems" b1 c obtain b2 where b2: "skip_value dp n rest = Some (Inr b2)"
    by (auto split: option.splits sum.splits)
  from "5.prems" b1 c b2 obtain d rest' where d: "skip_ws b2 = d # rest'"
    by (auto split: list.splits)
  have l: "opens rest' \<le> opens bs"
    using opens_ws [of bs] skip_string_opens [OF b1] opens_ws_Cons [OF c(1)] "5.IH"(1) [OF b1 c(1) _ b2]
      opens_ws_Cons [OF d] c(2) by simp
  from "5.prems" b1 c b2 d have "r = rest' \<or> object_loop dp n rest' = Some (Inr r) \<and> d \<noteq> byte CHR ''}'' \<and> d = byte CHR '',''"
    by (auto split: if_splits)
  then show ?case using l "5.IH"(2) [OF b1 c(1) _ b2 _ d] c(2) by auto
next
  case (6 dp n bs)
  from "6.prems" obtain b2 where b2: "skip_value dp n bs = Some (Inr b2)"
    by (auto split: option.splits sum.splits)
  from "6.prems" b2 obtain d rest' where d: "skip_ws b2 = d # rest'"
    by (auto split: list.splits)
  have l: "opens rest' \<le> opens bs"
    using "6.IH"(1) [OF b2] opens_ws_Cons [OF d] by simp
  from "6.prems" b2 d have "r = rest' \<or> array_loop dp n rest' = Some (Inr r) \<and> d \<noteq> byte CHR '']'' \<and> d = byte CHR '',''"
    by (auto split: if_splits)
  then show ?case using l "6.IH"(2) [OF b2 _ d] by auto
qed simp_all

lemma skip_enough:
  "2 * length bs < n \<Longrightarrow> skip_value dp n bs \<noteq> None"
  "2 * length bs + 1 < n \<Longrightarrow> object_loop dp n bs \<noteq> None"
  "2 * length bs + 1 < n \<Longrightarrow> array_loop dp n bs \<noteq> None"
proof (induction dp n bs and dp n bs and dp n bs rule: skip_value_object_loop_array_loop.induct)
  case (4 dp n bs)
  show ?case
  proof (cases "skip_ws bs")
    case (Cons b rest)
    have l: "length rest < length bs" by (rule skip_ws_Cons [OF Cons])
    have f: "2 * length cs + 1 < n" if "length cs \<le> length rest" for cs :: bytes
      using that l "4.prems" by simp
    note IH = "4.IH" [OF Cons]
    show ?thesis
      using Cons skip_ws_length [of rest] f [of "skip_ws rest"] f [of "[]"] IH
      by (auto split: list.splits)
  qed simp
next
  case (5 dp n bs)
  show ?case
  proof
    assume none: "object_loop dp (Suc n) bs = None"
    then obtain b1 where b1: "skip_string (skip_ws bs) = Inr b1" by (auto split: sum.splits)
    from none b1 obtain c rest where c: "skip_ws b1 = c # rest" "c = byte CHR '':''"
      by (auto split: list.splits if_splits)
    have l: "length rest + 3 \<le> length bs"
      using skip_ws_length [of bs] skip_string_length [OF b1] skip_ws_Cons [OF c(1)] by simp
    from "5.IH"(1) [OF b1 c(1)] l "5.prems" c(2) have "skip_value dp n rest \<noteq> None" by simp
    with none b1 c obtain b2 where b2: "skip_value dp n rest = Some (Inr b2)"
      by (auto split: sum.splits)
    from none b1 c b2 obtain d rest' where
      d: "skip_ws b2 = d # rest'" "d \<noteq> byte CHR ''}''" "d = byte CHR '',''" "object_loop dp n rest' = None"
      by (auto split: list.splits if_splits)
    have "length rest' < length bs" using l value_length [OF b2] skip_ws_Cons [OF d(1)] by simp
    then show False using "5.IH"(2) [OF b1 c(1) _ b2 _ d(1)] c(2) d "5.prems" by simp
  qed
next
  case (6 dp n bs)
  show ?case
  proof
    assume none: "array_loop dp (Suc n) bs = None"
    from "6.IH"(1) "6.prems" have "skip_value dp n bs \<noteq> None" by simp
    with none obtain b2 where b2: "skip_value dp n bs = Some (Inr b2)" by (auto split: sum.splits)
    from none b2 obtain d rest' where
      d: "skip_ws b2 = d # rest'" "d \<noteq> byte CHR '']''" "d = byte CHR '',''" "array_loop dp n rest' = None"
      by (auto split: list.splits if_splits)
    have "length rest' < length bs" using value_length [OF b2] skip_ws_Cons [OF d(1)] by simp
    then show False using "6.IH"(2) [OF b2 _ d(1)] d "6.prems" by simp
  qed
qed simp_all

text \<open>More fuel does not change a result.\<close>

lemma skip_more:
  "skip_value dp n bs = Some r \<Longrightarrow> n \<le> m \<Longrightarrow> skip_value dp m bs = Some r"
  "object_loop dp n bs = Some r \<Longrightarrow> n \<le> m \<Longrightarrow> object_loop dp m bs = Some r"
  "array_loop dp n bs = Some r \<Longrightarrow> n \<le> m \<Longrightarrow> array_loop dp m bs = Some r"
proof (induction dp n bs and dp n bs and dp n bs arbitrary: r m and r m and r m rule: skip_value_object_loop_array_loop.induct)
  case (4 dp n bs)
  from "4.prems"(2) obtain k where m: "m = Suc k" "n \<le> k" by (cases m) auto
  show ?case
  proof (cases "skip_ws bs")
    case (Cons b rest)
    note IH = "4.IH" [OF Cons]
    consider (object) "b = byte CHR ''{''" | (array) "b = byte CHR ''[''"
      | (scalar) "b \<noteq> byte CHR ''{''" "b \<noteq> byte CHR ''[''" by blast
    then show ?thesis
    proof cases
      case object
      show ?thesis
        using "4.prems"(1) Cons m(1) object IH(1) [OF _ object _ _ _ m(2), where r = r] IH(2) [OF _ object _ _ _ _ m(2), where r = r]
        by (auto split: list.splits if_splits)
    next
      case array
      show ?thesis
        using "4.prems"(1) Cons m(1) array IH(3) [OF _ _ array _ _ _ m(2), where r = r] IH(4) [OF _ _ array _ _ _ _ m(2), where r = r]
        by (auto split: list.splits if_splits)
    next
      case scalar
      show ?thesis using "4.prems"(1) Cons m(1) scalar by (auto split: if_splits)
    qed
  qed (use "4.prems" m in simp)
next
  case (5 dp n bs)
  from "5.prems"(2) obtain k where m: "m = Suc k" "n \<le> k" by (cases m) auto
  show ?case
  proof (cases "skip_string (skip_ws bs)")
    case b1: (Inr b1)
    show ?thesis
    proof (cases "\<exists>rest. skip_ws b1 = byte CHR '':'' # rest")
      case True
      then obtain rest where c: "skip_ws b1 = byte CHR '':'' # rest" by blast
      from "5.prems" b1 c obtain r1 where r1: "skip_value dp n rest = Some r1" by (auto split: option.splits)
      have r1': "skip_value dp k rest = Some r1" using "5.IH"(1) [OF b1 c _ r1 m(2)] by simp
      show ?thesis
      proof (cases r1)
        case (Inr b2)
        have "object_loop dp k rest' = Some q"
          if "skip_ws b2 = byte CHR '','' # rest'" "object_loop dp n rest' = Some q" for rest' q
          by (rule "5.IH"(2) [OF b1 c _ r1 Inr that(1) _ _ that(2) m(2)]) simp_all
        then show ?thesis
          using "5.prems"(1) m(1) b1 c r1 r1' Inr by (auto split: list.splits if_splits)
      next
        case (Inl e)
        with "5.prems"(1) m(1) b1 c r1 r1' show ?thesis by auto
      qed
    qed (use "5.prems" m b1 in \<open>auto split: list.splits\<close>)
  next
    case (Inl e)
    with "5.prems"(1) m(1) show ?thesis by auto
  qed
next
  case (6 dp n bs)
  from "6.prems"(2) obtain k where m: "m = Suc k" "n \<le> k" by (cases m) auto
  from "6.prems" obtain r1 where r1: "skip_value dp n bs = Some r1" by (auto split: option.splits)
  have r1': "skip_value dp k bs = Some r1" by (rule "6.IH"(1) [OF r1 m(2)])
  show ?case
  proof (cases r1)
    case (Inr b2)
    have "array_loop dp k rest' = Some q"
      if "skip_ws b2 = byte CHR '','' # rest'" "array_loop dp n rest' = Some q" for rest' q
      by (rule "6.IH"(2) [OF r1 Inr that(1) _ _ that(2) m(2)]) simp_all
    then show ?thesis
      using "6.prems"(1) m(1) r1 r1' Inr by (auto split: list.splits if_splits)
  next
    case (Inl e)
    with "6.prems"(1) m(1) r1 r1' show ?thesis by auto
  qed
qed simp_all

lemma read_metadata_value_length:
  "read_metadata_value dp n m key bs = Some (Inr (m', r)) \<Longrightarrow> length r \<le> length bs"
  by (auto simp: read_metadata_value_def lift_err_Some_Inr
      split: if_splits option.splits sum.splits dest: value_length parse_string_length)

lemma read_metadata_value_enough:
  "2 * length bs < n \<Longrightarrow> read_metadata_value dp n m key bs \<noteq> None"
  using skip_enough(1) [of bs n dp] by (auto simp: read_metadata_value_def split: option.splits sum.splits)

lemma read_metadata_value_more:
  "read_metadata_value dp n m key bs = Some r \<Longrightarrow> n \<le> k \<Longrightarrow> read_metadata_value dp k m key bs = Some r"
  using skip_more(1) [of dp n bs _ k]
  by (auto simp: read_metadata_value_def split: if_splits option.splits)

lemma member_value_length: "member_value dp n m key bs = Some (Inr (m', r)) \<Longrightarrow> length r \<le> length bs"
  using skip_ws_length [of bs]
  by (auto simp: member_value_def lift_err_Some_Inr split: if_splits option.splits
      dest!: value_length read_metadata_value_length)

lemma member_value_enough: "2 * length bs < n \<Longrightarrow> member_value dp n m key bs \<noteq> None"
  using skip_enough(1) [of "skip_ws bs" n dp] skip_ws_length [of bs] read_metadata_value_enough [of "skip_ws bs" n dp]
  by (auto simp: member_value_def split: option.splits sum.splits)

lemma member_value_more: "member_value dp n m key bs = Some r \<Longrightarrow> n \<le> k \<Longrightarrow> member_value dp k m key bs = Some r"
  using skip_more(1) [of dp n "skip_ws bs" _ k] read_metadata_value_more [of dp n m key "skip_ws bs" r k]
  by (auto simp: member_value_def split: if_splits option.splits)

lemma top_loop_enough: "2 * length bs + 1 < n \<Longrightarrow> top_loop dp n m bs \<noteq> None"
proof (induction n arbitrary: m bs)
  case (Suc n)
  show ?case
  proof
    assume none: "top_loop dp (Suc n) m bs = None"
    then obtain key b1 where b1: "parse_string (skip_ws bs) = Inr (key, b1)"
      by (auto split: sum.splits)
    from none b1 obtain c rest where c: "skip_ws b1 = c # rest" "c = byte CHR '':''"
      by (auto split: list.splits if_splits)
    have l: "length rest + 3 \<le> length bs"
      using skip_ws_length [of bs] parse_string_length [OF b1] skip_ws_Cons [OF c(1)] by simp
    have "member_value dp n m key rest \<noteq> None" by (rule member_value_enough) (use l Suc.prems in simp)
    with none b1 c obtain m2 b2 where b2: "member_value dp n m key rest = Some (Inr (m2, b2))"
      by (auto split: sum.splits)
    from none b1 c b2 obtain d rest' where d: "skip_ws b2 = d # rest'" "top_loop dp n m2 rest' = None"
      by (auto split: list.splits if_splits)
    have "length rest' < length bs" using l member_value_length [OF b2] skip_ws_Cons [OF d(1)] by simp
    then show False using Suc.IH [of rest' m2] d(2) Suc.prems by simp
  qed
qed simp

lemma top_loop_more: "top_loop dp n m bs = Some r \<Longrightarrow> n \<le> k \<Longrightarrow> top_loop dp k m bs = Some r"
proof (induction n arbitrary: m bs k)
  case (Suc n)
  from Suc.prems(2) obtain j where k: "k = Suc j" "n \<le> j" by (cases k) auto
  show ?case
  proof (cases "parse_string (skip_ws bs)")
    case b1: (Inr p)
    obtain key b1' where p: "p = (key, b1')" by (cases p)
    show ?thesis
    proof (cases "\<exists>rest. skip_ws b1' = byte CHR '':'' # rest")
      case True
      then obtain rest where c: "skip_ws b1' = byte CHR '':'' # rest" by blast
      from Suc.prems b1 p c obtain r1 where r1: "member_value dp n m key rest = Some r1"
        by (auto split: option.splits)
      note r1' = member_value_more [OF r1 k(2)]
      have "top_loop dp j m' rest' = Some r" if "top_loop dp n m' rest' = Some r" for m' rest'
        by (rule Suc.IH [OF that k(2)])
      then show ?thesis
        using Suc.prems(1) b1 p c r1 r1' k(1) by (auto split: list.splits sum.splits if_splits)
    qed (use Suc.prems b1 p k in \<open>auto split: list.splits\<close>)
  next
    case (Inl e)
    with Suc.prems(1) k(1) show ?thesis by auto
  qed
qed simp

lemma scan_enough: "2 * length body < n \<Longrightarrow> scan_metadata_fuel dp n body \<noteq> None"
proof -
  assume n: "2 * length body < n"
  have "top_loop dp n m bs \<noteq> None" if "length bs < length body" for m bs
    by (rule top_loop_enough) (use n that in simp)
  then show ?thesis
    using skip_ws_length [of body] skip_ws_length
    by (auto simp: scan_metadata_fuel_def Suc_le_eq dest!: skip_ws_Cons split: list.splits)
      (metis le_neq_implies_less length_Cons less_trans skip_ws_Cons skip_ws_length not_less)+
qed

lemma scan_more: "scan_metadata_fuel dp n body = Some r \<Longrightarrow> n \<le> k \<Longrightarrow> scan_metadata_fuel dp k body = Some r"
  using top_loop_more [of dp n _ _ r k]
  by (auto simp: scan_metadata_fuel_def split: list.splits if_splits)

definition json_error_only :: "'a result \<Rightarrow> bool" where
  "json_error_only r \<longleftrightarrow> (\<forall>e. r = Inl e \<longrightarrow> e = ValueError ''invalid JSON'')"

lemma json_error_only_intros:
  "json_error_only (Inr x)" "json_error_only invalid_json"
  "json_error_only m \<Longrightarrow> json_error_only (bindE m (\<lambda>x. Inr (f x)))"
  by (auto simp: json_error_only_def invalid_json_def bindE_def split: sum.splits)

lemma unescape_errors: "json_error_only (unescape cs)"
proof (induction cs rule: unescape.induct)
  case (2 b bs)
  then show ?case
    by (subst unescape.simps) (simp add: json_error_only_intros split: list.split option.split)
qed (simp add: json_error_only_intros)

lemma no_recursion_error:
  "skip_string bs \<noteq> Inl (RuntimeError e)" "skip_number bs \<noteq> Inl (RuntimeError e)"
  "parse_string bs \<noteq> Inl (RuntimeError e)"
proof -
  have l: "string_loop cs \<noteq> Inl (RuntimeError e)" for cs
    by (induction cs rule: string_loop.induct) (auto split: list.splits)
  have u: "unescape cs \<noteq> Inl (RuntimeError e)" for cs
    using unescape_errors [of cs] by (auto simp: json_error_only_def)
  show s: "skip_string bs \<noteq> Inl (RuntimeError e)" using l by (auto simp: skip_string_def split: list.splits)
  show "skip_number bs \<noteq> Inl (RuntimeError e)" by (auto simp: skip_number_def split: option.splits)
  show "parse_string bs \<noteq> Inl (RuntimeError e)"
    using s u by (auto simp: parse_string_def loads_string_def invalid_json_def bindE_def split: sum.splits)
qed

lemma skip_recursion:
  "skip_value dp n bs = Some (Inl (RuntimeError e)) \<Longrightarrow> RuntimeError e = recursion_error \<and> dp < opens bs"
  "object_loop dp n bs = Some (Inl (RuntimeError e)) \<Longrightarrow> RuntimeError e = recursion_error \<and> dp < opens bs"
  "array_loop dp n bs = Some (Inl (RuntimeError e)) \<Longrightarrow> RuntimeError e = recursion_error \<and> dp < opens bs"
proof (induction dp n bs and dp n bs and dp n bs rule: skip_value_object_loop_array_loop.induct)
  case (4 dp n bs)
  show ?case
  proof (cases "skip_ws bs")
    case Nil
    with "4.prems" show ?thesis by simp
  next
    case (Cons b rest)
    note IH = "4.IH" [OF Cons]
    have l: "Suc (opens rest) \<le> opens bs" if "b = 123 \<or> b = 91"
      using opens_ws [of bs] Cons that by (simp add: opens_Cons)
    have ws: "opens (skip_ws rest) \<le> opens rest" by (rule opens_ws)
    consider (object) "b = byte CHR ''{''" | (array) "b = byte CHR ''[''"
      | (scalar) "b \<noteq> byte CHR ''{''" "b \<noteq> byte CHR ''[''" by blast
    then show ?thesis
    proof cases
      case object
      then show ?thesis
        using "4.prems" Cons IH(1,2) ws l by (auto simp: opens_def split: list.splits if_splits)
    next
      case array
      then show ?thesis
        using "4.prems" Cons IH(3,4) ws l by (auto simp: opens_def split: list.splits if_splits)
    next
      case scalar
      then show ?thesis
        using "4.prems" Cons no_recursion_error by (auto split: if_splits)
    qed
  qed
next
  case (5 dp n bs)
  from "5.prems" no_recursion_error obtain b1 where b1: "skip_string (skip_ws bs) = Inr b1"
    by (auto split: sum.splits)
  from "5.prems" b1 obtain c rest where c: "skip_ws b1 = c # rest" "c = byte CHR '':''"
    by (auto split: list.splits if_splits)
  have l: "opens rest \<le> opens bs"
    using opens_ws [of bs] skip_string_opens [OF b1] opens_ws_Cons [OF c(1)] by simp
  show ?case
  proof (cases "skip_value dp n rest = Some (Inl (RuntimeError e))")
    case True
    with "5.IH"(1) [OF b1 c(1)] c(2) l show ?thesis by simp
  next
    case False
    with "5.prems" b1 c obtain b2 where b2: "skip_value dp n rest = Some (Inr b2)"
      by (auto split: option.splits sum.splits)
    with "5.prems" b1 c obtain d rest' where d: "skip_ws b2 = d # rest'" "d \<noteq> byte CHR ''}''" "d = byte CHR '',''"
        "object_loop dp n rest' = Some (Inl (RuntimeError e))"
      by (auto split: list.splits if_splits)
    have "opens rest' \<le> opens bs"
      using l skip_opens(1) [OF b2] opens_ws_Cons [OF d(1)] by simp
    then show ?thesis using "5.IH"(2) [OF b1 c(1) _ b2 _ d(1)] c(2) d(2-4) by simp
  qed
next
  case (6 dp n bs)
  show ?case
  proof (cases "skip_value dp n bs = Some (Inl (RuntimeError e))")
    case True
    with "6.IH"(1) show ?thesis by simp
  next
    case False
    with "6.prems" obtain b2 where b2: "skip_value dp n bs = Some (Inr b2)"
      by (auto split: option.splits sum.splits)
    with "6.prems" obtain d rest' where d: "skip_ws b2 = d # rest'" "d \<noteq> byte CHR '']''" "d = byte CHR '',''"
        "array_loop dp n rest' = Some (Inl (RuntimeError e))"
      by (auto split: list.splits if_splits)
    have "opens rest' \<le> opens bs"
      using skip_opens(1) [OF b2] opens_ws_Cons [OF d(1)] by simp
    then show ?thesis using "6.IH"(2) [OF b2 _ d(1)] d(2-4) by simp
  qed
qed simp_all

lemma parse_string_opens: "parse_string bs = Inr (v, r) \<Longrightarrow> opens r \<le> opens bs"
  by (auto simp: parse_string_def bindE_def split: sum.splits dest: skip_string_opens)

lemma member_value_opens:
  assumes "member_value dp n m key bs = Some (Inr (m', r))"
  shows "opens r \<le> opens bs"
proof -
  have dr: "opens (drop k cs) \<le> opens cs" for k cs by (rule opens_suffix [OF suffix_drop])
  have "opens r \<le> opens (skip_ws bs)"
    using assms
    by (auto simp: member_value_def read_metadata_value_def lift_err_Some_Inr dr
        split: if_splits option.splits sum.splits dest: skip_opens(1) parse_string_opens)
  then show ?thesis using opens_ws [of bs] by simp
qed

lemma member_value_recursion:
  assumes "member_value dp n m key bs = Some (Inl (RuntimeError e))"
  shows "RuntimeError e = recursion_error \<and> dp < opens bs"
proof -
  have "skip_value dp n (skip_ws bs) = Some (Inl (RuntimeError e))"
    using assms no_recursion_error
    by (auto simp: member_value_def read_metadata_value_def split: if_splits option.splits sum.splits)
  with skip_recursion(1) opens_ws [of bs] show ?thesis by (meson less_le_trans)
qed

lemma top_loop_recursion:
  "top_loop dp n m bs = Some (Inl (RuntimeError e)) \<Longrightarrow> RuntimeError e = recursion_error \<and> dp < opens bs"
proof (induction n arbitrary: m bs)
  case (Suc n)
  from Suc.prems no_recursion_error obtain key b1 where b1: "parse_string (skip_ws bs) = Inr (key, b1)"
    by (auto split: sum.splits)
  from Suc.prems b1 obtain c rest where c: "skip_ws b1 = c # rest" "c = byte CHR '':''"
    by (auto split: list.splits if_splits)
  have l: "opens rest \<le> opens bs"
    using opens_ws [of bs] parse_string_opens [OF b1] opens_ws_Cons [OF c(1)] by simp
  show ?case
  proof (cases "member_value dp n m key rest = Some (Inl (RuntimeError e))")
    case True
    from member_value_recursion [OF this] l show ?thesis by simp
  next
    case False
    with Suc.prems b1 c obtain m2 b2 where b2: "member_value dp n m key rest = Some (Inr (m2, b2))"
      by (auto split: option.splits sum.splits)
    with Suc.prems b1 c obtain d rest' where d: "skip_ws b2 = d # rest'"
        "top_loop dp n m2 rest' = Some (Inl (RuntimeError e))"
      by (auto split: list.splits if_splits)
    have "opens rest' \<le> opens bs"
      using l member_value_opens [OF b2] opens_ws_Cons [OF d(1)] by simp
    then show ?thesis using Suc.IH [OF d(2)] by simp
  qed
qed simp

lemma scan_recursion:
  assumes "scan_metadata_fuel dp n body = Some (Inl (RuntimeError e))"
  shows "RuntimeError e = recursion_error \<and> Suc dp < opens body"
proof -
  from assms obtain b rest where b: "skip_ws body = b # rest" "b = byte CHR ''{''"
    by (auto simp: scan_metadata_fuel_def split: list.splits if_splits)
  with assms have "top_loop dp n no_metadata (skip_ws rest) = Some (Inl (RuntimeError e))"
    by (auto simp: scan_metadata_fuel_def split: list.splits if_splits)
  from top_loop_recursion [OF this] opens_ws [of rest] opens_ws [of body] b show ?thesis by (simp add: opens_Cons)
qed

text \<open>
  \<open>_scan_large_json_metadata\<close>: the failures its \<open>except\<close> clause names become one error. A
  \<open>RecursionError\<close> is none of them and leaves the function.
\<close>

definition scan_large_json_metadata :: "nat \<Rightarrow> bytes \<Rightarrow> large_metadata result" where
  "scan_large_json_metadata dp body = (case scan_metadata_fuel dp (2 * length body + 1) body of
     Some (Inr m) \<Rightarrow> Inr m
   | Some (Inl (RuntimeError e)) \<Rightarrow> Inl (RuntimeError e)
   | _ \<Rightarrow> Inl (ValueError ''invalid JSON body''))"

text \<open>
  C22: On every body the scanner comes to a result: with more than twice the body's length of fuel there
  is one, and no further fuel changes it. The result is the metadata, an \<open>invalid JSON\<close> error, or a
  \<open>RecursionError\<close>, which the caller does not catch; that one is raised only when the interpreter's stack
  has room for fewer nested containers than the body has opening brackets after its first.
\<close>

theorem scanner_returns:
  assumes "2 * length body < n"
  shows "(\<exists>r. scan_metadata_fuel dp n body = Some r \<and> (\<forall>k \<ge> n. scan_metadata_fuel dp k body = Some r)) \<and>
    (scan_large_json_metadata dp body = Inl recursion_error \<and> Suc dp < opens body \<or>
     scan_large_json_metadata dp body = Inl (ValueError ''invalid JSON body'') \<or>
     (\<exists>m. scan_large_json_metadata dp body = Inr m))"
proof -
  let ?n = "2 * length body + 1"
  obtain r where r: "scan_metadata_fuel dp ?n body = Some r" using scan_enough [of body ?n dp] by auto
  have "e = recursion_error \<and> Suc dp < opens body" if "r = Inl (RuntimeError x)" "e = RuntimeError x" for e x
    using scan_recursion [of dp ?n body x] r that by simp
  moreover have "\<exists>r. scan_metadata_fuel dp n body = Some r \<and> (\<forall>k \<ge> n. scan_metadata_fuel dp k body = Some r)"
    using scan_enough [OF assms] scan_more [of dp n body] by (metis option.exhaust)
  ultimately show ?thesis
    using r by (auto simp: scan_large_json_metadata_def split: sum.split py_error.split)
qed

text \<open>In the witness a body nests four containers: there is room for three below the first, not for two.\<close>

lemma scanner_returns_witness:
  "scan_large_json_metadata 3 (bytes_of (CHR ''{'' # CHR 0x22 # ''a'' @ CHR 0x22 # '': [[['')) \<noteq> Inl recursion_error \<and>
   scan_large_json_metadata 2 (bytes_of (CHR ''{'' # CHR 0x22 # ''a'' @ CHR 0x22 # '': [[['')) = Inl recursion_error"
proof
  let ?b = "bytes_of (CHR ''{'' # CHR 0x22 # ''a'' @ CHR 0x22 # '': [[['')"
  have "opens ?b = 4" "2 * length ?b < 60" by (simp_all add: bytes_of_def opens_def)
  then show "scan_large_json_metadata 3 ?b \<noteq> Inl recursion_error"
    using scanner_returns [of ?b 60 3] by (auto simp: recursion_error_def)
  show "scan_large_json_metadata 2 ?b = Inl recursion_error" by code_simp
qed

section \<open>What \<open>json.dumps\<close> writes\<close>

text \<open>
  Values of JSON with ASCII strings and integers, and their text as \<open>json.dumps\<close> writes it by default.
\<close>

datatype json =
    JNull
  | JBool bool
  | JInt int
  | JStr bytes
  | JArr "json list"
  | JObj "(bytes \<times> json) list"

definition hex_char :: "nat \<Rightarrow> nat" where
  "hex_char n = (if n < 10 then 48 + n else 87 + n)"

definition dump_char :: "nat \<Rightarrow> bytes" where
  "dump_char b = (case map_of [(34, 34), (92, 92), (8, 98), (12, 102), (10, 110), (13, 114), (9, 116)] b of
     Some e \<Rightarrow> [92, e]
   | None \<Rightarrow> if 32 \<le> b \<and> b < 127 then [b] else [92, 117, 48, 48, hex_char (b div 16), hex_char (b mod 16)])"

definition dump_string :: "bytes \<Rightarrow> bytes" where
  "dump_string s = 34 # concat (map dump_char s) @ [34]"

fun dump :: "json \<Rightarrow> bytes" and dump_items :: "json list \<Rightarrow> bytes" and dump_members :: "(bytes \<times> json) list \<Rightarrow> bytes" where
  "dump JNull = bytes_of ''null''"
| "dump (JBool b) = bytes_of (if b then ''true'' else ''false'')"
| "dump (JInt i) = bytes_of (decimal i)"
| "dump (JStr s) = dump_string s"
| "dump (JArr vs) = byte CHR ''['' # dump_items vs @ [byte CHR '']'']"
| "dump (JObj ms) = byte CHR ''{'' # dump_members ms @ [byte CHR ''}'']"
| "dump_items [] = []"
| "dump_items (v # vs) = dump v @ (if vs = [] then [] else bytes_of '', '' @ dump_items vs)"
| "dump_members [] = []"
| "dump_members ((k, v) # ms) =
     dump_string k @ bytes_of '': '' @ dump v @ (if ms = [] then [] else bytes_of '', '' @ dump_members ms)"

text \<open>
  ASCII strings, integers that fit the window \<open>_skip_number\<close> decodes, and containers nested at most
  \<open>dp\<close> deep.
\<close>

abbreviation ascii :: "bytes \<Rightarrow> bool" where
  "ascii s \<equiv> \<forall>b \<in> set s. b < 128"

fun plain :: "nat \<Rightarrow> json \<Rightarrow> bool" where
  "plain dp (JInt i) \<longleftrightarrow> length (decimal i) \<le> 127"
| "plain dp (JStr s) \<longleftrightarrow> ascii s"
| "plain dp (JArr vs) \<longleftrightarrow> dp \<noteq> 0 \<and> (\<forall>v \<in> set vs. plain (dp - 1) v)"
| "plain dp (JObj ms) \<longleftrightarrow> dp \<noteq> 0 \<and> (\<forall>(k, v) \<in> set ms. ascii k \<and> plain (dp - 1) v)"
| "plain dp _ \<longleftrightarrow> True"

lemma dump_char_cases:
  assumes "b < 128"
  shows "dump_char b = [b] \<and> 32 \<le> b \<and> b \<noteq> 34 \<and> b \<noteq> 92
    \<or> (\<exists>e. dump_char b = [92, e] \<and> e \<noteq> 117 \<and> e < 128 \<and> simple_escape e = Some b)
    \<or> dump_char b = [92, 117, 48, 48, hex_char (b div 16), hex_char (b mod 16)]"
  using assms unfolding dump_char_def simple_escape_def by auto

lemma hex_digit_char: "n < 16 \<Longrightarrow> hex_digit (hex_char n) = Some n"
  unfolding hex_digit_def hex_char_def by auto

lemma hex_char_bound: "n < 16 \<Longrightarrow> 48 \<le> hex_char n \<and> hex_char n < 103 \<and> hex_char n \<noteq> 92"
  unfolding hex_char_def by auto

lemma nibble: "b < (128::nat) \<Longrightarrow> b div 16 < 16"
  by presburger

lemma unescape_dump_char:
  assumes "b < 128"
  shows "unescape (dump_char b @ rest) = bindE (unescape rest) (\<lambda>r. Inr (b # r))"
proof -
  consider (plain) "dump_char b = [b]" "32 \<le> b" "b \<noteq> 34" "b \<noteq> 92"
    | (short) e where "dump_char b = [92, e]" "e \<noteq> 117" "simple_escape e = Some b"
    | (long) "dump_char b = [92, 117, 48, 48, hex_char (b div 16), hex_char (b mod 16)]"
    using dump_char_cases [OF assms] by blast
  then show ?thesis
  proof cases
    case long
    have "hex_digit (hex_char (b div 16)) = Some (b div 16)" "hex_digit (hex_char (b mod 16)) = Some (b mod 16)"
      using assms by (auto intro!: hex_digit_char nibble)
    moreover have "hex_digit 48 = Some 0" by (simp add: hex_digit_def)
    moreover have "55296 \<le> b \<longleftrightarrow> False" using assms by simp
    ultimately have "unescape (dump_char b @ rest) = bindE (unescape rest) (\<lambda>r. Inr (utf8_encode b @ r))"
      unfolding long by simp
    also have "utf8_encode b = [b]" using assms by (simp add: utf8_encode_def)
    finally show ?thesis by (simp only: append.simps)
  qed (use assms in simp_all)
qed

lemma unescape_dump: "ascii s \<Longrightarrow> unescape (concat (map dump_char s)) = Inr s"
  by (induction s) (simp_all add: unescape_dump_char)

lemma dump_char_ascii: "b < 128 \<Longrightarrow> ascii (dump_char b)"
  using dump_char_cases [of b] hex_char_bound [OF nibble, of b] hex_char_bound [of "b mod 16"] by auto

lemma string_loop_dump_char:
  assumes "b < 128"
  shows "string_loop (dump_char b @ rest) = string_loop rest"
  using dump_char_cases [OF assms] hex_char_bound [OF nibble [OF assms]] hex_char_bound [of "b mod 16"] assms by auto

lemma string_loop_dump: "ascii s \<Longrightarrow> string_loop (concat (map dump_char s) @ 34 # rest) = Inr rest"
  by (induction s) (simp_all add: string_loop_dump_char)

lemma skip_string_dump: "ascii s \<Longrightarrow> skip_string (dump_string s @ rest) = Inr rest"
  by (simp add: skip_string_def dump_string_def string_loop_dump)

lemma utf8_valid_ascii: "ascii s \<Longrightarrow> utf8_valid sp s"
  by (induction s) auto

lemma parse_string_dump: "ascii s \<Longrightarrow> parse_string (dump_string s @ rest) = Inr (s, rest)"
proof -
  assume a: "ascii s"
  have c: "ascii (concat (map dump_char s))" using a dump_char_ascii by auto
  show ?thesis
    unfolding parse_string_def skip_string_dump [OF a]
    using a c by (simp add: dump_string_def loads_string_def utf8_valid_ascii unescape_dump)
qed

section \<open>The scanner reads what \<open>json.dumps\<close> writes\<close>

text \<open>What can follow a value in such a text.\<close>

definition follows :: "bytes \<Rightarrow> bool" where
  "follows bs \<longleftrightarrow> ascii bs \<and> (\<exists>b r. bs = b # r \<and> b \<in> {44, 93, 125})"

lemma bytes_of_digits: "b \<in> set (bytes_of (digits n)) \<Longrightarrow> is_digit b"
  unfolding bytes_of_def is_digit_def using digits_chars by force

lemma digits_not_Nil: "digits n \<noteq> []"
  by (subst digits.simps) simp

lemma digits_hd_zero: "of_char (hd (digits n)) = (48 :: nat) \<Longrightarrow> n = 0"
proof (induction n rule: digits.induct)
  case (1 n)
  show ?case
  proof (cases "n < 10")
    case True
    with 1(2) have "of_char (char_of (48 + n) :: char) = (48 :: nat)" by (subst (asm) digits.simps) simp
    with True show ?thesis by simp
  next
    case False
    then have "hd (digits n) = hd (digits (n div 10))"
      by (subst digits.simps) (simp add: digits_not_Nil)
    with 1 False show ?thesis by simp
  qed
qed

lemma digit_run_append:
  assumes "\<forall>b \<in> set ds. is_digit b" "rest = [] \<or> \<not> is_digit (hd rest)"
  shows "digit_run (ds @ rest) = length ds"
  using assms by (cases rest) (auto simp: digit_run_def takeWhile_append takeWhile_eq_all_conv [THEN iffD2])

lemma raw_decode_digits:
  assumes "rest = [] \<or> hd rest \<in> {44, 93, 125}"
  shows "raw_decode_number (bytes_of (decimal i) @ rest) = Some (length (decimal i))"
proof -
  have nat: "integer_part (bytes_of (digits n) @ rest) = Some (length (digits n))
    \<and> take 1 (bytes_of (digits n) @ rest) \<noteq> bytes_of ''-''" for n
  proof -
    obtain d ds where ds: "bytes_of (digits n) = d # ds"
      using digits_not_Nil [of n] by (cases "bytes_of (digits n)") (auto simp: bytes_of_def)
    have all: "\<forall>b \<in> set (d # ds). is_digit b" using bytes_of_digits [of _ n] unfolding ds by blast
    have len: "length (digits n) = Suc (length ds)" using arg_cong [OF ds, of length] by (simp add: bytes_of_def)
    have zero: "ds = []" if "d = 48"
    proof -
      have "of_char (hd (digits n)) = (48 :: nat)"
        using ds that digits_not_Nil [of n] by (cases "digits n") (auto simp: bytes_of_def)
      then have "n = 0" by (rule digits_hd_zero)
      then show ?thesis using ds by (simp add: bytes_of_def digits.simps)
    qed
    have "digit_run (ds @ rest) = length ds"
      by (rule digit_run_append) (use all assms in \<open>auto simp: is_digit_def\<close>)
    then show ?thesis
      using all len zero ds by (auto simp: integer_part_def bytes_of_def is_digit_def)
  qed
  have tail: "fraction_part rest = 0" "exponent_part rest = 0"
    using assms by (auto simp: fraction_part_def exponent_part_def split: list.splits)
  show ?thesis
  proof (cases "i < 0")
    case True
    define n where "n = nat (- i)"
    have "bytes_of (decimal i) = bytes_of ''-'' @ bytes_of (digits n)" "length (decimal i) = Suc (length (digits n))"
      using True by (simp_all add: decimal_def bytes_of_def n_def)
    then show ?thesis
      using nat [of n] tail by (simp add: raw_decode_number_def Let_def bytes_of_def)
  next
    case False
    define n where "n = nat i"
    have "decimal i = digits n" using False by (simp add: decimal_def n_def)
    then show ?thesis
      using nat [of n] tail by (simp add: raw_decode_number_def Let_def bytes_of_def)
  qed
qed

lemma follows_parts: "follows bs \<Longrightarrow> ascii bs" "follows bs \<Longrightarrow> hd bs \<in> {44, 93, 125}" "follows bs \<Longrightarrow> bs \<noteq> []"
  unfolding follows_def by auto

lemma follows_take: "follows bs \<Longrightarrow> take n bs = [] \<or> hd (take n bs) \<in> {44, 93, 125}"
  unfolding follows_def by (cases n) auto

lemma decimal_ascii: "ascii (bytes_of (decimal i))"
  unfolding bytes_of_def using decimal_chars [of _ i] by fastforce

lemma skip_number_dump:
  assumes "length (decimal i) \<le> 127" "follows rest"
  shows "skip_number (bytes_of (decimal i) @ rest) = Inr rest"
proof -
  have len: "length (bytes_of (decimal i)) = length (decimal i)" by (simp add: bytes_of_def)
  define w where "w = take (128 - length (decimal i)) rest"
  have win: "take 128 (bytes_of (decimal i) @ rest) = bytes_of (decimal i) @ w"
    unfolding w_def using assms(1) by (simp add: len)
  have "ascii w" unfolding w_def using follows_parts(1) [OF assms(2)] by (meson in_set_takeD)
  then have "utf8_valid False (bytes_of (decimal i) @ w)"
    using decimal_ascii [of i] by (intro utf8_valid_ascii) auto
  moreover have "raw_decode_number (bytes_of (decimal i) @ w) = Some (length (decimal i))"
    by (rule raw_decode_digits) (unfold w_def, rule follows_take [OF assms(2)])
  ultimately show ?thesis unfolding skip_number_def win by (simp add: len)
qed

lemma decimal_first: "\<exists>b t. bytes_of (decimal i) = b # t \<and> (b = 45 \<or> is_digit b)"
proof -
  obtain c cs where d: "digits n = c # cs" "48 \<le> (of_char c :: nat)" "(of_char c :: nat) \<le> 57" if "n = nat \<bar>i\<bar>" for n
    using digits_not_Nil [of "nat \<bar>i\<bar>"] digits_chars [of _ "nat \<bar>i\<bar>"]
    by (cases "digits (nat \<bar>i\<bar>)") auto
  show ?thesis
  proof (cases "i < 0")
    case True
    then show ?thesis by (simp add: decimal_def bytes_of_def)
  next
    case False
    then show ?thesis using d [of "nat i"] by (auto simp: decimal_def bytes_of_def is_digit_def)
  qed
qed

lemma skip_ws_other: "\<not> is_ws b \<Longrightarrow> skip_ws (b # bs) = b # bs"
  by (simp add: skip_ws_def)

lemma skip_ws_space: "skip_ws (32 # bs) = skip_ws bs"
  by (simp add: skip_ws_def is_ws_def)

lemma skip_ws_idem: "skip_ws (skip_ws bs) = skip_ws bs"
  by (simp add: skip_ws_def)

lemma skip_value_skip_ws: "skip_value dp n (skip_ws bs) = skip_value dp n bs"
  by (cases n) (simp_all add: skip_ws_idem)

lemma skip_ws_follows: "follows bs \<Longrightarrow> skip_ws bs = bs"
  unfolding follows_def by (auto simp: skip_ws_def is_ws_def)

lemma dump_first: "\<exists>b t. dump v = b # t \<and> \<not> is_ws b \<and> b \<notin> {93, 125}"
proof (cases v)
  case (JInt i)
  then show ?thesis using decimal_first [of i] by (auto simp: is_ws_def is_digit_def)
qed (auto simp: bytes_of_def dump_string_def is_ws_def)

lemma dump_items_first:
  assumes "vs \<noteq> []"
  shows "\<exists>b t. dump_items vs = b # t \<and> \<not> is_ws b \<and> b \<notin> {93, 125}"
proof -
  from assms obtain v vs' where vs: "vs = v # vs'" by (cases vs) auto
  from dump_first [of v] obtain b t where "dump v = b # t" "\<not> is_ws b" "b \<notin> {93, 125}" by blast
  then show ?thesis unfolding vs by simp
qed

lemma dump_members_first: "ms \<noteq> [] \<Longrightarrow> \<exists>t. dump_members ms = 34 # t"
  by (cases ms) (auto simp: dump_string_def)

lemma skip_ws_dump: "skip_ws (dump v @ r) = dump v @ r"
  using dump_first [of v] by (auto simp: skip_ws_other)

lemma skip_ws_dump_string: "skip_ws (dump_string k @ r) = dump_string k @ r"
  by (simp add: dump_string_def skip_ws_other is_ws_def)

text \<open>Texts of plain values are ASCII.\<close>

lemma dump_string_ascii: "ascii s \<Longrightarrow> ascii (dump_string s)"
  using dump_char_ascii by (auto simp: dump_string_def)

lemma dump_ascii:
  "plain dp v \<Longrightarrow> ascii (dump v)"
  "\<forall>v \<in> set vs. plain dp v \<Longrightarrow> ascii (dump_items vs)"
  "\<forall>(k, v) \<in> set ms. ascii k \<and> plain dp v \<Longrightarrow> ascii (dump_members ms)"
proof (induction v and vs and ms arbitrary: dp and dp and dp rule: dump_dump_items_dump_members.induct)
  case (3 i)
  then show ?case using decimal_ascii by simp
next
  case (4 s)
  then show ?case using dump_string_ascii [of s] by simp
next
  case (10 k v ms)
  then show ?case using dump_string_ascii [of k] by (auto simp: bytes_of_def)
qed (auto simp: bytes_of_def)

lemma skip_value_space: "skip_value dp n (32 # bs) = skip_value dp n bs"
  by (cases n) (simp_all add: skip_ws_space)

lemma array_loop_space: "array_loop dp n (32 # bs) = array_loop dp n bs"
  by (cases n) (simp_all add: skip_value_space)

lemma object_loop_space: "object_loop dp n (32 # bs) = object_loop dp n bs"
  by (cases n) (simp_all add: skip_ws_space)

lemma followsI: "ascii bs \<Longrightarrow> b \<in> {44, 93, 125} \<Longrightarrow> follows (b # bs)"
  unfolding follows_def by auto

lemma comma_space: "bytes_of '', '' @ bs = 44 # 32 # bs"
  by (simp add: bytes_of_def)

lemma colon_space: "bytes_of '': '' @ bs = 58 # 32 # bs"
  by (simp add: bytes_of_def)

lemma skip_number_first:
  assumes "b = 45 \<or> is_digit b"
  shows "skip_value dp (Suc n) (b # bs) = Some (skip_number (b # bs))"
  using assms by (auto simp: skip_ws_other is_ws_def is_digit_def starts_with_def bytes_of_def)

lemma skip_dump:
  "plain dp v \<Longrightarrow> follows rest \<Longrightarrow> \<exists>n. skip_value dp n (dump v @ rest) = Some (Inr rest)"
  "vs \<noteq> [] \<Longrightarrow> \<forall>v \<in> set vs. plain dp v \<Longrightarrow> ascii rest \<Longrightarrow> \<exists>n. array_loop dp n (dump_items vs @ 93 # rest) = Some (Inr rest)"
  "ms \<noteq> [] \<Longrightarrow> \<forall>(k, v) \<in> set ms. ascii k \<and> plain dp v \<Longrightarrow> ascii rest \<Longrightarrow>
     \<exists>n. object_loop dp n (dump_members ms @ 125 # rest) = Some (Inr rest)"
proof (induction v and vs and ms arbitrary: dp rest and dp rest and dp rest rule: dump_dump_items_dump_members.induct)
  case 1
  have "skip_value dp 1 (dump JNull @ rest) = Some (Inr rest)"
    by (simp add: bytes_of_def skip_ws_other is_ws_def starts_with_def)
  then show ?case by blast
next
  case (2 b)
  have "skip_value dp 1 (dump (JBool b) @ rest) = Some (Inr rest)"
    by (simp add: bytes_of_def skip_ws_other is_ws_def starts_with_def)
  then show ?case by blast
next
  case (3 i)
  obtain b t where b: "bytes_of (decimal i) = b # t" "b = 45 \<or> is_digit b" using decimal_first by blast
  have "skip_value dp 1 (dump (JInt i) @ rest) = Some (skip_number (bytes_of (decimal i) @ rest))"
    using skip_number_first [OF b(2), of dp 0 "t @ rest"] b(1) by simp
  also have "skip_number (bytes_of (decimal i) @ rest) = Inr rest"
    by (rule skip_number_dump) (use 3 in simp_all)
  finally show ?case by blast
next
  case (4 s)
  have "skip_value dp 1 (dump (JStr s) @ rest) = Some (skip_string (dump_string s @ rest))"
    by (simp add: dump_string_def skip_ws_other is_ws_def)
  also have "skip_string (dump_string s @ rest) = Inr rest"
    by (rule skip_string_dump) (use 4 in simp)
  finally show ?case by blast
next
  case (5 vs)
  note asc = follows_parts(1) [OF 5(3)]
  show ?case
  proof (cases "vs = []")
    case True
    then have "skip_value dp 1 (dump (JArr vs) @ rest) = Some (Inr rest)"
      using 5(2) by (simp add: skip_ws_other is_ws_def)
    then show ?thesis by blast
  next
    case False
    then obtain b t where b: "dump_items vs = b # t" "\<not> is_ws b" "b \<notin> {93, 125}"
      using dump_items_first by blast
    from 5(1) [OF False _ asc] 5(2) obtain n where n: "array_loop (dp - 1) n (dump_items vs @ 93 # rest) = Some (Inr rest)"
      by auto
    have "skip_value dp (Suc n) (dump (JArr vs) @ rest) = array_loop (dp - 1) n (dump_items vs @ 93 # rest)"
      using b 5(2) by (simp add: skip_ws_other is_ws_def)
    with n show ?thesis by metis
  qed
next
  case (6 ms)
  note asc = follows_parts(1) [OF 6(3)]
  show ?case
  proof (cases "ms = []")
    case True
    then have "skip_value dp 1 (dump (JObj ms) @ rest) = Some (Inr rest)"
      using 6(2) by (simp add: skip_ws_other is_ws_def)
    then show ?thesis by blast
  next
    case False
    then obtain t where b: "dump_members ms = 34 # t" using dump_members_first by blast
    from 6(1) [OF False _ asc, of "dp - 1"] 6(2) obtain n where n: "object_loop (dp - 1) n (dump_members ms @ 125 # rest) = Some (Inr rest)"
      by auto
    have "skip_value dp (Suc n) (dump (JObj ms) @ rest) = object_loop (dp - 1) n (dump_members ms @ 125 # rest)"
      using b 6(2) by (simp add: skip_ws_other is_ws_def)
    with n show ?thesis by metis
  qed
next
  case (8 v vs)
  let ?tail = "(if vs = [] then [] else bytes_of '', '' @ dump_items vs) @ 93 # rest"
  have "ascii (dump_items vs)" by (rule dump_ascii(2) [of _ dp]) (use 8(4) in simp)
  then have "follows ?tail"
    using 8(5) by (auto simp: comma_space intro!: followsI)
  then obtain n1 where n1: "skip_value dp n1 (dump v @ ?tail) = Some (Inr ?tail)"
    using 8(1) [of dp ?tail] 8(4) by auto
  show ?case
  proof (cases "vs = []")
    case True
    with n1 have "array_loop dp (Suc n1) (dump_items (v # vs) @ 93 # rest) = Some (Inr rest)"
      by (simp add: skip_ws_other is_ws_def)
    then show ?thesis by blast
  next
    case False
    then obtain n2 where n2: "array_loop dp n2 (dump_items vs @ 93 # rest) = Some (Inr rest)"
      using 8(2) [OF False False _ 8(5), of dp] 8(4) by auto
    have a: "skip_value dp (max n1 n2) (dump v @ 44 # 32 # dump_items vs @ 93 # rest) = Some (Inr (44 # 32 # dump_items vs @ 93 # rest))"
      using skip_more(1) [OF n1, of "max n1 n2"] False by (simp add: comma_space)
    have b: "array_loop dp (max n1 n2) (32 # dump_items vs @ 93 # rest) = Some (Inr rest)"
      unfolding array_loop_space by (rule skip_more(3) [OF n2]) simp
    have "array_loop dp (Suc (max n1 n2)) (dump_items (v # vs) @ 93 # rest) = Some (Inr rest)"
      using a b False by (simp add: skip_ws_other is_ws_def comma_space)
    then show ?thesis by blast
  qed
next
  case (10 k v ms)
  let ?tail = "(if ms = [] then [] else bytes_of '', '' @ dump_members ms) @ 125 # rest"
  have "ascii (dump_members ms)" by (rule dump_ascii(3) [of _ dp]) (use 10(4) in simp)
  then have "follows ?tail"
    using 10(5) by (auto simp: comma_space intro!: followsI)
  then obtain n1 where n1: "skip_value dp n1 (dump v @ ?tail) = Some (Inr ?tail)"
    using 10(1) [of dp ?tail] 10(4) by auto
  have key: "skip_string (skip_ws (dump_string k @ bs)) = Inr bs" for bs
    using 10(4) by (simp add: skip_ws_dump_string skip_string_dump)
  show ?case
  proof (cases "ms = []")
    case True
    with n1 key have "object_loop dp (Suc n1) (dump_members ((k, v) # ms) @ 125 # rest) = Some (Inr rest)"
      by (simp add: skip_ws_other is_ws_def colon_space skip_value_space)
    then show ?thesis by blast
  next
    case False
    then obtain n2 where n2: "object_loop dp n2 (dump_members ms @ 125 # rest) = Some (Inr rest)"
      using 10(2) [OF False False _ 10(5), of dp] 10(4) by auto
    have a: "skip_value dp (max n1 n2) (32 # dump v @ 44 # 32 # dump_members ms @ 125 # rest)
        = Some (Inr (44 # 32 # dump_members ms @ 125 # rest))"
      using skip_more(1) [OF n1, of "max n1 n2"] False by (simp add: comma_space skip_value_space)
    have b: "object_loop dp (max n1 n2) (32 # dump_members ms @ 125 # rest) = Some (Inr rest)"
      unfolding object_loop_space by (rule skip_more(2) [OF n2]) simp
    have "object_loop dp (Suc (max n1 n2)) (dump_members ((k, v) # ms) @ 125 # rest) = Some (Inr rest)"
      using a b False key by (simp add: skip_ws_other is_ws_def comma_space colon_space)
    then show ?thesis by blast
  qed
qed simp_all

text \<open>What one member of the object does to the metadata.\<close>

definition string_or_none :: "json option \<Rightarrow> bytes option" where
  "string_or_none v = (case v of Some (JStr s) \<Rightarrow> if s \<noteq> [] then Some s else None | _ \<Rightarrow> None)"

definition bool_or_none :: "json option \<Rightarrow> bool option" where
  "bool_or_none v = (case v of Some (JBool b) \<Rightarrow> Some b | _ \<Rightarrow> None)"

definition or_else :: "'a option \<Rightarrow> 'a option \<Rightarrow> 'a option" where
  "or_else x y = (case x of Some a \<Rightarrow> Some a | None \<Rightarrow> y)"

definition absorb :: "large_metadata \<Rightarrow> bytes \<Rightarrow> json \<Rightarrow> large_metadata" where
  "absorb m k v =
     (if k = bytes_of ''stream'' then m\<lparr>lm_stream := or_else (bool_or_none (Some v)) (lm_stream m)\<rparr>
      else if k = bytes_of ''model'' then m\<lparr>lm_model := or_else (string_or_none (Some v)) (lm_model m)\<rparr>
      else if k = bytes_of ''request_id'' then m\<lparr>lm_request_id := or_else (string_or_none (Some v)) (lm_request_id m)\<rparr>
      else m)"

lemma metadata_keys_distinct:
  "bytes_of ''stream'' \<noteq> bytes_of ''model''" "bytes_of ''model'' \<noteq> bytes_of ''stream''"
  "bytes_of ''stream'' \<noteq> bytes_of ''request_id''" "bytes_of ''request_id'' \<noteq> bytes_of ''stream''"
  "bytes_of ''model'' \<noteq> bytes_of ''request_id''" "bytes_of ''request_id'' \<noteq> bytes_of ''model''"
  by (simp_all add: bytes_of_def)

lemma starts_with_true: "starts_with ''true'' (dump v @ r) \<longleftrightarrow> v = JBool True"
proof (cases v)
  case (JInt i)
  then show ?thesis using decimal_first [of i] by (auto simp: starts_with_def bytes_of_def is_digit_def)
qed (auto simp: starts_with_def bytes_of_def dump_string_def)

lemma starts_with_false: "starts_with ''false'' (dump v @ r) \<longleftrightarrow> v = JBool False"
proof (cases v)
  case (JInt i)
  then show ?thesis using decimal_first [of i] by (auto simp: starts_with_def bytes_of_def is_digit_def)
qed (auto simp: starts_with_def bytes_of_def dump_string_def)

lemma starts_with_quote: "take 1 (dump v @ r) = [34] \<longleftrightarrow> (\<exists>s. v = JStr s)"
proof (cases v)
  case (JInt i)
  then show ?thesis using decimal_first [of i] by (auto simp: is_digit_def)
qed (auto simp: bytes_of_def dump_string_def)

lemma read_stream_dump:
  assumes "plain dp v" "follows rest"
  shows "\<exists>n. read_metadata_value dp n m (bytes_of ''stream'') (dump v @ rest) = Some (Inr (absorb m (bytes_of ''stream'') v, rest))"
proof (cases "\<exists>b. v = JBool b")
  case True
  then obtain b where b: "v = JBool b" by blast
  have "read_metadata_value dp 0 m (bytes_of ''stream'') (dump v @ rest) = Some (Inr (absorb m (bytes_of ''stream'') v, rest))"
    unfolding b
    by (cases b) (simp_all add: read_metadata_value_def starts_with_def bytes_of_def absorb_def or_else_def bool_or_none_def)
  then show ?thesis by blast
next
  case False
  obtain n where "skip_value dp n (dump v @ rest) = Some (Inr rest)" using skip_dump(1) [OF assms] by blast
  then have "read_metadata_value dp n m (bytes_of ''stream'') (dump v @ rest) = Some (Inr (m, rest))"
    using False by (auto simp: read_metadata_value_def starts_with_true starts_with_false)
  moreover have "absorb m (bytes_of ''stream'') v = m"
    using False by (auto simp: absorb_def or_else_def bool_or_none_def split: json.splits)
  ultimately show ?thesis by auto
qed

lemma read_string_dump:
  assumes "plain dp v" "follows rest" "k = bytes_of ''model'' \<or> k = bytes_of ''request_id''"
  shows "\<exists>n. read_metadata_value dp n m k (dump v @ rest) = Some (Inr (absorb m k v, rest))"
proof (cases "\<exists>s. v = JStr s")
  case True
  then obtain s where s: "v = JStr s" by blast
  then have "parse_string (dump v @ rest) = Inr (s, rest)" using assms(1) by (simp add: parse_string_dump)
  then have "read_metadata_value dp 0 m k (dump v @ rest) = Some (Inr (absorb m k v, rest))"
    using assms(3) starts_with_quote [of v rest] s
    by (auto simp: read_metadata_value_def absorb_def or_else_def string_or_none_def metadata_keys_distinct)
  then show ?thesis by blast
next
  case False
  obtain n where "skip_value dp n (dump v @ rest) = Some (Inr rest)" using skip_dump(1) [OF assms(1,2)] by blast
  then have "read_metadata_value dp n m k (dump v @ rest) = Some (Inr (m, rest))"
    using False assms(3) starts_with_quote [of v rest] by (auto simp: read_metadata_value_def metadata_keys_distinct)
  moreover have "absorb m k v = m"
    using False assms(3) by (auto simp: absorb_def or_else_def string_or_none_def metadata_keys_distinct split: json.splits)
  ultimately show ?thesis by auto
qed

lemma member_dump:
  assumes "plain dp v" "follows rest"
  shows "\<exists>n. member_value dp n m k (32 # dump v @ rest) = Some (Inr (absorb m k v, rest))"
proof -
  consider "k = bytes_of ''stream''" | "k = bytes_of ''model'' \<or> k = bytes_of ''request_id''" | "k \<notin> set metadata_keys"
    by (auto simp: metadata_keys_def)
  then show ?thesis
  proof cases
    case 1
    then show ?thesis using read_stream_dump [OF assms, of m]
      by (simp add: member_value_def metadata_keys_def skip_ws_space skip_ws_dump)
  next
    case 2
    then show ?thesis using read_string_dump [OF assms 2, of m]
      by (auto simp: member_value_def metadata_keys_def skip_ws_space skip_ws_dump)
  next
    case 3
    obtain n where "skip_value dp n (dump v @ rest) = Some (Inr rest)" using skip_dump(1) [OF assms] by blast
    with 3 have "member_value dp n m k (32 # dump v @ rest) = Some (Inr (absorb m k v, rest))"
      by (simp add: member_value_def skip_ws_space skip_ws_dump absorb_def metadata_keys_def)
    then show ?thesis by blast
  qed
qed

fun absorb_all :: "large_metadata \<Rightarrow> (bytes \<times> json) list \<Rightarrow> large_metadata" where
  "absorb_all m [] = m"
| "absorb_all m ((k, v) # ms) = absorb_all (absorb m k v) ms"

lemma top_loop_space: "top_loop dp n m (32 # bs) = top_loop dp n m bs"
  by (cases n) (simp_all add: skip_ws_space)

lemma top_dump:
  "ms \<noteq> [] \<Longrightarrow> \<forall>(k, v) \<in> set ms. ascii k \<and> plain dp v \<Longrightarrow>
     \<exists>n. top_loop dp n m (dump_members ms @ [125]) = Some (Inr (absorb_all m ms))"
proof (induction ms arbitrary: m)
  case (Cons kv ms)
  obtain k v where kv: "kv = (k, v)" by (cases kv)
  let ?tail = "(if ms = [] then [] else bytes_of '', '' @ dump_members ms) @ [125]"
  have "ascii (dump_members ms)" by (rule dump_ascii(3) [of _ dp]) (use Cons.prems in simp)
  then have "follows ?tail" by (auto simp: comma_space intro!: followsI)
  then obtain n1 where n1: "member_value dp n1 m k (32 # dump v @ ?tail) = Some (Inr (absorb m k v, ?tail))"
    using member_dump [of dp v ?tail m k] Cons.prems kv by auto
  have key: "parse_string (skip_ws (dump_string k @ bs)) = Inr (k, bs)" for bs
    using Cons.prems kv by (simp add: skip_ws_dump_string parse_string_dump)
  show ?case
  proof (cases "ms = []")
    case True
    with n1 key have "top_loop dp (Suc n1) m (dump_members (kv # ms) @ [125]) = Some (Inr (absorb_all m (kv # ms)))"
      by (simp add: kv skip_ws_other is_ws_def colon_space) (simp add: skip_ws_def)
    then show ?thesis by blast
  next
    case False
    have "\<forall>(k, v) \<in> set ms. ascii k \<and> plain dp v" using Cons.prems(2) by simp
    from Cons.IH [OF False this, of "absorb m k v"]
    obtain n2 where n2: "top_loop dp n2 (absorb m k v) (dump_members ms @ [125]) = Some (Inr (absorb_all (absorb m k v) ms))"
      by blast
    have a: "member_value dp (max n1 n2) m k (32 # dump v @ 44 # 32 # dump_members ms @ [125])
        = Some (Inr (absorb m k v, 44 # 32 # dump_members ms @ [125]))"
      using member_value_more [OF n1, of "max n1 n2"] False by (simp add: comma_space)
    have b: "top_loop dp (max n1 n2) (absorb m k v) (32 # dump_members ms @ [125]) = Some (Inr (absorb_all (absorb m k v) ms))"
      unfolding top_loop_space by (rule top_loop_more [OF n2]) simp
    have "top_loop dp (Suc (max n1 n2)) m (dump_members (kv # ms) @ [125]) = Some (Inr (absorb_all m (kv # ms)))"
      using a b False key by (simp add: kv skip_ws_other is_ws_def comma_space colon_space)
    then show ?thesis by blast
  qed
qed simp

lemma absorb_fields:
  "lm_stream (absorb m k v) = (if k = bytes_of ''stream'' then or_else (bool_or_none (Some v)) (lm_stream m) else lm_stream m)"
  "lm_model (absorb m k v) = (if k = bytes_of ''model'' then or_else (string_or_none (Some v)) (lm_model m) else lm_model m)"
  "lm_request_id (absorb m k v) =
     (if k = bytes_of ''request_id'' then or_else (string_or_none (Some v)) (lm_request_id m) else lm_request_id m)"
  by (auto simp: absorb_def metadata_keys_distinct)

lemma or_else_None [simp]: "or_else None y = y" "or_else x None = x"
  by (auto simp: or_else_def split: option.splits)

lemma none_values [simp]: "bool_or_none None = None" "string_or_none None = None"
  by (simp_all add: bool_or_none_def string_or_none_def)

lemma absorb_all_fields:
  "distinct (map fst ms) \<Longrightarrow>
     lm_stream (absorb_all m ms) = or_else (bool_or_none (map_of ms (bytes_of ''stream''))) (lm_stream m)
   \<and> lm_model (absorb_all m ms) = or_else (string_or_none (map_of ms (bytes_of ''model''))) (lm_model m)
   \<and> lm_request_id (absorb_all m ms) = or_else (string_or_none (map_of ms (bytes_of ''request_id''))) (lm_request_id m)"
proof (induction m ms rule: absorb_all.induct)
  case (2 m k v ms)
  then have "map_of ms k = None" by (auto simp: map_of_eq_None_iff)
  with 2 show ?case by (auto simp: absorb_fields)
qed simp

text \<open>
  C23: On the text \<open>json.dumps\<close> writes for an object of distinct keys whose strings are ASCII, whose
  numbers are integers of at most 127 characters and which nests no deeper than the interpreter's stack
  allows, the scanner finds what the parser would: the string of \<open>model\<close> and of \<open>request_id\<close> if it is
  not empty, and the flag \<open>stream\<close>. (Floats, other characters and deeper nesting are outside the
  statement; on a longer number the scanner fails where the parser succeeds.)
\<close>

theorem scanner_agrees_with_parser:
  assumes "plain (Suc dp) (JObj ms)" "distinct (map fst ms)"
  shows "scan_large_json_metadata dp (dump (JObj ms)) = Inr
    \<lparr>lm_request_id = string_or_none (map_of ms (bytes_of ''request_id'')),
     lm_model = string_or_none (map_of ms (bytes_of ''model'')),
     lm_stream = bool_or_none (map_of ms (bytes_of ''stream''))\<rparr>"
proof -
  let ?body = "dump (JObj ms)"
  have "\<exists>n. scan_metadata_fuel dp n ?body = Some (Inr (absorb_all no_metadata ms))"
  proof (cases "ms = []")
    case True
    then have "scan_metadata_fuel dp 0 ?body = Some (Inr (absorb_all no_metadata ms))"
      by (simp add: scan_metadata_fuel_def skip_ws_def is_ws_def)
    then show ?thesis by blast
  next
    case False
    then obtain n where n: "top_loop dp n no_metadata (dump_members ms @ [125]) = Some (Inr (absorb_all no_metadata ms))"
      using top_dump [OF False, of dp no_metadata] assms(1) by auto
    obtain t where t: "dump_members ms = 34 # t" using dump_members_first [OF False] by blast
    have "scan_metadata_fuel dp n ?body = Some (Inr (absorb_all no_metadata ms))"
      using n t by (simp add: scan_metadata_fuel_def skip_ws_other is_ws_def)
    then show ?thesis by blast
  qed
  then obtain n where n: "scan_metadata_fuel dp n ?body = Some (Inr (absorb_all no_metadata ms))" by blast
  obtain r where r: "scan_metadata_fuel dp (2 * length ?body + 1) ?body = Some r"
    using scan_enough [of ?body "2 * length ?body + 1" dp] by auto
  have "r = Inr (absorb_all no_metadata ms)"
    using scan_more [OF n, of "max n (2 * length ?body + 1)"] scan_more [OF r, of "max n (2 * length ?body + 1)"] by simp
  then have "scan_large_json_metadata dp ?body = Inr (absorb_all no_metadata ms)"
    using r by (simp only: scan_large_json_metadata_def option.case sum.case)
  with absorb_all_fields [OF assms(2), of no_metadata] show ?thesis
    by (cases "absorb_all no_metadata ms") (simp add: no_metadata_def)
qed

definition demo_members :: "(bytes \<times> json) list" where
  "demo_members =
     [(bytes_of ''input'', JArr [JStr (bytes_of ''say hi''), JObj [(bytes_of ''model'', JNull)], JInt (-12)]),
      (bytes_of ''model'', JStr (bytes_of ''tts'')), (bytes_of ''stream'', JBool True)]"

lemma scanner_agrees_with_parser_witness:
  "scan_large_json_metadata 2 (dump (JObj demo_members)) = Inr
    \<lparr>lm_request_id = None, lm_model = Some (bytes_of ''tts''), lm_stream = Some True\<rparr>"
proof -
  have "plain (Suc 2) (JObj demo_members)" "distinct (map fst demo_members)"
    by (simp_all add: demo_members_def bytes_of_def decimal_def digits.simps)
  from scanner_agrees_with_parser [OF this] show ?thesis
    by (simp add: demo_members_def bytes_of_def string_or_none_def bool_or_none_def)
qed

section \<open>The window of a number\<close>

text \<open>
  \<open>{"a": 1, "b": "xx..x\<close> with \<open>p\<close> letters: the window \<open>_skip_number\<close> decodes for the \<open>1\<close> ends 128 bytes
  later.
\<close>

definition open_body :: "nat \<Rightarrow> bytes" where
  "open_body p = bytes_of ''{'' @ dump_string (bytes_of ''a'') @ bytes_of '': 1, '' @
     dump_string (bytes_of ''b'') @ bytes_of '': '' @ 34 # replicate p 120"

lemma open_body_parts: "open_body p = 123 # 34 # 97 # 34 # 58 # 32 # 49 # 44 # 32 # 34 # 98 # 34 # 58 # 32 # 34 # replicate p 120"
  by (simp add: open_body_def dump_string_def dump_char_def bytes_of_def)

lemma parse_key_a: "parse_string (34 # 97 # 34 # bs) = Inr ([97], bs)"
  using parse_string_dump [of "[97]" bs] by (simp add: dump_string_def dump_char_def)

lemma member_value_other:
  assumes "k \<notin> set metadata_keys"
  shows "member_value dp n m k bs = (case skip_value dp n bs of None \<Rightarrow> None | Some r \<Rightarrow> lift_err r (\<lambda>bs. Some (Inr (m, bs))))"
  using assms by (simp add: member_value_def skip_value_skip_ws)

lemma other_keys: "[97] \<notin> set metadata_keys" "[98] \<notin> set metadata_keys"
  by (simp_all add: metadata_keys_def bytes_of_def)

lemma utf8_valid_x: "utf8_valid sp (replicate p 120 @ bs) = utf8_valid sp bs"
  by (induction p) simp_all

lemma skip_number_split:
  "skip_number (49 # 44 # 32 # 34 # 98 # 34 # 58 # 32 # 34 # replicate 118 120 @ 195 # 169 # tail)
     = Inl (ValueError ''UnicodeDecodeError'')"
proof -
  let ?bs = "49 # 44 # 32 # 34 # 98 # 34 # 58 # 32 # 34 # replicate 118 120 @ 195 # 169 # tail"
  have "take 128 ?bs = [49, 44, 32, 34, 98, 34, 58, 32, 34] @ replicate 118 120 @ [195]"
    by (simp add: take_Cons')
  then have "\<not> utf8_valid False (take 128 ?bs)" by (simp add: utf8_valid_x)
  then show ?thesis by (simp add: skip_number_def)
qed

text \<open>
  A number whose window ends inside a multi-byte character makes the scanner reject a body that the
  parser would read: with 118 letters before the character it fails whatever follows, with 117 it does not.
\<close>

theorem number_window_splits_character:
  "scan_large_json_metadata dp (open_body 118 @ 195 # 169 # tail) = Inl (ValueError ''invalid JSON body'')
   \<and> scan_large_json_metadata dp (open_body 117 @ 195 # 169 # bytes_of [CHR 0x22, CHR 0x7D]) = Inr no_metadata"
proof
  let ?body = "open_body 118 @ 195 # 169 # tail"
  obtain n where n: "2 * length ?body + 1 = Suc (Suc n)" by (simp add: open_body_parts)
  have "skip_value dp (Suc n) (32 # 49 # 44 # 32 # 34 # 98 # 34 # 58 # 32 # 34 # replicate 118 120 @ 195 # 169 # tail)
      = Some (Inl (ValueError ''UnicodeDecodeError''))"
    unfolding skip_value_space by (subst skip_number_first) (simp_all only: is_digit_def skip_number_split, simp)
  then have "scan_metadata_fuel dp (Suc (Suc n)) ?body = Some (Inl (ValueError ''UnicodeDecodeError''))"
    by (simp add: scan_metadata_fuel_def open_body_parts skip_ws_other is_ws_def parse_key_a member_value_other other_keys
        del: replicate.simps skip_value.simps)
  then show "scan_large_json_metadata dp ?body = Inl (ValueError ''invalid JSON body'')"
    unfolding scan_large_json_metadata_def n by simp
next
  show "scan_large_json_metadata dp (open_body 117 @ 195 # 169 # bytes_of [CHR 0x22, CHR 0x7D]) = Inr no_metadata"
    by code_simp
qed

end
