(* ===== verification/Route_Metadata.thy ===== *)
theory Route_Metadata
  imports Router_Worker Json_Scanner
begin

text \<open>
  What the router reads of a request before it chooses a worker: \<open>sglang_omni_router/route_metadata.py\<close>.
  Header names are lower case, as the web framework keeps them. Every Python string is kept as its UTF-8
  bytes, a header's value too: it stands for the text the framework decodes from the wire as Latin-1, so
  a model name outside ASCII in a header never equals the same name in a body. \<open>strip\<close> and
  \<open>lower\<close> treat ASCII. \<open>json.loads\<close>, \<open>uuid.uuid4\<close> and the room on the interpreter's stack are
  arguments; the scanner of large bodies is \<open>Json_Scanner\<close>.
\<close>

section \<open>Requests and tables\<close>

record http_request =
  rq_headers :: "(string \<times> string) list"
  rq_query :: string

definition header :: "http_request \<Rightarrow> string \<Rightarrow> string option" where
  "header rq name = map_of (rq_headers rq) name"

definition capability_names :: "(string \<times> capability) list" where
  "capability_names = [(''chat'', Chat), (''speech'', Speech), (''streaming'', Streaming),
     (''image_input'', Image_Input), (''audio_input'', Audio_Input), (''video_input'', Video_Input),
     (''audio_output'', Audio_Output)]"

definition input_field_capabilities :: "(string \<times> capability) list" where
  "input_field_capabilities = [(''image'', Image_Input), (''images'', Image_Input), (''audio_inputs'', Audio_Input),
     (''audios'', Audio_Input), (''video'', Video_Input), (''videos'', Video_Input)]"

definition message_type_capabilities :: "(string \<times> capability) list" where
  "message_type_capabilities = [(''image'', Image_Input), (''image_url'', Image_Input), (''input_image'', Image_Input),
     (''audio'', Audio_Input), (''audio_url'', Audio_Input), (''input_audio'', Audio_Input),
     (''video'', Video_Input), (''video_url'', Video_Input), (''input_video'', Video_Input)]"

definition output_modality_fields :: "string list" where
  "output_modality_fields = [''modalities'', ''output_modalities'']"

definition metadata_limit_bytes :: nat where
  "metadata_limit_bytes = 1024 * 1024"

definition model_header :: string where
  "model_header = ''x-sglang-omni-route-model''"

definition stream_header :: string where
  "stream_header = ''x-sglang-omni-route-stream''"

definition capabilities_header :: string where
  "capabilities_header = ''x-sglang-omni-route-capabilities''"

record route_metadata =
  rm_request_id :: string
  rm_model :: "string option"
  rm_stream :: bool
  rm_required :: "capability set"
  rm_exceeds_limit :: bool
  rm_capabilities_header :: bool

section \<open>Headers\<close>

text \<open>\<open>a or b\<close> on optional strings.\<close>

definition or_string :: "string option \<Rightarrow> string option \<Rightarrow> string option" where
  "or_string a b = (case a of Some s \<Rightarrow> if s = [] then b else Some s | None \<Rightarrow> b)"

definition request_id_from_request :: "http_request \<Rightarrow> string option" where
  "request_id_from_request rq =
     or_string (header rq ''x-sglang-omni-request-id'')
       (or_string (header rq ''x-request-id'') (header rq ''x-correlation-id''))"

definition route_model_from_header :: "http_request \<Rightarrow> (string option \<times> bool) result" where
  "route_model_from_header rq = (case header rq model_header of
     None \<Rightarrow> Inr (None, False)
   | Some v \<Rightarrow> (if strip v = [] then Inl (ValueError (model_header @ '' must not be empty'')) else Inr (Some (strip v), True)))"

definition route_stream_from_header :: "http_request \<Rightarrow> (bool \<times> bool) result" where
  "route_stream_from_header rq = (case header rq stream_header of
     None \<Rightarrow> Inr (False, False)
   | Some v \<Rightarrow>
       (if lower (strip v) = ''true'' then Inr (True, True)
        else if lower (strip v) = ''false'' then Inr (False, True)
        else Inl (ValueError (stream_header @ '' must be true or false''))))"

definition named_capability :: "string \<Rightarrow> capability result" where
  "named_capability s = (case map_of capability_names s of
     Some c \<Rightarrow> Inr c
   | None \<Rightarrow> Inl (ValueError (capabilities_header @ '' contains unsupported capability '' @ [CHR 0x27] @ s @ [CHR 0x27])))"

definition route_capabilities_from_header :: "http_request \<Rightarrow> (capability set \<times> bool) result" where
  "route_capabilities_from_header rq = (case header rq capabilities_header of
     None \<Rightarrow> Inr ({}, False)
   | Some v \<Rightarrow>
       bindE (mapE named_capability (filter (\<lambda>s. s \<noteq> []) (map strip (split_on CHR '','' v)))) (\<lambda>cs.
       if cs = [] then Inl (ValueError (capabilities_header @ '' must not be empty''))
       else Inr (set cs, True)))"

definition is_json_request :: "http_request \<Rightarrow> bool" where
  "is_json_request rq = substring ''json'' (lower (case header rq ''content-type'' of None \<Rightarrow> [] | Some v \<Rightarrow> v))"

definition validate_body_route_headers ::
    "string option \<Rightarrow> bool \<Rightarrow> capability set \<Rightarrow> string option \<times> bool \<Rightarrow> bool \<times> bool \<Rightarrow> capability set \<times> bool \<Rightarrow> unit result" where
  "validate_body_route_headers model stream required route_model route_stream route_caps =
     bindE (guardE (\<not> (snd route_model \<and> model \<noteq> None \<and> fst route_model \<noteq> model))
       (ValueError (model_header @ '' conflicts with JSON body model''))) (\<lambda>_.
     bindE (guardE (\<not> (snd route_stream \<and> fst route_stream \<noteq> stream))
       (ValueError (stream_header @ '' conflicts with JSON body stream''))) (\<lambda>_.
     guardE (\<not> (snd route_caps \<and> \<not> fst route_caps \<subseteq> required))
       (ValueError (capabilities_header @ '' conflicts with JSON body''))))"

section \<open>What the body asks for\<close>

definition str_or_none :: "pyval \<Rightarrow> string option" where
  "str_or_none v = (case v of PStr s \<Rightarrow> if s = [] then None else Some s | _ \<Rightarrow> None)"

definition has_non_empty :: "pyval \<Rightarrow> bool" where
  "has_non_empty v = (case v of
     PNone \<Rightarrow> False | PBool b \<Rightarrow> b | PStr s \<Rightarrow> s \<noteq> [] | PList xs \<Rightarrow> xs \<noteq> [] | PDict d \<Rightarrow> d \<noteq> [] | _ \<Rightarrow> True)"

definition modalities_include_audio :: "pydict \<Rightarrow> bool" where
  "modalities_include_audio p = list_ex (\<lambda>f. case dget p f of
     PList xs \<Rightarrow> list_ex (\<lambda>x. x = PStr ''audio'') xs | _ \<Rightarrow> False) output_modality_fields"

definition speech_uses_reference_audio :: "pydict \<Rightarrow> bool" where
  "speech_uses_reference_audio p =
     (if has_non_empty (dget p ''ref_audio'') then True
      else case dget p ''references'' of
        PList rs \<Rightarrow> list_ex (\<lambda>r. case r of PDict d \<Rightarrow> has_non_empty (dget d ''audio_path'') | _ \<Rightarrow> False) rs
      | _ \<Rightarrow> False)"

definition infer_input_field_capabilities :: "pydict \<Rightarrow> capability set" where
  "infer_input_field_capabilities p =
     set (map snd (filter (\<lambda>(f, c). has_non_empty (dget p f)) input_field_capabilities))"

text \<open>A part's type is looked up in a dictionary: a list or an object there is not hashable.\<close>

definition part_capability :: "pyval \<Rightarrow> capability option result" where
  "part_capability part = (case part of
     PDict d \<Rightarrow> (case dget d ''type'' of
       PStr s \<Rightarrow> Inr (map_of message_type_capabilities s)
     | PList xs \<Rightarrow> Inl (TypeError ''unhashable type'')
     | PDict xs \<Rightarrow> Inl (TypeError ''unhashable type'')
     | _ \<Rightarrow> Inr None)
   | _ \<Rightarrow> Inr None)"

definition message_parts :: "pyval \<Rightarrow> pyval list" where
  "message_parts m = (case m of
     PDict d \<Rightarrow> (case dget d ''content'' of PList parts \<Rightarrow> parts | _ \<Rightarrow> []) | _ \<Rightarrow> [])"

definition infer_message_part_capabilities :: "pyval \<Rightarrow> capability set result" where
  "infer_message_part_capabilities messages = (case messages of
     PList ms \<Rightarrow> bindE (mapE part_capability (concat (map message_parts ms))) (\<lambda>cs. Inr (set (List.map_filter (\<lambda>c. c) cs)))
   | _ \<Rightarrow> Inr {})"

definition infer_payload_capabilities :: "string \<Rightarrow> pydict \<Rightarrow> capability set result" where
  "infer_payload_capabilities path p =
     (let cs = infer_input_field_capabilities p;
          cs = (if path = ''/v1/audio/speech'' \<and> speech_uses_reference_audio p then insert Audio_Input cs else cs);
          cs = (if modalities_include_audio p \<or> has_non_empty (dget p ''audio'') then insert Audio_Output cs else cs)
      in bindE (infer_message_part_capabilities (dget p ''messages'')) (\<lambda>ms. Inr (cs \<union> ms)))"

definition required_capabilities :: "string \<Rightarrow> pydict option \<Rightarrow> bool \<Rightarrow> capability set \<Rightarrow> capability set result" where
  "required_capabilities path payload stream route_caps =
     (let cs = (if path = ''/v1/audio/speech'' then {Speech}
                else if path = ''/v1/audio/transcriptions'' then {Audio_Input} else {Chat});
          cs = (if stream then insert Streaming cs else cs);
          cs = cs \<union> route_caps
      in case payload of
        None \<Rightarrow> Inr cs
      | Some p \<Rightarrow> bindE (infer_payload_capabilities path p) (\<lambda>more. Inr (cs \<union> more)))"

section \<open>Metadata of a request\<close>

definition parse_json_object :: "(bytes \<Rightarrow> pyval option) \<Rightarrow> bytes \<Rightarrow> pydict result" where
  "parse_json_object loads body = (case loads body of
     None \<Rightarrow> Inl (ValueError ''invalid JSON body'')
   | Some (PDict d) \<Rightarrow> Inr d
   | Some _ \<Rightarrow> Inl (ValueError ''JSON request body must be an object''))"

definition text_of :: "bytes \<Rightarrow> string" where
  "text_of bs = map char_of bs"

definition finish_metadata ::
    "string \<Rightarrow> string option \<Rightarrow> string option \<Rightarrow> bool \<Rightarrow> capability set \<Rightarrow> bool \<Rightarrow> bool \<Rightarrow> route_metadata" where
  "finish_metadata uuid rid model stream required exceeds present =
     \<lparr>rm_request_id = (case or_string rid None of None \<Rightarrow> uuid | Some s \<Rightarrow> s), rm_model = model, rm_stream = stream,
      rm_required = required, rm_exceeds_limit = exceeds, rm_capabilities_header = present\<rparr>"

definition extract_route_metadata ::
    "(bytes \<Rightarrow> pyval option) \<Rightarrow> nat \<Rightarrow> string \<Rightarrow> http_request \<Rightarrow> string \<Rightarrow> bytes \<Rightarrow> route_metadata result" where
  "extract_route_metadata loads dp uuid rq path body =
     (let rid = request_id_from_request rq in
      bindE (route_model_from_header rq) (\<lambda>hm.
      bindE (route_stream_from_header rq) (\<lambda>hs.
      bindE (route_capabilities_from_header rq) (\<lambda>hc.
      let exceeds = (is_json_request rq \<and> length body > metadata_limit_bytes) in
      if is_json_request rq \<and> body \<noteq> [] \<and> \<not> exceeds then
        bindE (parse_json_object loads body) (\<lambda>p.
        let model = str_or_none (dget p ''model''); stream = (dget p ''stream'' = PBool True) in
        bindE (required_capabilities path (Some p) stream {}) (\<lambda>required.
        bindE (validate_body_route_headers model stream required hm hs hc) (\<lambda>_.
        Inr (finish_metadata uuid (or_string rid (str_or_none (dget p ''request_id''))) model stream required exceeds (snd hc)))))
      else if exceeds then
        bindE (scan_large_json_metadata dp body) (\<lambda>lm.
        let model = map_option text_of (lm_model lm); stream = (lm_stream lm = Some True) in
        bindE (required_capabilities path None stream (fst hc)) (\<lambda>required.
        bindE (validate_body_route_headers model stream required hm hs ({}, False)) (\<lambda>_.
        Inr (finish_metadata uuid (or_string rid (map_option text_of (lm_request_id lm)))
          (if model = None then fst hm else model) stream required exceeds (snd hc)))))
      else
        bindE (required_capabilities path None (fst hs) (fst hc)) (\<lambda>required.
        Inr (finish_metadata uuid rid (fst hm) (fst hs) required exceeds (snd hc)))))))"

section \<open>What an accepted request promises\<close>

lemma base_required:
  "required_capabilities path payload stream route_caps = Inr cs \<Longrightarrow>
     (stream \<longrightarrow> Streaming \<in> cs) \<and> route_caps \<subseteq> cs \<and>
     (if path = ''/v1/audio/speech'' then Speech else if path = ''/v1/audio/transcriptions'' then Audio_Input else Chat) \<in> cs"
  by (cases payload) (auto simp: required_capabilities_def Let_def split: if_splits)

lemma validated:
  "validate_body_route_headers model stream required hm hs hc = Inr () \<longleftrightarrow>
     (snd hm \<and> model \<noteq> None \<longrightarrow> fst hm = model) \<and> (snd hs \<longrightarrow> fst hs = stream) \<and> (snd hc \<longrightarrow> fst hc \<subseteq> required)"
  by (auto simp: validate_body_route_headers_def guardE_def bindE_def)

lemma model_header_value:
  "route_model_from_header rq = Inr hm \<Longrightarrow> header rq model_header = Some v \<Longrightarrow> hm = (Some (strip v), True)"
  by (auto simp: route_model_from_header_def split: if_splits)

lemma stream_header_value:
  "route_stream_from_header rq = Inr hs \<Longrightarrow> header rq stream_header = Some v \<Longrightarrow> hs = (lower (strip v) = ''true'', True)"
  by (auto simp: route_stream_from_header_def split: if_splits)

lemma capabilities_header_value:
  "route_capabilities_from_header rq = Inr hc \<Longrightarrow> header rq capabilities_header = Some v \<Longrightarrow> snd hc"
  by (auto simp: route_capabilities_from_header_def split: if_splits)

lemma capabilities_header_names:
  assumes "route_capabilities_from_header rq = Inr hc" "header rq capabilities_header = Some v"
    "s \<in> set (split_on CHR '','' v)" "strip s \<noteq> []"
  shows "\<exists>c. map_of capability_names (strip s) = Some c \<and> c \<in> fst hc"
proof -
  from assms(1,2) obtain cs where cs: "mapE named_capability (filter (\<lambda>s. s \<noteq> []) (map strip (split_on CHR '','' v))) = Inr cs"
    "fst hc = set cs"
    by (auto simp: route_capabilities_from_header_def split: if_splits)
  have "strip s \<in> set (filter (\<lambda>s. s \<noteq> []) (map strip (split_on CHR '','' v)))" using assms(3,4) by auto
  with mapE_Inr_image [OF cs(1)] obtain c where "named_capability (strip s) = Inr c" "c \<in> set cs" by blast
  then show ?thesis using cs(2) by (auto simp: named_capability_def split: option.splits)
qed

text \<open>
  C24: An accepted request never contradicts its routing headers. The capabilities it is routed by
  contain the one of its path, \<open>streaming\<close> if it streams and every capability its header names; its
  stream flag is the header's; its model is the header's, unless the body is small JSON that names none.
\<close>

theorem accepted_request_honours_headers:
  assumes "extract_route_metadata loads dp uuid rq path body = Inr m"
  shows
    "(if path = ''/v1/audio/speech'' then Speech else if path = ''/v1/audio/transcriptions'' then Audio_Input else Chat)
       \<in> rm_required m \<and>
     (rm_stream m \<longrightarrow> Streaming \<in> rm_required m) \<and>
     (\<forall>v. header rq stream_header = Some v \<longrightarrow> rm_stream m = (lower (strip v) = ''true'')) \<and>
     (\<forall>v. header rq model_header = Some v \<longrightarrow>
        rm_model m = Some (strip v) \<or> rm_model m = None \<and> is_json_request rq \<and> \<not> rm_exceeds_limit m) \<and>
     (\<forall>v s. header rq capabilities_header = Some v \<longrightarrow> s \<in> set (split_on CHR '','' v) \<longrightarrow> strip s \<noteq> [] \<longrightarrow>
        (\<exists>c \<in> rm_required m. map_of capability_names (strip s) = Some c))"
proof -
  from assms obtain hm hs hc where h: "route_model_from_header rq = Inr hm" "route_stream_from_header rq = Inr hs"
    "route_capabilities_from_header rq = Inr hc"
    by (auto simp: extract_route_metadata_def Let_def)
  define base where "base = (if path = ''/v1/audio/speech'' then Speech else if path = ''/v1/audio/transcriptions'' then Audio_Input else Chat)"
  have names: "\<forall>v s. header rq capabilities_header = Some v \<longrightarrow> s \<in> set (split_on CHR '','' v) \<longrightarrow> strip s \<noteq> [] \<longrightarrow>
      (\<exists>c \<in> required. map_of capability_names (strip s) = Some c)" if "snd hc \<longrightarrow> fst hc \<subseteq> required" for required
    using that capabilities_header_names [OF h(3)] capabilities_header_value [OF h(3)] by blast
  note hv = model_header_value [OF h(1)] stream_header_value [OF h(2)]
  let ?exceeds = "is_json_request rq \<and> length body > metadata_limit_bytes"
  consider (small) "is_json_request rq \<and> body \<noteq> [] \<and> \<not> ?exceeds" | (large) "?exceeds"
    | (other) "\<not> (is_json_request rq \<and> body \<noteq> [] \<and> \<not> ?exceeds)" "\<not> ?exceeds" by blast
  then have "base \<in> rm_required m \<and> (rm_stream m \<longrightarrow> Streaming \<in> rm_required m) \<and> (snd hs \<longrightarrow> fst hs = rm_stream m) \<and>
      (snd hm \<longrightarrow> rm_model m = fst hm \<or> rm_model m = None \<and> is_json_request rq \<and> \<not> rm_exceeds_limit m) \<and>
      (snd hc \<longrightarrow> fst hc \<subseteq> rm_required m)"
  proof cases
    case small
    with assms h obtain p required where p: "required_capabilities path (Some p) (dget p ''stream'' = PBool True) {} = Inr required"
      "validate_body_route_headers (str_or_none (dget p ''model'')) (dget p ''stream'' = PBool True) required hm hs hc = Inr ()"
      "m = finish_metadata uuid (or_string (request_id_from_request rq) (str_or_none (dget p ''request_id'')))
         (str_or_none (dget p ''model'')) (dget p ''stream'' = PBool True) required False (snd hc)"
      by (auto simp: extract_route_metadata_def Let_def)
    with base_required [OF p(1)] small show ?thesis
      by (auto simp: validated finish_metadata_def base_def)
  next
    case large
    with assms h obtain lm where lm: "scan_large_json_metadata dp body = Inr lm"
      by (auto simp: extract_route_metadata_def Let_def)
    with assms h large obtain required where p: "required_capabilities path None (lm_stream lm = Some True) (fst hc) = Inr required"
      "validate_body_route_headers (map_option text_of (lm_model lm)) (lm_stream lm = Some True) required hm hs ({}, False) = Inr ()"
      "m = finish_metadata uuid (or_string (request_id_from_request rq) (map_option text_of (lm_request_id lm)))
         (if map_option text_of (lm_model lm) = None then fst hm else map_option text_of (lm_model lm))
         (lm_stream lm = Some True) required True (snd hc)"
      by (auto simp: extract_route_metadata_def Let_def)
    with base_required [OF p(1)] show ?thesis
      by (auto simp: validated finish_metadata_def base_def)
  next
    case other
    with assms h obtain required where p: "required_capabilities path None (fst hs) (fst hc) = Inr required"
      "m = finish_metadata uuid (request_id_from_request rq) (fst hm) (fst hs) required False (snd hc)"
      by (auto simp: extract_route_metadata_def Let_def split: if_splits)
    with base_required [OF p(1)] show ?thesis by (auto simp: finish_metadata_def base_def)
  qed
  with hv names [of "rm_required m"] show ?thesis unfolding base_def [symmetric] by auto
qed

definition demo_request :: http_request where
  "demo_request = \<lparr>rq_headers = [(''content-type'', ''application/json''), (model_header, '' tts ''),
     (capabilities_header, ''audio_input, speech'')], rq_query = []\<rparr>"

definition demo_loads :: "bytes \<Rightarrow> pyval option" where
  "demo_loads body = (if body = bytes_of ''{}'' then Some (PDict [])
     else Some (PDict [(''model'', PStr ''tts''), (''ref_audio'', PStr ''x''), (''stream'', PBool True)]))"

lemma demo_headers:
  "route_model_from_header demo_request = Inr (Some ''tts'', True)"
  "route_stream_from_header demo_request = Inr (False, False)"
  "route_capabilities_from_header demo_request = Inr ({Audio_Input, Speech}, True)"
  "is_json_request demo_request" "request_id_from_request demo_request = None"
  by code_simp+

lemma demo_required:
  "required_capabilities ''/v1/audio/speech'' (Some [(''model'', PStr ''tts''), (''ref_audio'', PStr ''x''), (''stream'', PBool True)]) True {}
     = Inr {Speech, Streaming, Audio_Input}"
  by code_simp

lemma demo_metadata:
  "extract_route_metadata demo_loads 100 ''id'' demo_request ''/v1/audio/speech'' (bytes_of ''{..}'') = Inr
     \<lparr>rm_request_id = ''id'', rm_model = Some ''tts'', rm_stream = True, rm_required = {Speech, Streaming, Audio_Input},
      rm_exceeds_limit = False, rm_capabilities_header = True\<rparr>"
  by (simp add: extract_route_metadata_def demo_headers demo_required parse_json_object_def demo_loads_def bytes_of_def
      metadata_limit_bytes_def dget_def dget_default_def str_or_none_def validate_body_route_headers_def guardE_def
      finish_metadata_def or_string_def)

lemma accepted_request_honours_headers_witness:
  "\<exists>m. extract_route_metadata demo_loads 100 ''id'' demo_request ''/v1/audio/speech'' (bytes_of ''{..}'') = Inr m \<and>
     Streaming \<in> rm_required m"
  using accepted_request_honours_headers [OF demo_metadata] demo_metadata by auto

text \<open>
  A message part whose \<open>type\<close> is a list or an object is a \<open>TypeError\<close>, not the error the proxy answers
  with status 400.
\<close>

lemma unhashable_part_type_escapes:
  assumes "t = PList xs \<or> t = PDict d"
  shows "infer_payload_capabilities path
      [(''messages'', PList [PDict [(''content'', PList [PDict [(''type'', t)]])]])] = Inl (TypeError ''unhashable type'')"
  using assms
  by (auto simp: infer_payload_capabilities_def infer_message_part_capabilities_def message_parts_def part_capability_def
      dget_def dget_default_def Let_def)

end
