(* ===== verification/Router_Proxy.thy ===== *)
theory Router_Proxy
  imports Route_Metadata
begin

text \<open>
  The router's data plane, \<open>sglang_omni_router/proxy.py\<close>: bounded admission, the decision where a
  request goes, and the relay of the answer with its clean-up. A call of \<open>forward_model_request\<close> is an
  entry of \<open>px_calls\<close>; each of its stretches between two awaits is one step, and the steps of all calls,
  of the health checker and of the operator interleave. Worker objects are named by their position in
  \<open>px_workers\<close>; the registered ones are listed in \<open>px_pool\<close>. HTTP itself and logging are left out.
\<close>

section \<open>Headers, bodies and outcomes\<close>

definition hop_by_hop_headers :: "string list" where
  "hop_by_hop_headers = [''connection'', ''keep-alive'', ''proxy-authenticate'', ''proxy-authorization'', ''te'',
     ''trailer'', ''trailers'', ''transfer-encoding'', ''upgrade'']"

definition request_headers_to_strip :: "string list" where
  "request_headers_to_strip = hop_by_hop_headers @ [''host'', ''content-length'', ''accept-encoding''] @
     [model_header, stream_header, capabilities_header]"

definition response_headers_to_strip :: "string list" where
  "response_headers_to_strip = hop_by_hop_headers @ [''content-length'', ''date'', ''server'']"

definition buffered_response_headers_to_strip :: "string list" where
  "buffered_response_headers_to_strip = response_headers_to_strip @ [''content-encoding'']"

definition filter_request_headers :: "http_request \<Rightarrow> (string \<times> string) list" where
  "filter_request_headers rq = filter (\<lambda>(k, v). lower k \<notin> set request_headers_to_strip) (rq_headers rq)"

definition filter_response_headers :: "bool \<Rightarrow> (string \<times> string) list \<Rightarrow> (string \<times> string) list" where
  "filter_response_headers buffered hs =
     (let strip = (if buffered then buffered_response_headers_to_strip else response_headers_to_strip) in
      filter (\<lambda>(k, v). lower k \<notin> set strip) hs)"

definition build_upstream_url :: "string \<Rightarrow> string \<Rightarrow> http_request \<Rightarrow> string" where
  "build_upstream_url url path rq = (if rq_query rq = [] then url @ path else url @ path @ ''?'' @ rq_query rq)"

definition worker_eviction_status_codes :: "int set" where
  "worker_eviction_status_codes = {502, 504}"

definition response_outcome :: "int \<Rightarrow> string" where
  "response_outcome status =
     (if status \<in> worker_eviction_status_codes then ''worker_failure_status''
      else if status = 500 then ''upstream_5xx'' else ''completed'')"

text \<open>\<open>int(s)\<close>, an argument of the two checks, may raise \<open>ValueError\<close>.\<close>

definition exceeds_max_size :: "(string \<Rightarrow> int option) \<Rightarrow> string \<Rightarrow> int \<Rightarrow> bool" where
  "exceeds_max_size parse_int v max_size = (case parse_int v of Some n \<Rightarrow> n > max_size | None \<Rightarrow> True)"

fun read_body_loop :: "int \<Rightarrow> bytes list \<Rightarrow> nat \<Rightarrow> bytes list \<Rightarrow> bytes option" where
  "read_body_loop max_size [] total_size chunks = Some (concat chunks)"
| "read_body_loop max_size (b # bs) total_size chunks =
     (let total_size = total_size + length b in
      if int total_size > max_size then None else read_body_loop max_size bs total_size (chunks @ [b]))"

definition read_body_with_limit :: "int \<Rightarrow> bytes list \<Rightarrow> bytes option" where
  "read_body_with_limit max_size bs = read_body_loop max_size bs 0 []"

section \<open>Where a request goes\<close>

definition mixed_model_error :: string where
  "mixed_model_error = ''large JSON requests across mixed-model workers require x-sglang-omni-route-model''"

definition mixed_capability_error :: string where
  "mixed_capability_error =
     ''large JSON requests across mixed-capability workers require x-sglang-omni-route-capabilities''"

definition large_request_extra_capabilities :: "worker list \<Rightarrow> route_metadata \<Rightarrow> string + capability set" where
  "large_request_extra_capabilities workers m =
     (if \<not> rm_exceeds_limit m then Inr {}
      else let candidates = candidates_for workers (rm_required m) (rm_model m) in
        if candidates = [] then Inr {}
        else if rm_model m = None \<and> length (remdups (map wk_model candidates)) > 1 then Inl mixed_model_error
        else let sets = remdups (map wk_capabilities candidates) in
          if rm_capabilities_header m \<or> length sets \<le> 1 then Inr {}
          else case filter (\<lambda>c. \<not> list_ex (\<lambda>d. c \<subset> d) sets) sets of
            [c] \<Rightarrow> Inr (c - rm_required m)
          | _ \<Rightarrow> Inl mixed_capability_error)"

record proxy_config =
  pc_max_inflight :: nat
  pc_max_payload :: int
  pc_policy :: policy
  pc_failure_threshold :: nat
  pc_success_threshold :: nat

text \<open>
  The library functions the proxy uses, and the number of nested JSON containers the interpreter's
  stack has room for.
\<close>

record libs =
  lb_loads :: "bytes \<Rightarrow> pyval option"
  lb_depth :: nat
  lb_parse_int :: "string \<Rightarrow> int option"
  lb_pick :: "nat \<Rightarrow> nat"

text \<open>
  \<open>Reject\<close> is an answer of the router's own, \<open>Escape\<close> an exception that leaves the handler, \<open>Forward\<close>
  the chosen worker, the metadata and the selector's new index.
\<close>

datatype decision = Reject int string | Escape py_error | Forward worker route_metadata nat

definition decide_route ::
    "proxy_config \<Rightarrow> libs \<Rightarrow> worker list \<Rightarrow> nat \<Rightarrow> string \<Rightarrow> http_request \<Rightarrow> string \<Rightarrow> bytes list \<Rightarrow> decision" where
  "decide_route c lb workers rr uuid rq path chunks =
     (if (case header rq ''content-length'' of None \<Rightarrow> False | Some v \<Rightarrow> exceeds_max_size (lb_parse_int lb) v (pc_max_payload c))
      then Reject 413 ''payload too large''
      else case read_body_with_limit (pc_max_payload c) chunks of
        None \<Rightarrow> Reject 413 ''payload too large''
      | Some body \<Rightarrow>
          (case extract_route_metadata (lb_loads lb) (lb_depth lb) uuid rq path body of
             Inl (ValueError e) \<Rightarrow> Reject 400 e
           | Inl e \<Rightarrow> Escape e
           | Inr m \<Rightarrow>
               (case large_request_extra_capabilities workers m of
                  Inl e \<Rightarrow> Reject 400 e
                | Inr extra \<Rightarrow>
                    let m = m\<lparr>rm_required := rm_required m \<union> extra\<rparr> in
                    (case select (pc_policy c) (lb_pick lb) workers (rm_required m) (rm_model m) rr of
                       Inl e \<Rightarrow> Reject 503 ''no eligible upstream''
                     | Inr (w, rr') \<Rightarrow> Forward w m rr'))))"

section \<open>State\<close>

text \<open>
  Where a call of \<open>forward_model_request\<close> stands. The number is its worker; \<open>Relaying\<close> has the status,
  whether the body is an event stream and whether the worker's failure was recorded already;
  \<open>Closing\<close> is the clean-up awaiting \<open>aclose()\<close>, \<open>Dropping\<close> the same after an error while the response
  was built. \<open>Abandoned\<close> is a call that left by an exception which no clean-up saw.
\<close>

datatype phase =
    Admitted
  | Sending nat
  | Relaying nat int bool bool
  | Closing nat int string
  | Dropping nat py_error
  | Answered_Self int
  | Failed_With py_error
  | Relayed nat string
  | Abandoned nat py_error

record call =
  ca_phase :: phase
  ca_released :: bool

record proxy =
  px_workers :: "worker list"
  px_pool :: "nat list"
  px_rr :: nat
  px_inflight :: nat
  px_peak :: nat
  px_rejected :: nat
  px_calls :: "call list"

definition new_proxy :: "worker list \<Rightarrow> proxy" where
  "new_proxy workers = \<lparr>px_workers = workers, px_pool = [0..<length workers], px_rr = 0, px_inflight = 0,
     px_peak = 0, px_rejected = 0, px_calls = []\<rparr>"

text \<open>\<open>AdmissionController\<close>.\<close>

definition try_acquire :: "proxy_config \<Rightarrow> proxy \<Rightarrow> bool \<times> proxy" where
  "try_acquire c s =
     (if px_inflight s \<ge> pc_max_inflight c then (False, s\<lparr>px_rejected := px_rejected s + 1\<rparr>)
      else (True, s\<lparr>px_inflight := px_inflight s + 1, px_peak := max (px_peak s) (px_inflight s + 1)\<rparr>))"

definition release :: "proxy \<Rightarrow> proxy result" where
  "release s =
     bindE (guardE (px_inflight s > 0) (AssertionError ''in-flight count cannot be negative'')) (\<lambda>_.
     Inr (s\<lparr>px_inflight := px_inflight s - 1\<rparr>))"

definition set_call :: "nat \<Rightarrow> call \<Rightarrow> proxy \<Rightarrow> proxy" where
  "set_call i k s = s\<lparr>px_calls := (px_calls s)[i := k]\<rparr>"

definition set_phase :: "nat \<Rightarrow> phase \<Rightarrow> proxy \<Rightarrow> proxy" where
  "set_phase i p s = set_call i ((px_calls s ! i)\<lparr>ca_phase := p\<rparr>) s"

text \<open>\<open>_ReleaseOnce\<close>.\<close>

definition release_once :: "nat \<Rightarrow> proxy \<Rightarrow> proxy result" where
  "release_once i s =
     (if ca_released (px_calls s ! i) then Inr s
      else release (set_call i ((px_calls s ! i)\<lparr>ca_released := True\<rparr>) s))"

definition on_worker :: "nat \<Rightarrow> (worker \<Rightarrow> worker) \<Rightarrow> proxy \<Rightarrow> proxy" where
  "on_worker k f s = s\<lparr>px_workers := (px_workers s)[k := f (px_workers s ! k)]\<rparr>"

definition decrement_worker :: "nat \<Rightarrow> proxy \<Rightarrow> proxy result" where
  "decrement_worker k s = bindE (decrement_active (px_workers s ! k)) (\<lambda>w. Inr (on_worker k (\<lambda>_. w) s))"

section \<open>Steps\<close>

text \<open>A call arrives: the check and the increment are one step.\<close>

definition arrive :: "proxy_config \<Rightarrow> proxy \<Rightarrow> proxy" where
  "arrive c s = (case try_acquire c s of
     (False, s') \<Rightarrow> s'
   | (True, s') \<Rightarrow> s'\<lparr>px_calls := px_calls s' @ [\<lparr>ca_phase = Admitted, ca_released = False\<rparr>]\<rparr>)"

text \<open>
  A response other than a relay, or an exception out of \<open>_forward_admitted\<close>: the slot is released.
\<close>

definition finish_call :: "nat \<Rightarrow> phase \<Rightarrow> proxy \<Rightarrow> proxy result" where
  "finish_call i p s = release_once i (set_phase i p s)"

definition registered :: "proxy \<Rightarrow> worker list" where
  "registered s = map (\<lambda>k. px_workers s ! k) (px_pool s)"

text \<open>The object \<open>select\<close> returned, by its place in the pool, whose URLs are distinct.\<close>

definition pool_index :: "proxy \<Rightarrow> worker \<Rightarrow> nat" where
  "pool_index s w = (case filter (\<lambda>k. wk_url (px_workers s ! k) = wk_url w) (px_pool s) of k # _ \<Rightarrow> k | [] \<Rightarrow> 0)"

text \<open>The body has been read: up to the await of \<open>client.send\<close>.\<close>

definition forward_admitted ::
    "proxy_config \<Rightarrow> libs \<Rightarrow> nat \<Rightarrow> string \<Rightarrow> http_request \<Rightarrow> string \<Rightarrow> bytes list \<Rightarrow> proxy \<Rightarrow> proxy result" where
  "forward_admitted c lb i uuid rq path chunks s =
     (case decide_route c lb (registered s) (px_rr s) uuid rq path chunks of
        Reject status e \<Rightarrow> finish_call i (Answered_Self status) s
      | Escape e \<Rightarrow> finish_call i (Failed_With e) s
      | Forward w m rr' \<Rightarrow>
          (let k = pool_index s w in
           Inr (set_phase i (Sending k) (on_worker k increment_active (s\<lparr>px_rr := rr'\<rparr>)))))"

text \<open>
  What \<open>client.send\<close> ends with: a response with its status and whether it is an event stream, an
  \<open>httpx.HTTPError\<close>, any other exception (a cancellation, a closed client), or a response whose headers
  the router fails to copy.
\<close>

datatype send_end = Got int bool | Http_Error string | Other_Error py_error | Bad_Headers int py_error

definition record_failure_of :: "proxy_config \<Rightarrow> nat \<Rightarrow> int option \<Rightarrow> string \<Rightarrow> proxy \<Rightarrow> proxy" where
  "record_failure_of c k status e s =
     on_worker k (record_worker_request_failure (pc_failure_threshold c) status (Some e)) s"

text \<open>A response with a status that evicts is recorded before anything else is done with it.\<close>

definition record_status :: "proxy_config \<Rightarrow> nat \<Rightarrow> int \<Rightarrow> proxy \<Rightarrow> proxy" where
  "record_status c k status s =
     (if status \<in> worker_eviction_status_codes
      then record_failure_of c k (Some status) (''status='' @ decimal status) s else s)"

definition send_ends :: "proxy_config \<Rightarrow> nat \<Rightarrow> send_end \<Rightarrow> proxy \<Rightarrow> proxy result" where
  "send_ends c i answer s = (case ca_phase (px_calls s ! i) of
     Sending k \<Rightarrow> (case answer of
         Http_Error e \<Rightarrow>
           bindE (decrement_worker k s) (\<lambda>s.
           finish_call i (Answered_Self 502)
             (record_failure_of c k None e (on_worker k (record_routed_request None) s)))
       | Other_Error e \<Rightarrow> finish_call i (Abandoned k e) s
       | Bad_Headers status e \<Rightarrow> Inr (set_phase i (Dropping k e) (record_status c k status s))
       | Got status event_stream \<Rightarrow> Inr (set_phase i
           (Relaying k status event_stream (status \<in> worker_eviction_status_codes)) (record_status c k status s)))
   | _ \<Rightarrow> Inr s)"

text \<open>\<open>_RelayCleanup.__call__\<close> up to its await; a second call returns at once.\<close>

definition cleanup_begins :: "nat \<Rightarrow> string \<Rightarrow> proxy \<Rightarrow> proxy" where
  "cleanup_begins i outcome s = (case ca_phase (px_calls s ! i) of
     Relaying k status es f \<Rightarrow> set_phase i (Closing k status outcome) s
   | _ \<Rightarrow> s)"

text \<open>
  What ends \<open>iter_bytes\<close>: the body is complete, it is cancelled, or the upstream breaks. \<open>Response_Ends\<close>
  is the \<open>finally\<close> of \<open>_RelayResponse.__call__\<close>, with or without the iterator having run.
\<close>

datatype relay_end = Body_Complete | Body_Cancelled | Body_Error string | Response_Ends

definition relay_ends :: "proxy_config \<Rightarrow> nat \<Rightarrow> relay_end \<Rightarrow> proxy \<Rightarrow> proxy" where
  "relay_ends c i e s = (case ca_phase (px_calls s ! i) of
     Relaying k status es failure_recorded \<Rightarrow> (case e of
         Body_Complete \<Rightarrow> cleanup_begins i (response_outcome status) s
       | Body_Cancelled \<Rightarrow> cleanup_begins i ''stream_cancelled'' s
       | Body_Error x \<Rightarrow> cleanup_begins i ''stream_error''
           (if failure_recorded then s else record_failure_of c k None x s)
       | Response_Ends \<Rightarrow> cleanup_begins i ''client_disconnected'' s)
   | _ \<Rightarrow> s)"

text \<open>
  The bytes a client gets from \<open>iter_bytes\<close>: the chunks, an error event if an event stream broke, and
  whether the exception goes on.
\<close>

definition iter_bytes :: "bool \<Rightarrow> bytes \<Rightarrow> bytes list \<Rightarrow> relay_end \<Rightarrow> bytes list \<times> bool" where
  "iter_bytes event_stream error_event chunks e = (case e of
     Body_Error x \<Rightarrow> if event_stream then (chunks @ [error_event], False) else (chunks, True)
   | Body_Cancelled \<Rightarrow> (chunks, True)
   | _ \<Rightarrow> (chunks, False))"

text \<open>
  \<open>aclose()\<close> has returned or raised: the \<open>finally\<close> block runs either way. In the handler of an
  exception while the response was built nothing follows a raise.
\<close>

definition close_ends :: "nat \<Rightarrow> py_error option \<Rightarrow> proxy \<Rightarrow> proxy result" where
  "close_ends i raised s = (case ca_phase (px_calls s ! i) of
     Closing k status outcome \<Rightarrow>
       bindE (decrement_worker k s) (\<lambda>s.
       bindE (release_once i s) (\<lambda>s.
       Inr (set_phase i (Relayed k outcome)
         (on_worker k (record_routed_request (if outcome = ''completed'' then Some status else None)) s))))
   | Dropping k e \<Rightarrow> (case raised of
         None \<Rightarrow> bindE (decrement_worker k s) (\<lambda>s. finish_call i (Failed_With e) s)
       | Some x \<Rightarrow> finish_call i (Abandoned k x) s)
   | _ \<Rightarrow> Inr s)"

text \<open>The finalizer of a response: the slot only.\<close>

definition response_collected :: "nat \<Rightarrow> proxy \<Rightarrow> proxy result" where
  "response_collected i s = (case ca_phase (px_calls s ! i) of
     Relaying k status es f \<Rightarrow> release_once i s
   | Closing k status outcome \<Rightarrow> release_once i s
   | Relayed k outcome \<Rightarrow> release_once i s
   | _ \<Rightarrow> Inr s)"

section \<open>The operator and the health checker\<close>

definition create_worker :: "string \<Rightarrow> string option \<Rightarrow> capability set \<Rightarrow> proxy \<Rightarrow> int \<times> proxy" where
  "create_worker url model caps s =
     (if list_ex (\<lambda>w. wk_url w = url) (registered s) then (409, s)
      else (200, s\<lparr>px_workers := px_workers s @ [new_worker url model caps],
                   px_pool := px_pool s @ [length (px_workers s)]\<rparr>))"

definition delete_worker :: "nat \<Rightarrow> proxy \<Rightarrow> proxy" where
  "delete_worker k s = s\<lparr>px_pool := remove1 k (px_pool s)\<rparr>"

text \<open>What \<open>PUT /workers/{id}\<close> does to a worker after its checks.\<close>

definition update_worker ::
    "(string option \<times> capability set) option \<Rightarrow> bool option \<Rightarrow> bool option \<Rightarrow> worker \<Rightarrow> worker" where
  "update_worker conf disabled dead w =
     (let w = (case conf of None \<Rightarrow> w | Some (model, caps) \<Rightarrow> w\<lparr>wk_model := model, wk_capabilities := caps\<rparr>);
          w = (case disabled of None \<Rightarrow> w | Some b \<Rightarrow> set_disabled b w)
      in case dead of None \<Rightarrow> w | Some True \<Rightarrow> mark_dead None w | Some False \<Rightarrow> clear_dead w)"

datatype proxy_event =
    Arrive
  | Body_Read nat string http_request string "bytes list"
  | Body_Fails nat py_error
  | Send_Ends nat send_end
  | Relay_Ends nat relay_end
  | Close_Ends nat "py_error option"
  | Response_Collected nat
  | Probe_Ends nat probe_answer
  | Create_Worker string "string option" "capability set"
  | Delete_Worker nat
  | Update_Worker nat "(string option \<times> capability set) option" "bool option" "bool option"

definition px_step :: "proxy_config \<Rightarrow> libs \<Rightarrow> proxy_event \<Rightarrow> proxy \<Rightarrow> proxy result" where
  "px_step c lb e s = (case e of
     Arrive \<Rightarrow> Inr (arrive c s)
   | Body_Read i uuid rq path chunks \<Rightarrow> forward_admitted c lb i uuid rq path chunks s
   | Body_Fails i x \<Rightarrow> finish_call i (Failed_With x) s
   | Send_Ends i a \<Rightarrow> send_ends c i a s
   | Relay_Ends i a \<Rightarrow> Inr (relay_ends c i a s)
   | Close_Ends i r \<Rightarrow> close_ends i r s
   | Response_Collected i \<Rightarrow> response_collected i s
   | Probe_Ends k a \<Rightarrow> Inr (on_worker k (probe_finishes (pc_failure_threshold c) (pc_success_threshold c) a) s)
   | Create_Worker url model caps \<Rightarrow> Inr (snd (create_worker url model caps s))
   | Delete_Worker k \<Rightarrow> Inr (delete_worker k s)
   | Update_Worker k conf dis dead \<Rightarrow> Inr (on_worker k (update_worker conf dis dead) s))"

text \<open>When an event can happen: the call stands at the await it ends, the worker exists.\<close>

fun enabled :: "proxy_event \<Rightarrow> proxy \<Rightarrow> bool" where
  "enabled Arrive s = True"
| "enabled (Body_Read i uuid rq path chunks) s = (i < length (px_calls s) \<and> ca_phase (px_calls s ! i) = Admitted)"
| "enabled (Body_Fails i x) s = (i < length (px_calls s) \<and> ca_phase (px_calls s ! i) = Admitted)"
| "enabled (Send_Ends i a) s = (i < length (px_calls s))"
| "enabled (Relay_Ends i a) s = (i < length (px_calls s))"
| "enabled (Close_Ends i r) s = (i < length (px_calls s))"
| "enabled (Response_Collected i) s = (i < length (px_calls s))"
| "enabled (Probe_Ends k a) s = (k < length (px_workers s))"
| "enabled (Create_Worker url model caps) s = True"
| "enabled (Delete_Worker k) s = True"
| "enabled (Update_Worker k conf dis dead) s = (k \<in> set (px_pool s))"

inductive px_reach :: "proxy_config \<Rightarrow> libs \<Rightarrow> worker list \<Rightarrow> proxy \<Rightarrow> bool" for c lb workers where
  Start: "px_reach c lb workers (new_proxy workers)"
| Step: "px_reach c lb workers s \<Longrightarrow> enabled e s \<Longrightarrow> px_step c lb e s = Inr s' \<Longrightarrow> px_reach c lb workers s'"

section \<open>The invariant\<close>

text \<open>The calls that count as active on worker \<open>k\<close>, those under way and those abandoned.\<close>

fun relaying :: "nat \<Rightarrow> phase \<Rightarrow> bool" where
  "relaying k (Sending j) = (j = k)"
| "relaying k (Relaying j status es f) = (j = k)"
| "relaying k (Closing j status outcome) = (j = k)"
| "relaying k (Dropping j e) = (j = k)"
| "relaying k _ = False"

fun abandoned :: "nat \<Rightarrow> phase \<Rightarrow> bool" where
  "abandoned k (Abandoned j e) = (j = k)"
| "abandoned k _ = False"

fun finished :: "phase \<Rightarrow> bool" where
  "finished (Answered_Self status) = True"
| "finished (Failed_With e) = True"
| "finished (Relayed k outcome) = True"
| "finished (Abandoned k e) = True"
| "finished _ = False"

abbreviation counted :: "nat \<Rightarrow> call \<Rightarrow> bool" where
  "counted k ca \<equiv> relaying k (ca_phase ca) \<or> abandoned k (ca_phase ca)"

definition count_calls :: "(call \<Rightarrow> bool) \<Rightarrow> proxy \<Rightarrow> nat" where
  "count_calls P s = length (filter P (px_calls s))"

definition balanced :: "worker \<Rightarrow> bool" where
  "balanced w \<longleftrightarrow> wk_routed w = wk_succeeded w + wk_failed w"

definition px_inv :: "proxy_config \<Rightarrow> proxy \<Rightarrow> bool" where
  "px_inv c s \<longleftrightarrow>
     px_inflight s = count_calls (\<lambda>ca. \<not> ca_released ca) s \<and>
     px_inflight s \<le> px_peak s \<and> px_peak s \<le> pc_max_inflight c \<and>
     (\<forall>k < length (px_workers s). wk_active (px_workers s ! k) = count_calls (counted k) s \<and> balanced (px_workers s ! k)) \<and>
     (\<forall>ca \<in> set (px_calls s). (finished (ca_phase ca) \<longrightarrow> ca_released ca) \<and> (\<forall>k. counted k ca \<longrightarrow> k < length (px_workers s))) \<and>
     distinct (px_pool s) \<and> set (px_pool s) \<subseteq> {..<length (px_workers s)} \<and>
     distinct (map wk_url (registered s))"

lemma count_update:
  "i < length xs \<Longrightarrow>
     length (filter P (xs[i := y])) + (if P (xs ! i) then 1 else 0) = length (filter P xs) + (if P y then 1 else 0)"
proof (induction xs arbitrary: i)
  case (Cons x xs)
  then show ?case by (cases i) auto
qed simp

lemma count_pos: "i < length xs \<Longrightarrow> P (xs ! i) \<Longrightarrow> 0 < length (filter P xs)"
  by (metis filter_empty_conv length_greater_0_conv nth_mem)

text \<open>One call moves; every other field moves with it or not at all.\<close>

lemma px_inv_move:
  assumes inv: "px_inv c s" and i: "i < length (px_calls s)"
    and calls: "px_calls s' = (px_calls s)[i := ca]"
    and len: "length (px_workers s') = length (px_workers s)"
    and active: "\<And>k. k < length (px_workers s) \<Longrightarrow>
      wk_active (px_workers s' ! k) + (if counted k (px_calls s ! i) then 1 else 0) =
      wk_active (px_workers s ! k) + (if counted k ca then 1 else 0)"
    and url: "\<And>k. k < length (px_workers s) \<Longrightarrow> wk_url (px_workers s' ! k) = wk_url (px_workers s ! k)"
    and bal: "\<And>k. k < length (px_workers s) \<Longrightarrow> balanced (px_workers s ! k) \<Longrightarrow> balanced (px_workers s' ! k)"
    and pool: "px_pool s' = px_pool s" and peak: "px_peak s' = px_peak s"
    and flight: "px_inflight s' + (if ca_released (px_calls s ! i) then 0 else 1) =
      px_inflight s + (if ca_released ca then 0 else 1)" "px_inflight s' \<le> px_inflight s"
    and fin: "finished (ca_phase ca) \<Longrightarrow> ca_released ca" and bound: "\<And>k. counted k ca \<Longrightarrow> k < length (px_workers s)"
  shows "px_inv c s'"
proof -
  have "px_inflight s' = count_calls (\<lambda>ca. \<not> ca_released ca) s'"
    using count_update [OF i, of "\<lambda>ca. \<not> ca_released ca" ca] flight inv
    by (auto simp: px_inv_def count_calls_def calls split: if_splits)
  moreover have "wk_active (px_workers s' ! k) = count_calls (counted k) s'" if "k < length (px_workers s)" for k
    using count_update [OF i, of "counted k" ca] active [OF that] inv that
    by (auto simp: px_inv_def count_calls_def calls split: if_splits)
  moreover have "set (px_calls s') \<subseteq> insert ca (set (px_calls s))"
    unfolding calls by (rule set_update_subset_insert)
  moreover have "map wk_url (registered s') = map wk_url (registered s)"
    using inv url by (auto simp: registered_def pool px_inv_def)
  ultimately show ?thesis
    using inv bal fin bound flight(2) unfolding px_inv_def len pool peak
    by (auto simp: subset_iff)
qed

text \<open>A worker changes in ways that no call is counted by.\<close>

definition quiet :: "(worker \<Rightarrow> worker) \<Rightarrow> bool" where
  "quiet f \<longleftrightarrow> (\<forall>w. wk_active (f w) = wk_active w \<and> wk_url (f w) = wk_url w \<and> (balanced w \<longrightarrow> balanced (f w)))"

lemma quiet_record: "quiet (record_worker_request_failure t status e)"
  by (auto simp: quiet_def record_worker_request_failure_def record_request_failure_def record_failure_def balanced_def Let_def)

lemma quiet_probe: "quiet (probe_finishes ft st a)"
  by (auto simp: quiet_def probe_finishes_def record_health_result_def record_failure_def balanced_def Let_def
      split: probe_answer.splits)

lemma quiet_update: "quiet (update_worker conf dis dead)"
  by (auto simp: quiet_def update_worker_def set_disabled_def mark_dead_def clear_dead_def balanced_def Let_def
      split: option.splits bool.splits)

lemma quiet_routed: "quiet (record_routed_request status)"
  by (auto simp: quiet_def record_routed_request_def balanced_def Let_def split: option.splits)

lemma quiet_comp: "quiet f \<Longrightarrow> quiet g \<Longrightarrow> quiet (\<lambda>w. f (g w))"
  by (auto simp: quiet_def)

lemma quiet_id: "quiet (\<lambda>w. w)"
  by (auto simp: quiet_def)

lemma worker_on_worker:
  "px_workers (on_worker k f s) ! j = (if j = k \<and> k < length (px_workers s) then f (px_workers s ! k) else px_workers s ! j)"
  by (cases "k < length (px_workers s)") (auto simp: on_worker_def list_update_beyond)

lemma px_inv_quiet:
  assumes "px_inv c s" "quiet f"
  shows "px_inv c (on_worker k f s)"
proof -
  have "map wk_url (registered (on_worker k f s)) = map wk_url (registered s)"
    using assms by (auto simp: registered_def worker_on_worker quiet_def) (simp_all add: on_worker_def worker_on_worker)
  then show ?thesis
    using assms unfolding px_inv_def worker_on_worker
    by (auto simp: on_worker_def quiet_def count_calls_def)
qed

text \<open>Slots.\<close>

definition moved :: "nat \<Rightarrow> phase \<Rightarrow> proxy \<Rightarrow> proxy" where
  "moved i p s = s\<lparr>px_calls := (px_calls s)[i := \<lparr>ca_phase = p, ca_released = True\<rparr>],
     px_inflight := (if ca_released (px_calls s ! i) then px_inflight s else px_inflight s - 1)\<rparr>"

lemma moved_fields [simp]:
  "px_workers (moved i p s) = px_workers s" "px_pool (moved i p s) = px_pool s" "px_peak (moved i p s) = px_peak s"
  "px_calls (moved i p s) = (px_calls s)[i := \<lparr>ca_phase = p, ca_released = True\<rparr>]"
  by (simp_all add: moved_def)

lemma moved_on_worker [simp]: "px_inflight (moved i p (on_worker k f s)) = px_inflight (moved i p s)"
  by (simp add: moved_def on_worker_def)

lemma on_worker_fields [simp]:
  "px_calls (on_worker k f s) = px_calls s" "px_pool (on_worker k f s) = px_pool s"
  "px_inflight (on_worker k f s) = px_inflight s" "px_peak (on_worker k f s) = px_peak s"
  "length (px_workers (on_worker k f s)) = length (px_workers s)"
  by (simp_all add: on_worker_def)

lemma set_phase_fields [simp]:
  "px_workers (set_phase i p s) = px_workers s" "px_pool (set_phase i p s) = px_pool s"
  "px_inflight (set_phase i p s) = px_inflight s" "px_peak (set_phase i p s) = px_peak s"
  "px_calls (set_phase i p s) = (px_calls s)[i := (px_calls s ! i)\<lparr>ca_phase := p\<rparr>]"
  by (simp_all add: set_phase_def set_call_def)

lemma flight_pos:
  "px_inflight s = count_calls (\<lambda>ca. \<not> ca_released ca) s \<Longrightarrow> i < length (px_calls s) \<Longrightarrow> \<not> ca_released (px_calls s ! i) \<Longrightarrow>
     0 < px_inflight s"
  using count_pos [of i "px_calls s" "\<lambda>ca. \<not> ca_released ca"] by (simp add: count_calls_def)

lemma release_once_eq:
  assumes "px_inflight s = count_calls (\<lambda>ca. \<not> ca_released ca) s" "i < length (px_calls s)"
  shows "release_once i s = Inr (moved i (ca_phase (px_calls s ! i)) s)"
proof (cases "ca_released (px_calls s ! i)")
  case True
  then have "px_calls s ! i = \<lparr>ca_phase = ca_phase (px_calls s ! i), ca_released = True\<rparr>"
    by (cases "px_calls s ! i") simp
  then have "(px_calls s)[i := \<lparr>ca_phase = ca_phase (px_calls s ! i), ca_released = True\<rparr>] = px_calls s"
    by (metis list_update_id)
  with True show ?thesis by (simp add: release_once_def moved_def)
next
  case False
  then show ?thesis
    using flight_pos [OF assms False]
    by (cases "px_calls s ! i") (simp add: release_once_def release_def set_call_def moved_def)
qed

lemma finish_call_eq:
  assumes "px_inflight s = count_calls (\<lambda>ca. \<not> ca_released ca) s" "i < length (px_calls s)"
  shows "finish_call i p s = Inr (moved i p s)"
proof -
  have "px_inflight (set_phase i p s) = count_calls (\<lambda>ca. \<not> ca_released ca) (set_phase i p s)"
    using assms count_update [OF assms(2), of "\<lambda>ca. \<not> ca_released ca" "(px_calls s ! i)\<lparr>ca_phase := p\<rparr>"]
    by (auto simp: count_calls_def)
  then have "finish_call i p s = Inr (moved i (ca_phase (px_calls (set_phase i p s) ! i)) (set_phase i p s))"
    unfolding finish_call_def by (rule release_once_eq) (use assms(2) in simp)
  then show ?thesis using assms(2) by (simp add: moved_def set_phase_def set_call_def)
qed

lemma px_invD:
  assumes "px_inv c s"
  shows "px_inflight s = count_calls (\<lambda>ca. \<not> ca_released ca) s"
    "i < length (px_calls s) \<Longrightarrow> counted k (px_calls s ! i) \<Longrightarrow> k < length (px_workers s)"
    "i < length (px_calls s) \<Longrightarrow> counted k (px_calls s ! i) \<Longrightarrow> 0 < wk_active (px_workers s ! k)"
    "i < length (px_calls s) \<Longrightarrow> finished (ca_phase (px_calls s ! i)) \<Longrightarrow> ca_released (px_calls s ! i)"
proof -
  show "px_inflight s = count_calls (\<lambda>ca. \<not> ca_released ca) s" using assms by (simp add: px_inv_def)
  show b: "k < length (px_workers s)" if "i < length (px_calls s)" "counted k (px_calls s ! i)"
    using assms that nth_mem [OF that(1)] unfolding px_inv_def by blast
  show "0 < wk_active (px_workers s ! k)" if "i < length (px_calls s)" "counted k (px_calls s ! i)"
    using assms b [OF that] count_pos [OF that(1), of "counted k"] that(2) by (auto simp: px_inv_def count_calls_def)
  show "ca_released (px_calls s ! i)" if "i < length (px_calls s)" "finished (ca_phase (px_calls s ! i))"
    using assms that nth_mem [OF that(1)] unfolding px_inv_def by blast
qed

lemma decrement_worker_eq:
  assumes "0 < wk_active (px_workers s ! k)"
  shows "decrement_worker k s = Inr (on_worker k (\<lambda>w. w\<lparr>wk_active := wk_active w - 1\<rparr>) s)"
  using assms by (simp add: decrement_worker_def decrement_active_def on_worker_def)

lemma inflight_moved:
  assumes "px_inv c s" "i < length (px_calls s)"
  shows "px_inflight (moved i p s) + (if ca_released (px_calls s ! i) then 0 else 1) = px_inflight s"
    "px_inflight (moved i p s) \<le> px_inflight s"
  using flight_pos [OF px_invD(1) [OF assms(1)] assms(2)] by (auto simp: moved_def)

text \<open>A call ends that no worker counts, or that stays counted.\<close>

lemma px_inv_finish:
  assumes "px_inv c s" "i < length (px_calls s)" "\<forall>k. counted k (px_calls s ! i) \<longleftrightarrow> relaying k p \<or> abandoned k p"
  shows "px_inv c (moved i p s)"
  by (rule px_inv_move [OF assms(1,2), where ca = "\<lparr>ca_phase = p, ca_released = True\<rparr>"])
    (use assms(3) inflight_moved [OF assms(1,2)] px_invD(2) [OF assms(1,2)] in auto)

text \<open>A call ends and its worker counts one less.\<close>

lemma px_inv_finish_on:
  assumes inv: "px_inv c s" and i: "i < length (px_calls s)" and k: "\<forall>j. counted j (px_calls s ! i) \<longleftrightarrow> j = k"
    and p: "\<forall>j. \<not> relaying j p \<and> \<not> abandoned j p" and f: "quiet f"
  shows "px_inv c (moved i p (on_worker k (\<lambda>w. f (w\<lparr>wk_active := wk_active w - 1\<rparr>)) s))"
proof -
  note pos = px_invD(3) [OF inv i, of k] and bound = px_invD(2) [OF inv i, of k]
  let ?g = "\<lambda>w. f (w\<lparr>wk_active := wk_active w - 1\<rparr>)"
  have "balanced (?g w)" if "balanced w" for w using f that by (auto simp: quiet_def balanced_def)
  then show ?thesis
    using k p f pos bound inflight_moved [OF inv i, of p]
    by (intro px_inv_move [OF inv i, where ca = "\<lparr>ca_phase = p, ca_released = True\<rparr>"])
      (auto simp: worker_on_worker quiet_def)
qed

text \<open>A call goes on.\<close>

lemma px_inv_phase:
  assumes "px_inv c s" "i < length (px_calls s)" "\<not> finished p"
    "\<forall>k. counted k (px_calls s ! i) \<longleftrightarrow> relaying k p \<or> abandoned k p"
  shows "px_inv c (set_phase i p s)"
  by (rule px_inv_move [OF assms(1,2), where ca = "(px_calls s ! i)\<lparr>ca_phase := p\<rparr>"])
    (use assms(3,4) px_invD(2) [OF assms(1,2)] in auto)

text \<open>Other steps.\<close>

lemma px_inv_rr: "px_inv c s \<Longrightarrow> px_inv c (s\<lparr>px_rr := r\<rparr>)"
  by (auto simp: px_inv_def registered_def count_calls_def)

lemma px_inv_arrive:
  assumes "px_inv c s"
  shows "px_inv c (arrive c s)"
  using assms
  by (auto simp: px_inv_def arrive_def try_acquire_def registered_def count_calls_def)

lemma px_inv_create: "px_inv c s \<Longrightarrow> px_inv c (snd (create_worker url model caps s))"
proof (cases "list_ex (\<lambda>w. wk_url w = url) (registered s)")
  case False
  assume inv: "px_inv c s"
  let ?s = "s\<lparr>px_workers := px_workers s @ [new_worker url model caps], px_pool := px_pool s @ [length (px_workers s)]\<rparr>"
  have reg: "registered ?s = registered s @ [new_worker url model caps]"
    using inv by (auto simp: registered_def px_inv_def nth_append subset_iff)
  have none: "count_calls (counted (length (px_workers s))) s = 0"
    using inv by (auto simp: px_inv_def count_calls_def filter_empty_conv)
  have "wk_active (px_workers ?s ! k) = count_calls (counted k) s \<and> balanced (px_workers ?s ! k)"
    if "k < Suc (length (px_workers s))" for k
    using inv that none by (auto simp: px_inv_def nth_append less_Suc_eq new_worker_def balanced_def)
  moreover have "wk_url (new_worker url model caps) = url" by (simp add: new_worker_def)
  ultimately show ?thesis
    using inv False reg unfolding px_inv_def
    by (auto simp: create_worker_def count_calls_def list_ex_iff less_Suc_eq)
qed (simp add: create_worker_def)

lemma px_inv_delete: "px_inv c s \<Longrightarrow> px_inv c (delete_worker k s)"
proof -
  assume inv: "px_inv c s"
  have d: "distinct (px_pool s)" and u: "distinct (map wk_url (registered s))" using inv by (auto simp: px_inv_def)
  have "remove1 k (px_pool s) = filter (\<lambda>x. k \<noteq> x) (px_pool s)"
    by (simp add: distinct_remove1_removeAll [OF d] removeAll_filter_not_eq)
  then have "distinct (map wk_url (registered (delete_worker k s)))"
    using u by (simp add: registered_def delete_worker_def comp_def distinct_map_filter)
  with inv show ?thesis
    unfolding px_inv_def by (auto simp: delete_worker_def count_calls_def dest: notin_set_remove1 set_mp [OF set_remove1_subset])
qed

lemma px_inv_new: "distinct (map wk_url workers) \<Longrightarrow> \<forall>w \<in> set workers. wk_active w = 0 \<and> balanced w \<Longrightarrow> px_inv c (new_proxy workers)"
  by (auto simp: px_inv_def new_proxy_def count_calls_def registered_def map_nth)

lemma pool_index_member:
  assumes "w \<in> set (registered s)"
  shows "pool_index s w \<in> set (px_pool s)"
proof -
  from assms obtain k where "k \<in> set (px_pool s)" "px_workers s ! k = w" by (auto simp: registered_def)
  then have "filter (\<lambda>k. wk_url (px_workers s ! k) = wk_url w) (px_pool s) \<noteq> []"
    by (auto simp: filter_empty_conv)
  then obtain j js where "filter (\<lambda>k. wk_url (px_workers s ! k) = wk_url w) (px_pool s) = j # js"
    by (cases "filter (\<lambda>k. wk_url (px_workers s ! k) = wk_url w) (px_pool s)") auto
  moreover from this have "j \<in> set (px_pool s)" by (metis filter_is_subset list.set_intros(1) subsetD)
  ultimately show ?thesis by (simp add: pool_index_def)
qed

lemma decide_registered:
  assumes "\<forall>n > 0. lb_pick lb n < n" "decide_route c lb ws rr uuid rq path chunks = Forward w m rr'"
  shows "w \<in> set ws \<and> eligible (rm_required m) w"
  using assms(2) select_eligible [OF assms(1)]
  by (auto simp: decide_route_def Let_def split: option.splits sum.splits py_error.splits if_splits)

lemma on_worker_comp: "on_worker k f (on_worker k g s) = on_worker k (\<lambda>w. f (g w)) s"
  by (cases "k < length (px_workers s)") (simp_all add: on_worker_def list_update_beyond)

lemma count_calls_on_worker [simp]: "count_calls P (on_worker k f s) = count_calls P s"
  by (simp add: count_calls_def)

lemma set_phase_moved:
  "i < length (px_calls s) \<Longrightarrow> set_phase i p (on_worker k f (moved i q s)) = moved i p (on_worker k f s)"
  by (simp add: set_phase_def set_call_def moved_def on_worker_def)

lemma finish_on_worker:
  assumes "px_inv c s" "i < length (px_calls s)"
  shows "finish_call i p (on_worker k f s) = Inr (moved i p (on_worker k f s))"
  by (rule finish_call_eq) (use px_invD(1) [OF assms(1)] assms(2) in simp_all)

lemma send_ends_ok:
  assumes inv: "px_inv c s" and i: "i < length (px_calls s)"
  shows "\<exists>s'. send_ends c i a s = Inr s' \<and> px_inv c s'"
proof (cases "\<exists>k. ca_phase (px_calls s ! i) = Sending k")
  case True
  then obtain k where k: "ca_phase (px_calls s ! i) = Sending k" by blast
  then have here: "\<forall>j. counted j (px_calls s ! i) \<longleftrightarrow> j = k" and pos: "0 < wk_active (px_workers s ! k)"
    using px_invD(3) [OF inv i, of k] by auto
  have recorded: "px_inv c (record_status c k status s)" for status
    using px_inv_quiet [OF inv quiet_record] inv by (simp add: record_status_def record_failure_of_def)
  show ?thesis
  proof (cases a)
    case (Got status es)
    have "px_inv c (set_phase i (Relaying k status es (status \<in> worker_eviction_status_codes)) (record_status c k status s))"
      by (rule px_inv_phase [OF recorded]) (use here i in \<open>auto simp: record_status_def record_failure_of_def\<close>)
    then show ?thesis using k Got by (simp add: send_ends_def)
  next
    case (Http_Error e)
    have q: "quiet (\<lambda>w. record_worker_request_failure (pc_failure_threshold c) None (Some e) (record_routed_request None w))"
      by (rule quiet_comp [OF quiet_record quiet_routed])
    show ?thesis
      using px_inv_finish_on [OF inv i here _ q, of "Answered_Self 502"] k Http_Error
      by (simp add: send_ends_def decrement_worker_eq [OF pos] record_failure_of_def on_worker_comp finish_on_worker [OF inv i])
  next
    case (Other_Error e)
    have "px_inv c (moved i (Abandoned k e) s)" by (rule px_inv_finish [OF inv i]) (use here in auto)
    then show ?thesis using k Other_Error by (simp add: send_ends_def finish_call_eq [OF px_invD(1) [OF inv] i])
  next
    case (Bad_Headers status e)
    have "px_inv c (set_phase i (Dropping k e) (record_status c k status s))"
      by (rule px_inv_phase [OF recorded]) (use here i in \<open>auto simp: record_status_def record_failure_of_def\<close>)
    then show ?thesis using k Bad_Headers by (simp add: send_ends_def)
  qed
next
  case False
  then show ?thesis using inv by (auto simp: send_ends_def split: phase.splits)
qed

lemma cleanup_begins_ok:
  assumes "px_inv c s" "i < length (px_calls s)"
  shows "px_inv c (cleanup_begins i outcome s)"
proof (cases "\<exists>k status es f. ca_phase (px_calls s ! i) = Relaying k status es f")
  case True
  then obtain k status es f where k: "ca_phase (px_calls s ! i) = Relaying k status es f" by blast
  have "px_inv c (set_phase i (Closing k status outcome) s)"
    by (rule px_inv_phase [OF assms]) (use k in auto)
  with k show ?thesis by (simp add: cleanup_begins_def)
next
  case False
  then show ?thesis using assms by (auto simp: cleanup_begins_def split: phase.splits)
qed

lemma relay_ends_ok:
  assumes "px_inv c s" "i < length (px_calls s)"
  shows "px_inv c (relay_ends c i e s)"
  using assms cleanup_begins_ok [OF assms] cleanup_begins_ok [OF px_inv_quiet [OF assms(1) quiet_record]]
  by (auto simp: relay_ends_def record_failure_of_def split: phase.splits relay_end.splits)

lemma close_ends_ok:
  assumes inv: "px_inv c s" and i: "i < length (px_calls s)"
  shows "\<exists>s'. close_ends i r s = Inr s' \<and> px_inv c s'"
proof -
  consider (closing) k status outcome where "ca_phase (px_calls s ! i) = Closing k status outcome"
    | (dropping) k e where "ca_phase (px_calls s ! i) = Dropping k e"
    | (other) "close_ends i r s = Inr s"
    by (cases "ca_phase (px_calls s ! i)") (auto simp: close_ends_def)
  then show ?thesis
  proof cases
    case closing
    then have here: "\<forall>j. counted j (px_calls s ! i) \<longleftrightarrow> j = k" and pos: "0 < wk_active (px_workers s ! k)"
      using px_invD(3) [OF inv i, of k] by auto
    have "release_once i (on_worker k (\<lambda>w. w\<lparr>wk_active := wk_active w - 1\<rparr>) s)
        = Inr (moved i (ca_phase (px_calls s ! i)) (on_worker k (\<lambda>w. w\<lparr>wk_active := wk_active w - 1\<rparr>) s))"
      using release_once_eq [of "on_worker k (\<lambda>w. w\<lparr>wk_active := wk_active w - 1\<rparr>) s" i] px_invD(1) [OF inv] i by simp
    then show ?thesis
      using px_inv_finish_on [OF inv i here _ quiet_routed, of "Relayed k outcome"] closing i
      by (simp add: close_ends_def decrement_worker_eq [OF pos] set_phase_moved on_worker_comp)
  next
    case dropping
    then have here: "\<forall>j. counted j (px_calls s ! i) \<longleftrightarrow> j = k" and pos: "0 < wk_active (px_workers s ! k)"
      using px_invD(3) [OF inv i, of k] by auto
    have "px_inv c (moved i (Abandoned k x) s)" for x by (rule px_inv_finish [OF inv i]) (use here in auto)
    with dropping px_inv_finish_on [OF inv i here _ quiet_id, of "Failed_With e"] show ?thesis
      by (auto simp: close_ends_def decrement_worker_eq [OF pos] finish_on_worker [OF inv i]
          finish_call_eq [OF px_invD(1) [OF inv] i] split: option.splits)
  qed (use inv in auto)
qed

lemma response_collected_ok:
  assumes inv: "px_inv c s" and i: "i < length (px_calls s)"
  shows "\<exists>s'. response_collected i s = Inr s' \<and> px_inv c s'"
proof -
  have "px_inv c (moved i (ca_phase (px_calls s ! i)) s)" by (rule px_inv_finish [OF inv i]) auto
  then show ?thesis
    using inv by (auto simp: response_collected_def release_once_eq [OF px_invD(1) [OF inv] i] split: phase.splits)
qed

lemma forward_admitted_ok:
  assumes inv: "px_inv c s" and i: "i < length (px_calls s)" and adm: "ca_phase (px_calls s ! i) = Admitted"
    and pick: "\<forall>n > 0. lb_pick lb n < n"
  shows "\<exists>s'. forward_admitted c lb i uuid rq path chunks s = Inr s' \<and> px_inv c s'"
proof (cases "decide_route c lb (registered s) (px_rr s) uuid rq path chunks")
  case (Forward w m rr')
  define k where "k = pool_index s w"
  have "w \<in> set (registered s)" using decide_registered [OF pick Forward] by blast
  then have "k < length (px_workers s)" using pool_index_member inv unfolding k_def px_inv_def by blast
  then have "px_inv c (set_phase i (Sending k) (on_worker k increment_active (s\<lparr>px_rr := rr'\<rparr>)))"
    by (intro px_inv_move [OF inv i, where ca = "(px_calls s ! i)\<lparr>ca_phase := Sending k\<rparr>"])
      (auto simp: adm worker_on_worker increment_active_def balanced_def)
  then show ?thesis using Forward by (simp add: forward_admitted_def Let_def k_def)
next
  case (Reject status e)
  have "px_inv c (moved i (Answered_Self status) s)" by (rule px_inv_finish [OF inv i]) (use adm in auto)
  then show ?thesis using Reject by (simp add: forward_admitted_def finish_call_eq [OF px_invD(1) [OF inv] i])
next
  case (Escape e)
  have "px_inv c (moved i (Failed_With e) s)" by (rule px_inv_finish [OF inv i]) (use adm in auto)
  then show ?thesis using Escape by (simp add: forward_admitted_def finish_call_eq [OF px_invD(1) [OF inv] i])
qed

lemma px_step_ok:
  assumes inv: "px_inv c s" and en: "enabled e s" and pick: "\<forall>n > 0. lb_pick lb n < n"
  shows "\<exists>s'. px_step c lb e s = Inr s' \<and> px_inv c s'"
proof (cases e)
  case (Body_Read i uuid rq path chunks)
  with en forward_admitted_ok [OF inv _ _ pick] show ?thesis by (simp add: px_step_def)
next
  case (Body_Fails i x)
  with en have i: "i < length (px_calls s)" "ca_phase (px_calls s ! i) = Admitted" by auto
  have "px_inv c (moved i (Failed_With x) s)" by (rule px_inv_finish [OF inv i(1)]) (use i(2) in auto)
  with Body_Fails show ?thesis by (simp add: px_step_def finish_call_eq [OF px_invD(1) [OF inv] i(1)])
qed (use en inv send_ends_ok relay_ends_ok close_ends_ok response_collected_ok px_inv_arrive px_inv_create px_inv_delete
    px_inv_quiet [OF _ quiet_probe] px_inv_quiet [OF _ quiet_update] in \<open>simp_all add: px_step_def\<close>)

definition fresh_pool :: "worker list \<Rightarrow> bool" where
  "fresh_pool workers \<longleftrightarrow> distinct (map wk_url workers) \<and>
     (\<forall>w \<in> set workers. wk_active w = 0 \<and> wk_routed w = 0 \<and> wk_succeeded w = 0 \<and> wk_failed w = 0)"

lemma px_reach_inv:
  assumes "px_reach c lb workers s" "fresh_pool workers" "\<forall>n > 0. lb_pick lb n < n"
  shows "px_inv c s"
  using assms(1)
proof (induction rule: px_reach.induct)
  case Start
  then show ?case using assms(2) by (intro px_inv_new) (auto simp: fresh_pool_def balanced_def)
next
  case (Step s e s')
  with px_step_ok [OF Step.IH Step.hyps(2) assms(3)] show ?case by auto
qed

section \<open>What the proxy guarantees\<close>

lemma count_zero: "\<forall>ca \<in> set xs. \<not> P ca \<Longrightarrow> length (filter P xs) = 0"
  by (simp add: filter_empty_conv)

lemma count_disjoint:
  "\<forall>x. \<not> (P x \<and> Q x) \<Longrightarrow> length (filter (\<lambda>x. P x \<or> Q x) xs) = length (filter P xs) + length (filter Q xs)"
  by (induction xs) auto

text \<open>An event of one call leaves the others alone, and an ended call where it is.\<close>

lemma moved_at: "i \<noteq> j \<Longrightarrow> px_calls (moved j p s) ! i = px_calls s ! i"
  by simp

definition untouched :: "nat \<Rightarrow> proxy \<Rightarrow> proxy \<Rightarrow> bool" where
  "untouched i s s' \<longleftrightarrow> length (px_calls s) \<le> length (px_calls s') \<and> px_calls s' ! i = px_calls s ! i"

lemma untouched_simps [simp]:
  "untouched i s s" "untouched i s (on_worker k f s)" "i \<noteq> j \<Longrightarrow> untouched i s (set_phase j p s)"
  by (simp_all add: untouched_def)

lemma untouched_trans: "untouched i s s' \<Longrightarrow> untouched i s' s'' \<Longrightarrow> untouched i s s''"
  by (auto simp: untouched_def)

lemma untouched_release: "i \<noteq> j \<Longrightarrow> release_once j s = Inr s' \<Longrightarrow> untouched i s s'"
  by (auto simp: release_once_def release_def set_call_def untouched_def split: if_splits)

lemma untouched_finish: "i \<noteq> j \<Longrightarrow> finish_call j p s = Inr s' \<Longrightarrow> untouched i s s'"
  unfolding finish_call_def using untouched_release untouched_simps(3) untouched_trans by blast

lemma untouched_decrement: "decrement_worker k s = Inr s' \<Longrightarrow> untouched i s s'"
  by (auto simp: decrement_worker_def)

lemma ended_call_untouched:
  assumes en: "enabled e s" and i: "i < length (px_calls s)" "abandoned k (ca_phase (px_calls s ! i))"
    and step: "px_step c lb e s = Inr s'"
  shows "untouched i s s'"
proof -
  have ab: "\<exists>x. ca_phase (px_calls s ! i) = Abandoned k x" using i(2) by (auto elim: abandoned.elims)
  note tr = untouched_trans
  show ?thesis
  proof (cases e)
    case Arrive
    with step i(1) show ?thesis by (auto simp: px_step_def arrive_def try_acquire_def untouched_def nth_append)
  next
    case (Body_Read j uuid rq path chunks)
    with en ab have "i \<noteq> j" by auto
    with Body_Read step untouched_finish [OF \<open>i \<noteq> j\<close>] show ?thesis
      by (auto simp: px_step_def forward_admitted_def Let_def untouched_def split: decision.splits)
  next
    case (Body_Fails j x)
    with en ab have "i \<noteq> j" by auto
    with Body_Fails step untouched_finish [OF \<open>i \<noteq> j\<close>] show ?thesis by (auto simp: px_step_def)
  next
    case (Send_Ends j a)
    show ?thesis
    proof (cases "i = j")
      case False
      with Send_Ends step untouched_finish [OF False] show ?thesis
        by (fastforce simp: px_step_def send_ends_def Let_def record_status_def record_failure_of_def untouched_def decrement_worker_def
            split: phase.splits send_end.splits)
    qed (use Send_Ends step ab in \<open>auto simp: px_step_def send_ends_def\<close>)
  next
    case (Relay_Ends j a)
    show ?thesis
    proof (cases "i = j")
      case False
      with Relay_Ends step show ?thesis
        by (auto simp: px_step_def relay_ends_def cleanup_begins_def record_failure_of_def untouched_def
            split: phase.splits relay_end.splits)
    qed (use Relay_Ends step ab in \<open>auto simp: px_step_def relay_ends_def\<close>)
  next
    case (Close_Ends j r)
    show ?thesis
    proof (cases "i = j")
      case False
      with Close_Ends step untouched_finish [OF False] untouched_release [OF False] show ?thesis
        by (fastforce simp: px_step_def close_ends_def untouched_def decrement_worker_def split: phase.splits option.splits)
    qed (use Close_Ends step ab in \<open>auto simp: px_step_def close_ends_def\<close>)
  next
    case (Response_Collected j)
    show ?thesis
    proof (cases "i = j")
      case False
      with Response_Collected step untouched_release [OF False] show ?thesis
        by (auto simp: px_step_def response_collected_def split: phase.splits)
    qed (use Response_Collected step ab in \<open>auto simp: px_step_def response_collected_def\<close>)
  qed (use step in \<open>auto simp: px_step_def create_worker_def delete_worker_def untouched_def\<close>)
qed

text \<open>
  C25: The admission count is exact. In every reachable state it is the number of calls that have not
  released their slot and at most the bound; a call that has ended, in whatever way, has released its
  slot exactly once, so that an idle router admits again up to the bound; and no step of the proxy trips
  the assertions that guard the two counters.
\<close>

theorem admission_is_exact:
  assumes "px_reach c lb workers s" and "fresh_pool workers" and "\<forall>n > 0. lb_pick lb n < n"
  shows "px_inflight s = length (filter (\<lambda>ca. \<not> ca_released ca) (px_calls s)) \<and>
    px_inflight s \<le> pc_max_inflight c \<and>
    (\<forall>ca \<in> set (px_calls s). finished (ca_phase ca) \<longrightarrow> ca_released ca) \<and>
    ((\<forall>ca \<in> set (px_calls s). finished (ca_phase ca)) \<longrightarrow> px_inflight s = 0) \<and>
    (\<forall>e. enabled e s \<longrightarrow> is_ok (px_step c lb e s))"
proof -
  note inv = px_reach_inv [OF assms]
  have "is_ok (px_step c lb e s)" if "enabled e s" for e
    using px_step_ok [OF inv that assms(3)] by auto
  with inv show ?thesis
    by (auto simp: px_inv_def count_calls_def intro!: count_zero)
qed

text \<open>
  C26: A worker's count of active requests is the number of its relays under way plus the number of calls
  that \<open>client.send\<close> left by an exception other than \<open>httpx.HTTPError\<close> (or whose clean-up raised while
  the response was built). Such a call stays counted for ever: whatever happens later, the worker looks
  busier than it is.
\<close>

theorem active_counts_relays:
  assumes "px_reach c lb workers s" and "fresh_pool workers" and "\<forall>n > 0. lb_pick lb n < n" and "k < length (px_workers s)"
  shows "wk_active (px_workers s ! k) =
      length (filter (\<lambda>ca. relaying k (ca_phase ca)) (px_calls s)) + length (filter (\<lambda>ca. abandoned k (ca_phase ca)) (px_calls s)) \<and>
    wk_routed (px_workers s ! k) = wk_succeeded (px_workers s ! k) + wk_failed (px_workers s ! k) \<and>
    (\<forall>i e s'. i < length (px_calls s) \<longrightarrow> abandoned k (ca_phase (px_calls s ! i)) \<longrightarrow> enabled e s \<longrightarrow> px_step c lb e s = Inr s' \<longrightarrow>
       abandoned k (ca_phase (px_calls s' ! i)) \<and> 0 < wk_active (px_workers s' ! k))"
proof -
  note inv = px_reach_inv [OF assms(1-3)]
  have split: "length (filter (counted k) xs) = length (filter (\<lambda>ca. relaying k (ca_phase ca)) xs)
      + length (filter (\<lambda>ca. abandoned k (ca_phase ca)) xs)" for xs
    by (rule count_disjoint) (auto elim: abandoned.elims)
  have "abandoned k (ca_phase (px_calls s' ! i)) \<and> 0 < wk_active (px_workers s' ! k)"
    if "i < length (px_calls s)" "abandoned k (ca_phase (px_calls s ! i))" "enabled e s" "px_step c lb e s = Inr s'" for i e s'
  proof -
    have stays: "abandoned k (ca_phase (px_calls s' ! i))" "i < length (px_calls s')"
      using ended_call_untouched [OF that(3,1,2,4)] that(1,2) by (auto simp: untouched_def)
    from px_step_ok [OF inv that(3) assms(3)] that(4) have "px_inv c s'" by auto
    then have "0 < wk_active (px_workers s' ! k)" by (rule px_invD(3)) (use stays in auto)
    with stays show ?thesis by blast
  qed
  with inv assms(4) split show ?thesis by (auto simp: px_inv_def count_calls_def balanced_def)
qed

section \<open>A run\<close>

fun px_run :: "proxy_config \<Rightarrow> libs \<Rightarrow> proxy_event list \<Rightarrow> proxy \<Rightarrow> proxy option" where
  "px_run c lb [] s = Some s"
| "px_run c lb (e # es) s =
     (if enabled e s then (case px_step c lb e s of Inl x \<Rightarrow> None | Inr s' \<Rightarrow> px_run c lb es s') else None)"

lemma px_run_reach: "px_reach c lb workers s \<Longrightarrow> px_run c lb es s = Some s' \<Longrightarrow> px_reach c lb workers s'"
  by (induction es arbitrary: s) (auto split: if_splits sum.splits intro: px_reach.Step)

definition demo_workers :: "worker list" where
  "demo_workers = [(new_worker ''http://a'' None {Chat, Streaming})\<lparr>wk_state := Healthy\<rparr>]"

definition demo_proxy_config :: proxy_config where
  "demo_proxy_config = \<lparr>pc_max_inflight = 2, pc_max_payload = 100, pc_policy = Least_Request,
     pc_failure_threshold = 3, pc_success_threshold = 2\<rparr>"

definition demo_libs :: libs where
  "demo_libs = \<lparr>lb_loads = demo_loads, lb_depth = 400, lb_parse_int = (\<lambda>s. None), lb_pick = (\<lambda>n. 0)\<rparr>"

definition plain_request :: http_request where
  "plain_request = \<lparr>rq_headers = [], rq_query = []\<rparr>"

lemma demo_decision:
  "decide_route demo_proxy_config demo_libs demo_workers 0 ''id'' plain_request ''/generate'' [] =
     Forward (hd demo_workers) \<lparr>rm_request_id = ''id'', rm_model = None, rm_stream = False, rm_required = {Chat},
       rm_exceeds_limit = False, rm_capabilities_header = False\<rparr> 0"
  by (simp add: decide_route_def header_def plain_request_def read_body_with_limit_def extract_route_metadata_def
      request_id_from_request_def or_string_def route_model_from_header_def route_stream_from_header_def
      route_capabilities_from_header_def is_json_request_def lower_def substring_def required_capabilities_def
      finish_metadata_def large_request_extra_capabilities_def select_def candidates_eq eligible_def demo_workers_def
      new_worker_def demo_proxy_config_def least_loaded_def select_round_robin_def guardE_def Let_def)

definition demo_events :: "proxy_event list" where
  "demo_events = [Arrive, Arrive, Arrive, Body_Read 0 ''id'' plain_request ''/generate'' [],
     Send_Ends 0 (Other_Error (CancelledError [])), Body_Fails 1 (RuntimeError ''gone'')]"

definition demo_proxy :: proxy where
  "demo_proxy = \<lparr>px_workers = [(hd demo_workers)\<lparr>wk_active := 1\<rparr>], px_pool = [0], px_rr = 0, px_inflight = 0,
     px_peak = 2, px_rejected = 1,
     px_calls = [\<lparr>ca_phase = Abandoned 0 (CancelledError []), ca_released = True\<rparr>,
                 \<lparr>ca_phase = Failed_With (RuntimeError ''gone''), ca_released = True\<rparr>]\<rparr>"

lemma demo_run: "px_run demo_proxy_config demo_libs demo_events (new_proxy demo_workers) = Some demo_proxy"
proof -
  define w where "w = hd demo_workers"
  have ws: "demo_workers = [w]" "wk_active w = 0" by (simp_all add: demo_workers_def new_worker_def w_def)
  have reg: "registered s = [w]" if "px_workers s = [w]" "px_pool s = [0]" for s
    using that by (simp add: registered_def)
  have dec: "decide_route demo_proxy_config demo_libs [w] 0 ''id'' plain_request ''/generate'' [] =
      Forward w \<lparr>rm_request_id = ''id'', rm_model = None, rm_stream = False, rm_required = {Chat},
        rm_exceeds_limit = False, rm_capabilities_header = False\<rparr> 0"
    using demo_decision unfolding ws(1) by simp
  have "pc_max_inflight demo_proxy_config = 2" by (simp add: demo_proxy_config_def)
  with ws(2) show ?thesis
    unfolding demo_events_def demo_proxy_def new_proxy_def ws(1)
    by (simp add: reg dec px_step_def arrive_def try_acquire_def forward_admitted_def
        pool_index_def set_phase_def set_call_def on_worker_def increment_active_def send_ends_def record_status_def finish_call_def release_once_def
        release_def guardE_def Let_def)
qed

lemma demo_proxy_reach: "px_reach demo_proxy_config demo_libs demo_workers demo_proxy"
  by (rule px_run_reach [OF px_reach.Start demo_run])

lemma demo_fresh: "fresh_pool demo_workers" "\<forall>n > 0. lb_pick demo_libs n < n"
  by (simp_all add: fresh_pool_def demo_workers_def new_worker_def demo_libs_def)

lemma admission_is_exact_witness:
  "px_inflight demo_proxy = 0 \<and> px_inflight demo_proxy \<le> pc_max_inflight demo_proxy_config"
  using admission_is_exact [OF demo_proxy_reach demo_fresh] by (simp add: demo_proxy_def)

lemma active_counts_relays_witness: "wk_active (px_workers demo_proxy ! 0) = 1"
  using active_counts_relays [OF demo_proxy_reach demo_fresh, of 0] by (simp add: demo_proxy_def)

end
