(* ===== verification/Router_Admin.thy ===== *)
theory Router_Admin
  imports Router_Proxy
begin

text \<open>
  The administrative side of the external router, \<open>sglang_omni_router/app.py\<close>: the checks of the worker
  routes, the broadcast of administrative requests under its lock, together with the proxy it interrupts,
  and the merging of what the workers answer.
\<close>

section \<open>The worker routes\<close>

text \<open>
  \<open>WorkerConfig(url, model, capabilities)\<close> is pydantic's: \<open>conf\<close> gives the normalised URL, model and
  capabilities or the validation error; absent capabilities are \<open>None\<close>.
\<close>

type_synonym worker_conf = "string \<times> string option \<times> capability set"

datatype 'a answer = Refuse int string | Accept 'a

definition unknown_fields :: "string set \<Rightarrow> pydict \<Rightarrow> bool" where
  "unknown_fields allowed payload \<longleftrightarrow> \<not> fst ` set payload \<subseteq> allowed"

definition py_or :: "pyval \<Rightarrow> pyval \<Rightarrow> pyval" where
  "py_or a b = (if truthy a then a else b)"

definition create_worker_request ::
    "(string \<Rightarrow> pyval \<Rightarrow> pyval option \<Rightarrow> worker_conf result) \<Rightarrow> (string \<Rightarrow> string option) \<Rightarrow> pydict \<Rightarrow> worker list \<Rightarrow>
     worker_conf answer" where
  "create_worker_request conf query payload workers =
     (if unknown_fields {''url'', ''worker_url'', ''capabilities'', ''model''} payload then Refuse 400 ''unsupported fields''
      else let q = (case query ''url'' of Some u \<Rightarrow> (if u = [] then query ''worker_url'' else Some u) | None \<Rightarrow> query ''worker_url'');
               u = (case q of Some u \<Rightarrow> (if u = [] then None else Some u) | None \<Rightarrow> None);
               u = (case u of Some v \<Rightarrow> Some v | None \<Rightarrow> str_or_none (py_or (dget payload ''url'') (dget payload ''worker_url'')))
        in case u of
          None \<Rightarrow> Refuse 400 ''worker url is required''
        | Some url \<Rightarrow>
            (case conf url (dget payload ''model'') (map_of payload ''capabilities'') of
               Inl e \<Rightarrow> Refuse 400 (error_message e)
             | Inr (url', model, caps) \<Rightarrow>
                 (if list_ex (\<lambda>w. wk_url w = url') workers then Refuse 409 ''worker already registered''
                  else Accept (url', model, caps))))"

text \<open>
  The checks of \<open>PUT /workers/{id}\<close>; its effect is \<open>update_worker\<close> of the proxy. The current model and
  capabilities go back through the validation when the body leaves them out.
\<close>

definition optional_bool :: "pydict \<Rightarrow> string \<Rightarrow> bool option answer" where
  "optional_bool payload k = (case map_of payload k of
     None \<Rightarrow> Accept None | Some (PBool b) \<Rightarrow> Accept (Some b) | Some v \<Rightarrow> Refuse 400 (k @ '' must be a boolean''))"

definition update_worker_request ::
    "(string \<Rightarrow> pyval \<Rightarrow> pyval option \<Rightarrow> worker_conf result) \<Rightarrow> (capability set \<Rightarrow> pyval) \<Rightarrow> pydict \<Rightarrow> worker \<Rightarrow>
     ((string option \<times> capability set) option \<times> bool option \<times> bool option) result answer" where
  "update_worker_request conf caps_value payload w =
     (if unknown_fields {''is_dead'', ''disabled'', ''capabilities'', ''model''} payload then Refuse 400 ''unsupported fields''
      else if payload = [] then Refuse 400 ''at least one worker field is required''
      else case optional_bool payload ''is_dead'' of
        Refuse c e \<Rightarrow> Refuse c e
      | Accept dead \<Rightarrow> (case optional_bool payload ''disabled'' of
          Refuse c e \<Rightarrow> Refuse c e
        | Accept disabled \<Rightarrow>
            (if \<not> dhas payload ''capabilities'' \<and> \<not> dhas payload ''model'' then Accept (Inr (None, disabled, dead))
             else case conf (wk_url w)
                (if dhas payload ''model'' then dget payload ''model'' else (case wk_model w of None \<Rightarrow> PNone | Some m \<Rightarrow> PStr m))
                (Some (if dhas payload ''capabilities'' then dget payload ''capabilities'' else caps_value (wk_capabilities w))) of
               Inl e \<Rightarrow> Refuse 400 (error_message e)
             | Inr (url, model, caps) \<Rightarrow>
                 Accept (bindE (replace_config url model caps w) (\<lambda>_. Inr (Some (model, caps), disabled, dead))))))"

text \<open>\<open>_pool_summary\<close> and the answer of \<open>/ready\<close> and \<open>/health\<close>.\<close>

definition pool_summary :: "string \<Rightarrow> worker list \<Rightarrow> pydict" where
  "pool_summary status workers =
     (let count = (\<lambda>P. PInt (int (length (filter P workers)))) in
      [(''status'', PStr status), (''healthy_workers'', count (\<lambda>w. wk_state w = Healthy)), (''dead_workers'', count is_dead),
       (''disabled_workers'', count wk_disabled), (''routable_workers'', count is_routable),
       (''unhealthy_workers'', count (\<lambda>w. wk_state w = Unhealthy)), (''unknown_workers'', count (\<lambda>w. wk_state w = Unknown)),
       (''total_workers'', PInt (int (length workers)))])"

definition pool_status :: "string \<Rightarrow> string \<Rightarrow> worker list \<Rightarrow> int \<times> pydict" where
  "pool_status available unavailable workers =
     (let routable = list_ex is_routable workers in
      (if routable then 200 else 503, pool_summary (if routable then available else unavailable) workers))"

section \<open>What a worker answers\<close>

datatype admin_reply = No_Reply string | Reply int pyval

record broadcast_result =
  ar_worker :: string
  ar_success :: bool
  ar_status :: "int option"
  ar_body :: pyval

definition body_success :: "pyval \<Rightarrow> bool" where
  "body_success body = (case body of PDict d \<Rightarrow> dget_default d ''success'' (PBool True) \<noteq> PBool False | _ \<Rightarrow> True)"

definition broadcast_result_of :: "string \<Rightarrow> admin_reply \<Rightarrow> broadcast_result" where
  "broadcast_result_of url r = (case r of
     No_Reply e \<Rightarrow> \<lparr>ar_worker = url, ar_success = False, ar_status = None, ar_body = PNone\<rparr>
   | Reply status body \<Rightarrow>
       \<lparr>ar_worker = url, ar_success = (200 \<le> status \<and> status < 300 \<and> body_success body), ar_status = Some status, ar_body = body\<rparr>)"

text \<open>\<open>_extract_worker_model_infos\<close> for one result; a stage list that is no iterable raises.\<close>

definition top_level_info :: "string \<Rightarrow> pydict \<Rightarrow> pydict list" where
  "top_level_info worker body =
     (let top = filter (\<lambda>(k, v). v \<noteq> PNone) (map (\<lambda>k. (k, dget body k)) [''weight_version'', ''model_path'', ''load_format'']) in
      if top = [] then [] else [dset top ''worker'' (PStr worker)])"

definition setdefault :: "pydict \<Rightarrow> string \<Rightarrow> pyval \<Rightarrow> pydict" where
  "setdefault d k v = (if dhas d k then d else dset d k v)"

definition stage_info :: "string \<Rightarrow> pyval \<Rightarrow> pydict list" where
  "stage_info worker stage = (case stage of
     PDict st \<Rightarrow> (case dget st ''data'' of
         PDict data \<Rightarrow>
           (if truthy (py_or (dget data ''skipped'') (dget data ''unsupported'')) then []
            else [setdefault (setdefault data ''worker'' (PStr worker)) ''stage'' (dget st ''stage'')])
       | _ \<Rightarrow> [])
   | _ \<Rightarrow> [])"

definition worker_model_infos :: "broadcast_result \<Rightarrow> pydict list result" where
  "worker_model_infos r = (case ar_body r of
     PDict body \<Rightarrow>
       bindE (py_list (py_or (py_or (dget body ''stages'') (dget body ''results'')) (PList []))) (\<lambda>stages.
       Inr (top_level_info (ar_worker r) body @ concat (map (stage_info (ar_worker r)) stages)))
   | _ \<Rightarrow> Inr [])"

definition extract_worker_model_infos :: "broadcast_result list \<Rightarrow> pydict list result" where
  "extract_worker_model_infos results = bindE (mapE worker_model_infos results) (\<lambda>xs. Inr (concat xs))"

text \<open>\<open>_common_worker_model_info_value\<close>: \<open>dumps\<close> is \<open>json.dumps\<close> with sorted keys.\<close>

datatype common_value = Common pyval | Mixed "pyval list"

definition unique_by :: "('a \<Rightarrow> 'k) \<Rightarrow> 'a list \<Rightarrow> 'a list" where
  "unique_by f xs = foldl (\<lambda>ys x. if f x \<in> f ` set ys then ys else ys @ [x]) [] xs"

definition common_info_value :: "(pyval \<Rightarrow> string) \<Rightarrow> pydict list \<Rightarrow> string \<Rightarrow> common_value" where
  "common_info_value dumps infos k =
     (case unique_by dumps (filter (\<lambda>v. v \<noteq> PNone) (map (\<lambda>i. dget i k) infos)) of
        [] \<Rightarrow> Common PNone | [v] \<Rightarrow> Common v | vs \<Rightarrow> Mixed vs)"

definition common_or_none :: "common_value \<Rightarrow> pyval" where
  "common_or_none v = (case v of Common x \<Rightarrow> x | Mixed vs \<Rightarrow> PNone)"

text \<open>The status and the fields of the answer that depend on the workers.\<close>

definition model_info_response :: "(pyval \<Rightarrow> string) \<Rightarrow> broadcast_result list \<Rightarrow> (int \<times> pydict) result" where
  "model_info_response dumps results =
     (if \<not> list_all ar_success results then Inr (502, [(''success'', PBool False)])
      else bindE (extract_worker_model_infos results) (\<lambda>infos.
        case common_info_value dumps infos ''weight_version'' of
          Mixed vs \<Rightarrow> Inr (409, [(''success'', PBool False), (''mixed_state'', PDict [(''weight_version'', PList vs)])])
        | Common v \<Rightarrow> Inr (200, [(''success'', PBool True), (''weight_version'', v),
            (''model_path'', common_or_none (common_info_value dumps infos ''model_path'')),
            (''load_format'', common_or_none (common_info_value dumps infos ''load_format''))])))"

definition broadcast_response :: "(pyval \<Rightarrow> string) \<Rightarrow> string \<Rightarrow> broadcast_result list \<Rightarrow> (int \<times> pydict) result" where
  "broadcast_response dumps path results =
     (let success = list_all ar_success results in
      if path = ''/model_info'' then model_info_response dumps results
      else Inr (if success then 200 else 502, [(''success'', PBool success)]))"

text \<open>\<open>_merge_models\<close>: what a worker's \<open>/v1/models\<close> gives, and the cards by their first appearance.\<close>

datatype models_reply = Models_Failed | Models_Status int | Models_Not_Json | Models_Json pyval

definition fetch_worker_models :: "models_reply \<Rightarrow> pyval list option result" where
  "fetch_worker_models r = (case r of
     Models_Json (PDict d) \<Rightarrow> (case dget d ''data'' of PList xs \<Rightarrow> Inr (Some xs) | _ \<Rightarrow> Inr None)
   | Models_Json v \<Rightarrow> Inl (AttributeError (type_name v @ '' object has no attribute get''))
   | _ \<Rightarrow> Inr None)"

definition card_key :: "(pyval \<Rightarrow> string) \<Rightarrow> pydict \<Rightarrow> string" where
  "card_key dumps cd = (case py_or (dget cd ''id'') (dget cd ''model'') of
     PStr s \<Rightarrow> (if s = [] then dumps (PDict cd) else s) | _ \<Rightarrow> dumps (PDict cd))"

definition dict_cards :: "pyval list \<Rightarrow> pydict list" where
  "dict_cards xs = concat (map (\<lambda>v. case v of PDict d \<Rightarrow> [d] | _ \<Rightarrow> []) xs)"

definition merge_models :: "(pyval \<Rightarrow> string) \<Rightarrow> (worker \<times> models_reply) list \<Rightarrow> (int \<times> pydict list) result" where
  "merge_models dumps replies =
     (if replies = [] then Inr (503, [])
      else bindE (mapE (\<lambda>(w, r). fetch_worker_models r) replies) (\<lambda>datas.
        let cards = unique_by (card_key dumps) (concat (map (\<lambda>d. case d of None \<Rightarrow> [] | Some xs \<Rightarrow> dict_cards xs) datas)) in
        Inr (if cards = [] then 502 else 200, cards)))"

text \<open>The model list of the routable workers, by what each of them answers.\<close>

definition list_models :: "(pyval \<Rightarrow> string) \<Rightarrow> (worker \<Rightarrow> models_reply) \<Rightarrow> worker list \<Rightarrow> (int \<times> pydict list) result" where
  "list_models dumps answer workers = merge_models dumps (map (\<lambda>w. (w, answer w)) (filter is_routable workers))"

section \<open>The broadcast\<close>

definition admin_update_paths :: "string set" where
  "admin_update_paths = {''/pause_generation'', ''/update_weights_from_disk'', ''/update_weights_from_distributed'',
     ''/init_weights_update_group'', ''/destroy_weights_update_group''}"

text \<open>
  Where a broadcast stands: waiting for the lock, reading the request's body, sending with what each
  target's flag was, or ended with a status or an exception.
\<close>

datatype admin_phase = Locking | Reading | Broadcasting "string \<rightharpoonup> bool" | Ended "int result"

record admin_call =
  ac_path :: string
  ac_targets :: "nat list"
  ac_phase :: admin_phase

text \<open>\<open>ad_sends\<close> are the requests of broadcasts under way: the call and the worker they go to.\<close>

record admin =
  ad_proxy :: proxy
  ad_lock :: "nat option"
  ad_calls :: "admin_call list"
  ad_sends :: "(nat \<times> nat) list"

definition new_admin :: "worker list \<Rightarrow> admin" where
  "new_admin workers = \<lparr>ad_proxy = new_proxy workers, ad_lock = None, ad_calls = [], ad_sends = []\<rparr>"

definition ac_update :: "admin_call \<Rightarrow> bool" where
  "ac_update k \<longleftrightarrow> ac_path k \<in> admin_update_paths"

definition ad_worker :: "admin \<Rightarrow> nat \<Rightarrow> worker" where
  "ad_worker s k = px_workers (ad_proxy s) ! k"

definition set_admin :: "nat \<Rightarrow> admin_phase \<Rightarrow> admin \<Rightarrow> admin" where
  "set_admin i p s = s\<lparr>ad_calls := (ad_calls s)[i := (ad_calls s ! i)\<lparr>ac_phase := p\<rparr>]\<rparr>"

definition on_admin_worker :: "nat \<Rightarrow> (worker \<Rightarrow> worker) \<Rightarrow> admin \<Rightarrow> admin" where
  "on_admin_worker k f s = s\<lparr>ad_proxy := on_worker k f (ad_proxy s)\<rparr>"

text \<open>\<open>_broadcast_admin_request\<close> up to its first await.\<close>

definition begin_broadcast :: "string \<Rightarrow> admin \<Rightarrow> admin" where
  "begin_broadcast path s =
     (let targets = filter (\<lambda>k. \<not> is_dead (ad_worker s k)) (px_pool (ad_proxy s));
          p = (if targets = [] then Ended (Inr 503)
               else if path = ''/init_weights_update_group'' \<and> length targets > 1 then Ended (Inr 422)
               else if path \<in> admin_update_paths then Locking else Reading)
      in s\<lparr>ad_calls := ad_calls s @ [\<lparr>ac_path = path, ac_targets = targets, ac_phase = p\<rparr>]\<rparr>)"

definition take_lock :: "nat \<Rightarrow> admin \<Rightarrow> admin" where
  "take_lock i s = set_admin i Reading (s\<lparr>ad_lock := Some i\<rparr>)"

definition free_lock :: "nat \<Rightarrow> admin \<Rightarrow> admin" where
  "free_lock i s = (if ac_update (ad_calls s ! i) then s\<lparr>ad_lock := None\<rparr> else s)"

text \<open>
  The body has been read: the flags are saved, the targets of an update disabled and one send to each
  target started.
\<close>

definition saved_flags :: "nat list \<Rightarrow> admin \<Rightarrow> string \<rightharpoonup> bool" where
  "saved_flags targets s = map_of (map (\<lambda>k. (wk_url (ad_worker s k), wk_disabled (ad_worker s k))) targets)"

definition begin_sending :: "nat \<Rightarrow> admin \<Rightarrow> admin" where
  "begin_sending i s =
     (let c = ad_calls s ! i;
          s' = set_admin i (Broadcasting (saved_flags (ac_targets c) s)) s
      in (if ac_update c then fold (\<lambda>k. on_admin_worker k (set_disabled True)) (ac_targets c) s' else s')
         \<lparr>ad_sends := ad_sends s @ map (Pair i) (ac_targets c)\<rparr>)"

text \<open>\<open>_restore_admin_disabled_state\<close>, with the results if the gathering returned.\<close>

definition keeps_disabled :: "string \<Rightarrow> broadcast_result list option \<Rightarrow> string \<Rightarrow> bool" where
  "keeps_disabled path results url \<longleftrightarrow> path = ''/init_weights_update_group'' \<and>
     (case results of None \<Rightarrow> True | Some rs \<Rightarrow> list_ex (\<lambda>r. ar_worker r = url \<and> \<not> ar_success r) rs)"

definition restore_disabled :: "string \<Rightarrow> (string \<rightharpoonup> bool) \<Rightarrow> broadcast_result list option \<Rightarrow> nat list \<Rightarrow> admin \<Rightarrow> admin" where
  "restore_disabled path saved results targets s =
     fold (\<lambda>k. on_admin_worker k (\<lambda>w. set_disabled (keeps_disabled path results (wk_url w) \<or> saved (wk_url w) = Some True) w)) targets s"

text \<open>
  All the workers have answered, one reply per target, or the gathering was cancelled or raised: the
  flags are restored and the lock is freed at once, while the sends that had not ended go on.
\<close>

definition sending_ends :: "(pyval \<Rightarrow> string) \<Rightarrow> nat \<Rightarrow> admin_reply list result \<Rightarrow> admin \<Rightarrow> admin" where
  "sending_ends dumps i outcome s =
     (let c = ad_calls s ! i in
      case ac_phase c of
        Broadcasting saved \<Rightarrow>
          (let results = (case outcome of Inl e \<Rightarrow> None
             | Inr rs \<Rightarrow> Some (map (\<lambda>(k, r). broadcast_result_of (wk_url (ad_worker s k)) r) (zip (ac_targets c) rs)));
               s = (if ac_update c then restore_disabled (ac_path c) saved results (ac_targets c) s else s);
               answer = (case (outcome, results) of
                 (Inr rs, Some results) \<Rightarrow> bindE (broadcast_response dumps (ac_path c) results) (\<lambda>(status, d). Inr status)
               | (Inl e, r) \<Rightarrow> Inl e
               | (Inr rs, None) \<Rightarrow> Inr 0)
           in set_admin i (Ended answer) (free_lock i s))
      | _ \<Rightarrow> s)"

datatype admin_event =
    Proxy_Event proxy_event
  | Begin_Broadcast string
  | Take_Lock nat
  | Lock_Timeout nat
  | Read_Body nat
  | Read_Fails nat py_error
  | Send_Done nat nat
  | Sending_Ends nat "admin_reply list result"

definition admin_step :: "proxy_config \<Rightarrow> libs \<Rightarrow> (pyval \<Rightarrow> string) \<Rightarrow> admin_event \<Rightarrow> admin \<Rightarrow> admin result" where
  "admin_step c lb dumps e s = (case e of
     Proxy_Event pe \<Rightarrow> bindE (px_step c lb pe (ad_proxy s)) (\<lambda>p. Inr (s\<lparr>ad_proxy := p\<rparr>))
   | Begin_Broadcast path \<Rightarrow> Inr (begin_broadcast path s)
   | Take_Lock i \<Rightarrow> Inr (take_lock i s)
   | Lock_Timeout i \<Rightarrow> Inr (set_admin i (Ended (Inr 503)) s)
   | Read_Body i \<Rightarrow> Inr (begin_sending i s)
   | Read_Fails i x \<Rightarrow> Inr (set_admin i (Ended (Inl x)) (free_lock i s))
   | Send_Done i k \<Rightarrow> Inr (s\<lparr>ad_sends := remove1 (i, k) (ad_sends s)\<rparr>)
   | Sending_Ends i outcome \<Rightarrow> Inr (sending_ends dumps i outcome s))"

definition is_locking :: "admin_phase \<Rightarrow> bool" where
  "is_locking p \<longleftrightarrow> (case p of Locking \<Rightarrow> True | _ \<Rightarrow> False)"

definition is_reading :: "admin_phase \<Rightarrow> bool" where
  "is_reading p \<longleftrightarrow> (case p of Reading \<Rightarrow> True | _ \<Rightarrow> False)"

fun admin_enabled :: "admin_event \<Rightarrow> admin \<Rightarrow> bool" where
  "admin_enabled (Proxy_Event e) s = enabled e (ad_proxy s)"
| "admin_enabled (Begin_Broadcast path) s = True"
| "admin_enabled (Take_Lock i) s = (i < length (ad_calls s) \<and> is_locking (ac_phase (ad_calls s ! i)) \<and> ad_lock s = None)"
| "admin_enabled (Lock_Timeout i) s = (i < length (ad_calls s) \<and> is_locking (ac_phase (ad_calls s ! i)))"
| "admin_enabled (Read_Body i) s = (i < length (ad_calls s) \<and> is_reading (ac_phase (ad_calls s ! i)))"
| "admin_enabled (Read_Fails i x) s = (i < length (ad_calls s) \<and> is_reading (ac_phase (ad_calls s ! i)))"
| "admin_enabled (Send_Done i k) s = ((i, k) \<in> set (ad_sends s))"
| "admin_enabled (Sending_Ends i outcome) s = (i < length (ad_calls s) \<and>
     (case ac_phase (ad_calls s ! i) of Broadcasting saved \<Rightarrow> True | _ \<Rightarrow> False) \<and>
     (case outcome of
        Inr rs \<Rightarrow> length rs = length (ac_targets (ad_calls s ! i)) \<and> (\<forall>(j, k) \<in> set (ad_sends s). j \<noteq> i)
      | Inl e \<Rightarrow> True))"

inductive admin_run :: "proxy_config \<Rightarrow> libs \<Rightarrow> (pyval \<Rightarrow> string) \<Rightarrow> admin \<Rightarrow> admin_event list \<Rightarrow> admin \<Rightarrow> bool"
  for c lb dumps s where
  Start: "admin_run c lb dumps s [] s"
| Step: "admin_run c lb dumps s es t \<Longrightarrow> admin_enabled e t \<Longrightarrow> admin_step c lb dumps e t = Inr u \<Longrightarrow>
    admin_run c lb dumps s (es @ [e]) u"

text \<open>Runs can be computed.\<close>

fun admin_exec :: "proxy_config \<Rightarrow> libs \<Rightarrow> (pyval \<Rightarrow> string) \<Rightarrow> admin_event list \<Rightarrow> admin \<Rightarrow> admin option" where
  "admin_exec c lb dumps [] s = Some s"
| "admin_exec c lb dumps (e # es) s =
     (if admin_enabled e s then case admin_step c lb dumps e s of Inl x \<Rightarrow> None | Inr t \<Rightarrow> admin_exec c lb dumps es t else None)"

lemma is_locking_iff [simp]: "is_locking p \<longleftrightarrow> p = Locking"
  by (cases p) (simp_all add: is_locking_def)

lemma is_reading_iff [simp]: "is_reading p \<longleftrightarrow> p = Reading"
  by (cases p) (simp_all add: is_reading_def)

lemma admin_run_more:
  "admin_run c lb dumps s es t \<Longrightarrow> admin_exec c lb dumps es' t = Some u \<Longrightarrow> admin_run c lb dumps s (es @ es') u"
proof (induction es' arbitrary: es t)
  case (Cons e es')
  then obtain v where v: "admin_enabled e t" "admin_step c lb dumps e t = Inr v" "admin_exec c lb dumps es' v = Some u"
    by (auto split: if_splits sum.splits)
  then show ?case
    using Cons.IH [OF admin_run.Step [OF Cons.prems(1) v(1,2)] v(3)] by simp
qed simp

lemma admin_exec_run: "admin_exec c lb dumps es s = Some t \<Longrightarrow> admin_run c lb dumps s es t"
  using admin_run_more [OF admin_run.Start] by fastforce

section \<open>What the proxy does to the flags\<close>

text \<open>No existing worker changes its URL or its \<open>disabled\<close> flag.\<close>

definition same_flags :: "proxy \<Rightarrow> proxy \<Rightarrow> bool" where
  "same_flags p q \<longleftrightarrow> length (px_workers p) \<le> length (px_workers q) \<and>
     (\<forall>k < length (px_workers p). wk_disabled (px_workers q ! k) = wk_disabled (px_workers p ! k) \<and>
       wk_url (px_workers q ! k) = wk_url (px_workers p ! k))"

definition flagless :: "(worker \<Rightarrow> worker) \<Rightarrow> bool" where
  "flagless f \<longleftrightarrow> (\<forall>w. wk_disabled (f w) = wk_disabled w \<and> wk_url (f w) = wk_url w)"

lemma same_flags_refl: "px_workers q = px_workers p \<Longrightarrow> same_flags p q"
  by (simp add: same_flags_def)

lemma same_flags_trans: "same_flags p q \<Longrightarrow> same_flags q r \<Longrightarrow> same_flags p r"
  by (auto simp: same_flags_def)

lemma same_flags_worker: "flagless f \<Longrightarrow> same_flags p (on_worker k f p)"
  by (auto simp: same_flags_def worker_on_worker flagless_def)

lemma same_flags_on: "same_flags p q \<Longrightarrow> flagless f \<Longrightarrow> same_flags p (on_worker k f q)"
  using same_flags_trans same_flags_worker by blast

lemma same_flags_calls: "same_flags p q \<Longrightarrow> px_workers r = px_workers q \<Longrightarrow> same_flags p r"
  by (simp add: same_flags_def)

lemma flagless_steps:
  "flagless increment_active" "flagless (record_routed_request status)"
  "flagless (record_worker_request_failure t status e)" "flagless (probe_finishes ft st a)"
  by (auto simp: flagless_def increment_active_def record_routed_request_def record_worker_request_failure_def
      record_request_failure_def record_failure_def probe_finishes_def record_health_result_def Let_def
      split: option.split probe_answer.split)

lemma calls_only [simp]:
  "px_workers (set_call i c p) = px_workers p" "px_workers (set_phase i ph p) = px_workers p"
  "px_workers (p\<lparr>px_rr := r\<rparr>) = px_workers p" "px_workers (p\<lparr>px_inflight := n\<rparr>) = px_workers p"
  by (simp_all add: set_call_def set_phase_def)

lemma release_once_flags: "release_once i p = Inr q \<Longrightarrow> px_workers q = px_workers p"
  by (auto simp: release_once_def release_def guardE_eq_Inr split: if_splits)

lemma finish_call_flags: "finish_call i ph p = Inr q \<Longrightarrow> px_workers q = px_workers p"
  using release_once_flags by (fastforce simp: finish_call_def)

lemma decrement_flags:
  assumes "decrement_worker k p = Inr q"
  shows "same_flags p q"
proof -
  have "q = on_worker k (\<lambda>w. w\<lparr>wk_active := wk_active w - 1\<rparr>) p"
    using assms by (auto simp: decrement_worker_def decrement_active_def guardE_eq_Inr on_worker_def)
  then show ?thesis
    by (simp add: same_flags_worker flagless_def)
qed

lemma cleanup_begins_flags [simp]: "px_workers (cleanup_begins i o' p) = px_workers p"
  by (simp add: cleanup_begins_def split: phase.split)

text \<open>Only an operator's update that names \<open>disabled\<close> sets a flag.\<close>

fun names_disabled :: "proxy_event \<Rightarrow> bool" where
  "names_disabled (Update_Worker k conf dis dead) = (dis \<noteq> None)"
| "names_disabled _ = False"

lemma update_flagless: "flagless (update_worker conf None dead)"
  by (auto simp: flagless_def update_worker_def mark_dead_def clear_dead_def Let_def split: option.split bool.split)

lemma px_step_flags:
  assumes "px_step c lb e p = Inr q" and "\<not> names_disabled e"
  shows "same_flags p q"
proof (cases e)
  case Arrive
  then show ?thesis
    using assms by (auto simp: px_step_def arrive_def try_acquire_def intro!: same_flags_refl)
next
  case (Body_Read i uuid rq path chunks)
  show ?thesis
  proof (cases "decide_route c lb (registered p) (px_rr p) uuid rq path chunks")
    case (Forward w m rr)
    have "same_flags p (set_phase i (Sending (pool_index p w)) (on_worker (pool_index p w) increment_active (p\<lparr>px_rr := rr\<rparr>)))"
      by (intro same_flags_trans [OF same_flags_trans [OF same_flags_refl same_flags_worker [OF flagless_steps(1)]] same_flags_refl]) simp_all
    then show ?thesis
      using assms Body_Read Forward by (simp add: px_step_def forward_admitted_def Let_def)
  qed (use assms Body_Read in \<open>auto simp: px_step_def forward_admitted_def dest!: finish_call_flags intro!: same_flags_refl\<close>)
next
  case (Body_Fails i x)
  then show ?thesis
    using assms by (auto simp: px_step_def dest!: finish_call_flags intro!: same_flags_refl)
next
  case (Send_Ends i a)
  have recorded: "same_flags p (record_status c k status p)" for k status
    unfolding record_status_def record_failure_of_def
    using same_flags_worker [OF flagless_steps(3)] same_flags_refl [of p p] by simp
  show ?thesis
  proof (cases "\<exists>k. ca_phase (px_calls p ! i) = Sending k")
    case True
    then obtain k where k: "ca_phase (px_calls p ! i) = Sending k"
      by blast
    show ?thesis
    proof (cases a)
      case (Got status es)
      show ?thesis
        using assms(1) Send_Ends k Got same_flags_calls [OF recorded [of k status]]
        by (auto simp: px_step_def send_ends_def)
    next
      case (Bad_Headers status x)
      show ?thesis
        using assms(1) Send_Ends k Bad_Headers same_flags_calls [OF recorded [of k status]]
        by (auto simp: px_step_def send_ends_def)
    next
      case (Http_Error x)
      then obtain p1 where d: "decrement_worker k p = Inr p1" and
        q: "finish_call i (Answered_Self 502) (record_failure_of c k None x (on_worker k (record_routed_request None) p1)) = Inr q"
        using assms(1) Send_Ends k by (auto simp: px_step_def send_ends_def)
      have "same_flags p (record_failure_of c k None x (on_worker k (record_routed_request None) p1))"
        unfolding record_failure_of_def using decrement_flags [OF d] by (intro same_flags_on flagless_steps)
      then show ?thesis
        using finish_call_flags [OF q] same_flags_calls by blast
    qed (use assms Send_Ends k in \<open>auto simp: px_step_def send_ends_def dest!: finish_call_flags intro!: same_flags_refl\<close>)
  qed (use assms Send_Ends in \<open>auto simp: px_step_def send_ends_def intro!: same_flags_refl split: phase.splits\<close>)
next
  case (Relay_Ends i a)
  have f: "same_flags p (record_failure_of c k st x p)" for k st x
    unfolding record_failure_of_def by (intro same_flags_worker flagless_steps)
  have c: "same_flags p (cleanup_begins i o' r)" if "same_flags p r" for o' r
    by (rule same_flags_calls [OF that]) simp
  have "same_flags p (relay_ends c i a p)"
    by (cases "ca_phase (px_calls p ! i)"; cases a) (simp_all add: relay_ends_def c f same_flags_refl)
  then show ?thesis
    using assms(1) Relay_Ends by (simp add: px_step_def)
next
  case (Close_Ends i r)
  show ?thesis
  proof (cases "ca_phase (px_calls p ! i)")
    case (Closing k status outcome)
    then obtain p1 p2 where d: "decrement_worker k p = Inr p1" and r: "release_once i p1 = Inr p2" and
      q: "q = set_phase i (Relayed k outcome) (on_worker k (record_routed_request (if outcome = ''completed'' then Some status else None)) p2)"
      using assms(1) Close_Ends by (auto simp: px_step_def close_ends_def)
    have f: "same_flags p p2"
      using decrement_flags [OF d] release_once_flags [OF r] same_flags_calls by blast
    show ?thesis
      unfolding q by (rule same_flags_calls [OF same_flags_on [OF f flagless_steps(2)]]) simp
  next
    case (Dropping k x)
    show ?thesis
    proof (cases r)
      case None
      then obtain p1 where "decrement_worker k p = Inr p1" "finish_call i (Failed_With x) p1 = Inr q"
        using assms(1) Close_Ends Dropping by (auto simp: px_step_def close_ends_def)
      then show ?thesis
        using decrement_flags finish_call_flags same_flags_calls by blast
    qed (use assms Close_Ends Dropping in \<open>auto simp: px_step_def close_ends_def dest!: finish_call_flags intro!: same_flags_refl\<close>)
  qed (use assms Close_Ends in \<open>auto simp: px_step_def close_ends_def intro!: same_flags_refl\<close>)
next
  case (Response_Collected i)
  then show ?thesis
    using assms by (auto simp: px_step_def response_collected_def dest!: release_once_flags intro!: same_flags_refl split: phase.splits)
next
  case (Probe_Ends k a)
  then show ?thesis
    using assms flagless_steps(4) by (auto simp: px_step_def intro!: same_flags_worker)
next
  case (Create_Worker url model caps)
  then show ?thesis
    using assms by (auto simp: px_step_def create_worker_def same_flags_def nth_append split: if_splits)
next
  case (Delete_Worker k)
  then show ?thesis
    using assms by (auto simp: px_step_def delete_worker_def intro!: same_flags_refl)
next
  case (Update_Worker k conf dis dead)
  then show ?thesis
    using assms by (auto simp: px_step_def intro!: same_flags_worker update_flagless)
qed

section \<open>The lock and the targets\<close>

definition holds_lock :: "admin_call \<Rightarrow> bool" where
  "holds_lock a \<longleftrightarrow> ac_update a \<and> (case ac_phase a of Reading \<Rightarrow> True | Broadcasting saved \<Rightarrow> True | _ \<Rightarrow> False)"

definition targets_ok :: "admin \<Rightarrow> bool" where
  "targets_ok s \<longleftrightarrow> (\<forall>a \<in> set (ad_calls s). (\<forall>k \<in> set (ac_targets a). k < length (px_workers (ad_proxy s))) \<and>
     distinct (map (\<lambda>k. wk_url (ad_worker s k)) (ac_targets a)))"

definition lock_ok :: "admin \<Rightarrow> bool" where
  "lock_ok s \<longleftrightarrow> (\<forall>i. ad_lock s = Some i \<longleftrightarrow> i < length (ad_calls s) \<and> holds_lock (ad_calls s ! i))"

definition waits_ok :: "admin \<Rightarrow> bool" where
  "waits_ok s \<longleftrightarrow> (\<forall>a \<in> set (ad_calls s). ac_phase a = Locking \<longrightarrow> ac_update a)"

definition admin_ok :: "proxy_config \<Rightarrow> admin \<Rightarrow> bool" where
  "admin_ok c s \<longleftrightarrow> px_inv c (ad_proxy s) \<and> lock_ok s \<and> targets_ok s \<and> waits_ok s"

lemma sends_frame [simp]:
  "admin_ok c (s\<lparr>ad_sends := x\<rparr>) = admin_ok c s" "ad_worker (s\<lparr>ad_sends := x\<rparr>) k = ad_worker s k"
  by (simp_all add: admin_ok_def lock_ok_def targets_ok_def waits_ok_def ad_worker_def)

lemma set_admin_simps [simp]:
  "ad_proxy (set_admin i p s) = ad_proxy s" "ad_lock (set_admin i p s) = ad_lock s"
  "length (ad_calls (set_admin i p s)) = length (ad_calls s)" "ad_worker (set_admin i p s) = ad_worker s"
  "ad_proxy (free_lock i s) = ad_proxy s" "ad_calls (free_lock i s) = ad_calls s" "ad_worker (free_lock i s) = ad_worker s"
  by (simp_all add: set_admin_def ad_worker_def fun_eq_iff free_lock_def)

lemma nth_set_admin:
  "i < length (ad_calls s) \<Longrightarrow> ad_calls (set_admin i p s) ! j = (if j = i then (ad_calls s ! i)\<lparr>ac_phase := p\<rparr> else ad_calls s ! j)"
  by (simp add: set_admin_def)

lemma holds_lock_phase [simp]:
  "holds_lock (a\<lparr>ac_phase := Reading\<rparr>) = ac_update a" "holds_lock (a\<lparr>ac_phase := Broadcasting m\<rparr>) = ac_update a"
  "\<not> holds_lock (a\<lparr>ac_phase := Ended r\<rparr>)"
  by (simp_all add: holds_lock_def ac_update_def)

lemma targets_ok_calls:
  assumes "targets_ok s" and "\<And>a. a \<in> set (ad_calls t) \<Longrightarrow> \<exists>b \<in> set (ad_calls s). ac_targets a = ac_targets b"
    and "same_flags (ad_proxy s) (ad_proxy t) \<or> (length (px_workers (ad_proxy s)) \<le> length (px_workers (ad_proxy t)) \<and>
      (\<forall>k < length (px_workers (ad_proxy s)). wk_url (ad_worker t k) = wk_url (ad_worker s k)))"
  shows "targets_ok t"
proof -
  have l: "length (px_workers (ad_proxy s)) \<le> length (px_workers (ad_proxy t))"
    and u: "k < length (px_workers (ad_proxy s)) \<Longrightarrow> wk_url (ad_worker t k) = wk_url (ad_worker s k)" for k
    using assms(3) by (auto simp: same_flags_def ad_worker_def)
  show ?thesis
    unfolding targets_ok_def
  proof
    fix a
    assume "a \<in> set (ad_calls t)"
    then obtain b where b: "b \<in> set (ad_calls s)" "ac_targets a = ac_targets b"
      using assms(2) by blast
    then have k: "\<forall>k \<in> set (ac_targets a). k < length (px_workers (ad_proxy s))"
      and d: "distinct (map (\<lambda>k. wk_url (ad_worker s k)) (ac_targets a))"
      using assms(1) by (simp_all add: targets_ok_def)
    have "map (\<lambda>k. wk_url (ad_worker t k)) (ac_targets a) = map (\<lambda>k. wk_url (ad_worker s k)) (ac_targets a)"
      using k u by (intro map_cong) simp_all
    with d have "distinct (map (\<lambda>k. wk_url (ad_worker t k)) (ac_targets a))"
      by argo
    then show "(\<forall>k \<in> set (ac_targets a). k < length (px_workers (ad_proxy t))) \<and>
        distinct (map (\<lambda>k. wk_url (ad_worker t k)) (ac_targets a))"
      using k l by auto
  qed
qed

lemma set_admin_targets:
  assumes "i < length (ad_calls s)" and "a \<in> set (ad_calls (set_admin i p s))"
  shows "\<exists>b \<in> set (ad_calls s). ac_targets a = ac_targets b"
proof -
  obtain j where "j < length (ad_calls s)" "a = ad_calls (set_admin i p s) ! j"
    using assms(2) by (auto simp: in_set_conv_nth)
  then show ?thesis
    using assms(1) by (cases "j = i") (auto simp: nth_set_admin intro!: bexI [of _ "ad_calls s ! j"])
qed

section \<open>Setting flags\<close>

definition flag_by :: "(string \<Rightarrow> bool) \<Rightarrow> worker \<Rightarrow> worker" where
  "flag_by g w = set_disabled (g (wk_url w)) w"

lemma flag_by_simps [simp]:
  "wk_url (flag_by g w) = wk_url w" "wk_disabled (flag_by g w) = g (wk_url w)" "flag_by g (flag_by g w) = flag_by g w"
  by (simp_all add: flag_by_def set_disabled_def)

lemma quiet_flag: "quiet (flag_by g)"
  by (simp add: quiet_def flag_by_def set_disabled_def balanced_def)

definition flag_all :: "(string \<Rightarrow> bool) \<Rightarrow> nat list \<Rightarrow> admin \<Rightarrow> admin" where
  "flag_all g ks s = fold (\<lambda>k. on_admin_worker k (flag_by g)) ks s"

lemma disable_all: "fold (\<lambda>k. on_admin_worker k (set_disabled True)) ks s = flag_all (\<lambda>u. True) ks s"
proof -
  have "flag_by (\<lambda>u. True) = set_disabled True"
    by (simp add: fun_eq_iff flag_by_def)
  then show ?thesis
    by (simp add: flag_all_def)
qed

lemma restore_all:
  "restore_disabled path saved results ks s = flag_all (\<lambda>u. keeps_disabled path results u \<or> saved u = Some True) ks s"
proof -
  have "flag_by g = (\<lambda>w. set_disabled (g (wk_url w)) w)" for g
    by (simp add: fun_eq_iff flag_by_def)
  then show ?thesis
    by (simp add: flag_all_def restore_disabled_def)
qed

lemma flag_all_frame [simp]:
  "ad_lock (flag_all g ks s) = ad_lock s" "ad_calls (flag_all g ks s) = ad_calls s"
  "length (px_workers (ad_proxy (flag_all g ks s))) = length (px_workers (ad_proxy s))"
  unfolding flag_all_def by (induction ks arbitrary: s) (simp_all add: on_admin_worker_def on_worker_def)

lemma flag_all_worker:
  "\<forall>k \<in> set ks. k < length (px_workers (ad_proxy s)) \<Longrightarrow>
   ad_worker (flag_all g ks s) j = (if j \<in> set ks then flag_by g (ad_worker s j) else ad_worker s j)"
proof (induction ks arbitrary: s)
  case (Cons k ks)
  let ?s = "on_admin_worker k (flag_by g) s"
  have w: "ad_worker ?s j = (if j = k then flag_by g (ad_worker s j) else ad_worker s j)" for j
    using Cons.prems by (simp add: ad_worker_def on_admin_worker_def worker_on_worker)
  have "ad_worker (flag_all g ks ?s) j = (if j \<in> set ks then flag_by g (ad_worker ?s j) else ad_worker ?s j)"
    using Cons.prems by (intro Cons.IH) (simp add: on_admin_worker_def on_worker_def)
  then show ?case
    by (simp add: w flag_all_def)
qed (simp add: flag_all_def)

lemma flag_all_inv: "px_inv c (ad_proxy s) \<Longrightarrow> px_inv c (ad_proxy (flag_all g ks s))"
  unfolding flag_all_def
  by (induction ks arbitrary: s) (simp_all add: on_admin_worker_def px_inv_quiet quiet_flag)

section \<open>The invariant\<close>

lemma lock_ok_set:
  assumes "lock_ok s" and "i < length (ad_calls s)" and "ad_lock t = l"
    and "ad_calls t = ad_calls (set_admin i p s)"
    and "l = (if holds_lock ((ad_calls s ! i)\<lparr>ac_phase := p\<rparr>) then Some i else if ad_lock s = Some i then None else ad_lock s)"
    and "holds_lock ((ad_calls s ! i)\<lparr>ac_phase := p\<rparr>) \<Longrightarrow> ad_lock s = None \<or> ad_lock s = Some i"
  shows "lock_ok t"
  unfolding lock_ok_def
proof
  fix j
  have l: "ad_lock s = Some j \<longleftrightarrow> j < length (ad_calls s) \<and> holds_lock (ad_calls s ! j)" for j
    using assms(1) by (simp add: lock_ok_def)
  show "ad_lock t = Some j \<longleftrightarrow> j < length (ad_calls t) \<and> holds_lock (ad_calls t ! j)"
    using assms(2-6) l [of j] l [of i]
    by (cases "j = i") (auto simp: nth_set_admin)
qed

lemma admin_ok_proxy:
  assumes "admin_ok c s" and "px_step c lb e (ad_proxy s) = Inr p" and "enabled e (ad_proxy s)" and "\<forall>n > 0. lb_pick lb n < n"
  shows "admin_ok c (s\<lparr>ad_proxy := p\<rparr>)"
proof -
  have "px_inv c p"
    using px_step_ok [OF _ assms(3,4), of c] assms(1,2) by (auto simp: admin_ok_def)
  moreover have "lock_ok (s\<lparr>ad_proxy := p\<rparr>)"
    using assms(1) by (simp add: admin_ok_def lock_ok_def)
  moreover have "length (px_workers (ad_proxy s)) \<le> length (px_workers p) \<and>
      (\<forall>k < length (px_workers (ad_proxy s)). wk_url (px_workers p ! k) = wk_url (px_workers (ad_proxy s) ! k))"
  proof (cases "names_disabled e")
    case True
    then obtain k conf dis dead where "e = Update_Worker k conf dis dead"
      by (cases e) auto
    then show ?thesis
      using assms(2) by (auto simp: px_step_def worker_on_worker update_worker_def set_disabled_def mark_dead_def
          clear_dead_def Let_def split: option.split bool.split)
  next
    case False
    then show ?thesis
      using px_step_flags [OF assms(2)] by (simp add: same_flags_def)
  qed
  then have flags: "same_flags (ad_proxy s) (ad_proxy (s\<lparr>ad_proxy := p\<rparr>)) \<or>
      (length (px_workers (ad_proxy s)) \<le> length (px_workers (ad_proxy (s\<lparr>ad_proxy := p\<rparr>))) \<and>
       (\<forall>k < length (px_workers (ad_proxy s)). wk_url (ad_worker (s\<lparr>ad_proxy := p\<rparr>) k) = wk_url (ad_worker s k)))"
    by (simp add: ad_worker_def)
  have "targets_ok (s\<lparr>ad_proxy := p\<rparr>)"
    by (rule targets_ok_calls [OF _ _ flags]) (use assms(1) in \<open>auto simp: admin_ok_def\<close>)
  ultimately show ?thesis
    using assms(1) by (simp add: admin_ok_def waits_ok_def)
qed

lemma set_admin_waits:
  "waits_ok s \<Longrightarrow> i < length (ad_calls s) \<Longrightarrow> p \<noteq> Locking \<Longrightarrow> waits_ok (set_admin i p s)"
  by (auto simp: waits_ok_def set_admin_def dest!: set_update_subset_insert [THEN subsetD])

lemma admin_ok_set:
  assumes "admin_ok c s" and "i < length (ad_calls s)" and "t = (set_admin i p s)\<lparr>ad_lock := l\<rparr>" and "p \<noteq> Locking"
    and "l = (if holds_lock ((ad_calls s ! i)\<lparr>ac_phase := p\<rparr>) then Some i else if ad_lock s = Some i then None else ad_lock s)"
    and "holds_lock ((ad_calls s ! i)\<lparr>ac_phase := p\<rparr>) \<Longrightarrow> ad_lock s = None \<or> ad_lock s = Some i"
  shows "admin_ok c t"
proof -
  have "lock_ok t"
    using assms by (intro lock_ok_set [of s i t l p]) (simp_all add: admin_ok_def)
  moreover have "targets_ok t"
  proof (rule targets_ok_calls [of s])
    show "\<exists>b \<in> set (ad_calls s). ac_targets a = ac_targets b" if "a \<in> set (ad_calls t)" for a
      using that assms(3) set_admin_targets [OF assms(2), of a p] by simp
  qed (use assms in \<open>simp_all add: admin_ok_def same_flags_refl\<close>)
  moreover have "waits_ok t"
    using assms set_admin_waits [of s i p] by (simp add: admin_ok_def waits_ok_def)
  ultimately show ?thesis
    using assms by (simp add: admin_ok_def)
qed

lemma admin_ok_flags:
  assumes "admin_ok c s" and "ks = ac_targets a" and "a \<in> set (ad_calls s)"
  shows "admin_ok c (flag_all g ks s)"
proof -
  have k: "\<forall>k \<in> set ks. k < length (px_workers (ad_proxy s))"
    using assms by (auto simp: admin_ok_def targets_ok_def)
  have "targets_ok (flag_all g ks s)"
  proof (rule targets_ok_calls [of s])
    show "same_flags (ad_proxy s) (ad_proxy (flag_all g ks s)) \<or>
      (length (px_workers (ad_proxy s)) \<le> length (px_workers (ad_proxy (flag_all g ks s))) \<and>
       (\<forall>k < length (px_workers (ad_proxy s)). wk_url (ad_worker (flag_all g ks s) k) = wk_url (ad_worker s k)))"
      by (intro disjI2) (simp add: flag_all_worker [OF k])
  qed (use assms(1) in \<open>auto simp: admin_ok_def\<close>)
  then show ?thesis
    using assms(1) by (simp add: admin_ok_def flag_all_inv lock_ok_def waits_ok_def)
qed

lemma admin_ok_begin:
  assumes "admin_ok c s"
  shows "admin_ok c (begin_broadcast path s)"
proof -
  let ?ts = "filter (\<lambda>k. \<not> is_dead (ad_worker s k)) (px_pool (ad_proxy s))"
  let ?t = "begin_broadcast path s"
  obtain a where t: "?t = s\<lparr>ad_calls := ad_calls s @ [a]\<rparr>" "ac_targets a = ?ts" "\<not> holds_lock a"
    "ac_phase a = Locking \<longrightarrow> ac_update a"
    by (auto simp: begin_broadcast_def Let_def holds_lock_def ac_update_def split: if_splits)
  have inv: "px_inv c (ad_proxy s)"
    using assms by (simp add: admin_ok_def)
  have "distinct (map (\<lambda>k. wk_url (ad_worker s k)) (px_pool (ad_proxy s)))"
    using inv by (simp add: px_inv_def registered_def ad_worker_def comp_def)
  then have "distinct (map (\<lambda>k. wk_url (ad_worker s k)) ?ts)"
    by (simp add: distinct_map inj_on_def)
  moreover have "\<forall>k \<in> set ?ts. k < length (px_workers (ad_proxy s))"
    using inv by (auto simp: px_inv_def)
  ultimately have "targets_ok ?t"
    using assms t by (auto simp: admin_ok_def targets_ok_def ad_worker_def)
  moreover have "lock_ok ?t"
    using assms t by (auto simp: admin_ok_def lock_ok_def nth_append less_Suc_eq)
  ultimately show ?thesis
    using inv t(1,4) assms by (auto simp: admin_ok_def waits_ok_def)
qed

lemma sending_ends_shape:
  assumes "i < length (ad_calls s)" and "ac_phase (ad_calls s ! i) = Broadcasting saved"
  shows "\<exists>g r. sending_ends dumps i outcome s =
    set_admin i (Ended r) (free_lock i (if ac_update (ad_calls s ! i) then flag_all g (ac_targets (ad_calls s ! i)) s else s))"
  using assms unfolding sending_ends_def Let_def restore_all by simp blast

lemma admin_ok_step:
  assumes "admin_ok c s" and "admin_enabled e s" and "admin_step c lb dumps e s = Inr t" and "\<forall>n > 0. lb_pick lb n < n"
  shows "admin_ok c t"
proof -
  have lock: "ad_lock s = Some i \<longleftrightarrow> i < length (ad_calls s) \<and> holds_lock (ad_calls s ! i)" for i
    using assms(1) by (simp add: admin_ok_def lock_ok_def)
  show ?thesis
  proof (cases e)
    case (Proxy_Event pe)
    then show ?thesis
      using assms admin_ok_proxy [OF assms(1) _ _ assms(4)] by (auto simp: admin_step_def)
  next
    case (Begin_Broadcast path)
    then show ?thesis
      using assms(3) admin_ok_begin [OF assms(1), of path] by (simp add: admin_step_def)
  next
    case (Take_Lock i)
    then have "ac_update (ad_calls s ! i)"
      using assms(1,2) by (auto simp: admin_ok_def waits_ok_def)
    then show ?thesis
      using assms(2,3) Take_Lock
      by (intro admin_ok_set [OF assms(1), where i = i and t = t and p = Reading and l = "Some i"]) (auto simp: admin_step_def take_lock_def set_admin_def)
  next
    case (Lock_Timeout i)
    then have "ad_lock s \<noteq> Some i"
      using assms(2) lock [of i] by (simp add: holds_lock_def)
    then show ?thesis
      using assms(2,3) Lock_Timeout
      by (intro admin_ok_set [OF assms(1), where i = i and t = t and p = "Ended (Inr 503)" and l = "ad_lock s"]) (auto simp: admin_step_def set_admin_def)
  next
    case (Read_Body i)
    let ?a = "ad_calls s ! i"
    let ?m = "saved_flags (ac_targets ?a) s"
    have i: "i < length (ad_calls s)" "ac_phase ?a = Reading"
      using assms(2) Read_Body by auto
    have l: "ac_update ?a \<Longrightarrow> ad_lock s = Some i" "\<not> ac_update ?a \<Longrightarrow> ad_lock s \<noteq> Some i"
      using lock [of i] i by (auto simp: holds_lock_def)
    have b: "admin_ok c (set_admin i (Broadcasting ?m) s)"
      using i l by (intro admin_ok_set [OF assms(1), where i = i and p = "Broadcasting ?m" and l = "ad_lock s"]) (auto simp: set_admin_def)
    have "admin_ok c (flag_all g (ac_targets ?a) (set_admin i (Broadcasting ?m) s))" for g
      using i(1) by (intro admin_ok_flags [OF b, of _ "?a\<lparr>ac_phase := Broadcasting ?m\<rparr>"])
        (auto simp: set_admin_def intro: set_update_memI)
    then show ?thesis
      using assms(3) Read_Body b by (auto simp: admin_step_def begin_sending_def Let_def disable_all split: if_splits)
  next
    case (Read_Fails i x)
    have i: "i < length (ad_calls s)" "ac_phase (ad_calls s ! i) = Reading"
      using assms(2) Read_Fails by auto
    then show ?thesis
      using assms(3) Read_Fails lock [of i]
      by (intro admin_ok_set [OF assms(1) i(1), where t = t and p = "Ended (Inl x)" and l = "if ad_lock s = Some i then None else ad_lock s"])
        (auto simp: admin_step_def set_admin_def free_lock_def holds_lock_def)
  next
    case (Sending_Ends i outcome)
    then obtain saved where i: "i < length (ad_calls s)" "ac_phase (ad_calls s ! i) = Broadcasting saved"
      using assms(2) by (auto split: admin_phase.splits)
    obtain g r where t: "t = set_admin i (Ended r) (free_lock i
        (if ac_update (ad_calls s ! i) then flag_all g (ac_targets (ad_calls s ! i)) s else s))"
      using assms(3) Sending_Ends sending_ends_shape [OF i] by (fastforce simp: admin_step_def)
    let ?s = "if ac_update (ad_calls s ! i) then flag_all g (ac_targets (ad_calls s ! i)) s else s"
    have "admin_ok c ?s"
      using admin_ok_flags [OF assms(1) refl, of "ad_calls s ! i"] i(1) assms(1) by simp
    then show ?thesis
      using lock [of i] i t
      by (intro admin_ok_set [where c = c and s = ?s and i = i and t = t and p = "Ended r" and l = "if ad_lock s = Some i then None else ad_lock s"])
        (auto simp: set_admin_def free_lock_def holds_lock_def)
  next
    case (Send_Done i k)
    then show ?thesis
      using assms(1,3) by (auto simp: admin_step_def)
  qed
qed

lemma admin_ok_run:
  assumes "admin_run c lb dumps s es t" and "admin_ok c s" and "\<forall>n > 0. lb_pick lb n < n"
  shows "admin_ok c t"
  using assms by induction (auto intro: admin_ok_step)

lemma admin_ok_new: "fresh_pool workers \<Longrightarrow> admin_ok c (new_admin workers)"
  by (simp add: admin_ok_def new_admin_def px_inv_new fresh_pool_def balanced_def lock_ok_def targets_ok_def waits_ok_def)

end
