(* ===== verification/Router_Broadcast.thy ===== *)
theory Router_Broadcast
  imports Router_Admin
begin

text \<open>
  What the administrative broadcasts of \<open>sglang_omni_router/app.py\<close> guarantee: one update at a time, no
  model request for a worker that is being updated, the flags afterwards; and what the merged model list holds.
\<close>


section \<open>A broadcast from the outside\<close>

text \<open>The events of the operator that name \<open>disabled\<close>.\<close>

fun sets_flag :: "admin_event \<Rightarrow> bool" where
  "sets_flag (Proxy_Event e) = names_disabled e"
| "sets_flag _ = False"

definition flag_of :: "admin \<Rightarrow> nat \<Rightarrow> bool" where
  "flag_of s k = wk_disabled (ad_worker s k)"

definition url_of :: "admin \<Rightarrow> nat \<Rightarrow> string" where
  "url_of s k = wk_url (ad_worker s k)"

definition pool_size :: "admin \<Rightarrow> nat" where
  "pool_size s = length (px_workers (ad_proxy s))"

text \<open>Workers keep their URLs and, unless the operator or an update sets them, their flags.\<close>

definition same_urls :: "admin \<Rightarrow> admin \<Rightarrow> bool" where
  "same_urls s t \<longleftrightarrow> pool_size s \<le> pool_size t \<and> (\<forall>k < pool_size s. url_of t k = url_of s k)"

definition same_all :: "admin \<Rightarrow> admin \<Rightarrow> bool" where
  "same_all s t \<longleftrightarrow> same_urls s t \<and> (\<forall>k < pool_size s. flag_of t k = flag_of s k)"

lemma same_urls_sends [simp]: "same_urls s (t\<lparr>ad_sends := x\<rparr>) = same_urls s t"
  by (simp add: same_urls_def pool_size_def url_of_def)

lemma flag_of_sends [simp]:
  "flag_of (t\<lparr>ad_sends := x\<rparr>) k = flag_of t k" "pool_size (t\<lparr>ad_sends := x\<rparr>) = pool_size t"
  by (simp_all add: flag_of_def pool_size_def)

lemma same_urls_refl [simp]: "same_urls s s"
  by (simp add: same_urls_def)

lemma same_urls_trans: "same_urls s t \<Longrightarrow> same_urls t u \<Longrightarrow> same_urls s u"
  by (auto simp: same_urls_def)

lemma same_all_proxy: "ad_proxy t = ad_proxy s \<Longrightarrow> same_all s t"
  by (simp add: same_all_def same_urls_def pool_size_def url_of_def flag_of_def ad_worker_def)

lemma same_all_flags: "same_flags (ad_proxy s) (ad_proxy t) \<Longrightarrow> same_all s t"
  by (simp add: same_all_def same_urls_def pool_size_def url_of_def flag_of_def ad_worker_def same_flags_def)

lemma same_urls_flag_all: "\<forall>k \<in> set ks. k < pool_size s \<Longrightarrow> same_urls s (flag_all g ks s)"
  by (simp add: same_urls_def pool_size_def url_of_def flag_all_worker)

lemma admin_targets:
  "admin_ok c s \<Longrightarrow> i < length (ad_calls s) \<Longrightarrow> k \<in> set (ac_targets (ad_calls s ! i)) \<Longrightarrow> k < pool_size s"
  by (auto simp: admin_ok_def targets_ok_def pool_size_def)

lemma holder_unique:
  "admin_ok c s \<Longrightarrow> i < length (ad_calls s) \<Longrightarrow> j < length (ad_calls s) \<Longrightarrow> holds_lock (ad_calls s ! i) \<Longrightarrow>
   holds_lock (ad_calls s ! j) \<Longrightarrow> i = j"
  unfolding admin_ok_def lock_ok_def by (metis option.inject)

lemma sending_ends_calls:
  assumes "i < length (ad_calls s)" and "ac_phase (ad_calls s ! i) = Broadcasting saved"
  obtains r where "ad_calls (sending_ends dumps i outcome s) = (ad_calls s)[i := (ad_calls s ! i)\<lparr>ac_phase := Ended r\<rparr>]"
    and "ad_proxy (sending_ends dumps i outcome s) = ad_proxy s \<or> ac_update (ad_calls s ! i)"
  using sending_ends_shape [OF assms, of dumps outcome]
  by (cases "ac_update (ad_calls s ! i)") (auto simp: set_admin_def)

text \<open>An event of another call, or of the proxy, leaves a call as it is.\<close>

fun call_of :: "admin_event \<Rightarrow> nat option" where
  "call_of (Take_Lock i) = Some i"
| "call_of (Lock_Timeout i) = Some i"
| "call_of (Read_Body i) = Some i"
| "call_of (Read_Fails i x) = Some i"
| "call_of (Sending_Ends i r) = Some i"
| "call_of _ = None"

lemma begin_sending_calls:
  "ad_calls (begin_sending j s) = (ad_calls s)[j := (ad_calls s ! j)\<lparr>ac_phase := Broadcasting (saved_flags (ac_targets (ad_calls s ! j)) s)\<rparr>]"
  by (simp add: begin_sending_def Let_def disable_all set_admin_def)

lemma other_call_same:
  assumes "call_of e \<noteq> Some i" and "i < length (ad_calls s)" and "admin_enabled e s" and "admin_step c lb dumps e s = Inr t"
  shows "i < length (ad_calls t) \<and> ad_calls t ! i = ad_calls s ! i"
proof (cases e)
  case (Sending_Ends j outcome)
  then obtain saved where j: "j < length (ad_calls s)" "ac_phase (ad_calls s ! j) = Broadcasting saved"
    using assms(3) by (auto split: admin_phase.splits)
  obtain r where "ad_calls (sending_ends dumps j outcome s) = (ad_calls s)[j := (ad_calls s ! j)\<lparr>ac_phase := Ended r\<rparr>]"
    by (rule sending_ends_calls [OF j])
  then show ?thesis
    using assms Sending_Ends by (simp add: admin_step_def)
next
  case (Read_Body j)
  then show ?thesis
    using assms by (auto simp: admin_step_def begin_sending_calls)
qed (use assms in \<open>auto simp: admin_step_def begin_broadcast_def Let_def nth_append take_lock_def set_admin_def free_lock_def\<close>)

lemma calls_stay:
  assumes "i < length (ad_calls s)" and "admin_enabled e s" and "admin_step c lb dumps e s = Inr t"
  shows "i < length (ad_calls t) \<and> ac_path (ad_calls t ! i) = ac_path (ad_calls s ! i) \<and>
    ac_targets (ad_calls t ! i) = ac_targets (ad_calls s ! i)"
proof (cases "call_of e = Some i")
  case True
  show ?thesis
  proof (cases e)
    case (Sending_Ends j outcome)
    then obtain saved where j: "j < length (ad_calls s)" "ac_phase (ad_calls s ! j) = Broadcasting saved"
      using assms(2) by (auto split: admin_phase.splits)
    obtain r where "ad_calls (sending_ends dumps j outcome s) = (ad_calls s)[j := (ad_calls s ! j)\<lparr>ac_phase := Ended r\<rparr>]"
      by (rule sending_ends_calls [OF j])
    then show ?thesis
      using assms Sending_Ends True by (simp add: admin_step_def)
  next
    case (Read_Body j)
    then show ?thesis
      using assms True by (auto simp: admin_step_def begin_sending_calls)
  qed (use assms True in \<open>auto simp: admin_step_def take_lock_def set_admin_def free_lock_def\<close>)
next
  case False
  then show ?thesis
    using other_call_same [OF _ assms] by simp
qed

text \<open>Which steps can set flags: an update that starts or stops sending, and the operator.\<close>

lemma quiet_step:
  assumes "admin_enabled e s" and "admin_step c lb dumps e s = Inr t" and "\<not> sets_flag e"
    and "\<And>j. call_of e = Some j \<Longrightarrow> \<not> holds_lock (ad_calls s ! j)"
  shows "same_all s t"
proof (cases e)
  case (Proxy_Event pe)
  then show ?thesis
    using assms(2,3) px_step_flags by (intro same_all_flags) (auto simp: admin_step_def)
next
  case (Read_Body j)
  then have "\<not> ac_update (ad_calls s ! j)"
    using assms(1,4) by (auto simp: holds_lock_def)
  then show ?thesis
    using assms(2) Read_Body by (intro same_all_proxy) (auto simp: admin_step_def begin_sending_def Let_def)
next
  case (Sending_Ends j outcome)
  then obtain saved where s: "j < length (ad_calls s)" "ac_phase (ad_calls s ! j) = Broadcasting saved"
    using assms(1) by (auto split: admin_phase.splits)
  then have u: "\<not> ac_update (ad_calls s ! j)"
    using assms(4) Sending_Ends by (auto simp: holds_lock_def)
  have "ad_proxy (sending_ends dumps j outcome s) = ad_proxy s \<or> ac_update (ad_calls s ! j)"
    by (rule sending_ends_calls [OF s])
  then show ?thesis
    using u assms(2) Sending_Ends by (intro same_all_proxy) (simp add: admin_step_def)
qed (use assms(2) in \<open>auto simp: admin_step_def begin_broadcast_def Let_def take_lock_def intro!: same_all_proxy\<close>)


lemma any_step_urls:
  assumes "admin_ok c s" and "admin_enabled e s" and "admin_step c lb dumps e s = Inr t"
  shows "same_urls s t"
proof (cases e)
  case (Proxy_Event pe)
  then obtain p where p: "px_step c lb pe (ad_proxy s) = Inr p" and t: "t = s\<lparr>ad_proxy := p\<rparr>"
    using assms(3) by (auto simp: admin_step_def)
  show ?thesis
  proof (cases "names_disabled pe")
    case True
    then obtain k conf dis dead where "pe = Update_Worker k conf dis dead"
      by (cases pe) auto
    then show ?thesis
      using p by (auto simp: t px_step_def same_urls_def pool_size_def url_of_def ad_worker_def worker_on_worker update_worker_def
          set_disabled_def mark_dead_def clear_dead_def Let_def split: option.split bool.split)
  next
    case False
    then show ?thesis
      using px_step_flags [OF p] by (simp add: t same_flags_def same_urls_def pool_size_def url_of_def ad_worker_def)
  qed
next
  case (Read_Body j)
  then have "\<forall>k \<in> set (ac_targets (ad_calls s ! j)). k < pool_size s"
    using admin_targets [OF assms(1)] assms(2) by auto
  then have "same_urls s (flag_all g (ac_targets (ad_calls s ! j)) (set_admin j p s))" for g p
    by (simp add: same_urls_def pool_size_def url_of_def flag_all_worker)
  moreover have "same_urls s (set_admin j p s)" for p
    by (simp add: same_urls_def pool_size_def url_of_def)
  ultimately show ?thesis
    using assms(3) Read_Body by (auto simp: admin_step_def begin_sending_def Let_def disable_all)
next
  case (Sending_Ends j outcome)
  then obtain saved where j: "j < length (ad_calls s)" "ac_phase (ad_calls s ! j) = Broadcasting saved"
    using assms(2) by (auto split: admin_phase.splits)
  obtain g r where g: "t = set_admin j (Ended r) (free_lock j
      (if ac_update (ad_calls s ! j) then flag_all g (ac_targets (ad_calls s ! j)) s else s))"
    using assms(3) Sending_Ends sending_ends_shape [OF j] by (fastforce simp: admin_step_def)
  have "\<forall>k \<in> set (ac_targets (ad_calls s ! j)). k < pool_size s"
    using admin_targets [OF assms(1)] j by auto
  then have "same_urls s (flag_all g (ac_targets (ad_calls s ! j)) s)"
    by (rule same_urls_flag_all)
  then show ?thesis
    unfolding g by (simp add: same_urls_def pool_size_def url_of_def)
qed (use assms in \<open>auto simp: admin_step_def begin_broadcast_def Let_def take_lock_def same_urls_def pool_size_def url_of_def ad_worker_def set_admin_def free_lock_def\<close>)

text \<open>What happens while an update is sending: the call waits, and URLs stay.\<close>

lemma while_sending:
  assumes "admin_run c lb dumps s es t" and "admin_ok c s" and "\<forall>n > 0. lb_pick lb n < n"
    and "i < length (ad_calls s)" and "\<forall>e \<in> set es. call_of e \<noteq> Some i"
  shows "i < length (ad_calls t) \<and> ad_calls t ! i = ad_calls s ! i \<and> same_urls s t \<and> admin_ok c t"
  using assms
proof induction
  case (Step es t e u)
  then have t: "i < length (ad_calls t) \<and> ad_calls t ! i = ad_calls s ! i \<and> same_urls s t \<and> admin_ok c t"
    by simp
  then show ?case
    using other_call_same [of e i t c lb dumps u] admin_ok_step [of c t e lb dumps u] any_step_urls [of c t e lb dumps u]
      same_urls_trans [of s t u] Step.hyps Step.prems by simp
qed simp

lemma quiet_while_sending:
  assumes "admin_run c lb dumps s es t" and "admin_ok c s" and "\<forall>n > 0. lb_pick lb n < n"
    and "i < length (ad_calls s)" and "holds_lock (ad_calls s ! i)"
    and "\<forall>e \<in> set es. call_of e \<noteq> Some i \<and> \<not> sets_flag e"
  shows "same_all s t"
  using assms
proof induction
  case (Step es t e u)
  have t: "i < length (ad_calls t)" "ad_calls t ! i = ad_calls s ! i" "admin_ok c t"
    using while_sending [OF Step.hyps(1) Step.prems(1-3)] Step.prems by simp_all
  have st: "same_all s t"
    using Step by simp
  have "same_all t u"
  proof (rule quiet_step [OF Step.hyps(2,3)])
    show "\<not> sets_flag e"
      using Step.prems by simp
    fix j
    assume j: "call_of e = Some j"
    then have "j < length (ad_calls t)"
      using Step.hyps(2) by (cases e) auto
    then show "\<not> holds_lock (ad_calls t ! j)"
      using j holder_unique [OF t(3) t(1), of j] t(2) Step.prems by auto
  qed
  then show ?case
    using st same_urls_trans by (auto simp: same_all_def same_urls_def)
qed (simp add: same_all_def)

text \<open>The worker a call would be forwarded to is not disabled.\<close>

lemma forwards_to_enabled:
  assumes "admin_ok c s" and "\<forall>n > 0. lb_pick lb n < n"
    and "decide_route c lb (registered (ad_proxy s)) (px_rr (ad_proxy s)) uuid rq path chunks = Forward w m rr"
  shows "\<not> flag_of s (pool_index (ad_proxy s) w)"
proof -
  let ?p = "ad_proxy s"
  have w: "w \<in> set (registered ?p)" "eligible (rm_required m) w"
    using decide_registered [OF assms(2,3)] by simp_all
  have "px_workers ?p ! pool_index ?p w = w"
  proof -
    obtain k where k: "k \<in> set (px_pool ?p)" "px_workers ?p ! k = w"
      using w(1) by (auto simp: registered_def)
    obtain j js where j: "filter (\<lambda>k. wk_url (px_workers ?p ! k) = wk_url w) (px_pool ?p) = j # js"
      using k by (cases "filter (\<lambda>k. wk_url (px_workers ?p ! k) = wk_url w) (px_pool ?p)") (auto simp: filter_empty_conv)
    then have "j \<in> set (filter (\<lambda>k. wk_url (px_workers ?p ! k) = wk_url w) (px_pool ?p))"
      by simp
    then have "j \<in> set (px_pool ?p)" "wk_url (px_workers ?p ! j) = wk_url w"
      by simp_all
    moreover have "distinct (map wk_url (registered ?p))"
      using assms(1) unfolding admin_ok_def px_inv_def by blast
    then have "distinct (map (\<lambda>k. wk_url (px_workers ?p ! k)) (px_pool ?p))"
      by (simp add: registered_def comp_def)
    then have "inj_on (\<lambda>k. wk_url (px_workers ?p ! k)) (set (px_pool ?p))"
      by (simp add: distinct_map)
    ultimately have "j = k"
      using k by (auto dest: inj_onD)
    then show ?thesis
      using j k by (simp add: pool_index_def)
  qed
  then show ?thesis
    using w(2) by (simp add: flag_of_def ad_worker_def eligible_def is_routable_def)
qed


section \<open>What a broadcast guarantees\<close>

text \<open>at any time at most one update is past its lock and not ended: the others wait or have ended.\<close>

theorem one_update_at_a_time:
  assumes "admin_run c lb dumps (new_admin workers) es s" and "fresh_pool workers" and "\<forall>n > 0. lb_pick lb n < n"
    and "i < length (ad_calls s)" and "holds_lock (ad_calls s ! i)" and "j < length (ad_calls s)" and "ac_update (ad_calls s ! j)" and "j \<noteq> i"
  shows "ac_phase (ad_calls s ! j) = Locking \<or> (\<exists>r. ac_phase (ad_calls s ! j) = Ended r)"
proof -
  have "\<not> holds_lock (ad_calls s ! j)"
    using holder_unique [OF admin_ok_run [OF assms(1) admin_ok_new [OF assms(2)] assms(3)] assms(6,4)] assms(5,8) by blast
  then show ?thesis
    using assms(7) by (cases "ac_phase (ad_calls s ! j)") (auto simp: holds_lock_def)
qed

lemma sent_state:
  assumes "admin_ok c s" and "admin_enabled (Read_Body i) s"
  shows "admin_ok c (begin_sending i s) \<Longrightarrow> i < length (ad_calls (begin_sending i s))"
    and "ad_calls (begin_sending i s) ! i = (ad_calls s ! i)\<lparr>ac_phase := Broadcasting (saved_flags (ac_targets (ad_calls s ! i)) s)\<rparr>"
    and "ac_update (ad_calls s ! i) \<Longrightarrow> k \<in> set (ac_targets (ad_calls s ! i)) \<Longrightarrow>
      k < pool_size (begin_sending i s) \<and> flag_of (begin_sending i s) k"
    and "same_urls s (begin_sending i s)"
proof -
  have t: "\<forall>k \<in> set (ac_targets (ad_calls s ! i)). k < pool_size s"
    using admin_targets [OF assms(1)] assms(2) by auto
  show "i < length (ad_calls (begin_sending i s))"
    "ad_calls (begin_sending i s) ! i = (ad_calls s ! i)\<lparr>ac_phase := Broadcasting (saved_flags (ac_targets (ad_calls s ! i)) s)\<rparr>"
    using assms(2) by (simp_all add: begin_sending_calls)
  show "k < pool_size (begin_sending i s) \<and> flag_of (begin_sending i s) k"
    if "ac_update (ad_calls s ! i)" "k \<in> set (ac_targets (ad_calls s ! i))"
    using that t by (simp add: begin_sending_def Let_def disable_all flag_of_def pool_size_def flag_all_worker)
  show "same_urls s (begin_sending i s)"
    by (rule any_step_urls [OF assms(1,2)]) (simp add: admin_step_def)
qed

text \<open>
  C27: while an update gathers its answers, no call of the proxy is forwarded to one of the \<open>Worker\<close> objects
  it was sent to, unless the operator sets a flag meanwhile. The statement is about objects and about
  the time of the gathering: an operator who removes a worker and registers its URL again makes a
  fresh object, which the update does not know and to which requests are forwarded, and a gathering that
  raises ends the protection while sends go on (\<open>failed_gathering_leaves_sends\<close>).
\<close>

theorem no_request_reaches_updating_worker:
  assumes "admin_run c lb dumps (new_admin workers) es s" and "fresh_pool workers" and "\<forall>n > 0. lb_pick lb n < n"
    and "admin_enabled (Read_Body i) s" and "ac_update (ad_calls s ! i)"
    and "admin_run c lb dumps (begin_sending i s) es' t" and "\<forall>e \<in> set es'. call_of e \<noteq> Some i \<and> \<not> sets_flag e"
    and "decide_route c lb (registered (ad_proxy t)) (px_rr (ad_proxy t)) uuid rq path chunks = Forward w m rr"
  shows "pool_index (ad_proxy t) w \<notin> set (ac_targets (ad_calls s ! i))"
proof
  assume k: "pool_index (ad_proxy t) w \<in> set (ac_targets (ad_calls s ! i))"
  have s: "admin_ok c s"
    by (rule admin_ok_run [OF assms(1) admin_ok_new [OF assms(2)] assms(3)])
  have b: "admin_ok c (begin_sending i s)"
    by (rule admin_ok_step [OF s assms(4) _ assms(3)]) (simp add: admin_step_def)
  note sent = sent_state [OF s assms(4)]
  have h: "holds_lock (ad_calls (begin_sending i s) ! i)"
    using assms(5) by (simp add: sent(2))
  have "same_all (begin_sending i s) t"
    by (rule quiet_while_sending [OF assms(6) b assms(3) sent(1) [OF b] h assms(7)])
  then have "flag_of t (pool_index (ad_proxy t) w)"
    using sent(3) [OF assms(5) k] by (simp add: same_all_def)
  moreover have "admin_ok c t"
    using while_sending [OF assms(6) b assms(3) sent(1) [OF b]] assms(7) by simp
  ultimately show False
    using forwards_to_enabled [OF _ assms(3,8)] by blast
qed

text \<open>
  A gathering that raises frees the lock and restores the flags at once, but cancels no send: what has
  not been answered yet is still under way when requests reach the workers again and the next update
  begins.
\<close>

theorem failed_gathering_leaves_sends:
  assumes "admin_enabled (Sending_Ends i (Inl x)) s" and "ac_update (ad_calls s ! i)"
  shows "ad_sends (sending_ends dumps i (Inl x) s) = ad_sends s \<and> ad_lock (sending_ends dumps i (Inl x) s) = None \<and>
    (\<exists>e. ac_phase (ad_calls (sending_ends dumps i (Inl x) s) ! i) = Ended e)"
proof -
  obtain saved where i: "i < length (ad_calls s)" "ac_phase (ad_calls s ! i) = Broadcasting saved"
    using assms(1) by (auto split: admin_phase.splits)
  have f: "ad_sends (flag_all g ks s) = ad_sends s" for g ks
    unfolding flag_all_def by (induction ks arbitrary: s) (simp_all add: on_admin_worker_def)
  obtain g r where "sending_ends dumps i (Inl x) s = set_admin i (Ended r) (free_lock i (flag_all g (ac_targets (ad_calls s ! i)) s))"
    using sending_ends_shape [OF i, of dumps "Inl x"] assms(2) by auto
  then show ?thesis
    using i(1) assms(2) by (simp add: free_lock_def set_admin_def f)
qed

lemma saved_flag:
  assumes "distinct (map (url_of s) ks)" and "k \<in> set ks"
  shows "saved_flags ks s (url_of s k) = Some (flag_of s k)"
proof -
  have "distinct (map fst (map (\<lambda>k. (wk_url (ad_worker s k), wk_disabled (ad_worker s k))) ks))"
    using assms(1) by (simp add: url_of_def [abs_def] comp_def)
  then show ?thesis
    using assms(2) unfolding saved_flags_def
    by (intro map_of_is_SomeI) (assumption, force simp: url_of_def flag_of_def)
qed

text \<open>The results an update's sending ends with, if it gathered them.\<close>

definition gathered :: "nat \<Rightarrow> admin_reply list result \<Rightarrow> admin \<Rightarrow> broadcast_result list option" where
  "gathered i outcome s = (case outcome of Inl e \<Rightarrow> None
     | Inr rs \<Rightarrow> Some (map (\<lambda>(k, r). broadcast_result_of (url_of s k) r) (zip (ac_targets (ad_calls s ! i)) rs)))"

lemma sending_ends_flags:
  assumes "\<forall>k \<in> set (ac_targets (ad_calls s ! i)). k < pool_size s" and "k \<in> set (ac_targets (ad_calls s ! i))"
    and "ac_phase (ad_calls s ! i) = Broadcasting saved" and "ac_update (ad_calls s ! i)"
  shows "flag_of (sending_ends dumps i outcome s) k \<longleftrightarrow>
      keeps_disabled (ac_path (ad_calls s ! i)) (gathered i outcome s) (url_of s k) \<or> saved (url_of s k) = Some True"
  using assms
  by (cases outcome) (simp_all add: sending_ends_def Let_def restore_all flag_of_def url_of_def pool_size_def flag_all_worker gathered_def)

text \<open>
  C28: when an update has been sent, each target has the flag it had before, except a worker that a
  distributed initialisation has failed on, which stays disabled. What the operator did to a target's
  flag meanwhile is lost.
\<close>

theorem update_restores_flags:
  assumes "admin_run c lb dumps (new_admin workers) es s" and "fresh_pool workers" and "\<forall>n > 0. lb_pick lb n < n"
    and "admin_enabled (Read_Body i) s" and "ac_update (ad_calls s ! i)"
    and "admin_run c lb dumps (begin_sending i s) es' t" and "\<forall>e \<in> set es'. call_of e \<noteq> Some i"
    and "k \<in> set (ac_targets (ad_calls s ! i))"
  shows "flag_of (sending_ends dumps i outcome t) k \<longleftrightarrow>
    flag_of s k \<or> keeps_disabled (ac_path (ad_calls s ! i)) (gathered i outcome t) (url_of s k)"
proof -
  have s: "admin_ok c s"
    by (rule admin_ok_run [OF assms(1) admin_ok_new [OF assms(2)] assms(3)])
  have b: "admin_ok c (begin_sending i s)"
    by (rule admin_ok_step [OF s assms(4) _ assms(3)]) (simp add: admin_step_def)
  note sent = sent_state [OF s assms(4)]
  have t: "i < length (ad_calls t)" "ad_calls t ! i = ad_calls (begin_sending i s) ! i" "same_urls (begin_sending i s) t" "admin_ok c t"
    using while_sending [OF assms(6) b assms(3) sent(1) [OF b] assms(7)] by simp_all
  have i: "i < length (ad_calls s)"
    using assms(4) by simp
  have k: "k < pool_size s" "distinct (map (url_of s) (ac_targets (ad_calls s ! i)))"
    using s i assms(8) admin_targets [OF s i] by (simp_all add: admin_ok_def targets_ok_def url_of_def [abs_def])
  have "url_of t k = url_of s k"
    using same_urls_trans [OF sent(4) t(3)] k(1) by (simp add: same_urls_def)
  moreover have "\<forall>k \<in> set (ac_targets (ad_calls t ! i)). k < pool_size t"
    using admin_targets [OF t(4,1)] by blast
  moreover have "ac_update (ad_calls t ! i)"
    using assms(5) by (simp add: t(2) sent(2) ac_update_def)
  ultimately show ?thesis
    using sending_ends_flags [of t i k _ dumps outcome] saved_flag [OF k(2) assms(8)] assms(5,8) by (auto simp: t(2) sent(2))
qed


section \<open>A pause, an operator and a new worker\<close>

definition run_to :: "admin_event list \<Rightarrow> admin \<Rightarrow> admin" where
  "run_to es s = (case admin_exec demo_proxy_config demo_libs (\<lambda>v. []) es s of Some t \<Rightarrow> t | None \<Rightarrow> s)"

lemma run_toI:
  "\<not> Option.is_none (admin_exec demo_proxy_config demo_libs (\<lambda>v. []) es s) \<Longrightarrow>
   admin_run demo_proxy_config demo_libs (\<lambda>v. []) s es (run_to es s)"
  by (rule admin_exec_run) (auto simp: run_to_def Option.is_none_def)

definition demo_pause :: "admin_event list" where
  "demo_pause = [Begin_Broadcast ''/pause_generation'', Begin_Broadcast ''/destroy_weights_update_group'', Take_Lock 0]"

definition demo_paused :: admin where
  "demo_paused = run_to demo_pause (new_admin demo_workers)"

definition demo_operator :: "admin_event list" where
  "demo_operator = [Proxy_Event (Update_Worker 0 None (Some True) None)]"

definition demo_disabled :: admin where
  "demo_disabled = run_to demo_operator (begin_sending 0 demo_paused)"

definition demo_joins :: "admin_event list" where
  "demo_joins = [Proxy_Event (Create_Worker ''http://b'' None {Chat}), Proxy_Event (Probe_Ends 1 (Answered 200 [])),
     Proxy_Event (Probe_Ends 1 (Answered 200 []))]"

definition demo_joined :: admin where
  "demo_joined = run_to demo_joins (begin_sending 0 demo_paused)"

lemma demo_admin_runs:
  "admin_run demo_proxy_config demo_libs (\<lambda>v. []) (new_admin demo_workers) demo_pause demo_paused"
  "admin_run demo_proxy_config demo_libs (\<lambda>v. []) (begin_sending 0 demo_paused) demo_operator demo_disabled"
  "admin_run demo_proxy_config demo_libs (\<lambda>v. []) (begin_sending 0 demo_paused) demo_joins demo_joined"
  unfolding demo_disabled_def demo_joined_def
  by (subst demo_paused_def, rule run_toI, code_simp) (rule run_toI, code_simp)+

lemma demo_pause_state:
  "0 < length (ad_calls demo_paused)" "1 < length (ad_calls demo_paused)" "holds_lock (ad_calls demo_paused ! 0)"
  "ac_update (ad_calls demo_paused ! 1)" "admin_enabled (Read_Body 0) demo_paused" "ac_update (ad_calls demo_paused ! 0)"
  "0 \<in> set (ac_targets (ad_calls demo_paused ! 0))"
  by code_simp+

lemma one_update_at_a_time_witness:
  "ac_phase (ad_calls demo_paused ! 1) = Locking \<or> (\<exists>r. ac_phase (ad_calls demo_paused ! 1) = Ended r)"
  by (rule one_update_at_a_time [OF demo_admin_runs(1) demo_fresh demo_pause_state(1,3,2,4)]) simp

lemma demo_joined_decision:
  "\<exists>m rr. decide_route demo_proxy_config demo_libs (registered (ad_proxy demo_joined)) (px_rr (ad_proxy demo_joined)) ''id''
     plain_request ''/generate'' [] = Forward (ad_worker demo_joined 1) m rr"
proof -
  have ws: "registered (ad_proxy demo_joined) = [ad_worker demo_joined 0, ad_worker demo_joined 1]" "px_rr (ad_proxy demo_joined) = 0"
    by (simp add: registered_def ad_worker_def) code_simp+
  have "\<not> eligible {Chat} (ad_worker demo_joined 0)" "eligible {Chat} (ad_worker demo_joined 1)"
    by code_simp+
  then show ?thesis
    unfolding ws
    by (simp add: decide_route_def header_def plain_request_def read_body_with_limit_def extract_route_metadata_def
      request_id_from_request_def or_string_def route_model_from_header_def route_stream_from_header_def
      route_capabilities_from_header_def is_json_request_def lower_def substring_def required_capabilities_def
      finish_metadata_def large_request_extra_capabilities_def select_def candidates_eq
      demo_proxy_config_def least_loaded_def select_round_robin_def guardE_def Let_def)
qed

lemma no_request_reaches_updating_worker_witness:
  "pool_index (ad_proxy demo_joined) (ad_worker demo_joined 1) \<notin> set (ac_targets (ad_calls demo_paused ! 0))"
proof -
  obtain m rr where d: "decide_route demo_proxy_config demo_libs (registered (ad_proxy demo_joined)) (px_rr (ad_proxy demo_joined))
      ''id'' plain_request ''/generate'' [] = Forward (ad_worker demo_joined 1) m rr"
    using demo_joined_decision by blast
  show ?thesis
    by (rule no_request_reaches_updating_worker [OF demo_admin_runs(1) demo_fresh demo_pause_state(5,6) demo_admin_runs(3) _ d])
      (simp add: demo_joins_def)
qed

lemma update_restores_flags_witness:
  "\<not> flag_of (sending_ends (\<lambda>v. []) 0 (Inr [Reply 200 PNone]) demo_disabled) 0 \<and> flag_of demo_disabled 0"
proof -
  let ?r = "Inr [Reply 200 PNone]"
  have "flag_of (sending_ends (\<lambda>v. []) 0 ?r demo_disabled) 0 \<longleftrightarrow>
      flag_of demo_paused 0 \<or> keeps_disabled (ac_path (ad_calls demo_paused ! 0)) (gathered 0 ?r demo_disabled) (url_of demo_paused 0)"
    by (rule update_restores_flags [OF demo_admin_runs(1) demo_fresh demo_pause_state(5,6) demo_admin_runs(2) _ demo_pause_state(7)])
      (simp add: demo_operator_def)
  moreover have "\<not> flag_of demo_paused 0" "flag_of demo_disabled 0"
    "\<not> keeps_disabled (ac_path (ad_calls demo_paused ! 0)) (gathered 0 ?r demo_disabled) (url_of demo_paused 0)"
    by code_simp+
  ultimately show ?thesis
    by blast
qed


section \<open>The model list\<close>

lemma unique_by_snoc: "unique_by f (xs @ [x]) = (if f x \<in> f ` set (unique_by f xs) then unique_by f xs else unique_by f xs @ [x])"
  by (simp add: unique_by_def)

lemma unique_by_nil [simp]: "unique_by f [] = []"
  by (simp add: unique_by_def)

lemma unique_by_keys: "f ` set (unique_by f xs) = f ` set xs"
  by (induction xs rule: rev_induct) (auto simp: unique_by_snoc)

lemma unique_by_distinct: "distinct (map f (unique_by f xs))"
  by (induction xs rule: rev_induct) (auto simp: unique_by_snoc)

lemma find_append: "find P (xs @ ys) = (case find P xs of Some x \<Rightarrow> Some x | None \<Rightarrow> find P ys)"
  by (induction xs) auto

lemma unique_by_first: "y \<in> set (unique_by f xs) \<Longrightarrow> find (\<lambda>x. f x = f y) xs = Some y"
proof (induction xs rule: rev_induct)
  case (snoc x xs)
  show ?case
  proof (cases "y \<in> set (unique_by f xs)")
    case False
    then have "y = x" "f x \<notin> f ` set xs"
      using snoc.prems by (auto simp: unique_by_snoc unique_by_keys split: if_splits)
    then have "find (\<lambda>x. f x = f y) xs = None"
      by (auto simp: find_None_iff image_iff)
    with \<open>y = x\<close> show ?thesis
      by (simp add: find_append)
  qed (simp add: snoc.IH find_append)
qed simp

text \<open>The cards of the workers that answered a list, in the order of the workers.\<close>

definition offered_cards :: "(worker \<times> models_reply) list \<Rightarrow> pydict list" where
  "offered_cards replies = concat (map (\<lambda>(w, r). case fetch_worker_models r of Inr (Some xs) \<Rightarrow> dict_cards xs | _ \<Rightarrow> []) replies)"

lemma mapE_fetch:
  "mapE (\<lambda>(w, r). fetch_worker_models r) replies = Inr datas \<Longrightarrow>
   concat (map (\<lambda>d. case d of None \<Rightarrow> [] | Some xs \<Rightarrow> dict_cards xs) datas) = offered_cards replies"
proof (induction replies arbitrary: datas)
  case (Cons p replies)
  then show ?case
    by (cases p; cases "fetch_worker_models (snd p)")
      (auto simp: offered_cards_def split: option.split)
qed (simp add: offered_cards_def)

text \<open>
  the model list has one card per key, every key that some worker offers, and of each key the
  first card in the order of the workers; it is refused exactly when no worker offers a card.
\<close>

theorem model_list_is_first_offers:
  assumes "merge_models dumps replies = Inr (status, cards)"
  shows "distinct (map (card_key dumps) cards) \<and>
    card_key dumps ` set cards = card_key dumps ` set (offered_cards replies) \<and>
    (\<forall>cd \<in> set cards. find (\<lambda>x. card_key dumps x = card_key dumps cd) (offered_cards replies) = Some cd) \<and>
    (status = 200 \<longleftrightarrow> offered_cards replies \<noteq> [])"
proof -
  have c: "cards = unique_by (card_key dumps) (offered_cards replies)" "status = (if replies = [] then 503 else if cards = [] then 502 else 200)"
    using assms mapE_fetch by (fastforce simp: merge_models_def Let_def offered_cards_def bindE_eq_Inr split: if_splits)+
  have k: "card_key dumps ` set cards = card_key dumps ` set (offered_cards replies)"
    unfolding c(1) by (rule unique_by_keys)
  then have "cards = [] \<longleftrightarrow> offered_cards replies = []"
    by (metis image_is_empty set_empty)
  moreover have "replies = [] \<Longrightarrow> offered_cards replies = []"
    by (simp add: offered_cards_def)
  ultimately have "status = 200 \<longleftrightarrow> offered_cards replies \<noteq> []"
    by (auto simp: c(2))
  moreover have "\<forall>cd \<in> set cards. find (\<lambda>x. card_key dumps x = card_key dumps cd) (offered_cards replies) = Some cd"
    unfolding c(1) by (intro ballI unique_by_first)
  ultimately show ?thesis
    using k unfolding c(1) by (simp add: unique_by_distinct)
qed

lemma model_list_is_first_offers_witness:
  "let replies = [(new_worker ''http://a'' None {}, Models_Json (PDict [(''data'', PList [PDict [(''id'', PStr ''m'')]])])),
      (new_worker ''http://b'' None {}, Models_Status 500)]
   in offered_cards replies = [[(''id'', PStr ''m'')]] \<and> find (\<lambda>x. card_key (\<lambda>v. []) x = ''m'') (offered_cards replies) = Some [(''id'', PStr ''m'')]"
proof -
  let ?replies = "[(new_worker ''http://a'' None {}, Models_Json (PDict [(''data'', PList [PDict [(''id'', PStr ''m'')]])])),
      (new_worker ''http://b'' None {}, Models_Status 500)]"
  have m: "merge_models (\<lambda>v. []) ?replies = Inr (200, [[(''id'', PStr ''m'')]])"
    by code_simp
  have k: "card_key (\<lambda>v. []) [(''id'', PStr ''m'')] = ''m''" "offered_cards ?replies = [[(''id'', PStr ''m'')]]"
    by code_simp+
  show ?thesis
    unfolding Let_def using model_list_is_first_offers [OF m] by (simp add: k)
qed

text \<open>one worker whose \<open>/v1/models\<close> is a JSON array makes the merged list fail, whatever the others answer.\<close>

theorem array_answer_breaks_model_list:
  assumes "(w, Models_Json (PList xs)) \<in> set replies"
  shows "\<exists>e. merge_models dumps replies = Inl e"
proof -
  have "mapE (\<lambda>(w, r). fetch_worker_models r) replies \<noteq> Inr ys" for ys
    using mapE_Inr_image [OF _ assms] by (fastforce simp: fetch_worker_models_def)
  then obtain e where "mapE (\<lambda>(w, r). fetch_worker_models r) replies = Inl e"
    by (cases "mapE (\<lambda>(w, r). fetch_worker_models r) replies") blast+
  then show ?thesis
    using assms by (auto simp: merge_models_def)
qed

lemma array_answer_breaks_model_list_witness:
  "\<exists>e. merge_models (\<lambda>v. []) [(new_worker ''http://a'' None {}, Models_Json (PList []))] = Inl e"
  by (rule array_answer_breaks_model_list) simp

end
