(* ===== verification/Config_Schema.thy ===== *)
theory Config_Schema
  imports Prelude
begin

text \<open>
  The pipeline configuration, \<open>sglang_omni/config/schema.py\<close>: stages, fused groups and the checks made
  when a configuration is built. Pydantic's own parsing of the fields is not repeated: a value of the
  records below has fields of the declared types. Floats are opaque objects.
\<close>

section \<open>The configuration\<close>

datatype gpu_spec = No_Gpu | One_Gpu int | Gpu_List "int list"

datatype next_spec = No_Next | One_Next string | Next_List "string list"

record stage_spec =
  sc_name :: string
  sc_factory :: string
  sc_factory_args :: pydict
  sc_next :: next_spec
  sc_terminal :: bool
  sc_route_fn :: "string option"
  sc_gpu :: gpu_spec
  sc_tp_size :: int
  sc_parallelism :: int
  sc_process :: "string option"
  sc_fraction :: pyval
  sc_mem_fraction_static :: pyval
  sc_max_seq_len :: pyval
  sc_video_fps :: pyval
  sc_runtime_arg_map :: "(string \<times> string) list"
  sc_wait_for :: "string list option"
  sc_wait_for_fn :: "string option"
  sc_merge_fn :: "string option"
  sc_stream_to :: "string list"
  sc_stream_done_to_fn :: "string option"
  sc_project_payload :: "string list"

record pipeline_config =
  pl_model_path :: string
  pl_stages :: "stage_spec list"
  pl_entry_stage :: "string option"
  pl_fused_stages :: "string list list"
  pl_runtime_overrides :: "(string \<times> pydict) list"
  pl_require_fraction :: bool
  pl_max_fraction :: pyval

section \<open>One stage\<close>

text \<open>
  \<open>StageConfig.model_post_init\<close>; the flags tell which of \<open>tp_size\<close> and \<open>parallelism\<close> were given.
\<close>

definition init_process :: "stage_spec \<Rightarrow> stage_spec result" where
  "init_process s = (case sc_process s of
     None \<Rightarrow> Inr s
   | Some p \<Rightarrow> (if strip p = [] then Inl (ValueError ''process must not be empty'') else Inr (s\<lparr>sc_process := Some (strip p)\<rparr>)))"

definition init_parallelism :: "bool \<Rightarrow> bool \<Rightarrow> stage_spec \<Rightarrow> stage_spec result" where
  "init_parallelism tp_size_set parallelism_set s =
     (if parallelism_set \<and> tp_size_set \<and> sc_parallelism s \<noteq> sc_tp_size s then Inl (ValueError ''tp_size conflicts'')
      else if \<not> parallelism_set \<and> sc_tp_size s \<noteq> sc_parallelism s then Inr (s\<lparr>sc_parallelism := sc_tp_size s\<rparr>)
      else if parallelism_set \<and> \<not> tp_size_set \<and> sc_tp_size s \<noteq> sc_parallelism s then Inr (s\<lparr>sc_tp_size := sc_parallelism s\<rparr>)
      else Inr s)"

definition stage_post_init :: "bool \<Rightarrow> bool \<Rightarrow> stage_spec \<Rightarrow> stage_spec result" where
  "stage_post_init tp_size_set parallelism_set s =
     bindE (guardE (sc_tp_size s \<ge> 1) (ValueError ''tp_size must be >= 1'')) (\<lambda>_.
     bindE (init_process s) (init_parallelism tp_size_set parallelism_set))"

definition next_targets :: "next_spec \<Rightarrow> string list" where
  "next_targets n = (case n of No_Next \<Rightarrow> [] | One_Next t \<Rightarrow> [t] | Next_List ts \<Rightarrow> ts)"

text \<open>\<open>checks\<close> raises at the first condition that fails.\<close>

fun checks :: "(bool \<times> string) list \<Rightarrow> unit result" where
  "checks [] = Inr ()"
| "checks ((ok, m) # cs) = (if ok then checks cs else Inl (ValueError m))"

definition given :: "string option \<Rightarrow> bool" where
  "given v \<longleftrightarrow> (case v of None \<Rightarrow> False | Some s \<Rightarrow> s \<noteq> [])"

definition validate_stage :: "string list \<Rightarrow> stage_spec \<Rightarrow> unit result" where
  "validate_stage names s =
     (let has_next = (sc_next s \<noteq> No_Next);
          waits = (case sc_wait_for s of None \<Rightarrow> [] | Some ws \<Rightarrow> ws) in
      checks
       [(sc_factory s \<noteq> [], ''missing factory''),
        (has_next \<noteq> sc_terminal s, ''must set exactly one of next or terminal''),
        (\<not> (sc_terminal s \<and> sc_route_fn s \<noteq> None), ''cannot set route_fn on a terminal stage''),
        (\<not> (sc_stream_done_to_fn s \<noteq> None \<and> sc_stream_to s = []), ''cannot set stream_done_to_fn without stream_to''),
        (sc_tp_size s \<ge> 1, ''must have tp_size >= 1''),
        (sc_parallelism s = sc_tp_size s, ''tp_size conflicts with parallelism.tp''),
        (case sc_gpu s of Gpu_List gs \<Rightarrow> int (length gs) = sc_tp_size s | _ \<Rightarrow> True, ''gpu entries but tp_size''),
        (waits = [] \<or> given (sc_merge_fn s), ''has wait_for but no merge_fn''),
        (waits = [] \<or> set waits \<subseteq> set names, ''wait_for has unknown stages''),
        (waits \<noteq> [] \<or> sc_wait_for_fn s = None, ''has wait_for_fn but no wait_for''),
        (set (next_targets (sc_next s)) \<subseteq> set names, ''next has unknown stages''),
        (set (sc_stream_to s) \<subseteq> set names, ''stream_to references unknown stage''),
        (set (sc_project_payload s) \<subseteq> set names, ''project_payload references unknown stage'')])"

section \<open>The pipeline\<close>

definition stage_names :: "pipeline_config \<Rightarrow> string list" where
  "stage_names p = map sc_name (pl_stages p)"

definition resolved_entry_stage :: "pipeline_config \<Rightarrow> string" where
  "resolved_entry_stage p = (case pl_entry_stage p of Some e \<Rightarrow> e | None \<Rightarrow> sc_name (hd (pl_stages p)))"

definition validate_general :: "pipeline_config \<Rightarrow> unit result" where
  "validate_general p =
     (let names = stage_names p in
      bindE (checks
        [(pl_model_path p \<noteq> [], ''Model path is required''),
         (names \<noteq> [], ''Pipeline must define at least one stage''),
         (distinct names, ''Stage names must be unique'')]) (\<lambda>_.
      bindE (checks [(resolved_entry_stage p \<in> set names, ''entry_stage is not defined'')]) (\<lambda>_.
      bindE (mapE (validate_stage names) (pl_stages p)) (\<lambda>_.
      checks
        [(fst ` set (pl_runtime_overrides p) \<subseteq> set names, ''runtime_overrides references unknown stage''),
         (list_all (\<lambda>s. sc_tp_size s = 1 \<longrightarrow> given (sc_process s)) (pl_stages p), ''Non-TP stages must declare process'')]))))"

text \<open>The dictionaries by name: with equal names the last wins.\<close>

definition stage_by_name :: "stage_spec list \<Rightarrow> string \<rightharpoonup> stage_spec" where
  "stage_by_name stages = map_of (rev (map (\<lambda>s. (sc_name s, s)) stages))"

definition index_map :: "string list \<Rightarrow> string \<rightharpoonup> nat" where
  "index_map names = map_of (rev (zip names [0..<length names]))"

definition stage_gpu_ids_for_fusion :: "stage_spec \<Rightarrow> int list" where
  "stage_gpu_ids_for_fusion s = (case sc_gpu s of No_Gpu \<Rightarrow> [] | One_Gpu g \<Rightarrow> [g] | Gpu_List gs \<Rightarrow> gs)"

text \<open>\<open>_validate_fused_group_contract\<close>: the loop over the stages with the names still to come.\<close>

fun linear_group :: "bool \<Rightarrow> stage_spec list \<Rightarrow> unit result" where
  "linear_group first [] = Inr ()"
| "linear_group first (s # ss) =
     bindE (checks [(first \<or> sc_wait_for s = None \<or> sc_wait_for s = Some [], ''cannot include internal fan-in stage'')]) (\<lambda>_.
     bindE (case ss of
         [] \<Rightarrow> Inr ()
       | t # _ \<Rightarrow> checks
           [(\<not> sc_terminal s \<and> sc_route_fn s = None, ''internal stage cannot be terminal or dynamic-routed''),
            (next_targets (sc_next s) = [sc_name t], ''stage must route only to the next'')]) (\<lambda>_.
     linear_group False ss))"

definition validate_fused_group_contract :: "stage_spec list \<Rightarrow> unit result" where
  "validate_fused_group_contract stages =
     bindE (checks
       [(list_all (\<lambda>s. sc_tp_size s = 1) stages, ''cannot include TP stage''),
        (length (remdups (concat (map stage_gpu_ids_for_fusion stages))) \<le> 1, ''must fit on one GPU'')]) (\<lambda>_.
     linear_group True stages)"

text \<open>\<open>_validate_fusion\<close>: \<open>seen\<close> collects the members of the groups.\<close>

fun fused_members :: "(string \<rightharpoonup> nat) \<Rightarrow> string list \<Rightarrow> string set \<Rightarrow> string set result" where
  "fused_members index [] seen = Inr seen"
| "fused_members index (n # ns) seen =
     bindE (checks [(index n \<noteq> None, ''fused stage is not defined''), (n \<notin> seen, ''stage appears in multiple fused groups'')]) (\<lambda>_.
     fused_members index ns (insert n seen))"

definition lookup_stage :: "stage_spec list \<Rightarrow> string \<Rightarrow> stage_spec result" where
  "lookup_stage stages n = (case stage_by_name stages n of None \<Rightarrow> Inl (KeyError n) | Some s \<Rightarrow> Inr s)"

fun validate_groups :: "stage_spec list \<Rightarrow> string list list \<Rightarrow> string set \<Rightarrow> unit result" where
  "validate_groups stages [] seen = Inr ()"
| "validate_groups stages (g # gs) seen =
     (let index = index_map (map sc_name stages) in
      bindE (checks [(2 \<le> length g, ''fused_stages groups must have at least 2 stage names'')]) (\<lambda>_.
      bindE (fused_members index g seen) (\<lambda>seen.
      let indices = map (\<lambda>n. the (index n)) g in
      bindE (checks [(indices = [hd indices..<hd indices + length indices], ''fused group not adjacent/ordered'')]) (\<lambda>_.
      bindE (mapE (lookup_stage stages) g) (\<lambda>ss.
      bindE (validate_fused_group_contract ss) (\<lambda>_.
      validate_groups stages gs seen))))))"

definition validate_config :: "pipeline_config \<Rightarrow> unit result" where
  "validate_config p = bindE (validate_general p) (\<lambda>_. validate_groups (pl_stages p) (pl_fused_stages p) {})"

section \<open>What an accepted configuration satisfies\<close>

declare checks.simps [simp del]

lemma checks_ok [simp]: "checks cs = Inr u \<longleftrightarrow> list_all fst cs"
  by (induction cs rule: checks.induct) (auto simp: checks.simps)

lemma stage_by_name_in: "stage_by_name stages n = Some s \<Longrightarrow> s \<in> set stages \<and> sc_name s = n"
  unfolding stage_by_name_def by (auto dest!: map_of_SomeD)

lemma stage_by_name_eq:
  assumes "distinct (map sc_name stages)" and "s \<in> set stages"
  shows "stage_by_name stages (sc_name s) = Some s"
proof -
  have "map fst (rev (map (\<lambda>s. (sc_name s, s)) stages)) = rev (map sc_name stages)"
    by (simp add: rev_map comp_def)
  then have "distinct (map fst (rev (map (\<lambda>s. (sc_name s, s)) stages)))"
    using assms(1) by (simp only: distinct_rev)
  then show ?thesis
    unfolding stage_by_name_def using assms(2) by (intro map_of_is_SomeI) auto
qed

lemma lookup_stage_ok: "lookup_stage stages n = Inr s \<longleftrightarrow> stage_by_name stages n = Some s"
  by (auto simp: lookup_stage_def split: option.split)

lemma index_map_eq:
  assumes "distinct names"
  shows "index_map names n = Some i \<longleftrightarrow> i < length names \<and> names ! i = n"
proof -
  have d: "distinct (map fst (rev (zip names [0..<length names])))"
    using assms by (simp add: rev_map [symmetric])
  show ?thesis
    unfolding index_map_def map_of_eq_Some_iff [OF d] by (auto simp: set_zip)
qed

lemma fused_members_ok:
  "fused_members index g seen = Inr seen' \<longleftrightarrow>
     (\<forall>n \<in> set g. index n \<noteq> None) \<and> distinct g \<and> set g \<inter> seen = {} \<and> seen' = seen \<union> set g"
  by (induction g arbitrary: seen) auto

text \<open>A group with consecutive indices is a segment of the names.\<close>

lemma segment_of_indices:
  assumes "distinct names" and "\<forall>n \<in> set g. index_map names n \<noteq> None"
    and "map (\<lambda>n. the (index_map names n)) g = [k..<k + length g]" and "g \<noteq> []"
  shows "g = take (length g) (drop k names) \<and> k + length g \<le> length names"
proof -
  have at: "k + j < length names \<and> names ! (k + j) = g ! j" if "j < length g" for j
  proof -
    have "the (index_map names (g ! j)) = k + j"
      using that arg_cong [OF assms(3), of "\<lambda>xs. xs ! j"] by simp
    moreover obtain i where "index_map names (g ! j) = Some i"
      using assms(2) \<open>j < length g\<close> by (metis nth_mem not_None_eq)
    ultimately show ?thesis
      using index_map_eq [OF assms(1)] by auto
  qed
  have "k + (length g - 1) < length names"
    using at [of "length g - 1"] assms(4) by (cases g) auto
  then have l: "k + length g \<le> length names"
    using assms(4) by (cases g) auto
  moreover have "g = take (length g) (drop k names)"
    using at l by (intro nth_equalityI) auto
  ultimately show ?thesis
    by blast
qed

definition is_segment :: "'a list \<Rightarrow> 'a list \<Rightarrow> bool" where
  "is_segment g names \<longleftrightarrow> (\<exists>pre post. names = pre @ g @ post)"

lemma take_drop_segment: "g = take (length g) (drop k names) \<Longrightarrow> is_segment g names"
  unfolding is_segment_def by (metis append_take_drop_id drop_drop)

lemma validate_groups_ok:
  assumes "validate_groups stages gs seen = Inr u" and "distinct (map sc_name stages)"
  shows "distinct (concat gs) \<and> set (concat gs) \<inter> seen = {} \<and>
    (\<forall>g \<in> set gs. 2 \<le> length g \<and> is_segment g (map sc_name stages) \<and>
      (\<exists>ss. map (stage_by_name stages) g = map Some ss \<and> validate_fused_group_contract ss = Inr ()))"
  using assms(1)
proof (induction gs arbitrary: seen)
  case (Cons g gs)
  let ?names = "map sc_name stages" and ?ix = "\<lambda>n. the (index_map (map sc_name stages) n)"
  obtain ss where l: "2 \<le> length g" and m: "\<forall>n \<in> set g. index_map ?names n \<noteq> None" "distinct g" "set g \<inter> seen = {}"
    and i: "map ?ix g = [hd (map ?ix g)..<hd (map ?ix g) + length (map ?ix g)]"
    and ss: "mapE (lookup_stage stages) g = Inr ss" "validate_fused_group_contract ss = Inr ()"
    and r: "validate_groups stages gs (seen \<union> set g) = Inr u"
    using Cons.prems by (auto simp: Let_def fused_members_ok)
  have "is_segment g ?names"
    using segment_of_indices [OF assms(2) m(1), of "hd (map ?ix g)"] i l by (intro take_drop_segment) (simp, fastforce)
  moreover have "map (stage_by_name stages) g = map Some ss"
    using ss(1) by (induction g arbitrary: ss) (auto simp: lookup_stage_ok)
  ultimately show ?case
    using Cons.IH [OF r] l m ss(2) by auto
qed simp

lemma linear_group_ok:
  assumes "linear_group first ss = Inr u"
  shows "(Suc i < length ss \<longrightarrow> \<not> sc_terminal (ss ! i) \<and> sc_route_fn (ss ! i) = None \<and>
      next_targets (sc_next (ss ! i)) = [sc_name (ss ! Suc i)]) \<and>
    (\<not> first \<or> 0 < i \<longrightarrow> i < length ss \<longrightarrow> sc_wait_for (ss ! i) = None \<or> sc_wait_for (ss ! i) = Some [])"
  using assms
proof (induction first ss arbitrary: i rule: linear_group.induct)
  case (2 first s ss)
  have r: "linear_group False ss = Inr u"
    using 2(2) by auto
  show ?case
  proof (cases i)
    case 0
    then show ?thesis
      using 2(2) by (cases ss) auto
  next
    case (Suc j)
    then show ?thesis
      using 2(1) [OF _ _ r, of "()" "()" j] 2(2) by auto
  qed
qed simp

text \<open>Whatever was given, a built stage has one tensor-parallel size and no blank process name.\<close>

lemma init_process_ok: "init_process s = Inr t \<Longrightarrow> sc_process t \<noteq> Some []"
  by (auto simp: init_process_def split: option.splits if_splits)

lemma init_parallelism_ok:
  "init_parallelism tp_size_set parallelism_set s = Inr t \<Longrightarrow> sc_parallelism t = sc_tp_size t \<and> sc_process t = sc_process s"
  by (auto simp: init_parallelism_def split: if_splits)

lemma stage_post_init_ok:
  assumes "stage_post_init tp_size_set parallelism_set s = Inr t"
  shows "sc_parallelism t = sc_tp_size t \<and> sc_process t \<noteq> Some []"
proof -
  obtain s1 where "init_process s = Inr s1" "init_parallelism tp_size_set parallelism_set s1 = Inr t"
    using assms by (auto simp: stage_post_init_def)
  then show ?thesis
    using init_process_ok init_parallelism_ok by metis
qed

text \<open>The general checks, as facts about the stages.\<close>

lemma validate_general_ok:
  assumes "validate_general p = Inr u"
  shows "distinct (stage_names p)" "stage_names p \<noteq> []" "resolved_entry_stage p \<in> set (stage_names p)"
    and "s \<in> set (pl_stages p) \<Longrightarrow> validate_stage (stage_names p) s = Inr ()"
    and "s \<in> set (pl_stages p) \<Longrightarrow> sc_tp_size s = 1 \<Longrightarrow> \<exists>q. sc_process s = Some q \<and> q \<noteq> []"
proof -
  obtain us where us: "mapE (validate_stage (stage_names p)) (pl_stages p) = Inr us"
    using assms by (auto simp: validate_general_def Let_def)
  show "s \<in> set (pl_stages p) \<Longrightarrow> validate_stage (stage_names p) s = Inr ()"
    using mapE_Inr_image [OF us] by fastforce
  show "s \<in> set (pl_stages p) \<Longrightarrow> sc_tp_size s = 1 \<Longrightarrow> \<exists>q. sc_process s = Some q \<and> q \<noteq> []"
    using assms by (auto simp: validate_general_def Let_def list_all_iff given_def split: option.splits)
qed (use assms in \<open>auto simp: validate_general_def Let_def\<close>)

lemma validate_config_ok:
  assumes "validate_config p = Inr u"
  shows "validate_general p = Inr ()" "validate_groups (pl_stages p) (pl_fused_stages p) {} = Inr ()"
  using assms by (auto simp: validate_config_def)

text \<open>The stages of one group, as the contract was checked on them.\<close>

definition fused_chain :: "stage_spec list \<Rightarrow> bool" where
  "fused_chain ss \<longleftrightarrow> (\<forall>s \<in> set ss. sc_tp_size s = 1) \<and> (\<exists>gpu. \<forall>s \<in> set ss. set (stage_gpu_ids_for_fusion s) \<subseteq> {gpu}) \<and>
     (\<forall>i. Suc i < length ss \<longrightarrow> \<not> sc_terminal (ss ! i) \<and> next_targets (sc_next (ss ! i)) = [sc_name (ss ! Suc i)])"

lemma contract_chain:
  assumes "validate_fused_group_contract ss = Inr u"
  shows "fused_chain ss"
  unfolding fused_chain_def
proof (intro conjI)
  show "\<forall>s \<in> set ss. sc_tp_size s = 1"
    using assms by (auto simp: validate_fused_group_contract_def list_all_iff)
  show "\<exists>gpu. \<forall>s \<in> set ss. set (stage_gpu_ids_for_fusion s) \<subseteq> {gpu}"
  proof -
    let ?ids = "concat (map stage_gpu_ids_for_fusion ss)"
    have "length (remdups ?ids) \<le> 1"
      using assms by (auto simp: validate_fused_group_contract_def)
    then have "\<exists>gpu. set (remdups ?ids) \<subseteq> {gpu}"
      by (cases "remdups ?ids") auto
    then show ?thesis
      by auto
  qed
  show "\<forall>i. Suc i < length ss \<longrightarrow> \<not> sc_terminal (ss ! i) \<and> next_targets (sc_next (ss ! i)) = [sc_name (ss ! Suc i)]"
    using assms linear_group_ok by (auto simp: validate_fused_group_contract_def)
qed

lemma group_stages:
  assumes "map (stage_by_name stages) g = map Some ss"
  shows "set ss \<subseteq> set stages \<and> map sc_name ss = g"
  using assms
proof (induction g arbitrary: ss)
  case (Cons n g)
  then obtain s ss' where ss: "ss = s # ss'" "stage_by_name stages n = Some s" "map (stage_by_name stages) g = map Some ss'"
    by (cases ss) auto
  then show ?case
    using Cons.IH [OF ss(3)] stage_by_name_in [OF ss(2)] by simp
qed simp

lemma fused_group_stages:
  assumes "validate_config p = Inr ()" and "g \<in> set (pl_fused_stages p)"
  obtains ss where "2 \<le> length g" "is_segment g (stage_names p)" "set ss \<subseteq> set (pl_stages p)" "map sc_name ss = g" "fused_chain ss"
proof -
  note v = validate_config_ok [OF assms(1)]
  have d: "distinct (map sc_name (pl_stages p))"
    using validate_general_ok(1) [OF v(1)] by (simp add: stage_names_def)
  note groups = validate_groups_ok [OF v(2) d]
  then obtain ss where ss: "map (stage_by_name (pl_stages p)) g = map Some ss" "validate_fused_group_contract ss = Inr ()"
    using assms(2) by blast
  show thesis
    using that [of ss] groups assms(2) group_stages [OF ss(1)] contract_chain [OF ss(2)] by (simp add: stage_names_def)
qed

text \<open>
  in an accepted configuration the fused groups are disjoint segments of the stage list, of
  at least two stages on at most one GPU, and inside a group every stage routes statically to the next.
\<close>

theorem fused_groups_are_chains:
  assumes "validate_config p = Inr ()"
  shows "distinct (concat (pl_fused_stages p)) \<and>
    (\<forall>g \<in> set (pl_fused_stages p). 2 \<le> length g \<and> is_segment g (stage_names p) \<and>
      (\<exists>ss. set ss \<subseteq> set (pl_stages p) \<and> map sc_name ss = g \<and> fused_chain ss))"
proof (intro conjI ballI)
  note v = validate_config_ok [OF assms]
  have "distinct (map sc_name (pl_stages p))"
    using validate_general_ok(1) [OF v(1)] by (simp add: stage_names_def)
  then show "distinct (concat (pl_fused_stages p))"
    using validate_groups_ok [OF v(2)] by blast
  fix g
  assume g: "g \<in> set (pl_fused_stages p)"
  obtain ss where "2 \<le> length g" "is_segment g (stage_names p)" "set ss \<subseteq> set (pl_stages p)" "map sc_name ss = g" "fused_chain ss"
    by (rule fused_group_stages [OF assms g])
  then show "2 \<le> length g" "is_segment g (stage_names p)" "\<exists>ss. set ss \<subseteq> set (pl_stages p) \<and> map sc_name ss = g \<and> fused_chain ss"
    by blast+
qed

section \<open>An example\<close>

definition demo_stage :: "string \<Rightarrow> string \<Rightarrow> gpu_spec \<Rightarrow> next_spec \<Rightarrow> stage_spec" where
  "demo_stage name process gpu nxt = \<lparr>sc_name = name, sc_factory = ''f'', sc_factory_args = [], sc_next = nxt,
     sc_terminal = (nxt = No_Next), sc_route_fn = None, sc_gpu = gpu, sc_tp_size = 1, sc_parallelism = 1,
     sc_process = Some process, sc_fraction = PInt 40, sc_mem_fraction_static = PNone, sc_max_seq_len = PNone,
     sc_video_fps = PNone, sc_runtime_arg_map = [], sc_wait_for = None, sc_wait_for_fn = None, sc_merge_fn = None,
     sc_stream_to = [], sc_stream_done_to_fn = None, sc_project_payload = []\<rparr>"

definition demo_pipeline :: pipeline_config where
  "demo_pipeline = \<lparr>pl_model_path = ''m'', pl_stages =
      [demo_stage ''pre'' ''p'' No_Gpu (One_Next ''enc''), demo_stage ''enc'' ''e'' (One_Gpu 0) (One_Next ''dec''),
       demo_stage ''dec'' ''d'' (One_Gpu 0) (One_Next ''voc''), demo_stage ''voc'' ''v'' (One_Gpu 0) (One_Next ''talk''),
       (demo_stage ''talk'' ''v'' (Gpu_List [1, 2]) No_Next)\<lparr>sc_tp_size := 2, sc_parallelism := 2\<rparr>],
     pl_entry_stage = None, pl_fused_stages = [[''enc'', ''dec'']], pl_runtime_overrides = [],
     pl_require_fraction = True, pl_max_fraction = PInt 200\<rparr>"

lemma demo_valid: "validate_config demo_pipeline = Inr ()"
  by code_simp


lemma fused_groups_are_chains_witness: "is_segment [''enc'', ''dec''] (stage_names demo_pipeline)"
  using fused_groups_are_chains [OF demo_valid] by (simp add: demo_pipeline_def)

end
