(* ===== verification/Config_Placement.thy ===== *)
theory Config_Placement
  imports Config_Schema "HOL-Library.List_Lexorder" "HOL-Library.Char_ord"
begin

text \<open>
  The GPU placement of a pipeline, \<open>sglang_omni/config/placement.py\<close>, and the arguments a stage's factory
  is called with, \<open>sglang_omni/config/runtime.py\<close>. Floats are opaque: their zero, their addition and the
  test \<open>total > limit + 1e-9\<close> are the argument \<open>floats\<close>.
\<close>

section \<open>The arguments of a factory\<close>

definition overrides_of :: "pipeline_config \<Rightarrow> stage_spec \<Rightarrow> pydict" where
  "overrides_of p s = (case map_of (pl_runtime_overrides p) (sc_name s) of None \<Rightarrow> [] | Some d \<Rightarrow> d)"

definition reject_untyped_fraction :: "pydict \<Rightarrow> pydict \<Rightarrow> unit result" where
  "reject_untyped_fraction factory_args overrides =
     (if dget factory_args ''total_gpu_memory_fraction'' = PNone \<and> dget overrides ''total_gpu_memory_fraction'' = PNone
      then Inr () else Inl (ValueError ''sets total_gpu_memory_fraction through factory_args/runtime_overrides''))"

definition reject_gpu_id :: "pydict \<Rightarrow> pydict \<Rightarrow> unit result" where
  "reject_gpu_id factory_args overrides =
     (if \<not> dhas factory_args ''gpu_id'' \<and> \<not> dhas overrides ''gpu_id'' then Inr ()
      else Inl (ValueError ''sets gpu_id through factory_args/runtime_overrides''))"

definition mem_fraction_is_set :: "pydict \<Rightarrow> bool" where
  "mem_fraction_is_set source = (case dget source ''server_args_overrides'' of
     PDict d \<Rightarrow> dget d ''mem_fraction_static'' \<noteq> PNone | _ \<Rightarrow> False)"

definition mapped_values :: "stage_spec \<Rightarrow> (string \<times> pyval) list" where
  "mapped_values s = [(''max_seq_len'', sc_max_seq_len s), (''video_fps'', sc_video_fps s)]"

text \<open>The typed runtime fields that are set, with the argument each is mapped to, if it is.\<close>

definition typed_targets :: "stage_spec \<Rightarrow> (string option \<times> pyval) list" where
  "typed_targets s = map (\<lambda>(f, v). (case map_of (sc_runtime_arg_map s) f of Some t \<Rightarrow> (if t = [] then None else Some t) | None \<Rightarrow> None, v))
     (filter (\<lambda>(f, v). v \<noteq> PNone) (mapped_values s))"

definition validate_runtime_sources :: "stage_spec \<Rightarrow> pydict \<Rightarrow> pydict \<Rightarrow> unit result" where
  "validate_runtime_sources s args overrides =
     bindE (guardE (sc_mem_fraction_static s = PNone \<or> \<not> (mem_fraction_is_set args \<or> mem_fraction_is_set overrides))
       (ValueError ''sets mem_fraction_static twice'')) (\<lambda>_.
     bindE (reject_untyped_fraction args overrides) (\<lambda>_.
     bindE (reject_gpu_id args overrides) (\<lambda>_.
     guardE (list_all (\<lambda>(t, v). case t of None \<Rightarrow> True | Some t \<Rightarrow> \<not> dhas overrides t) (typed_targets s))
       (ValueError ''sets an argument through both runtime_overrides and typed runtime''))))"

definition merge_override :: "pydict \<Rightarrow> string \<times> pyval \<Rightarrow> pydict" where
  "merge_override args kv = (case kv of (k, v) \<Rightarrow>
     (case (v, dget args k) of
        (PDict d, PDict old) \<Rightarrow>
          (if k = ''server_args_overrides'' then dset args k (PDict (foldl (\<lambda>m (k, v). dset m k v) old d)) else dset args k v)
      | _ \<Rightarrow> dset args k v))"

definition merge_factory_arg_overrides :: "pydict \<Rightarrow> pydict \<Rightarrow> pydict" where
  "merge_factory_arg_overrides args overrides = foldl merge_override args overrides"

fun apply_targets :: "(string option \<times> pyval) list \<Rightarrow> pydict \<Rightarrow> pydict result" where
  "apply_targets [] args = Inr args"
| "apply_targets ((None, v) # ts) args = Inl (ValueError ''does not define runtime_arg_map'')"
| "apply_targets ((Some t, v) # ts) args = apply_targets ts (dset args t v)"

definition apply_typed_runtime_args :: "stage_spec \<Rightarrow> pydict \<Rightarrow> pydict result" where
  "apply_typed_runtime_args s args =
     bindE (apply_targets (typed_targets s) args) (\<lambda>args.
     if sc_mem_fraction_static s = PNone then Inr args
     else bindE (py_dict_or_empty (dget args ''server_args_overrides'')) (\<lambda>d.
       Inr (dset args ''server_args_overrides'' (PDict (dset d ''mem_fraction_static'' (sc_mem_fraction_static s))))))"

definition static_factory_args :: "pipeline_config \<Rightarrow> stage_spec \<Rightarrow> pydict result" where
  "static_factory_args p s =
     (let args = sc_factory_args s; overrides = overrides_of p s in
      bindE (validate_runtime_sources s args overrides) (\<lambda>_.
      apply_typed_runtime_args s (merge_factory_arg_overrides args overrides)))"

text \<open>\<open>_resolve_primary_gpu_id\<close> and the defaults a factory may declare; \<open>params\<close> are the names of its signature.\<close>

definition resolve_primary_gpu_id :: "pipeline_config \<Rightarrow> stage_spec \<Rightarrow> int option result" where
  "resolve_primary_gpu_id p s =
     (case map_of (rev (filter (\<lambda>(n, g). g \<noteq> No_Gpu) (map (\<lambda>s. (sc_name s, sc_gpu s)) (pl_stages p)))) (sc_name s) of
        Some (One_Gpu g) \<Rightarrow> Inr (Some g)
      | Some (Gpu_List []) \<Rightarrow> Inl (IndexError ''list index out of range'')
      | Some (Gpu_List (g # gs)) \<Rightarrow> Inr (Some g)
      | _ \<Rightarrow> Inr None)"

definition factory_arg_defaults :: "pipeline_config \<Rightarrow> stage_spec \<Rightarrow> int option \<Rightarrow> pydict result" where
  "factory_arg_defaults p s gpu_id =
     bindE (case gpu_id of None \<Rightarrow> resolve_primary_gpu_id p s | Some g \<Rightarrow> Inr (Some g)) (\<lambda>gpu.
     Inr (dset_opt [(''model_path'', PStr (pl_model_path p)), (''gpu_id'', case gpu of None \<Rightarrow> PNone | Some g \<Rightarrow> PInt g)]
       ''total_gpu_memory_fraction'' (sc_fraction s)))"

definition signature_args :: "string set \<Rightarrow> pydict \<Rightarrow> pydict \<Rightarrow> pydict" where
  "signature_args params defaults args =
     foldl (\<lambda>args (k, v). if k \<in> params \<and> \<not> dhas args k then dset args k v else args) args defaults"

definition stage_factory_args :: "string set \<Rightarrow> pipeline_config \<Rightarrow> stage_spec \<Rightarrow> int option \<Rightarrow> pydict result" where
  "stage_factory_args params p s gpu_id =
     bindE (static_factory_args p s) (\<lambda>args.
     bindE (factory_arg_defaults p s gpu_id) (\<lambda>defaults. Inr (signature_args params defaults args)))"

section \<open>Placement\<close>

record floats =
  fl_zero :: pyval
  fl_add :: "pyval \<Rightarrow> pyval \<Rightarrow> pyval"
  fl_over :: "pyval \<Rightarrow> pyval \<Rightarrow> bool"

record stage_placement =
  sp_stage_name :: string
  sp_gpu_ids :: "int list"
  sp_tp_size :: int
  sp_fraction :: pyval

record gpu_placement =
  gp_gpu_id :: int
  gp_stage_names :: "string list"
  gp_total :: pyval
  gp_has_fraction :: bool
  gp_missing :: "string list"

record placement_plan =
  pp_stages :: "(string \<times> stage_placement) list"
  pp_gpus :: "(int \<times> gpu_placement) list"

definition assigned_gpu_ids :: "stage_spec \<Rightarrow> int list result" where
  "assigned_gpu_ids s = (case sc_gpu s of
     No_Gpu \<Rightarrow> Inr []
   | One_Gpu g \<Rightarrow> (if sc_tp_size s > 1 then Inl (ValueError ''TP placement requires a list of unique GPU ids'')
       else Inr (replicate (nat (sc_tp_size s)) g))
   | Gpu_List gs \<Rightarrow>
       bindE (guardE (int (length gs) = sc_tp_size s) (ValueError ''gpu entries but tp_size'')) (\<lambda>_.
       bindE (guardE (distinct gs) (ValueError ''TP placement requires unique GPU ids'')) (\<lambda>_. Inr gs)))"

definition build_gpu_placement :: "floats \<Rightarrow> int \<Rightarrow> (string \<times> pyval) list \<Rightarrow> gpu_placement" where
  "build_gpu_placement fl g entries =
     \<lparr>gp_gpu_id = g, gp_stage_names = map fst entries,
      gp_total = foldl (fl_add fl) (fl_zero fl) (filter (\<lambda>v. v \<noteq> PNone) (map snd entries)),
      gp_has_fraction = list_ex (\<lambda>(n, v). v \<noteq> PNone) entries,
      gp_missing = sort (remdups (map fst (filter (\<lambda>(n, v). v = PNone) entries)))\<rparr>"

text \<open>\<open>gpu_entries[g].append(x)\<close> on a \<open>defaultdict(list)\<close>.\<close>

definition append_entry :: "'k \<Rightarrow> 'a \<Rightarrow> ('k \<times> 'a list) list \<Rightarrow> ('k \<times> 'a list) list" where
  "append_entry k x d = AList.update k ((case map_of d k of None \<Rightarrow> [] | Some xs \<Rightarrow> xs) @ [x]) d"

fun place_stages :: "pipeline_config \<Rightarrow> stage_spec list \<Rightarrow> (string \<times> stage_placement) list \<Rightarrow> (int \<times> (string \<times> pyval) list) list \<Rightarrow>
    ((string \<times> stage_placement) list \<times> (int \<times> (string \<times> pyval) list) list) result" where
  "place_stages p [] placements entries = Inr (placements, entries)"
| "place_stages p (s # ss) placements entries =
     bindE (reject_untyped_fraction (sc_factory_args s) (overrides_of p s)) (\<lambda>_.
     bindE (assigned_gpu_ids s) (\<lambda>gpus.
     if gpus = [] then place_stages p ss placements entries
     else place_stages p ss
       (AList.update (sc_name s)
          \<lparr>sp_stage_name = sc_name s, sp_gpu_ids = gpus, sp_tp_size = sc_tp_size s, sp_fraction = sc_fraction s\<rparr> placements)
       (foldl (\<lambda>es g. append_entry g (sc_name s, sc_fraction s) es) entries gpus)))"

definition validate_memory_budgets :: "floats \<Rightarrow> pipeline_config \<Rightarrow> placement_plan \<Rightarrow> unit result" where
  "validate_memory_budgets fl p plan =
     guardE (list_all (\<lambda>(g, gp). \<not> fl_over fl (pl_max_fraction p) (gp_total gp)) (pp_gpus plan))
       (ValueError ''total_gpu_memory_fraction exceeds placement limit'')"

text \<open>A configured policy is a function that may raise.\<close>

definition build_placement :: "floats \<Rightarrow> (placement_plan \<Rightarrow> unit result) option \<Rightarrow> pipeline_config \<Rightarrow> stage_spec list \<Rightarrow> placement_plan result" where
  "build_placement fl policy p stages =
     bindE (place_stages p stages [] []) (\<lambda>(placements, entries).
     let plan = \<lparr>pp_stages = placements, pp_gpus = map (\<lambda>(g, es). (g, build_gpu_placement fl g es)) entries\<rparr> in
     bindE (validate_memory_budgets fl p plan) (\<lambda>_.
     bindE (case policy of None \<Rightarrow> Inr () | Some f \<Rightarrow> f plan) (\<lambda>_. Inr plan)))"

definition resolve_stage_gpu_ids :: "placement_plan \<Rightarrow> stage_spec \<Rightarrow> int option list" where
  "resolve_stage_gpu_ids plan s = (case map_of (pp_stages plan) (sc_name s) of
     None \<Rightarrow> replicate (nat (sc_tp_size s)) None | Some sp \<Rightarrow> map Some (sp_gpu_ids sp))"

definition resolve_gpu_stage_names :: "placement_plan \<Rightarrow> string set" where
  "resolve_gpu_stage_names plan = fst ` set (pp_stages plan)"


section \<open>What the placement accounts for\<close>

definition gpus_of :: "stage_spec \<Rightarrow> int list" where
  "gpus_of s = (case assigned_gpu_ids s of Inl e \<Rightarrow> [] | Inr gs \<Rightarrow> gs)"

definition stages_on :: "int \<Rightarrow> stage_spec list \<Rightarrow> stage_spec list" where
  "stages_on g stages = filter (\<lambda>s. g \<in> set (gpus_of s)) stages"

definition entries_of :: "('k \<times> 'a list) list \<Rightarrow> 'k \<Rightarrow> 'a list" where
  "entries_of d k = (case map_of d k of None \<Rightarrow> [] | Some xs \<Rightarrow> xs)"

lemma gpus_of_distinct: "distinct (gpus_of s)"
proof -
  have "distinct (replicate n x)" if "n \<le> 1" for n and x :: int
    using that by (cases n) auto
  then show ?thesis
    by (auto simp: gpus_of_def assigned_gpu_ids_def guardE_def split: gpu_spec.split)
qed

lemma map_of_append_entry: "map_of (append_entry k x d) = (map_of d)(k \<mapsto> entries_of d k @ [x])"
  by (simp add: append_entry_def entries_of_def update_conv' split: option.split)

lemma entries_of_append [simp]: "entries_of (append_entry k x d) j = (if j = k then entries_of d k @ [x] else entries_of d j)"
  by (simp add: entries_of_def map_of_append_entry)

lemma map_of_update_list: "map_of (AList.update k v d) = (map_of d)(k \<mapsto> v)"
  by (simp add: update_conv')

lemma entries_fold:
  "distinct gs \<Longrightarrow> entries_of (foldl (\<lambda>es g. append_entry g x es) d gs) k = entries_of d k @ (if k \<in> set gs then [x] else [])"
  by (induction gs arbitrary: d) auto

lemma map_of_values: "map_of (map (\<lambda>(k, v). (k, f k v)) d) k = map_option (f k) (map_of d k)"
  by (induction d) auto

definition no_empty :: "('k \<times> 'a list) list \<Rightarrow> bool" where
  "no_empty d \<longleftrightarrow> (\<forall>k. map_of d k \<noteq> Some [])"

lemma no_empty_append: "no_empty d \<Longrightarrow> no_empty (append_entry k x d)"
  by (simp add: no_empty_def map_of_append_entry)

lemma no_empty_fold: "no_empty d \<Longrightarrow> no_empty (foldl (\<lambda>es g. append_entry g x es) d gs)"
  by (induction gs arbitrary: d) (auto simp: no_empty_append)

lemma place_stages_entries:
  assumes "place_stages p ss placements entries = Inr (placements', entries')"
  shows "entries_of entries' g = entries_of entries g @ map (\<lambda>s. (sc_name s, sc_fraction s)) (stages_on g ss)"
  using assms
proof (induction ss arbitrary: placements entries)
  case (Cons s ss)
  then obtain gs where gs: "assigned_gpu_ids s = Inr gs"
    by auto
  then have g: "gpus_of s = gs" "distinct gs"
    using gpus_of_distinct [of s] by (auto simp: gpus_of_def)
  show ?case
  proof (cases "gs = []")
    case True
    then show ?thesis
      using Cons gs g by (auto simp: stages_on_def)
  next
    case False
    then obtain placements1 where "place_stages p ss placements1
        (foldl (\<lambda>es g. append_entry g (sc_name s, sc_fraction s) es) entries gs) = Inr (placements', entries')"
      using Cons.prems gs by auto
    then show ?thesis
      using Cons.IH g by (simp add: entries_fold stages_on_def)
  qed
qed (simp add: stages_on_def)

lemma place_stages_no_empty:
  "place_stages p ss placements entries = Inr (placements', entries') \<Longrightarrow> no_empty entries \<Longrightarrow> no_empty entries'"
proof (induction ss arbitrary: placements entries)
  case (Cons s ss)
  then show ?case
    using no_empty_fold [OF Cons.prems(2)] by (auto split: if_splits)
qed simp

lemma place_stages_other:
  "place_stages p ss placements entries = Inr (placements', entries') \<Longrightarrow> n \<notin> sc_name ` set ss \<Longrightarrow> map_of placements' n = map_of placements n"
  by (induction ss arbitrary: placements entries) (auto simp: map_of_update_list split: if_splits)

lemma place_stages_ids:
  assumes "place_stages p ss placements entries = Inr (placements', entries')" and "distinct (map sc_name ss)" and "s \<in> set ss"
    and "map_of placements (sc_name s) = None"
  shows "(\<exists>gs. assigned_gpu_ids s = Inr gs) \<and> (case map_of placements' (sc_name s) of
     None \<Rightarrow> gpus_of s = [] | Some sp \<Rightarrow> gpus_of s \<noteq> [] \<and> sp_gpu_ids sp = gpus_of s)"
  using assms
proof (induction ss arbitrary: placements entries)
  case (Cons t ss)
  obtain gs where gs: "assigned_gpu_ids t = Inr gs"
    using Cons.prems(1) by auto
  then have g: "gpus_of t = gs"
    by (simp add: gpus_of_def)
  let ?pl = "if gs = [] then placements else AList.update (sc_name t)
      \<lparr>sp_stage_name = sc_name t, sp_gpu_ids = gs, sp_tp_size = sc_tp_size t, sp_fraction = sc_fraction t\<rparr> placements"
  obtain es where r: "place_stages p ss ?pl es = Inr (placements', entries')"
    using Cons.prems(1) gs by (auto split: if_splits)
  show ?case
  proof (cases "s = t")
    case True
    then have "map_of placements' (sc_name s) = map_of ?pl (sc_name s)"
      using place_stages_other [OF r] Cons.prems(2) by simp
    then show ?thesis
      using True g gs Cons.prems(4) by (simp add: map_of_update_list)
  next
    case False
    then have "sc_name s \<noteq> sc_name t" "s \<in> set ss"
      using Cons.prems(2,3) by (auto simp: image_iff)
    then show ?thesis
      using Cons.IH [OF r] Cons.prems(2,4) by (simp add: map_of_update_list)
  qed
qed simp

text \<open>
  C33: an accepted placement accounts for every GPU: it lists exactly the stages assigned to the GPU, in
  the pipeline's order, and the sum of the fractions they declare is within the limit; every stage finds its own GPUs in it.
\<close>

theorem placement_accounts_for_gpus:
  assumes "build_placement fl policy p stages = Inr plan" and "distinct (map sc_name stages)"
  shows "(\<forall>g. case map_of (pp_gpus plan) g of
        None \<Rightarrow> stages_on g stages = []
      | Some gp \<Rightarrow> gp_stage_names gp = map sc_name (stages_on g stages) \<and>
          gp_total gp = foldl (fl_add fl) (fl_zero fl) (filter (\<lambda>v. v \<noteq> PNone) (map sc_fraction (stages_on g stages))) \<and>
          \<not> fl_over fl (pl_max_fraction p) (gp_total gp)) \<and>
    (\<forall>s \<in> set stages. resolve_stage_gpu_ids plan s = (if gpus_of s = [] then replicate (nat (sc_tp_size s)) None else map Some (gpus_of s)))"
proof -
  obtain placements entries where e: "place_stages p stages [] [] = Inr (placements, entries)"
    and plan: "plan = \<lparr>pp_stages = placements, pp_gpus = map (\<lambda>(g, es). (g, build_gpu_placement fl g es)) entries\<rparr>"
    and v: "validate_memory_budgets fl p plan = Inr ()"
    using assms(1) by (auto simp: build_placement_def Let_def)
  have gpus: "map_of (pp_gpus plan) g = map_option (build_gpu_placement fl g) (map_of entries g)" for g
    unfolding plan by (simp add: map_of_values)
  have on: "entries_of entries g = map (\<lambda>s. (sc_name s, sc_fraction s)) (stages_on g stages)" for g
    using place_stages_entries [OF e, of g] by (simp add: entries_of_def)
  have ne: "no_empty entries"
    using place_stages_no_empty [OF e] by (simp add: no_empty_def)
  have "case map_of (pp_gpus plan) g of
        None \<Rightarrow> stages_on g stages = []
      | Some gp \<Rightarrow> gp_stage_names gp = map sc_name (stages_on g stages) \<and>
          gp_total gp = foldl (fl_add fl) (fl_zero fl) (filter (\<lambda>v. v \<noteq> PNone) (map sc_fraction (stages_on g stages))) \<and>
          \<not> fl_over fl (pl_max_fraction p) (gp_total gp)" for g
  proof (cases "map_of entries g")
    case None
    then show ?thesis
      using on [of g] by (simp add: gpus entries_of_def)
  next
    case (Some es)
    then have es: "es = map (\<lambda>s. (sc_name s, sc_fraction s)) (stages_on g stages)"
      using on [of g] by (simp add: entries_of_def)
    have "(g, build_gpu_placement fl g es) \<in> set (pp_gpus plan)"
      using map_of_SomeD [OF Some] by (auto simp: plan)
    then have "\<not> fl_over fl (pl_max_fraction p) (gp_total (build_gpu_placement fl g es))"
      using v by (auto simp: validate_memory_budgets_def list_all_iff)
    then show ?thesis
      using Some es by (simp add: gpus build_gpu_placement_def comp_def)
  qed
  moreover have "resolve_stage_gpu_ids plan s = (if gpus_of s = [] then replicate (nat (sc_tp_size s)) None else map Some (gpus_of s))"
    if "s \<in> set stages" for s
    using place_stages_ids [OF e assms(2) that] by (auto simp: resolve_stage_gpu_ids_def plan split: option.splits)
  ultimately show ?thesis
    by blast
qed


section \<open>Where a factory's arguments come from\<close>

lemma dget_eq: "dget d k = (case map_of d k of None \<Rightarrow> PNone | Some v \<Rightarrow> v)"
  by (simp add: py_simps)

lemma merge_override_other:
  "k \<noteq> ''server_args_overrides'' \<Longrightarrow> map_of (merge_override args (k', v)) k = (if k = k' then Some v else map_of args k)"
  by (auto simp: merge_override_def map_of_dset split: pyval.split)

lemma merge_factory_arg_overrides_other:
  assumes "k \<noteq> ''server_args_overrides''" and "distinct (map fst overrides)"
  shows "map_of (merge_factory_arg_overrides args overrides) k = (case map_of overrides k of Some v \<Rightarrow> Some v | None \<Rightarrow> map_of args k)"
  using assms(2)
proof (induction overrides arbitrary: args)
  case (Cons kv overrides)
  then show ?case
    using assms(1) by (cases kv) (auto simp: merge_factory_arg_overrides_def merge_override_other image_iff split: option.split dest: map_of_SomeD)
qed (simp add: merge_factory_arg_overrides_def)

lemma apply_targets_other:
  "apply_targets ts args = Inr args' \<Longrightarrow> k \<notin> {t. (Some t) \<in> fst ` set ts} \<Longrightarrow> map_of args' k = map_of args k"
  by (induction ts args rule: apply_targets.induct) (auto simp: map_of_dset)

lemma apply_targets_set:
  "apply_targets ts args = Inr args' \<Longrightarrow> (t, v) \<in> set ts \<Longrightarrow> \<exists>k. t = Some k \<and> (distinct (map fst ts) \<longrightarrow> map_of args' k = Some v)"
proof (induction ts args rule: apply_targets.induct)
  case (3 k w ts args)
  show ?case
  proof (cases "(t, v) = (Some k, w)")
    case True
    then show ?thesis
      using 3(2) apply_targets_other [of ts "dset args k w" args' k] by (auto simp: map_of_dset image_iff)
  next
    case False
    then show ?thesis
      using 3 by auto
  qed
qed simp_all

text \<open>
  when a stage's arguments resolve, the typed memory fraction is the one the server arguments
  have, each typed runtime field is the value of the argument it is mapped to, and any other argument
  is the runtime override or else the one of the configuration.
\<close>

theorem factory_args_have_one_source:
  assumes "static_factory_args p s = Inr args" and "distinct (map fst (overrides_of p s))"
    and "distinct (map fst (typed_targets s))" and "Some ''server_args_overrides'' \<notin> fst ` set (typed_targets s)"
  shows "(sc_mem_fraction_static s \<noteq> PNone \<longrightarrow> (\<exists>d. dget args ''server_args_overrides'' = PDict d \<and>
        dget d ''mem_fraction_static'' = sc_mem_fraction_static s)) \<and>
    (\<forall>(t, v) \<in> set (typed_targets s). \<exists>k. t = Some k \<and> dget args k = v \<and> \<not> dhas (overrides_of p s) k) \<and>
    (\<forall>k. k \<noteq> ''server_args_overrides'' \<longrightarrow> Some k \<notin> fst ` set (typed_targets s) \<longrightarrow>
      map_of args k = (case map_of (overrides_of p s) k of Some v \<Rightarrow> Some v | None \<Rightarrow> map_of (sc_factory_args s) k))"
proof -
  let ?m = "merge_factory_arg_overrides (sc_factory_args s) (overrides_of p s)"
  have v: "validate_runtime_sources s (sc_factory_args s) (overrides_of p s) = Inr ()"
    and ap: "apply_typed_runtime_args s ?m = Inr args"
    using assms(1) by (auto simp: static_factory_args_def Let_def)
  obtain args1 where a1: "apply_targets (typed_targets s) ?m = Inr args1"
    and last: "(if sc_mem_fraction_static s = PNone then Inr args1
      else bindE (py_dict_or_empty (dget args1 ''server_args_overrides'')) (\<lambda>d.
       Inr (dset args1 ''server_args_overrides'' (PDict (dset d ''mem_fraction_static'' (sc_mem_fraction_static s)))))) = Inr args"
    using ap unfolding apply_typed_runtime_args_def bindE_eq_Inr by blast
  then have a: "sc_mem_fraction_static s = PNone \<and> args = args1 \<or> sc_mem_fraction_static s \<noteq> PNone \<and>
      (\<exists>d. args = dset args1 ''server_args_overrides'' (PDict (dset d ''mem_fraction_static'' (sc_mem_fraction_static s))))"
    by (cases "sc_mem_fraction_static s = PNone") auto
  have other: "map_of args k = map_of args1 k" if "k \<noteq> ''server_args_overrides''" for k
    using a that by (auto simp: map_of_dset)
  have "\<exists>d. dget args ''server_args_overrides'' = PDict d \<and> dget d ''mem_fraction_static'' = sc_mem_fraction_static s"
    if "sc_mem_fraction_static s \<noteq> PNone"
    using a that by (auto simp: dget_eq map_of_dset)
  moreover have "\<exists>k. t = Some k \<and> dget args k = v \<and> \<not> dhas (overrides_of p s) k" if tv: "(t, v) \<in> set (typed_targets s)" for t v
  proof -
    obtain k where k: "t = Some k" "map_of args1 k = Some v"
      using apply_targets_set [OF a1 tv] assms(3) by blast
    then have "k \<noteq> ''server_args_overrides''"
      using assms(4) tv by force
    then show ?thesis
      using k v tv other by (fastforce simp: dget_eq validate_runtime_sources_def list_all_iff)
  qed
  moreover have rest: "map_of args k = (case map_of (overrides_of p s) k of Some v \<Rightarrow> Some v | None \<Rightarrow> map_of (sc_factory_args s) k)"
    if "k \<noteq> ''server_args_overrides''" "Some k \<notin> fst ` set (typed_targets s)" for k
    using that other apply_targets_other [OF a1, of k] merge_factory_arg_overrides_other [OF _ assms(2)] by simp
  ultimately show ?thesis
    by blast
qed

section \<open>An example\<close>

fun as_int :: "pyval \<Rightarrow> int" where
  "as_int (PInt i) = i"
| "as_int v = 0"

definition demo_floats :: floats where
  "demo_floats = \<lparr>fl_zero = PInt 0, fl_add = (\<lambda>a b. PInt (as_int a + as_int b)), fl_over = (\<lambda>l t. as_int t > as_int l)\<rparr>"

definition demo_placement :: placement_plan where
  "demo_placement = (case build_placement demo_floats None demo_pipeline (pl_stages demo_pipeline) of Inr plan \<Rightarrow> plan
     | Inl e \<Rightarrow> \<lparr>pp_stages = [], pp_gpus = []\<rparr>)"

lemma demo_placed: "build_placement demo_floats None demo_pipeline (pl_stages demo_pipeline) = Inr demo_placement"
proof -
  have "is_ok (build_placement demo_floats None demo_pipeline (pl_stages demo_pipeline))"
    by code_simp
  then show ?thesis
    by (auto simp: demo_placement_def is_ok_iff)
qed


lemma placement_accounts_for_gpus_witness:
  "case map_of (pp_gpus demo_placement) 0 of None \<Rightarrow> False | Some gp \<Rightarrow> gp_stage_names gp = [''enc'', ''dec'', ''voc'']"
proof -
  have "distinct (map sc_name (pl_stages demo_pipeline))"
    by code_simp
  from spec [OF conjunct1 [OF placement_accounts_for_gpus [OF demo_placed this]], of 0]
  have "case map_of (pp_gpus demo_placement) 0 of None \<Rightarrow> stages_on 0 (pl_stages demo_pipeline) = []
      | Some gp \<Rightarrow> gp_stage_names gp = map sc_name (stages_on 0 (pl_stages demo_pipeline))"
    by (auto split: option.splits)
  moreover have "map sc_name (stages_on 0 (pl_stages demo_pipeline)) = [''enc'', ''dec'', ''voc'']"
    by code_simp
  ultimately show ?thesis
    by (auto split: option.splits)
qed

definition demo_typed :: stage_spec where
  "demo_typed = (demo_stage ''enc'' ''e'' (One_Gpu 0) (One_Next ''dec''))
     \<lparr>sc_max_seq_len := PInt 8, sc_mem_fraction_static := PObj ''float'' 1 True, sc_runtime_arg_map := [(''max_seq_len'', ''max_len'')],
      sc_factory_args := [(''dtype'', PStr ''a''), (''max_len'', PInt 4)]\<rparr>"

definition demo_overrides :: pipeline_config where
  "demo_overrides = demo_pipeline\<lparr>pl_runtime_overrides := [(''enc'', [(''dtype'', PStr ''b'')])]\<rparr>"

lemma factory_args_have_one_source_witness:
  "let args = [(''dtype'', PStr ''b''), (''max_len'', PInt 8),
       (''server_args_overrides'', PDict [(''mem_fraction_static'', PObj ''float'' 1 True)])] :: pydict
   in static_factory_args demo_overrides demo_typed = Inr args \<and> dget args ''max_len'' = PInt 8 \<and> map_of args ''dtype'' = Some (PStr ''b'')"
proof -
  let ?args = "[(''dtype'', PStr ''b''), (''max_len'', PInt 8),
       (''server_args_overrides'', PDict [(''mem_fraction_static'', PObj ''float'' 1 True)])] :: pydict"
  have a: "static_factory_args demo_overrides demo_typed = Inr ?args"
    by code_simp
  have t: "typed_targets demo_typed = [(Some ''max_len'', PInt 8)]" "overrides_of demo_overrides demo_typed = [(''dtype'', PStr ''b'')]"
    by code_simp+
  show ?thesis
    unfolding Let_def using a factory_args_have_one_source [OF a] by (simp add: t)
qed

end
