(* ===== verification/Config_Topology.thy ===== *)
theory Config_Topology
  imports Config_Placement
begin

text \<open>
  The process topology, \<open>sglang_omni/config/topology.py\<close>: which stages share an operating-system process.
  Stages without tensor parallelism are joined by a union-find with path compression over equal process
  names and fused groups. A loop that need not end is a partial function into \<open>option\<close>; its value is
  \<open>None\<close> when it runs forever, and \<open>Some\<close> of a result otherwise.
\<close>

section \<open>Sequencing loops that may not return\<close>

type_synonym 'a run = "'a result option"

definition bindR :: "'a run \<Rightarrow> ('a \<Rightarrow> 'b run) \<Rightarrow> 'b run" where
  "bindR m f = (case m of None \<Rightarrow> None | Some (Inl e) \<Rightarrow> Some (Inl e) | Some (Inr x) \<Rightarrow> f x)"

definition liftR :: "'a result \<Rightarrow> 'a run" where
  "liftR r = Some r"

lemma bindR_simps [simp]:
  "bindR None f = None" "bindR (Some (Inl e)) f = Some (Inl e)" "bindR (Some (Inr x)) f = f x" "liftR r = Some r"
  by (simp_all add: bindR_def liftR_def)

lemma bindR_eq_ok: "bindR m f = Some (Inr y) \<longleftrightarrow> (\<exists>x. m = Some (Inr x) \<and> f x = Some (Inr y))"
  by (auto simp: bindR_def split: option.splits sum.splits)

lemma bindR_cong [fundef_cong]:
  "m = m' \<Longrightarrow> (\<And>x. m' = Some (Inr x) \<Longrightarrow> f x = g x) \<Longrightarrow> bindR m f = bindR m' g"
  by (auto simp: bindR_def split: option.split sum.split)

section \<open>Union-find\<close>

type_synonym forest = "string \<rightharpoonup> string"

text \<open>The two loops of \<open>find\<close>: to the root, and once more to point every name of the path at it.\<close>

partial_function (option) find_root :: "forest \<Rightarrow> string \<Rightarrow> string run" where
  "find_root parent root = (case parent root of
     None \<Rightarrow> Some (Inl (KeyError root))
   | Some q \<Rightarrow> (if q = root then Some (Inr root) else find_root parent q))"

partial_function (option) compress :: "forest \<Rightarrow> string \<Rightarrow> string \<Rightarrow> forest run" where
  "compress parent root name = (case parent name of
     None \<Rightarrow> Some (Inl (KeyError name))
   | Some q \<Rightarrow> (if q = name then Some (Inr parent) else compress (parent(name \<mapsto> root)) root q))"

declare find_root.simps [code] compress.simps [code]

definition find_rep :: "forest \<Rightarrow> string \<Rightarrow> (string \<times> forest) run" where
  "find_rep parent name = bindR (find_root parent name) (\<lambda>root. bindR (compress parent root name) (\<lambda>parent. Some (Inr (root, parent))))"

definition union_names :: "string \<Rightarrow> string \<Rightarrow> forest \<Rightarrow> forest run" where
  "union_names left right parent =
     bindR (find_rep parent left) (\<lambda>(left_root, parent).
     bindR (find_rep parent right) (\<lambda>(right_root, parent).
     Some (Inr (if left_root \<noteq> right_root then parent(right_root \<mapsto> left_root) else parent))))"

section \<open>Components\<close>

definition process_or_empty :: "stage_spec \<Rightarrow> string" where
  "process_or_empty s = (case sc_process s of None \<Rightarrow> [] | Some q \<Rightarrow> q)"

definition initial_forest :: "stage_spec list \<Rightarrow> forest" where
  "initial_forest stages = map_of (map (\<lambda>s. (sc_name s, sc_name s)) stages)"

definition by_process :: "stage_spec list \<Rightarrow> (string \<times> string list) list" where
  "by_process stages = foldl (\<lambda>d s. append_entry (process_or_empty s) (sc_name s) d) [] stages"

text \<open>The first name of a group is united with each of the others; an empty group is skipped.\<close>

fun union_all :: "string \<Rightarrow> string list \<Rightarrow> forest \<Rightarrow> forest run" where
  "union_all first [] parent = Some (Inr parent)"
| "union_all first (n # ns) parent = bindR (union_names first n parent) (union_all first ns)"

fun union_group :: "string list \<Rightarrow> forest \<Rightarrow> forest run" where
  "union_group [] parent = Some (Inr parent)"
| "union_group (n # ns) parent = union_all n ns parent"

fun union_groups :: "string list list \<Rightarrow> forest \<Rightarrow> forest run" where
  "union_groups [] parent = Some (Inr parent)"
| "union_groups (g # gs) parent = bindR (union_group g parent) (union_groups gs)"

definition local_group :: "stage_spec list \<Rightarrow> string list \<Rightarrow> string list" where
  "local_group stages g = filter (\<lambda>n. case stage_by_name stages n of None \<Rightarrow> False | Some s \<Rightarrow> sc_tp_size s = 1) g"

fun place_components :: "stage_spec list \<Rightarrow> forest \<Rightarrow> (string \<times> stage_spec list) list \<Rightarrow> (string \<times> stage_spec list) list run" where
  "place_components [] parent d = Some (Inr d)"
| "place_components (s # ss) parent d =
     bindR (find_rep parent (sc_name s)) (\<lambda>(root, parent). place_components ss parent (append_entry root s d))"

definition resolve_components :: "pipeline_config \<Rightarrow> stage_spec list \<Rightarrow> (string \<times> stage_spec list) list run" where
  "resolve_components p stages =
     bindR (union_groups (map snd (by_process stages)) (initial_forest stages)) (\<lambda>parent.
     bindR (union_groups (map (local_group stages) (pl_fused_stages p)) parent) (\<lambda>parent.
     place_components stages parent []))"

section \<open>Processes\<close>

fun join_with :: "string \<Rightarrow> string list \<Rightarrow> string" where
  "join_with sep [] = []"
| "join_with sep [s] = s"
| "join_with sep (s # ss) = s @ sep @ join_with sep ss"

definition suffixed_name :: "string \<Rightarrow> nat \<Rightarrow> string" where
  "suffixed_name base n = base @ ''_'' @ digits n"

partial_function (option) free_name :: "string set \<Rightarrow> string \<Rightarrow> nat \<Rightarrow> string \<Rightarrow> string option" where
  "free_name used base suffix name =
     (if name \<in> used then free_name used base (suffix + 1) (suffixed_name base (suffix + 1)) else Some name)"

declare free_name.simps [code]

definition base_name :: "stage_spec list \<Rightarrow> string" where
  "base_name stages =
     (case remdups (filter (\<lambda>q. q \<noteq> []) (map process_or_empty stages)) of
        [q] \<Rightarrow> q | _ \<Rightarrow> ''fused_'' @ join_with ''_'' (map sc_name stages))"

definition component_process_name :: "stage_spec list \<Rightarrow> string set \<Rightarrow> (string \<times> string set) run" where
  "component_process_name stages used =
     (case free_name used (base_name stages) 1 (base_name stages) of
        None \<Rightarrow> None | Some name \<Rightarrow> Some (Inr (name, insert name used)))"

record process_group =
  pg_name :: string
  pg_stage_names :: "string list"
  pg_gpu_id :: "int option"

definition known_gpu_ids :: "placement_plan \<Rightarrow> stage_spec \<Rightarrow> int list" where
  "known_gpu_ids plan s = map the (filter (\<lambda>g. g \<noteq> None) (resolve_stage_gpu_ids plan s))"

definition resolve_group_gpu_id :: "placement_plan \<Rightarrow> stage_spec list \<Rightarrow> int option result" where
  "resolve_group_gpu_id plan stages = (case remdups (concat (map (known_gpu_ids plan) stages)) of
     [] \<Rightarrow> Inr None | [g] \<Rightarrow> Inr (Some g) | _ \<Rightarrow> Inl (ValueError ''Process group spans multiple GPUs''))"

fun build_groups :: "placement_plan \<Rightarrow> stage_spec list list \<Rightarrow> string set \<Rightarrow> process_group list run" where
  "build_groups plan [] used = Some (Inr [])"
| "build_groups plan (c # cs) used =
     bindR (component_process_name c used) (\<lambda>(name, used).
     bindR (liftR (resolve_group_gpu_id plan c)) (\<lambda>gpu.
     bindR (build_groups plan cs used) (\<lambda>gs.
     Some (Inr (\<lparr>pg_name = name, pg_stage_names = map sc_name c, pg_gpu_id = gpu\<rparr> # gs)))))"

definition non_tp_stages :: "stage_spec list \<Rightarrow> stage_spec list" where
  "non_tp_stages stages = filter (\<lambda>s. sc_tp_size s = 1) stages"

definition build_process_groups :: "pipeline_config \<Rightarrow> stage_spec list \<Rightarrow> placement_plan \<Rightarrow> process_group list run" where
  "build_process_groups p stages plan =
     bindR (liftR (guardE (list_all (\<lambda>s. sc_process s \<noteq> None) (non_tp_stages stages)) (ValueError ''must declare process''))) (\<lambda>_.
     bindR (resolve_components p (non_tp_stages stages)) (\<lambda>components.
     build_groups plan (map snd components) {}))"

definition tp_process_name :: "stage_spec \<Rightarrow> nat \<Rightarrow> string" where
  "tp_process_name s rank = (if process_or_empty s = [] then sc_name s else process_or_empty s) @ ''_tp'' @ digits rank"

definition build_tp_process_names :: "stage_spec list \<Rightarrow> (string \<times> string list) list" where
  "build_tp_process_names stages =
     foldl (\<lambda>d s. AList.update (sc_name s) (map (tp_process_name s) [0..<nat (sc_tp_size s)]) d) []
       (filter (\<lambda>s. sc_tp_size s > 1) stages)"

record topology_plan =
  tp_groups :: "process_group list"
  tp_stage_to_process :: "(string \<times> string) list"
  tp_ranks :: "(string \<times> string list) list"

definition stage_to_process :: "process_group list \<Rightarrow> (string \<times> string) list" where
  "stage_to_process groups =
     foldl (\<lambda>d (n, g). AList.update n g d) [] (concat (map (\<lambda>g. map (\<lambda>n. (n, pg_name g)) (pg_stage_names g)) groups))"

definition validate_process_names :: "topology_plan \<Rightarrow> unit result" where
  "validate_process_names t =
     (let ranks = concat (map snd (tp_ranks t)) in
      checks [(distinct ranks, ''Duplicate TP process names''),
              (snd ` set (tp_stage_to_process t) \<inter> set ranks = {}, ''TP-derived process names collide with non-TP process groups'')])"

text \<open>
  \<open>_validate_gpu_process_colocation\<close>: the uses of GPUs by processes, in the order the loops meet them,
  then the check of every GPU that more than one process uses.
\<close>

record gpu_use =
  gu_gpu :: int
  gu_process :: string
  gu_stage :: stage_spec

definition group_uses :: "placement_plan \<Rightarrow> stage_spec list \<Rightarrow> process_group \<Rightarrow> gpu_use list result" where
  "group_uses plan stages g =
     bindE (mapE (\<lambda>n. bindE (lookup_stage stages n) (\<lambda>s.
       Inr (map (\<lambda>gpu. \<lparr>gu_gpu = gpu, gu_process = pg_name g, gu_stage = s\<rparr>) (known_gpu_ids plan s)))) (pg_stage_names g)) (\<lambda>us.
     Inr (concat us))"

definition rank_use :: "topology_plan \<Rightarrow> stage_spec \<Rightarrow> nat \<times> int option \<Rightarrow> gpu_use list result" where
  "rank_use t s rg = (case rg of
     (rank, None) \<Rightarrow> Inr []
   | (rank, Some gpu) \<Rightarrow> (case map_of (tp_ranks t) (sc_name s) of
       None \<Rightarrow> Inl (KeyError (sc_name s))
     | Some names \<Rightarrow> (if rank < length names then Inr [\<lparr>gu_gpu = gpu, gu_process = names ! rank, gu_stage = s\<rparr>]
         else Inl (IndexError ''tuple index out of range''))))"

definition tp_uses :: "topology_plan \<Rightarrow> placement_plan \<Rightarrow> stage_spec \<Rightarrow> gpu_use list result" where
  "tp_uses t plan s =
     (let ids = resolve_stage_gpu_ids plan s in
      bindE (mapE (rank_use t s) (zip [0..<length ids] ids)) (\<lambda>us. Inr (concat us)))"

definition check_gpu :: "floats \<Rightarrow> pipeline_config \<Rightarrow> placement_plan \<Rightarrow> gpu_use list \<Rightarrow> int \<Rightarrow> unit result" where
  "check_gpu fl p plan uses gpu =
     (let here = filter (\<lambda>u. gu_gpu u = gpu) uses in
      if length (remdups (map gu_process here)) \<le> 1 then Inr ()
      else bindE (guardE (\<not> (pl_require_fraction p \<and> list_ex (\<lambda>u. sc_fraction (gu_stage u) = PNone) here))
          (ValueError ''GPU is shared by multiple process groups without total_gpu_memory_fraction'')) (\<lambda>_.
        case map_of (pp_gpus plan) gpu of
          None \<Rightarrow> Inl (KeyError (decimal gpu))
        | Some gp \<Rightarrow> guardE (\<not> fl_over fl (pl_max_fraction p) (gp_total gp)) (ValueError ''exceeds placement limit'')))"

definition validate_colocation :: "floats \<Rightarrow> pipeline_config \<Rightarrow> placement_plan \<Rightarrow> stage_spec list \<Rightarrow> topology_plan \<Rightarrow> unit result" where
  "validate_colocation fl p plan stages t =
     bindE (mapE (group_uses plan stages) (tp_groups t)) (\<lambda>gus.
     bindE (mapE (tp_uses t plan) (filter (\<lambda>s. sc_tp_size s > 1) stages)) (\<lambda>tus.
     let uses = concat gus @ concat tus in
     bindE (mapE (check_gpu fl p plan uses) (remdups (map gu_gpu uses))) (\<lambda>_. Inr ())))"

definition build_topology :: "floats \<Rightarrow> pipeline_config \<Rightarrow> placement_plan \<Rightarrow> stage_spec list \<Rightarrow> topology_plan run" where
  "build_topology fl p plan stages =
     bindR (build_process_groups p stages plan) (\<lambda>groups.
     let t = \<lparr>tp_groups = groups, tp_stage_to_process = stage_to_process groups, tp_ranks = build_tp_process_names stages\<rparr> in
     bindR (liftR (validate_process_names t)) (\<lambda>_.
     bindR (liftR (validate_colocation fl p plan stages t)) (\<lambda>_. Some (Inr t))))"

section \<open>What the table means\<close>

text \<open>
  Every name has a representative, and the way to it gets shorter at each step.
\<close>

definition represents :: "string set \<Rightarrow> (string \<Rightarrow> nat) \<Rightarrow> (string \<Rightarrow> string) \<Rightarrow> forest \<Rightarrow> bool" where
  "represents names rank rep parent \<longleftrightarrow> dom parent = names \<and>
     (\<forall>x y. parent x = Some y \<longrightarrow> y \<in> names \<and> rep y = rep x \<and> (if y = x then rep x = x else rank y < rank x))"

lemma representsD:
  assumes "represents names rank rep parent" and "x \<in> names"
  obtains y where "parent x = Some y" "y \<in> names" "rep y = rep x" "y = x \<longrightarrow> rep x = x" "y \<noteq> x \<longrightarrow> rank y < rank x"
proof -
  obtain y where "parent x = Some y"
    using assms by (auto simp: represents_def)
  with that show thesis
    using assms(1) unfolding represents_def by (metis (full_types))
qed

lemma find_root_rep:
  assumes "represents names rank rep parent" and "x \<in> names"
  shows "find_root parent x = Some (Inr (rep x)) \<and> rep x \<in> names \<and> rep (rep x) = rep x"
  using assms(2)
proof (induction x rule: measure_induct_rule [of rank])
  case (less x)
  obtain y where y: "parent x = Some y" "y \<in> names" "rep y = rep x" "y = x \<longrightarrow> rep x = x" "y \<noteq> x \<longrightarrow> rank y < rank x"
    by (rule representsD [OF assms(1) less.prems])
  show ?case
  proof (cases "y = x")
    case True
    then show ?thesis
      using y(1,2,4) by (subst find_root.simps) simp
  next
    case False
    then show ?thesis
      using y less.IH [of y] by (subst find_root.simps) simp
  qed
qed

lemma rep_rank:
  assumes "represents names rank rep parent" and "x \<in> names" and "rep x \<noteq> x"
  shows "rank (rep x) < rank x"
  using assms(2,3)
proof (induction x rule: measure_induct_rule [of rank])
  case (less x)
  obtain y where y: "y \<in> names" "rep y = rep x" "y = x \<longrightarrow> rep x = x" "y \<noteq> x \<longrightarrow> rank y < rank x"
    by (rule representsD [OF assms(1) less.prems(1)])
  then have "y \<noteq> x"
    using less.prems(2) by blast
  then show ?case
    using y less.IH [of y] by (cases "rep y = y") auto
qed

text \<open>Compression keeps what the table means.\<close>

lemma compress_rep:
  assumes "represents names rank rep parent" and "x \<in> names"
  shows "\<exists>parent'. compress parent (rep x) x = Some (Inr parent') \<and> represents names rank rep parent'"
  using assms
proof (induction x arbitrary: parent rule: measure_induct_rule [of rank])
  case (less x)
  obtain y where y: "parent x = Some y" "y \<in> names" "rep y = rep x" "y = x \<longrightarrow> rep x = x" "y \<noteq> x \<longrightarrow> rank y < rank x"
    by (rule representsD [OF less.prems])
  show ?case
  proof (cases "y = x")
    case True
    then show ?thesis
      using y(1) less.prems by (subst compress.simps) simp
  next
    case False
    have r: "rep x \<in> names" "rep (rep x) = rep x" "rep x \<noteq> x \<Longrightarrow> rank (rep x) < rank x"
      using find_root_rep [OF less.prems] rep_rank [OF less.prems] by blast+
    have "represents names rank rep (parent(x \<mapsto> rep x))"
      unfolding represents_def
    proof (intro conjI allI impI)
      show "dom (parent(x \<mapsto> rep x)) = names"
        using less.prems by (auto simp: represents_def)
      fix z w
      assume z: "(parent(x \<mapsto> rep x)) z = Some w"
      have old: "z \<noteq> x \<Longrightarrow> w \<in> names \<and> rep w = rep z \<and> (if w = z then rep z = z else rank w < rank z)"
        using less.prems(1) z by (simp add: represents_def)
      show "w \<in> names" "rep w = rep z" "if w = z then rep z = z else rank w < rank z"
        using old z r by (cases "z = x"; auto)+
    qed
    then obtain parent' where "compress (parent(x \<mapsto> rep x)) (rep y) y = Some (Inr parent')" "represents names rank rep parent'"
      using less.IH [of y "parent(x \<mapsto> rep x)"] y(2,5) False by blast
    then show ?thesis
      using y(1,3) False by (subst compress.simps) simp
  qed
qed

lemma find_rep_ok:
  assumes "represents names rank rep parent" and "x \<in> names"
  shows "\<exists>parent'. find_rep parent x = Some (Inr (rep x, parent')) \<and> represents names rank rep parent' \<and>
    rep x \<in> names \<and> rep (rep x) = rep x"
  using find_root_rep [OF assms] compress_rep [OF assms] by (auto simp: find_rep_def)

text \<open>A union redirects the representative of one class.\<close>

definition merged :: "string \<Rightarrow> string \<Rightarrow> (string \<Rightarrow> string) \<Rightarrow> string \<Rightarrow> string" where
  "merged left right rep x = (if rep x = rep right then rep left else rep x)"

lemma link_rep:
  assumes "represents names rank rep parent" and "l \<in> names" and "r \<in> names" and "rep l = l" and "rep r = r" and "l \<noteq> r"
  shows "represents names (\<lambda>x. if rep x = r then rank x + Suc (rank l) else rank x) (\<lambda>x. if rep x = r then l else rep x) (parent(r \<mapsto> l))"
  unfolding represents_def
proof (intro conjI allI impI)
  show "dom (parent(r \<mapsto> l)) = names"
    using assms(1,3) by (auto simp: represents_def)
  fix x y
  assume xy: "(parent(r \<mapsto> l)) x = Some y"
  have old: "x \<noteq> r \<Longrightarrow> y \<in> names \<and> rep y = rep x \<and> (if y = x then rep x = x else rank y < rank x)"
    using assms(1) xy by (auto simp: represents_def)
  show "y \<in> names"
    using old xy assms(2) by (cases "x = r") auto
  show "(if rep y = r then l else rep y) = (if rep x = r then l else rep x)"
    using old xy assms(4-6) by (cases "x = r") auto
  show "if y = x then (if rep x = r then l else rep x) = x
      else (if rep y = r then rank y + Suc (rank l) else rank y) < (if rep x = r then rank x + Suc (rank l) else rank x)"
    using old xy assms(4-6) by (cases "x = r") (auto split: if_splits)
qed

lemma union_rep:
  assumes "represents names rank rep parent" and "l \<in> names" and "r \<in> names"
  shows "\<exists>rank' parent'. union_names l r parent = Some (Inr parent') \<and> represents names rank' (merged l r rep) parent'"
proof -
  obtain p1 where p1: "find_rep parent l = Some (Inr (rep l, p1))" "represents names rank rep p1" "rep l \<in> names" "rep (rep l) = rep l"
    using find_rep_ok [OF assms(1,2)] by blast
  obtain p2 where p2: "find_rep p1 r = Some (Inr (rep r, p2))" "represents names rank rep p2" "rep r \<in> names" "rep (rep r) = rep r"
    using find_rep_ok [OF p1(2) assms(3)] by blast
  have u: "union_names l r parent = Some (Inr (if rep l \<noteq> rep r then p2(rep r \<mapsto> rep l) else p2))"
    using p1(1) p2(1) by (simp add: union_names_def)
  show ?thesis
  proof (cases "rep l = rep r")
    case True
    then have "merged l r rep = rep"
      by (auto simp: merged_def fun_eq_iff)
    then show ?thesis
      using u True p2(2) by auto
  next
    case False
    have "merged l r rep = (\<lambda>x. if rep x = rep r then rep l else rep x)"
      by (simp add: merged_def fun_eq_iff)
    then show ?thesis
      using u False link_rep [OF p2(2) p1(3) p2(3) p1(4) p2(4) False] by auto
  qed
qed

section \<open>The classes of a sequence of unions\<close>

text \<open>The classes are those of the least equivalence relation with the united pairs.\<close>

definition joined :: "(string \<times> string) set \<Rightarrow> (string \<times> string) set" where
  "joined P = (P \<union> P\<inverse>)\<^sup>*"

lemma joined_sym: "(x, y) \<in> joined P \<Longrightarrow> (y, x) \<in> joined P"
  using sym_rtrancl [of "P \<union> P\<inverse>"] by (auto simp: joined_def sym_Un_converse dest: symD)

lemma joined_refl [simp]: "(x, x) \<in> joined P"
  by (simp add: joined_def)

lemma joined_trans: "(x, y) \<in> joined P \<Longrightarrow> (y, z) \<in> joined P \<Longrightarrow> (x, z) \<in> joined P"
  by (simp add: joined_def)

lemma joined_mono: "P \<subseteq> Q \<Longrightarrow> joined P \<subseteq> joined Q"
  unfolding joined_def by (intro rtrancl_mono) auto

lemma joined_pair: "(x, y) \<in> P \<Longrightarrow> (x, y) \<in> joined P"
  by (auto simp: joined_def)

lemma joined_least: "P \<subseteq> joined Q \<Longrightarrow> joined P \<subseteq> joined Q"
proof
  fix z
  assume P: "P \<subseteq> joined Q" and "z \<in> joined P"
  then obtain x y where z: "z = (x, y)" "(x, y) \<in> (P \<union> P\<inverse>)\<^sup>*"
    by (cases z) (auto simp: joined_def)
  from z(2) have "(x, y) \<in> joined Q"
  proof induction
    case (step y w)
    then show ?case
      using P joined_sym joined_trans by blast
  qed simp
  then show "z \<in> joined Q"
    by (simp add: z)
qed

definition classes :: "(string \<Rightarrow> string) \<Rightarrow> (string \<times> string) set \<Rightarrow> bool" where
  "classes rep P \<longleftrightarrow> (\<forall>x y. rep x = rep y \<longleftrightarrow> (x, y) \<in> joined P)"

lemma classes_empty: "classes (\<lambda>x. x) {}"
  by (simp add: classes_def joined_def)

lemma classes_merged:
  assumes "classes rep P"
  shows "classes (merged l r rep) (insert (l, r) P)"
proof -
  let ?Q = "insert (l, r) P"
  have PQ: "(x, y) \<in> joined P \<Longrightarrow> (x, y) \<in> joined ?Q" for x y
    using joined_mono [of P ?Q] by blast
  have rep: "rep x = rep y \<Longrightarrow> (x, y) \<in> joined ?Q" for x y
    using assms PQ by (simp add: classes_def)
  have lr: "(l, r) \<in> joined ?Q"
    by (simp add: joined_pair)
  have "(x, y) \<in> joined ?Q" if m: "merged l r rep x = merged l r rep y" for x y
  proof (cases "rep x = rep y")
    case False
    then consider "rep x = rep r" "rep y = rep l" | "rep y = rep r" "rep x = rep l"
      using m by (auto simp: merged_def split: if_splits)
    then show ?thesis
      using rep lr joined_sym joined_trans by cases blast+
  qed (rule rep)
  moreover have "merged l r rep x = merged l r rep y" if "(x, y) \<in> joined ?Q" for x y
    using that unfolding joined_def
  proof induction
    case (step y z)
    have "rep y = rep z \<or> (y, z) = (l, r) \<or> (y, z) = (r, l)"
      using step(2) assms joined_pair joined_sym by (fastforce simp: classes_def)
    then show ?case
      using step(3) by (auto simp: merged_def)
  qed simp
  ultimately show ?thesis
    unfolding classes_def by blast
qed


section \<open>The components are the classes\<close>

text \<open>A table of all the names whose classes come from the pairs \<open>P\<close>.\<close>

definition table :: "string set \<Rightarrow> (string \<times> string) set \<Rightarrow> forest \<Rightarrow> bool" where
  "table names P parent \<longleftrightarrow> (\<exists>rank rep. represents names rank rep parent \<and> classes rep P)"

lemma table_initial: "table (set (map sc_name stages)) {} (initial_forest stages)"
proof -
  have "initial_forest stages x = Some y \<Longrightarrow> y = x \<and> x \<in> set (map sc_name stages)" for x y
    unfolding initial_forest_def by (force dest: map_of_SomeD)
  then have "represents (set (map sc_name stages)) (\<lambda>x. 0) (\<lambda>x. x) (initial_forest stages)"
    unfolding represents_def by (auto simp: initial_forest_def dom_map_of_conv_image_fst image_image)
  then show ?thesis
    using classes_empty unfolding table_def by blast
qed

lemma table_union:
  assumes "table names P parent" and "l \<in> names" and "r \<in> names"
  shows "\<exists>parent'. union_names l r parent = Some (Inr parent') \<and> table names (insert (l, r) P) parent'"
proof -
  obtain rank rep where t: "represents names rank rep parent" "classes rep P"
    using assms(1) by (auto simp: table_def)
  show ?thesis
    using union_rep [OF t(1) assms(2,3)] classes_merged [OF t(2), of l r] unfolding table_def by blast
qed

definition star_of :: "string list \<Rightarrow> (string \<times> string) set" where
  "star_of g = (case g of [] \<Rightarrow> {} | n # ns \<Rightarrow> Pair n ` set ns)"

lemma table_union_all:
  assumes "table names P parent" and "n \<in> names" and "set ns \<subseteq> names"
  shows "\<exists>parent'. union_all n ns parent = Some (Inr parent') \<and> table names (P \<union> Pair n ` set ns) parent'"
  using assms
proof (induction ns arbitrary: P parent)
  case (Cons m ns)
  obtain p1 where p1: "union_names n m parent = Some (Inr p1)" "table names (insert (n, m) P) p1"
    using table_union [OF Cons.prems(1,2), of m] Cons.prems(3) by auto
  then show ?case
    using Cons.IH [OF p1(2) Cons.prems(2)] Cons.prems(3) by simp
qed auto

lemma table_union_group:
  assumes "table names P parent" and "set g \<subseteq> names"
  shows "\<exists>parent'. union_group g parent = Some (Inr parent') \<and> table names (P \<union> star_of g) parent'"
  using assms table_union_all [OF assms(1)] by (cases g) (simp_all add: star_of_def)

lemma table_union_groups:
  assumes "table names P parent" and "\<forall>g \<in> set gs. set g \<subseteq> names"
  shows "\<exists>parent'. union_groups gs parent = Some (Inr parent') \<and> table names (P \<union> (\<Union>g \<in> set gs. star_of g)) parent'"
  using assms
proof (induction gs arbitrary: P parent)
  case (Cons g gs)
  obtain p1 where p1: "union_group g parent = Some (Inr p1)" "table names (P \<union> star_of g) p1"
    using table_union_group [OF Cons.prems(1), of g] Cons.prems(2) by auto
  then show ?case
    using Cons.IH [OF p1(2)] Cons.prems(2) by (simp add: Un_assoc)
qed auto

lemma place_components_ok:
  assumes "represents names rank rep parent" and "sc_name ` set ss \<subseteq> names"
  shows "\<exists>d'. place_components ss parent d = Some (Inr d') \<and> (no_empty d \<longrightarrow> no_empty d') \<and>
    (\<forall>k. entries_of d' k = entries_of d k @ filter (\<lambda>s. rep (sc_name s) = k) ss) \<and>
    (distinct (map fst d) \<longrightarrow> distinct (map fst d'))"
  using assms
proof (induction ss arbitrary: parent d)
  case (Cons s ss)
  obtain p1 where p1: "find_rep parent (sc_name s) = Some (Inr (rep (sc_name s), p1))" "represents names rank rep p1"
    using find_rep_ok [OF Cons.prems(1), of "sc_name s"] Cons.prems(2) by auto
  obtain d' where d': "place_components ss p1 (append_entry (rep (sc_name s)) s d) = Some (Inr d')"
    "no_empty (append_entry (rep (sc_name s)) s d) \<longrightarrow> no_empty d'"
    "\<forall>k. entries_of d' k = entries_of (append_entry (rep (sc_name s)) s d) k @ filter (\<lambda>s. rep (sc_name s) = k) ss"
    "distinct (map fst (append_entry (rep (sc_name s)) s d)) \<longrightarrow> distinct (map fst d')"
    using Cons.IH [OF p1(2), of "append_entry (rep (sc_name s)) s d"] Cons.prems(2) by auto
  have "distinct (map fst d) \<Longrightarrow> distinct (map fst (append_entry (rep (sc_name s)) s d))"
    by (simp add: append_entry_def distinct_update)
  moreover have "no_empty d \<Longrightarrow> no_empty (append_entry (rep (sc_name s)) s d)"
    by (rule no_empty_append)
  ultimately show ?case
    using p1(1) d' by (intro exI [of _ d']) auto
qed simp

lemma entries_by_process:
  "entries_of (foldl (\<lambda>d s. append_entry (f s) (g s) d) d ss) k = entries_of d k @ map g (filter (\<lambda>s. f s = k) ss)"
  by (induction ss arbitrary: d) auto

lemma fold_keys_distinct:
  "distinct (map fst d) \<Longrightarrow> distinct (map fst (foldl (\<lambda>d s. append_entry (f s) (g s) d) d ss))"
  by (induction ss arbitrary: d) (auto simp: append_entry_def distinct_update)

lemma by_process_group:
  assumes "g \<in> set (map snd (by_process stages))"
  obtains q where "g = map sc_name (filter (\<lambda>s. process_or_empty s = q) stages)"
proof -
  obtain q where "(q, g) \<in> set (by_process stages)"
    using assms by auto
  then have "map_of (by_process stages) q = Some g"
    unfolding by_process_def by (intro map_of_is_SomeI fold_keys_distinct) simp_all
  then have "entries_of (by_process stages) q = g"
    by (simp add: entries_of_def)
  moreover have "entries_of (by_process stages) q = map sc_name (filter (\<lambda>s. process_or_empty s = q) stages)"
    unfolding by_process_def entries_by_process by (simp add: entries_of_def)
  ultimately show thesis
    using that [of q] by argo
qed

lemma by_process_has:
  assumes "s \<in> set stages"
  shows "map sc_name (filter (\<lambda>t. process_or_empty t = process_or_empty s) stages) \<in> set (map snd (by_process stages))"
proof -
  let ?g = "map sc_name (filter (\<lambda>t. process_or_empty t = process_or_empty s) stages)"
  have "entries_of (by_process stages) (process_or_empty s) = ?g"
    unfolding by_process_def entries_by_process by (simp add: entries_of_def)
  moreover have "?g \<noteq> []"
    using assms by (auto simp: filter_empty_conv)
  ultimately have "map_of (by_process stages) (process_or_empty s) = Some ?g"
    by (simp add: entries_of_def split: option.splits)
  then show ?thesis
    by (force dest: map_of_SomeD)
qed

text \<open>Two stages are linked when they name the same process or stand in one fused group.\<close>

definition links :: "pipeline_config \<Rightarrow> stage_spec list \<Rightarrow> (string \<times> string) set" where
  "links p stages = {(sc_name s, sc_name t) | s t. s \<in> set stages \<and> t \<in> set stages \<and>
     (process_or_empty s = process_or_empty t \<or> (\<exists>g \<in> set (pl_fused_stages p). sc_name s \<in> set g \<and> sc_name t \<in> set g))}"

lemma linksI:
  "s \<in> set stages \<Longrightarrow> t \<in> set stages \<Longrightarrow>
   process_or_empty s = process_or_empty t \<or> (\<exists>g \<in> set (pl_fused_stages p). sc_name s \<in> set g \<and> sc_name t \<in> set g) \<Longrightarrow>
   (sc_name s, sc_name t) \<in> links p stages"
  unfolding links_def by blast

lemma star_joined:
  assumes "x \<in> set g" and "y \<in> set g"
  shows "(x, y) \<in> joined (star_of g)"
proof (cases g)
  case (Cons n ns)
  have "(n, z) \<in> joined (star_of g)" if "z \<in> set g" for z
    using that Cons by (cases "z = n") (auto simp: star_of_def intro: joined_pair)
  then show ?thesis
    using assms by (meson joined_sym joined_trans)
qed (use assms in simp)

lemma star_pairs: "(x, y) \<in> star_of g \<Longrightarrow> x \<in> set g \<and> y \<in> set g"
  by (cases g) (auto simp: star_of_def)

lemma local_group_names:
  assumes "distinct (map sc_name stages)" and "\<forall>s \<in> set stages. sc_tp_size s = 1"
  shows "set (local_group stages g) = set g \<inter> sc_name ` set stages"
proof -
  have "(case stage_by_name stages n of None \<Rightarrow> False | Some s \<Rightarrow> sc_tp_size s = 1) \<longleftrightarrow> n \<in> sc_name ` set stages" for n
    using stage_by_name_in [of stages n] stage_by_name_eq [OF assms(1)] assms(2) by (auto split: option.split)
  then show ?thesis
    by (auto simp: local_group_def)
qed

lemma joined_links:
  assumes "distinct (map sc_name stages)" and "\<forall>s \<in> set stages. sc_tp_size s = 1"
  shows "joined ((\<Union>g \<in> set (map snd (by_process stages)). star_of g) \<union>
      (\<Union>g \<in> set (map (local_group stages) (pl_fused_stages p)). star_of g)) = joined (links p stages)"
    (is "joined (?A \<union> ?B) = _")
proof
  note local = local_group_names [OF assms]
  have "(x, y) \<in> links p stages" if "(x, y) \<in> ?A" for x y
  proof -
    obtain g where g: "g \<in> set (map snd (by_process stages))" "x \<in> set g" "y \<in> set g"
      using \<open>(x, y) \<in> ?A\<close> star_pairs by blast
    obtain q where "g = map sc_name (filter (\<lambda>s. process_or_empty s = q) stages)"
      by (rule by_process_group [OF g(1)])
    then show ?thesis
      using g(2,3) by (auto intro: linksI)
  qed
  moreover have "(x, y) \<in> links p stages" if "(x, y) \<in> ?B" for x y
  proof -
    obtain g where g: "g \<in> set (pl_fused_stages p)" "x \<in> set (local_group stages g)" "y \<in> set (local_group stages g)"
      using \<open>(x, y) \<in> ?B\<close> star_pairs by fastforce
    then show ?thesis
      using local [of g] by (auto intro!: linksI)
  qed
  ultimately show "joined (?A \<union> ?B) \<subseteq> joined (links p stages)"
    by (intro joined_mono subsetI) (metis UnE prod.collapse)
  show "joined (links p stages) \<subseteq> joined (?A \<union> ?B)"
  proof (rule joined_least, rule subsetI)
    fix z
    assume "z \<in> links p stages"
    then obtain s t where st: "z = (sc_name s, sc_name t)" "s \<in> set stages" "t \<in> set stages"
      and l: "process_or_empty s = process_or_empty t \<or> (\<exists>g \<in> set (pl_fused_stages p). sc_name s \<in> set g \<and> sc_name t \<in> set g)"
      by (auto simp: links_def)
    have "\<exists>g. sc_name s \<in> set g \<and> sc_name t \<in> set g \<and> star_of g \<subseteq> ?A \<union> ?B"
      using l
    proof
      assume "process_or_empty s = process_or_empty t"
      then show ?thesis
        using by_process_has [OF st(2)] st(2,3) by (intro exI [of _ "map sc_name (filter (\<lambda>t. process_or_empty t = process_or_empty s) stages)"]) auto
    next
      assume "\<exists>g \<in> set (pl_fused_stages p). sc_name s \<in> set g \<and> sc_name t \<in> set g"
      then obtain g where "g \<in> set (pl_fused_stages p)" "sc_name s \<in> set g" "sc_name t \<in> set g"
        by blast
      then show ?thesis
        using local [of g] st(2,3) by (intro exI [of _ "local_group stages g"]) auto
    qed
    then show "z \<in> joined (?A \<union> ?B)"
      using star_joined joined_mono unfolding st(1) by blast
  qed
qed

lemma entries_mem:
  assumes "x \<in> set (entries_of d k)"
  obtains xs where "(k, xs) \<in> set d" "x \<in> set xs"
  using assms that map_of_SomeD [of d k] by (cases "map_of d k") (auto simp: entries_of_def)

text \<open>The components as the groups of one representative each.\<close>

lemma resolve_components_rep:
  assumes "distinct (map sc_name stages)" and "\<forall>s \<in> set stages. sc_tp_size s = 1"
  shows "\<exists>rep d. resolve_components p stages = Some (Inr d) \<and> (\<forall>x y. rep x = rep y \<longleftrightarrow> (x, y) \<in> joined (links p stages)) \<and>
    no_empty d \<and> distinct (map fst d) \<and> (\<forall>k. entries_of d k = filter (\<lambda>s. rep (sc_name s) = k) stages)"
proof -
  let ?names = "set (map sc_name stages)"
  have "set g \<subseteq> ?names" if "g \<in> set (map snd (by_process stages))" for g
    by (rule by_process_group [OF that]) auto
  then obtain p1 where p1: "union_groups (map snd (by_process stages)) (initial_forest stages) = Some (Inr p1)"
    "table ?names ({} \<union> (\<Union>g \<in> set (map snd (by_process stages)). star_of g)) p1"
    using table_union_groups [OF table_initial [of stages]] by blast
  have "set (local_group stages g) \<subseteq> ?names" for g
    using local_group_names [OF assms] by auto
  then obtain p2 where p2: "union_groups (map (local_group stages) (pl_fused_stages p)) p1 = Some (Inr p2)"
    "table ?names ({} \<union> (\<Union>g \<in> set (map snd (by_process stages)). star_of g) \<union>
      (\<Union>g \<in> set (map (local_group stages) (pl_fused_stages p)). star_of g)) p2"
    using table_union_groups [OF p1(2), of "map (local_group stages) (pl_fused_stages p)"] by auto
  then obtain rank rep where r: "represents ?names rank rep p2" "\<And>x y. rep x = rep y \<longleftrightarrow> (x, y) \<in> joined (links p stages)"
    using joined_links [OF assms] by (auto simp: table_def classes_def)
  obtain d where d: "place_components stages p2 [] = Some (Inr d)" "no_empty d"
    "\<And>k. entries_of d k = filter (\<lambda>s. rep (sc_name s) = k) stages" "distinct (map fst d)"
    using place_components_ok [OF r(1), of stages "[]"] by (auto simp: no_empty_def entries_of_def)
  have "resolve_components p stages = Some (Inr d)"
    using p1(1) p2(1) d(1) by (simp add: resolve_components_def)
  then show ?thesis
    using r(2) d(2-4) by blast
qed

text \<open>
  stages without tensor parallelism are divided into the classes of the least equivalence that
  joins stages of one process name and stages of one fused group; the loops of \<open>find\<close> always end.
\<close>

theorem components_are_connected_stages:
  assumes "distinct (map sc_name stages)" and "\<forall>s \<in> set stages. sc_tp_size s = 1"
  shows "\<exists>components. resolve_components p stages = Some (Inr components) \<and>
    (\<forall>c \<in> set (map snd components). c \<noteq> [] \<and> c = filter (\<lambda>t. (sc_name (hd c), sc_name t) \<in> joined (links p stages)) stages) \<and>
    (\<forall>s \<in> set stages. \<exists>c \<in> set (map snd components). s \<in> set c) \<and> distinct (map snd components)"
proof -
  obtain rep d where d: "resolve_components p stages = Some (Inr d)" "no_empty d"
    "\<And>k. entries_of d k = filter (\<lambda>s. rep (sc_name s) = k) stages" "distinct (map fst d)"
    and r: "\<And>x y. rep x = rep y \<longleftrightarrow> (x, y) \<in> joined (links p stages)"
    using resolve_components_rep [OF assms] by blast
  have c: "c \<noteq> [] \<and> c = filter (\<lambda>s. rep (sc_name s) = k) stages \<and> rep (sc_name (hd c)) = k" if "(k, c) \<in> set d" for k c
  proof -
    have "map_of d k = Some c"
      using that d(4) by simp
    then have "c \<noteq> []" "c = filter (\<lambda>s. rep (sc_name s) = k) stages"
      using d(2) d(3) [of k] by (auto simp: no_empty_def entries_of_def)
    moreover from this have "hd c \<in> set (filter (\<lambda>s. rep (sc_name s) = k) stages)"
      by (metis hd_in_set)
    ultimately show ?thesis
      by simp
  qed
  have "\<forall>c \<in> set (map snd d). c \<noteq> [] \<and> c = filter (\<lambda>t. (sc_name (hd c), sc_name t) \<in> joined (links p stages)) stages"
  proof
    fix c
    assume "c \<in> set (map snd d)"
    then obtain k where k: "c \<noteq> []" "c = filter (\<lambda>s. rep (sc_name s) = k) stages" "rep (sc_name (hd c)) = k"
      using c by fastforce
    have "filter (\<lambda>t. (sc_name (hd c), sc_name t) \<in> joined (links p stages)) stages = filter (\<lambda>s. rep (sc_name s) = k) stages"
      using k(3) by (intro filter_cong) (auto simp: r [symmetric])
    then show "c \<noteq> [] \<and> c = filter (\<lambda>t. (sc_name (hd c), sc_name t) \<in> joined (links p stages)) stages"
      using k(1,2) by argo
  qed
  moreover have "\<exists>c \<in> set (map snd d). s \<in> set c" if "s \<in> set stages" for s
  proof -
    have "s \<in> set (entries_of d (rep (sc_name s)))"
      using that by (simp add: d(3))
    then show ?thesis
      by (rule entries_mem) force
  qed
  moreover have "inj_on snd (set d)"
    using c by (intro inj_onI) (metis prod.collapse)
  then have "distinct (map snd d)"
    using d(4) by (simp add: distinct_map)
  ultimately show ?thesis
    using d(1) by blast
qed

end
