(* ===== verification/Process_Plan.thy ===== *)
theory Process_Plan
  imports Config_Topology
begin

text \<open>
  The plan that \<open>sglang_omni/config/topology.py\<close> builds: its process names, its groups as the components of
  the pipeline's stages, what fusion means for it, and the budgets of the GPUs that processes share.
\<close>


section \<open>Process names\<close>

lemma suffixed_name_inj: "suffixed_name base m = suffixed_name base n \<longleftrightarrow> m = n"
  unfolding suffixed_name_def using undigits_digits by (metis append_same_eq same_append_eq)

lemma finite_taken:
  assumes "finite used"
  shows "finite {k. n < k \<and> suffixed_name base k \<in> used}"
proof -
  have "inj_on (suffixed_name base) {k. n < k \<and> suffixed_name base k \<in> used}"
    by (simp add: inj_on_def suffixed_name_inj)
  moreover have "finite (suffixed_name base ` {k. n < k \<and> suffixed_name base k \<in> used})"
    by (rule finite_subset [OF _ assms]) auto
  ultimately show ?thesis
    using finite_imageD by blast
qed

lemma free_name_suffixed:
  assumes "finite used"
  shows "\<exists>m. free_name used base n (suffixed_name base n) = Some m \<and> m \<notin> used"
proof (induction "card {k. n \<le> k \<and> suffixed_name base k \<in> used}" arbitrary: n rule: less_induct)
  case less
  show ?case
  proof (cases "suffixed_name base n \<in> used")
    case True
    have fin: "finite {k. n \<le> k \<and> suffixed_name base k \<in> used}"
      by (rule finite_subset [OF _ finite.insertI [OF finite_taken [OF assms, of n base], of n]]) auto
    have "n \<in> {k. n \<le> k \<and> suffixed_name base k \<in> used} - {k. Suc n \<le> k \<and> suffixed_name base k \<in> used}"
      using True by simp
    moreover have "{k. Suc n \<le> k \<and> suffixed_name base k \<in> used} \<subseteq> {k. n \<le> k \<and> suffixed_name base k \<in> used}"
      by auto
    ultimately have "{k. Suc n \<le> k \<and> suffixed_name base k \<in> used} \<subset> {k. n \<le> k \<and> suffixed_name base k \<in> used}"
      by blast
    then have "card {k. Suc n \<le> k \<and> suffixed_name base k \<in> used} < card {k. n \<le> k \<and> suffixed_name base k \<in> used}"
      by (rule psubset_card_mono [OF fin])
    then obtain m where "free_name used base (Suc n) (suffixed_name base (Suc n)) = Some m \<and> m \<notin> used"
      using less by blast
    then show ?thesis
      using True by (subst free_name.simps) simp
  next
    case False
    then show ?thesis
      by (subst free_name.simps) simp
  qed
qed

lemma free_name_ok: "finite used \<Longrightarrow> \<exists>m. free_name used base n name = Some m \<and> m \<notin> used"
  using free_name_suffixed [of used base "Suc n"] by (subst free_name.simps) simp

lemma component_process_name_ok:
  assumes "finite used"
  shows "\<exists>name. component_process_name c used = Some (Inr (name, insert name used)) \<and> name \<notin> used"
proof -
  obtain m where "free_name used (base_name c) 1 (base_name c) = Some m" "m \<notin> used"
    using free_name_ok [OF assms] by blast
  then show ?thesis
    by (simp add: component_process_name_def)
qed

lemma build_groups_ok:
  assumes "build_groups plan cs used = Some (Inr gs)" and "finite used"
  shows "distinct (map pg_name gs) \<and> pg_name ` set gs \<inter> used = {} \<and> map pg_stage_names gs = map (map sc_name) cs \<and>
    map (\<lambda>g. Inr (pg_gpu_id g)) gs = map (resolve_group_gpu_id plan) cs"
  using assms
proof (induction cs arbitrary: used gs)
  case (Cons c cs)
  obtain name where n: "component_process_name c used = Some (Inr (name, insert name used))" "name \<notin> used"
    using component_process_name_ok [OF Cons.prems(2)] by blast
  then obtain gpu gs' where g: "resolve_group_gpu_id plan c = Inr gpu" "build_groups plan cs (insert name used) = Some (Inr gs')"
    "gs = \<lparr>pg_name = name, pg_stage_names = map sc_name c, pg_gpu_id = gpu\<rparr> # gs'"
    using Cons.prems(1) by (auto simp: bindR_eq_ok)
  then show ?case
    using Cons.IH [OF g(2)] Cons.prems(2) n(2) by auto
qed simp

lemma build_groups_returns: "finite used \<Longrightarrow> build_groups plan cs used \<noteq> None"
proof (induction cs arbitrary: used)
  case (Cons c cs)
  obtain name where n: "component_process_name c used = Some (Inr (name, insert name used))"
    using component_process_name_ok [OF Cons.prems] by blast
  have "build_groups plan cs (insert name used) \<noteq> None"
    using Cons by simp
  then show ?case
    using n by (cases "resolve_group_gpu_id plan c"; cases "build_groups plan cs (insert name used)") (auto simp: bindR_def split: sum.split)
qed simp

section \<open>The plan\<close>

lemma non_tp:
  "distinct (map sc_name stages) \<Longrightarrow> distinct (map sc_name (non_tp_stages stages))"
  "\<forall>s \<in> set (non_tp_stages stages). sc_tp_size s = 1"
  by (simp_all add: non_tp_stages_def distinct_map_filter)

text \<open>C30: on stages with distinct names the plan is built or refused: no loop of the builder runs forever.\<close>

theorem topology_builder_returns:
  assumes "distinct (map sc_name stages)"
  shows "build_topology fl p plan stages \<noteq> None"
proof -
  obtain components where c: "resolve_components p (non_tp_stages stages) = Some (Inr components)"
    using components_are_connected_stages [OF non_tp(1) [OF assms] non_tp(2)] by blast
  have "build_groups plan (map snd components) {} \<noteq> None"
    by (rule build_groups_returns) simp
  then have "build_process_groups p stages plan \<noteq> None"
    using c by (auto simp: build_process_groups_def guardE_def)
  then show ?thesis
    by (auto simp: build_topology_def Let_def bindR_def split: sum.splits)
qed

lemma stage_to_process_names:
  assumes "distinct (concat (map pg_stage_names gs))" and "\<forall>g \<in> set gs. pg_stage_names g \<noteq> []"
  shows "snd ` set (stage_to_process gs) = pg_name ` set gs"
proof -
  have fold: "foldl (\<lambda>d (n, g). AList.update n g d) d xs = d @ xs"
    if "distinct (map fst (d @ xs))" for d xs :: "(string \<times> string) list"
    using that
  proof (induction xs arbitrary: d)
    case (Cons x xs)
    have "n \<notin> fst ` set d \<Longrightarrow> AList.update n g d = d @ [(n, g)]" for n g
      by (induction d) auto
    then show ?case
      using Cons by (cases x) auto
  qed simp
  have "map fst (concat (map (\<lambda>g. map (\<lambda>n. (n, pg_name g)) (pg_stage_names g)) gs)) = concat (map pg_stage_names gs)"
    by (simp add: map_concat comp_def)
  then have "stage_to_process gs = concat (map (\<lambda>g. map (\<lambda>n. (n, pg_name g)) (pg_stage_names g)) gs)"
    using fold [of "[]"] assms(1) by (simp add: stage_to_process_def)
  then have "set (stage_to_process gs) = (\<Union>g \<in> set gs. (\<lambda>n. (n, pg_name g)) ` set (pg_stage_names g))"
    by simp
  then have "snd ` set (stage_to_process gs) = (\<Union>g \<in> set gs. (\<lambda>n. pg_name g) ` set (pg_stage_names g))"
    by (simp add: image_UN image_image)
  also have "\<dots> = (\<Union>g \<in> set gs. {pg_name g})"
    using assms(2) by (intro SUP_cong) (auto simp: neq_Nil_conv)
  finally show ?thesis
    by auto
qed

lemma built_topology:
  assumes "build_topology fl p plan stages = Some (Inr t)"
  shows "build_process_groups p stages plan = Some (Inr (tp_groups t))"
    and "tp_stage_to_process t = stage_to_process (tp_groups t)" and "tp_ranks t = build_tp_process_names stages"
    and "validate_process_names t = Inr ()" and "validate_colocation fl p plan stages t = Inr ()"
  using assms by (auto simp: build_topology_def Let_def bindR_eq_ok)

text \<open>The groups of an accepted plan are the components of the stages without tensor parallelism.\<close>

lemma built_groups:
  assumes "build_topology fl p plan stages = Some (Inr t)" and "distinct (map sc_name stages)"
  obtains cs where "map pg_stage_names (tp_groups t) = map (map sc_name) cs" "distinct (map pg_name (tp_groups t))" "distinct cs"
    "map (\<lambda>g. Inr (pg_gpu_id g)) (tp_groups t) = map (resolve_group_gpu_id plan) cs"
    "\<forall>c \<in> set cs. c \<noteq> [] \<and> c = filter (\<lambda>u. (sc_name (hd c), sc_name u) \<in> joined (links p (non_tp_stages stages))) (non_tp_stages stages)"
    "\<forall>s \<in> set (non_tp_stages stages). \<exists>c \<in> set cs. s \<in> set c"
proof -
  obtain components where c: "resolve_components p (non_tp_stages stages) = Some (Inr components)"
    "\<forall>c \<in> set (map snd components). c \<noteq> [] \<and>
       c = filter (\<lambda>u. (sc_name (hd c), sc_name u) \<in> joined (links p (non_tp_stages stages))) (non_tp_stages stages)"
    "\<forall>s \<in> set (non_tp_stages stages). \<exists>c \<in> set (map snd components). s \<in> set c" "distinct (map snd components)"
    using components_are_connected_stages [OF non_tp(1) [OF assms(2)] non_tp(2)] by blast
  have "build_groups plan (map snd components) {} = Some (Inr (tp_groups t))"
    using built_topology(1) [OF assms(1)] c(1) by (auto simp: build_process_groups_def bindR_eq_ok)
  then show thesis
    using build_groups_ok [of plan "map snd components" "{}" "tp_groups t"] c that [of "map snd components"] by simp
qed

lemma classes_partition:
  assumes "distinct cs" and "distinct stages"
    and "\<forall>c \<in> set cs. c \<noteq> [] \<and> c = filter (\<lambda>u. (sc_name (hd c), sc_name u) \<in> joined L) stages"
    and "\<forall>s \<in> set stages. \<exists>c \<in> set cs. s \<in> set c"
  shows "distinct (concat cs) \<and> set (concat cs) = set stages \<and>
    (\<forall>s \<in> set stages. \<forall>u \<in> set stages. (\<exists>c \<in> set cs. s \<in> set c \<and> u \<in> set c) \<longleftrightarrow> (sc_name s, sc_name u) \<in> joined L)"
proof (intro conjI ballI)
  have mem: "u \<in> set c \<longleftrightarrow> u \<in> set stages \<and> (sc_name (hd c), sc_name u) \<in> joined L" if "c \<in> set cs" for c u
  proof -
    have "c = filter (\<lambda>u. (sc_name (hd c), sc_name u) \<in> joined L) stages"
      using assms(3) that by blast
    from arg_cong [OF this, of "\<lambda>xs. u \<in> set xs"] show ?thesis
      by simp
  qed
  have same: "c = c'" if cc: "c \<in> set cs" "c' \<in> set cs" "s \<in> set c" "s \<in> set c'" for c c' s
  proof -
    have "(sc_name (hd c), sc_name (hd c')) \<in> joined L"
      using cc mem joined_sym joined_trans by blast
    then have "(sc_name (hd c), sc_name u) \<in> joined L \<longleftrightarrow> (sc_name (hd c'), sc_name u) \<in> joined L" for u
      using joined_sym joined_trans by blast
    then have "filter (\<lambda>u. (sc_name (hd c), sc_name u) \<in> joined L) stages = filter (\<lambda>u. (sc_name (hd c'), sc_name u) \<in> joined L) stages"
      by (intro filter_cong refl)
    then show ?thesis
      using assms(3) cc(1,2) by metis
  qed
  show "distinct (concat cs)"
    unfolding distinct_concat_iff
  proof (intro conjI allI impI)
    show "distinct (removeAll [] cs)"
      using assms(1) by (rule distinct_removeAll)
    fix c
    assume "c \<in> set cs"
    then show "distinct c"
      using assms(2,3) by (metis distinct_filter)
  next
    fix c c'
    assume "c \<in> set cs \<and> c' \<in> set cs \<and> c \<noteq> c'"
    then show "set c \<inter> set c' = {}"
      using same by blast
  qed
  show "set (concat cs) = set stages"
    using mem assms(4) by auto
  fix s u
  assume su: "s \<in> set stages" "u \<in> set stages"
  show "(\<exists>c \<in> set cs. s \<in> set c \<and> u \<in> set c) \<longleftrightarrow> (sc_name s, sc_name u) \<in> joined L"
  proof
    assume "\<exists>c \<in> set cs. s \<in> set c \<and> u \<in> set c"
    then show "(sc_name s, sc_name u) \<in> joined L"
      using mem joined_sym joined_trans by blast
  next
    assume j: "(sc_name s, sc_name u) \<in> joined L"
    obtain c where "c \<in> set cs" "s \<in> set c"
      using assms(4) su(1) by blast
    then show "\<exists>c \<in> set cs. s \<in> set c \<and> u \<in> set c"
      using mem j su(2) joined_trans by blast
  qed
qed

text \<open>
  C29: in an accepted plan every stage without tensor parallelism is in exactly one process group, and
  two of them share a group exactly when a chain of equal process names and fused groups connects them.
\<close>

theorem process_groups_are_components:
  assumes "build_topology fl p plan stages = Some (Inr t)" and "distinct (map sc_name stages)"
  shows "distinct (concat (map pg_stage_names (tp_groups t))) \<and>
    set (concat (map pg_stage_names (tp_groups t))) = sc_name ` set (non_tp_stages stages) \<and>
    (\<forall>s \<in> set (non_tp_stages stages). \<forall>u \<in> set (non_tp_stages stages).
       (\<exists>g \<in> set (tp_groups t). sc_name s \<in> set (pg_stage_names g) \<and> sc_name u \<in> set (pg_stage_names g)) \<longleftrightarrow>
       (sc_name s, sc_name u) \<in> joined (links p (non_tp_stages stages)))"
proof -
  obtain cs where cs: "map pg_stage_names (tp_groups t) = map (map sc_name) cs" "distinct cs"
    "\<forall>c \<in> set cs. c \<noteq> [] \<and> c = filter (\<lambda>u. (sc_name (hd c), sc_name u) \<in> joined (links p (non_tp_stages stages))) (non_tp_stages stages)"
    "\<forall>s \<in> set (non_tp_stages stages). \<exists>c \<in> set cs. s \<in> set c"
    by (rule built_groups [OF assms])
  have names: "distinct (map sc_name (non_tp_stages stages))"
    by (rule non_tp(1) [OF assms(2)])
  then have "distinct (non_tp_stages stages)"
    by (simp add: distinct_map)
  note part = classes_partition [OF cs(2) this cs(3,4)]
  have concat: "concat (map pg_stage_names (tp_groups t)) = map sc_name (concat cs)"
    by (simp add: cs(1) map_concat)
  have inj: "inj_on sc_name (set (non_tp_stages stages))"
    using names by (simp add: distinct_map)
  have image: "pg_stage_names ` set (tp_groups t) = map sc_name ` set cs"
    using arg_cong [OF cs(1), of set] by simp
  have group: "(\<exists>g \<in> set (tp_groups t). n \<in> set (pg_stage_names g) \<and> m \<in> set (pg_stage_names g)) \<longleftrightarrow>
      (\<exists>c \<in> set cs. n \<in> sc_name ` set c \<and> m \<in> sc_name ` set c)" for n m
  proof -
    have "(\<exists>x \<in> pg_stage_names ` set (tp_groups t). n \<in> set x \<and> m \<in> set x) \<longleftrightarrow> (\<exists>x \<in> map sc_name ` set cs. n \<in> set x \<and> m \<in> set x)"
      by (simp only: image)
    then show ?thesis
      by simp
  qed
  have mem: "sc_name s \<in> sc_name ` set c \<longleftrightarrow> s \<in> set c" if "c \<in> set cs" "s \<in> set (non_tp_stages stages)" for c s
    using that part inj by (auto dest: inj_onD)
  have "distinct (map sc_name (concat cs))"
    using part inj by (simp add: distinct_map)
  moreover have "(\<exists>g \<in> set (tp_groups t). sc_name s \<in> set (pg_stage_names g) \<and> sc_name u \<in> set (pg_stage_names g)) \<longleftrightarrow>
       (sc_name s, sc_name u) \<in> joined (links p (non_tp_stages stages))"
    if "s \<in> set (non_tp_stages stages)" "u \<in> set (non_tp_stages stages)" for s u
    unfolding group using mem that part by blast
  ultimately show ?thesis
    using part unfolding concat by simp
qed


lemma process_groups_distinct:
  assumes "build_topology fl p plan stages = Some (Inr t)" and "distinct (map sc_name stages)"
  shows "distinct (concat (map pg_stage_names (tp_groups t)))"
proof -
  obtain cs where cs: "map pg_stage_names (tp_groups t) = map (map sc_name) cs" "distinct cs"
    "\<forall>c \<in> set cs. c \<noteq> [] \<and> c = filter (\<lambda>u. (sc_name (hd c), sc_name u) \<in> joined (links p (non_tp_stages stages))) (non_tp_stages stages)"
    "\<forall>s \<in> set (non_tp_stages stages). \<exists>c \<in> set cs. s \<in> set c"
    by (rule built_groups [OF assms])
  have names: "distinct (map sc_name (non_tp_stages stages))"
    by (rule non_tp(1) [OF assms(2)])
  then have "distinct (non_tp_stages stages)" "inj_on sc_name (set (non_tp_stages stages))"
    by (simp_all add: distinct_map)
  then have "distinct (map sc_name (concat cs))"
    using classes_partition [OF cs(2) _ cs(3,4)] by (simp add: distinct_map)
  then show ?thesis
    by (simp add: cs(1) map_concat)
qed

lemma class_member:
  assumes "\<forall>c \<in> set cs. c \<noteq> [] \<and> c = filter (\<lambda>u. (sc_name (hd c), sc_name u) \<in> joined L) stages" and "c \<in> set cs"
  shows "u \<in> set c \<longleftrightarrow> u \<in> set stages \<and> (sc_name (hd c), sc_name u) \<in> joined L"
proof -
  have "c = filter (\<lambda>u. (sc_name (hd c), sc_name u) \<in> joined L) stages"
    using assms by blast
  from arg_cong [OF this, of "\<lambda>xs. u \<in> set xs"] show ?thesis
    by simp
qed

lemma group_gpus:
  assumes "resolve_group_gpu_id plan c = Inr gpu" and "s \<in> set c"
  shows "set (known_gpu_ids plan s) \<subseteq> set_option gpu"
proof -
  define ids where "ids = remdups (concat (map (known_gpu_ids plan) c))"
  have "set (known_gpu_ids plan s) \<subseteq> set ids"
    using assms(2) by (auto simp: ids_def)
  moreover have "set ids \<subseteq> set_option gpu"
    using assms(1) unfolding resolve_group_gpu_id_def ids_def [symmetric] by (auto split: list.splits)
  ultimately show ?thesis
    by blast
qed

lemma group_use_listed:
  assumes "mapE (group_uses plan stages) gs = Inr gus" and "g \<in> set gs" and "distinct (map sc_name stages)"
    and "s \<in> set stages" and "sc_name s \<in> set (pg_stage_names g)" and "gpu \<in> set (known_gpu_ids plan s)"
  shows "\<lparr>gu_gpu = gpu, gu_process = pg_name g, gu_stage = s\<rparr> \<in> set (concat gus)"
proof -
  let ?uses = "\<lambda>s. map (\<lambda>gpu. \<lparr>gu_gpu = gpu, gu_process = pg_name g, gu_stage = s\<rparr>) (known_gpu_ids plan s)"
  obtain us where us: "group_uses plan stages g = Inr us" "us \<in> set gus"
    using mapE_Inr_image [OF assms(1,2)] by blast
  then obtain uss where uss: "us = concat uss" "mapE (\<lambda>n. bindE (lookup_stage stages n) (\<lambda>s. Inr (?uses s))) (pg_stage_names g) = Inr uss"
    by (auto simp: group_uses_def)
  obtain y where y: "y \<in> set uss" "bindE (lookup_stage stages (sc_name s)) (\<lambda>s. Inr (?uses s)) = Inr y"
    using mapE_Inr_image [OF uss(2) assms(5)] by blast
  have "lookup_stage stages (sc_name s) = Inr s"
    using stage_by_name_eq [OF assms(3,4)] by (simp add: lookup_stage_ok)
  then have "y = ?uses s"
    using y(2) by simp
  then have "\<lparr>gu_gpu = gpu, gu_process = pg_name g, gu_stage = s\<rparr> \<in> set y"
    using assms(6) by simp
  then have "\<lparr>gu_gpu = gpu, gu_process = pg_name g, gu_stage = s\<rparr> \<in> set us"
    using y(1) unfolding uss(1) set_concat by blast
  then show ?thesis
    using us(2) unfolding set_concat by blast
qed

lemma two_members:
  assumes "x \<in> set xs" and "y \<in> set xs" and "x \<noteq> y"
  shows "\<not> length (remdups xs) \<le> 1"
proof -
  have "card {x, y} \<le> card (set xs)"
    using assms(1,2) by (intro card_mono) simp_all
  moreover have "card {x, y} = 2"
    using assms(3) by simp
  ultimately show ?thesis
    by (simp only: length_remdups_card_conv)
qed

text \<open>C31: all processes of an accepted plan, of groups and of tensor-parallel ranks, have different names.\<close>

theorem process_names_are_unique:
  assumes "build_topology fl p plan stages = Some (Inr t)" and "distinct (map sc_name stages)"
  shows "distinct (map pg_name (tp_groups t) @ concat (map snd (tp_ranks t)))"
proof -
  obtain cs where cs: "map pg_stage_names (tp_groups t) = map (map sc_name) cs" "distinct (map pg_name (tp_groups t))"
    and ne: "\<forall>c \<in> set cs. c \<noteq> [] \<and> c = filter (\<lambda>u. (sc_name (hd c), sc_name u) \<in> joined (links p (non_tp_stages stages))) (non_tp_stages stages)"
    by (rule built_groups [OF assms])
  have "distinct (concat (map pg_stage_names (tp_groups t)))"
    using process_groups_distinct [OF assms] .
  moreover have "\<forall>g \<in> set (tp_groups t). pg_stage_names g \<noteq> []"
  proof
    fix g
    assume "g \<in> set (tp_groups t)"
    then have "pg_stage_names g \<in> set (map (map sc_name) cs)"
      unfolding cs(1) [symmetric] by simp
    then show "pg_stage_names g \<noteq> []"
      using ne by auto
  qed
  ultimately have "snd ` set (tp_stage_to_process t) = pg_name ` set (tp_groups t)"
    unfolding built_topology(2) [OF assms(1)] by (rule stage_to_process_names)
  then show ?thesis
    using built_topology(4) [OF assms(1)] cs(2) by (simp add: validate_process_names_def Let_def)
qed

text \<open>
  with an accepted configuration, the stages of a fused group run in one process, and that
  process group uses at most one GPU.
\<close>

theorem fused_groups_share_a_process:
  assumes "validate_config p = Inr ()" and "build_topology fl p plan (pl_stages p) = Some (Inr t)" and "f \<in> set (pl_fused_stages p)"
  shows "\<exists>g \<in> set (tp_groups t). set f \<subseteq> set (pg_stage_names g) \<and>
    (\<forall>s \<in> set (pl_stages p). sc_name s \<in> set (pg_stage_names g) \<longrightarrow> set (known_gpu_ids plan s) \<subseteq> set_option (pg_gpu_id g))"
proof -
  have d: "distinct (map sc_name (pl_stages p))"
    using validate_general_ok(1) [OF validate_config_ok(1) [OF assms(1)]] by (simp add: stage_names_def)
  obtain ss where ss: "2 \<le> length f" "set ss \<subseteq> set (pl_stages p)" "map sc_name ss = f" "fused_chain ss"
    by (rule fused_group_stages [OF assms(1,3)])
  have tp: "set ss \<subseteq> set (non_tp_stages (pl_stages p))"
    using ss(2,4) by (auto simp: fused_chain_def non_tp_stages_def)
  obtain s0 where s0: "s0 \<in> set ss"
    using ss(1,3) by (cases ss) auto
  obtain cs where cs: "map pg_stage_names (tp_groups t) = map (map sc_name) cs"
    "map (\<lambda>g. Inr (pg_gpu_id g)) (tp_groups t) = map (resolve_group_gpu_id plan) cs"
    "\<forall>c \<in> set cs. c \<noteq> [] \<and> c = filter (\<lambda>u. (sc_name (hd c), sc_name u) \<in> joined (links p (non_tp_stages (pl_stages p)))) (non_tp_stages (pl_stages p))"
    "\<forall>s \<in> set (non_tp_stages (pl_stages p)). \<exists>c \<in> set cs. s \<in> set c"
    by (rule built_groups [OF assms(2) d])
  obtain c where c: "c \<in> set cs" "s0 \<in> set c"
    using cs(4) s0 tp by blast
  have cdef: "u \<in> set c \<longleftrightarrow> u \<in> set (non_tp_stages (pl_stages p)) \<and> (sc_name (hd c), sc_name u) \<in> joined (links p (non_tp_stages (pl_stages p)))" for u
    using cs(3) c(1) by (rule class_member)
  have "set ss \<subseteq> set c"
  proof
    fix u
    assume u: "u \<in> set ss"
    have "(sc_name s0, sc_name u) \<in> links p (non_tp_stages (pl_stages p))"
      using s0 u tp ss(3) assms(3) by (intro linksI disjI2 bexI [of _ f]) auto
    then show "u \<in> set c"
      using cdef [of s0] cdef [of u] c(2) u tp joined_pair joined_trans by blast
  qed
  moreover obtain k where k: "k < length cs" "c = cs ! k"
    using c(1) by (auto simp: in_set_conv_nth)
  have l: "length (tp_groups t) = length cs"
    using arg_cong [OF cs(1), of length] by simp
  let ?g = "tp_groups t ! k"
  have names: "pg_stage_names ?g = map sc_name c"
    using arg_cong [OF cs(1), of "\<lambda>xs. xs ! k"] k l by simp
  moreover have "resolve_group_gpu_id plan c = Inr (pg_gpu_id ?g)"
    using arg_cong [OF cs(2), of "\<lambda>xs. xs ! k"] k l by simp
  then have "set (known_gpu_ids plan s) \<subseteq> set_option (pg_gpu_id ?g)" if "s \<in> set c" for s
    using group_gpus [OF _ that] by blast
  moreover have "s \<in> set c" if "s \<in> set (pl_stages p)" "sc_name s \<in> sc_name ` set c" for s
    using that d cdef by (auto simp: distinct_map non_tp_stages_def dest: inj_onD)
  moreover have "set f \<subseteq> sc_name ` set c"
    using image_mono [OF calculation(1), of sc_name] arg_cong [OF ss(3), of set] by simp
  ultimately show ?thesis
    using k l by (intro bexI [of _ ?g]) simp_all
qed

text \<open>
  The processes of a plan that run a stage on a GPU: those of the process groups, and for a stage with
  tensor parallelism the process of each rank, on the GPU of that rank.
\<close>

definition group_process :: "placement_plan \<Rightarrow> topology_plan \<Rightarrow> string \<Rightarrow> stage_spec \<Rightarrow> int \<Rightarrow> bool" where
  "group_process plan t name s gpu \<longleftrightarrow>
     (\<exists>g \<in> set (tp_groups t). pg_name g = name \<and> sc_name s \<in> set (pg_stage_names g)) \<and> gpu \<in> set (known_gpu_ids plan s)"

definition rank_process :: "placement_plan \<Rightarrow> topology_plan \<Rightarrow> string \<Rightarrow> stage_spec \<Rightarrow> int \<Rightarrow> bool" where
  "rank_process plan t name s gpu \<longleftrightarrow> sc_tp_size s > 1 \<and>
     (\<exists>names rank. map_of (tp_ranks t) (sc_name s) = Some names \<and> rank < length names \<and> names ! rank = name \<and>
        rank < length (resolve_stage_gpu_ids plan s) \<and> resolve_stage_gpu_ids plan s ! rank = Some gpu)"

lemma rank_use_listed:
  assumes "mapE (tp_uses t plan) (filter (\<lambda>s. sc_tp_size s > 1) stages) = Inr tus" and "s \<in> set stages"
    and "rank_process plan t name s gpu"
  shows "\<lparr>gu_gpu = gpu, gu_process = name, gu_stage = s\<rparr> \<in> set (concat tus)"
proof -
  let ?ids = "resolve_stage_gpu_ids plan s"
  obtain names rank where r: "map_of (tp_ranks t) (sc_name s) = Some names" "rank < length names" "names ! rank = name"
    "rank < length ?ids" "?ids ! rank = Some gpu" "sc_tp_size s > 1"
    using assms(3) by (auto simp: rank_process_def)
  then obtain us where us: "us \<in> set tus" "tp_uses t plan s = Inr us"
    using mapE_Inr_image [OF assms(1), of s] assms(2) by auto
  then obtain uss where uss: "mapE (rank_use t s) (zip [0..<length ?ids] ?ids) = Inr uss" "us = concat uss"
    by (auto simp: tp_uses_def Let_def bindE_eq_Inr)
  have "(rank, Some gpu) \<in> set (zip [0..<length ?ids] ?ids)"
    using r(4,5) by (force simp: set_zip)
  then obtain xs where "xs \<in> set uss" "rank_use t s (rank, Some gpu) = Inr xs"
    using mapE_Inr_image [OF uss(1)] by blast
  then show ?thesis
    using us(1) uss(2) r(1-3) by (force simp: rank_use_def)
qed

text \<open>
  C32: on a GPU that several processes of an accepted plan use, process groups or ranks of stages with
  tensor parallelism alike, every stage declares its memory fraction if the configuration requires it,
  and the planned total is within the limit.
\<close>

theorem shared_gpus_are_budgeted:
  assumes "build_topology fl p plan stages = Some (Inr t)" and "distinct (map sc_name stages)"
    and "s \<in> set stages" and "u \<in> set stages"
    and "group_process plan t g s gpu \<or> rank_process plan t g s gpu"
    and "group_process plan t h u gpu \<or> rank_process plan t h u gpu" and "g \<noteq> h"
  shows "(pl_require_fraction p \<longrightarrow> sc_fraction s \<noteq> PNone) \<and>
    (\<exists>gp. map_of (pp_gpus plan) gpu = Some gp \<and> \<not> fl_over fl (pl_max_fraction p) (gp_total gp))"
proof -
  obtain gus tus where us: "mapE (group_uses plan stages) (tp_groups t) = Inr gus"
    "mapE (tp_uses t plan) (filter (\<lambda>s. sc_tp_size s > 1) stages) = Inr tus"
    and chk: "\<exists>us. mapE (check_gpu fl p plan (concat gus @ concat tus)) (remdups (map gu_gpu (concat gus @ concat tus))) = Inr us"
    using built_topology(5) [OF assms(1)] by (auto simp: validate_colocation_def Let_def)
  let ?uses = "concat gus @ concat tus"
  have use: "\<lparr>gu_gpu = gpu, gu_process = x, gu_stage = v\<rparr> \<in> set ?uses"
    if "group_process plan t x v gpu \<or> rank_process plan t x v gpu" "v \<in> set stages" for x v
    using that(1)
  proof
    assume "group_process plan t x v gpu"
    then show ?thesis
      using group_use_listed [OF us(1) _ assms(2) that(2)] by (auto simp: group_process_def)
  next
    assume "rank_process plan t x v gpu"
    then show ?thesis
      using rank_use_listed [OF us(2) that(2)] by simp
  qed
  let ?a = "\<lparr>gu_gpu = gpu, gu_process = g, gu_stage = s\<rparr>" and ?b = "\<lparr>gu_gpu = gpu, gu_process = h, gu_stage = u\<rparr>"
  have ab: "?a \<in> set ?uses" "?b \<in> set ?uses"
    using use [OF assms(5,3)] use [OF assms(6,4)] by blast+
  then have "\<not> length (remdups (map gu_process (filter (\<lambda>u. gu_gpu u = gpu) ?uses))) \<le> 1"
    using assms(7) by (intro two_members [of g _ h]) force+
  moreover have "check_gpu fl p plan ?uses gpu = Inr ()"
  proof -
    have "gpu \<in> set (remdups (map gu_gpu ?uses))"
      using ab(1) by force
    then show ?thesis
      using chk mapE_Inr_image by (metis (full_types) old.unit.exhaust)
  qed
  ultimately show ?thesis
    using ab(1) by (force simp: check_gpu_def Let_def list_ex_iff split: option.splits)
qed

section \<open>An example\<close>

definition demo_group :: "string \<Rightarrow> string list \<Rightarrow> int option \<Rightarrow> process_group" where
  "demo_group name ss gpu = \<lparr>pg_name = name, pg_stage_names = ss, pg_gpu_id = gpu\<rparr>"

definition demo_topology :: topology_plan where
  "demo_topology = \<lparr>tp_groups = [demo_group ''p'' [''pre''] None, demo_group ''fused_enc_dec'' [''enc'', ''dec''] (Some 0),
       demo_group ''v'' [''voc''] (Some 0)],
     tp_stage_to_process = [(''pre'', ''p''), (''enc'', ''fused_enc_dec''), (''dec'', ''fused_enc_dec''), (''voc'', ''v'')],
     tp_ranks = [(''talk'', [''v_tp0'', ''v_tp1''])]\<rparr>"

lemma demo_built: "build_topology demo_floats demo_pipeline demo_placement (pl_stages demo_pipeline) = Some (Inr demo_topology)"
  by code_simp

lemma demo_distinct: "distinct (map sc_name (pl_stages demo_pipeline))"
  by code_simp

lemma topology_builder_returns_witness:
  "build_topology demo_floats demo_pipeline demo_placement (pl_stages demo_pipeline) \<noteq> None"
  by (rule topology_builder_returns [OF demo_distinct])

lemma process_groups_are_components_witness:
  "set (concat (map pg_stage_names (tp_groups demo_topology))) = {''pre'', ''enc'', ''dec'', ''voc''}"
proof -
  have "map sc_name (non_tp_stages (pl_stages demo_pipeline)) = [''pre'', ''enc'', ''dec'', ''voc'']"
    by code_simp
  from arg_cong [OF this, of set] have "sc_name ` set (non_tp_stages (pl_stages demo_pipeline)) = {''pre'', ''enc'', ''dec'', ''voc''}"
    by simp
  moreover have "set (concat (map pg_stage_names (tp_groups demo_topology))) = sc_name ` set (non_tp_stages (pl_stages demo_pipeline))"
    using process_groups_are_components [OF demo_built demo_distinct] by (elim conjE)
  ultimately show ?thesis
    by (simp only:)
qed

lemma process_names_are_unique_witness:
  "distinct (map pg_name (tp_groups demo_topology) @ concat (map snd (tp_ranks demo_topology)))"
  by (rule process_names_are_unique [OF demo_built demo_distinct])

lemma fused_groups_share_a_process_witness: "\<exists>g \<in> set (tp_groups demo_topology). {''enc'', ''dec''} \<subseteq> set (pg_stage_names g)"
proof -
  have "[''enc'', ''dec''] \<in> set (pl_fused_stages demo_pipeline)"
    by (simp add: demo_pipeline_def)
  from fused_groups_share_a_process [OF demo_valid demo_built this]
  obtain g where "g \<in> set (tp_groups demo_topology)" "set [''enc'', ''dec''] \<subseteq> set (pg_stage_names g)"
    by blast
  then show ?thesis
    by (intro bexI [of _ g]) simp_all
qed

lemma shared_gpus_are_budgeted_witness:
  "\<exists>gp. map_of (pp_gpus demo_placement) 0 = Some gp \<and> \<not> fl_over demo_floats (PInt 200) (gp_total gp)"
proof -
  let ?s = "demo_stage ''enc'' ''e'' (One_Gpu 0) (One_Next ''dec'')" and ?u = "demo_stage ''voc'' ''v'' (One_Gpu 0) (One_Next ''talk'')"
  have stages: "?s \<in> set (pl_stages demo_pipeline)" "?u \<in> set (pl_stages demo_pipeline)"
    by (simp_all add: demo_pipeline_def)
  have "0 \<in> set (known_gpu_ids demo_placement ?s)" "0 \<in> set (known_gpu_ids demo_placement ?u)"
    by code_simp+
  then have uses: "group_process demo_placement demo_topology ''fused_enc_dec'' ?s 0"
    "group_process demo_placement demo_topology ''v'' ?u 0"
    by (simp_all add: group_process_def demo_topology_def demo_group_def demo_stage_def)
  have "pl_max_fraction demo_pipeline = PInt 200"
    by (simp add: demo_pipeline_def)
  then show ?thesis
    using shared_gpus_are_budgeted [OF demo_built demo_distinct stages disjI1 [OF uses(1)] disjI1 [OF uses(2)]] by simp
qed

end
