(* ===== verification/Slot_Pool.thy ===== *)
theory Slot_Pool
  imports Prelude
begin

text \<open>
  The sender-side slot pool of the CUDA-IPC relay, \<open>sglang_omni/relay/cuda_ipc.py\<close>: the allocator of
  contiguous slots, the calls of \<open>put_async\<close> around it as steps between their awaits, and the checks a
  receiver makes of a transfer. The calls are those of GPU tensors with a receiver identity; tensors, streams, events of the GPU and traces are left out.
\<close>

section \<open>The allocator\<close>

record slot_pool =
  al_size :: nat
  al_free :: "bool list"
  al_free_slots :: int

definition new_slot_pool :: "int \<Rightarrow> int \<Rightarrow> slot_pool result" where
  "new_slot_pool count slot_size =
     bindE (guardE (count > 0) (ValueError ''slot_count must be positive'')) (\<lambda>_.
     bindE (guardE (slot_size > 0) (ValueError ''slot_size must be positive'')) (\<lambda>_.
     Inr \<lparr>al_size = nat slot_size, al_free = replicate (nat count) True, al_free_slots = count\<rparr>))"

definition slots_for_size :: "int \<Rightarrow> int \<Rightarrow> int result" where
  "slots_for_size bytes slot_size =
     bindE (guardE (bytes \<ge> 0) (ValueError ''cuda_ipc transfer size must be non-negative'')) (\<lambda>_.
     Inr (max 1 ((bytes + slot_size - 1) div slot_size)))"

text \<open>The scan of \<open>_find_contiguous\<close>, with the index it has reached and the current run.\<close>

fun find_run :: "nat \<Rightarrow> bool list \<Rightarrow> nat \<Rightarrow> nat \<Rightarrow> nat \<Rightarrow> nat option" where
  "find_run n [] index run_start run_len = None"
| "find_run n (free # fs) index run_start run_len =
     (if free then
        (let run_start = (if run_len = 0 then index else run_start); run_len = run_len + 1
         in if run_len = n then Some run_start else find_run n fs (index + 1) run_start run_len)
      else find_run n fs (index + 1) run_start 0)"

definition find_contiguous :: "nat \<Rightarrow> bool list \<Rightarrow> nat option" where
  "find_contiguous n free = find_run n free 0 0 0"

record slot_layout =
  ly_slot :: "nat option"
  ly_free_slots :: nat
  ly_largest_free_run :: nat
  ly_free_runs :: nat

fun scan_layout :: "nat \<Rightarrow> bool list \<Rightarrow> nat \<Rightarrow> nat \<Rightarrow> nat \<Rightarrow> bool \<Rightarrow> slot_layout \<Rightarrow> slot_layout" where
  "scan_layout n [] index run_start run_len in_run l = l"
| "scan_layout n (free # fs) index run_start run_len in_run l =
     (if free then
        (let l = l\<lparr>ly_free_slots := ly_free_slots l + 1\<rparr>;
             l = (if in_run then l else l\<lparr>ly_free_runs := ly_free_runs l + 1\<rparr>);
             run_start = (if in_run then run_start else index);
             run_len = (if in_run then run_len else 0) + 1;
             l = l\<lparr>ly_largest_free_run := max (ly_largest_free_run l) run_len\<rparr>;
             l = (if ly_slot l = None \<and> run_len \<ge> n then l\<lparr>ly_slot := Some run_start\<rparr> else l)
         in scan_layout n fs (index + 1) run_start run_len True l)
      else scan_layout n fs (index + 1) run_start 0 False l)"

definition find_contiguous_with_layout :: "nat \<Rightarrow> bool list \<Rightarrow> slot_layout" where
  "find_contiguous_with_layout n free =
     scan_layout n free 0 0 0 False \<lparr>ly_slot = None, ly_free_slots = 0, ly_largest_free_run = 0, ly_free_runs = 0\<rparr>"

text \<open>\<open>for index in range(k, k + n): self._free[index] = b\<close>.\<close>

definition set_range :: "nat \<Rightarrow> nat \<Rightarrow> bool \<Rightarrow> bool list \<Rightarrow> bool list" where
  "set_range k n b free = fold (\<lambda>i fs. fs[i := b]) [k..<k + n] free"

text \<open>One round of \<open>acquire_async\<close> under its lock; the result is the offset.\<close>

definition acquire_run :: "nat \<Rightarrow> slot_pool \<Rightarrow> nat option \<times> slot_pool" where
  "acquire_run n a = (case find_contiguous n (al_free a) of
     None \<Rightarrow> (None, a)
   | Some k \<Rightarrow> (Some (k * al_size a), a\<lparr>al_free := set_range k n False (al_free a), al_free_slots := al_free_slots a - int n\<rparr>))"

definition release_slots :: "int \<Rightarrow> int \<Rightarrow> slot_pool \<Rightarrow> slot_pool result" where
  "release_slots offset n a =
     bindE (guardE (n > 0) (ValueError ''num_slots must be positive'')) (\<lambda>_.
     bindE (guardE (offset mod int (al_size a) = 0) (ValueError ''offset must be slot aligned'')) (\<lambda>_.
     let k = offset div int (al_size a) in
     bindE (guardE (0 \<le> k \<and> k + n \<le> int (length (al_free a))) (ValueError ''slot range is outside the pool'')) (\<lambda>_.
     bindE (guardE (list_all (\<lambda>i. \<not> al_free a ! i) [nat k..<nat (k + n)]) (RuntimeError ''cuda_ipc slot released twice'')) (\<lambda>_.
     Inr (a\<lparr>al_free := set_range (nat k) (nat n) True (al_free a), al_free_slots := al_free_slots a + n\<rparr>)))))"

section \<open>Lemmas on runs\<close>

definition free_at :: "nat \<Rightarrow> nat \<Rightarrow> bool list \<Rightarrow> bool" where
  "free_at k n free \<longleftrightarrow> k + n \<le> length free \<and> (\<forall>i. k \<le> i \<longrightarrow> i < k + n \<longrightarrow> free ! i)"

lemma length_set_range [simp]: "length (set_range k n b free) = length free"
  unfolding set_range_def by (induction n arbitrary: free) simp_all

lemma nth_set_range:
  "i < length free \<Longrightarrow> set_range k n b free ! i = (if k \<le> i \<and> i < k + n then b else free ! i)"
proof (induction n)
  case (Suc n)
  have "set_range k (Suc n) b free = (set_range k n b free)[k + n := b]"
    by (simp add: set_range_def)
  then show ?case
    using Suc by (cases "i = k + n") (simp_all add: nth_list_update)
qed (auto simp: set_range_def)

text \<open>The scan keeps the longest run ending at its index and has passed no run of \<open>n\<close>.\<close>

lemma find_run_spec:
  assumes "n > 0" and "run_len < n" and "run_len \<le> index" and "run_len > 0 \<Longrightarrow> run_start = index - run_len"
    and "length pre = index" and "\<forall>i. index - run_len \<le> i \<longrightarrow> i < index \<longrightarrow> pre ! i" and "run_len < index \<Longrightarrow> \<not> pre ! (index - run_len - 1)"
    and "\<forall>k. \<not> free_at k n pre"
  shows "find_run n fs index run_start run_len =
    (if \<exists>k. free_at k n (pre @ fs) then Some (LEAST k. free_at k n (pre @ fs)) else None)"
  using assms(2-8)
proof (induction fs arbitrary: index run_start run_len pre)
  case (Cons free fs)
  note IH = Cons.IH
  show ?case
  proof (cases free)
    case True
    let ?start = "if run_len = 0 then index else run_start"
    have start: "?start = index - run_len"
      using Cons.prems(3) by auto
    show ?thesis
    proof (cases "Suc run_len = n")
      case full: True
      have here: "free_at (index - run_len) n (pre @ free # fs)"
        unfolding free_at_def
      proof (intro conjI allI impI)
        show "index - run_len + n \<le> length (pre @ free # fs)"
          using full Cons.prems(2,4) by simp
        fix i
        assume "index - run_len \<le> i" "i < index - run_len + n"
        then show "(pre @ free # fs) ! i"
          using full True Cons.prems(2,4,5) by (cases "i < index") (auto simp: nth_append)
      qed
      have "index - run_len \<le> k" if k: "free_at k n (pre @ free # fs)" for k
      proof (rule ccontr)
        assume "\<not> index - run_len \<le> k"
        then have "k + n \<le> index"
          using full Cons.prems(2) by simp
        then have "free_at k n pre"
          using k Cons.prems(4) unfolding free_at_def by (auto simp: nth_append)
        then show False
          using Cons.prems(7) by blast
      qed
      then have "(LEAST k. free_at k n (pre @ free # fs)) = index - run_len"
        using here by (intro Least_equality) auto
      then show ?thesis
        using here True full start by (auto simp: Let_def)
    next
      case False
      have no: "\<not> free_at k n (pre @ [free])" for k
      proof
        assume k: "free_at k n (pre @ [free])"
        then have "k + n \<le> Suc index"
          using Cons.prems(4) by (simp add: free_at_def)
        moreover have "k + n \<noteq> Suc index"
        proof
          assume e: "k + n = Suc index"
          then have "run_len < index"
            using False Cons.prems(1) by simp
          moreover have "k \<le> index - run_len - 1"
            using e False Cons.prems(1) by simp
          ultimately show False
            using k Cons.prems(4) Cons.prems(6) e by (auto simp: free_at_def nth_append)
        qed
        ultimately have "free_at k n pre"
          using k Cons.prems(4) unfolding free_at_def by (auto simp: nth_append)
        then show False
          using Cons.prems(7) by blast
      qed
      have "find_run n fs (Suc index) (index - run_len) (Suc run_len) =
          (if \<exists>k. free_at k n ((pre @ [free]) @ fs) then Some (LEAST k. free_at k n ((pre @ [free]) @ fs)) else None)"
        using False True no Cons.prems by (intro IH) (auto simp: nth_append)
      then show ?thesis
        using True False start by (simp add: Let_def)
    qed
  next
    case False
    have no: "\<not> free_at k n (pre @ [free])" for k
    proof
      assume k: "free_at k n (pre @ [free])"
      have "k + n \<noteq> Suc index"
      proof
        assume "k + n = Suc index"
        then have "(pre @ [free]) ! index"
          using k assms(1) unfolding free_at_def by simp
        then show False
          using False Cons.prems(4) by (simp add: nth_append)
      qed
      then have "free_at k n pre"
        using k Cons.prems(4) unfolding free_at_def by (auto simp: nth_append)
      then show False
        using Cons.prems(7) by blast
    qed
    have "find_run n fs (Suc index) run_start 0 =
        (if \<exists>k. free_at k n ((pre @ [free]) @ fs) then Some (LEAST k. free_at k n ((pre @ [free]) @ fs)) else None)"
      using False no assms(1) Cons.prems(4) by (intro IH) (auto simp: nth_append)
    then show ?thesis
      using False by simp
  qed
qed (simp)

lemma find_contiguous_least:
  assumes "n > 0"
  shows "find_contiguous n free = (if \<exists>k. free_at k n free then Some (LEAST k. free_at k n free) else None)"
proof -
  have "\<forall>k. \<not> free_at k n []"
    using assms by (simp add: free_at_def)
  then show ?thesis
    using find_run_spec [OF assms, of 0 0 0 "[]" free] assms by (simp add: find_contiguous_def)
qed

lemma find_contiguous_free:
  assumes "n > 0" and "find_contiguous n free = Some k"
  shows "free_at k n free"
  using assms by (auto simp: find_contiguous_least split: if_splits intro: LeastI)

lemma find_contiguous_none:
  "n > 0 \<Longrightarrow> find_contiguous n free = None \<longleftrightarrow> (\<forall>k. \<not> free_at k n free)"
  by (simp add: find_contiguous_least)

text \<open>The scan that also measures the layout finds the same slot.\<close>

lemma scan_layout_slot:
  assumes "n > 0" and "in_run \<longleftrightarrow> run_len > 0" and "ly_slot l = None \<Longrightarrow> run_len < n"
  shows "ly_slot (scan_layout n fs index run_start run_len in_run l) =
      (case ly_slot l of Some k \<Rightarrow> Some k | None \<Rightarrow> find_run n fs index run_start run_len) \<and>
    ly_free_slots (scan_layout n fs index run_start run_len in_run l) = ly_free_slots l + length (filter (\<lambda>b. b) fs)"
  using assms(2,3)
proof (induction fs arbitrary: index run_start run_len in_run l)
  case (Cons free fs)
  show ?case
  proof (cases free)
    case True
    define start where "start = (if in_run then run_start else index)"
    define len where "len = (if in_run then run_len else 0) + 1"
    define l1 where "l1 = (let l = l\<lparr>ly_free_slots := ly_free_slots l + 1\<rparr>;
         l = (if in_run then l else l\<lparr>ly_free_runs := ly_free_runs l + 1\<rparr>);
         l = l\<lparr>ly_largest_free_run := max (ly_largest_free_run l) len\<rparr>
       in if ly_slot l = None \<and> len \<ge> n then l\<lparr>ly_slot := Some start\<rparr> else l)"
    have l1: "ly_slot l1 = (if ly_slot l = None \<and> len \<ge> n then Some start else ly_slot l)" "ly_free_slots l1 = ly_free_slots l + 1"
      by (simp_all add: l1_def Let_def)
    have step: "scan_layout n (free # fs) index run_start run_len in_run l = scan_layout n fs (index + 1) start len True l1"
      using True by (simp add: l1_def start_def len_def Let_def)
    have "len = Suc run_len" "start = (if run_len = 0 then index else run_start)"
      using Cons.prems(1) by (auto simp: len_def start_def)
    then show ?thesis
      using Cons.IH [of True len l1 "index + 1" start] Cons.prems(2) True l1 unfolding step
      by (auto simp: Let_def split: option.split)
  next
    case False
    then show ?thesis
      using Cons.IH [of False 0 l] assms(1) by (simp split: option.split)
  qed
qed (simp split: option.split)

lemma layout_agrees:
  "n > 0 \<Longrightarrow> ly_slot (find_contiguous_with_layout n free) = find_contiguous n free \<and>
    ly_free_slots (find_contiguous_with_layout n free) = length (filter (\<lambda>b. b) free)"
  using scan_layout_slot [of n False 0] by (simp add: find_contiguous_with_layout_def find_contiguous_def)

section \<open>Calls around the pool\<close>

text \<open>
  Where a call of \<open>put_async\<close> stands. \<open>Waiting n woken\<close>: its acquire task needs \<open>n\<close> slots and is about to
  look (\<open>woken\<close>) or asleep on the event; \<open>Granted\<close>: the task has the slots but the call has not run
  on; \<open>Holding\<close>: the put operation owns the slots; \<open>Kept\<close>: the operation failed and the slots stay taken;
  \<open>Cancelled\<close>: the call, or the wait of its
  operation, was cancelled, with the slots nobody gives back.
\<close>

datatype put_phase =
    Waiting nat bool
  | Granted nat nat
  | Holding nat nat
  | Kept nat nat
  | Cancelled "(nat \<times> nat) option"
  | Put_Ended "unit result"

record relay_pool =
  rp_alloc :: slot_pool
  rp_failed :: "py_error option"
  rp_puts :: "put_phase list"

definition set_put :: "nat \<Rightarrow> put_phase \<Rightarrow> relay_pool \<Rightarrow> relay_pool" where
  "set_put i p s = s\<lparr>rp_puts := (rp_puts s)[i := p]\<rparr>"

definition wake :: "put_phase \<Rightarrow> put_phase" where
  "wake p = (case p of Waiting n w \<Rightarrow> Waiting n True | _ \<Rightarrow> p)"

text \<open>\<open>put_async\<close> up to the creation of its acquire task.\<close>

definition begin_put :: "int \<Rightarrow> relay_pool \<Rightarrow> relay_pool" where
  "begin_put bytes s =
     (let p = (if rp_failed s \<noteq> None then Put_Ended (Inl (RuntimeError ''cuda_ipc relay failed''))
               else case slots_for_size bytes (int (al_size (rp_alloc s))) of
                 Inl e \<Rightarrow> Put_Ended (Inl e)
               | Inr n \<Rightarrow> (if n > int (length (al_free (rp_alloc s))) then Put_Ended (Inl (ValueError ''Tensor requires more slots than the pool has''))
                   else Waiting (nat n) True))
      in s\<lparr>rp_puts := rp_puts s @ [p]\<rparr>)"

text \<open>One round of the acquire task.\<close>

definition acquire_round :: "nat \<Rightarrow> nat \<Rightarrow> relay_pool \<Rightarrow> relay_pool" where
  "acquire_round i n s = (case acquire_run n (rp_alloc s) of
     (None, a) \<Rightarrow> set_put i (Waiting n False) s
   | (Some offset, a) \<Rightarrow> set_put i (Granted offset n) (s\<lparr>rp_alloc := a\<rparr>))"

text \<open>\<open>release\<close> sets the event, which wakes every sleeper.\<close>

definition give_back :: "nat \<Rightarrow> nat \<Rightarrow> relay_pool \<Rightarrow> relay_pool result" where
  "give_back offset n s = bindE (release_slots (int offset) (int n) (rp_alloc s)) (\<lambda>a.
     Inr (s\<lparr>rp_alloc := a, rp_puts := map wake (rp_puts s)\<rparr>))"

definition end_put :: "nat \<Rightarrow> nat \<Rightarrow> nat \<Rightarrow> unit result \<Rightarrow> relay_pool \<Rightarrow> relay_pool result" where
  "end_put i offset n r s = bindE (give_back offset n s) (\<lambda>s. Inr (set_put i (Put_Ended r) s))"

datatype pool_event =
    Begin_Put int
  | Acquire_Round nat
  | Resume nat "py_error option"
  | Woken_By_Failure nat
  | Cancel_Put nat
  | Acknowledged nat
  | Operation_Fails nat py_error

text \<open>
  \<open>Resume i r\<close>: the call runs on with its slots; \<open>r\<close> is an error of the copy it starts. Each event names
  the phase it needs.
\<close>

fun pool_enabled :: "pool_event \<Rightarrow> relay_pool \<Rightarrow> bool" where
  "pool_enabled (Begin_Put bytes) s = True"
| "pool_enabled (Acquire_Round i) s = (i < length (rp_puts s) \<and> (case rp_puts s ! i of Waiting n w \<Rightarrow> w | _ \<Rightarrow> False))"
| "pool_enabled (Resume i r) s = (i < length (rp_puts s) \<and> (case rp_puts s ! i of Granted k n \<Rightarrow> True | _ \<Rightarrow> False))"
| "pool_enabled (Woken_By_Failure i) s =
     (i < length (rp_puts s) \<and> rp_failed s \<noteq> None \<and> (case rp_puts s ! i of Waiting n w \<Rightarrow> True | _ \<Rightarrow> False))"
| "pool_enabled (Cancel_Put i) s =
     (i < length (rp_puts s) \<and> (case rp_puts s ! i of Waiting n w \<Rightarrow> True | Granted k n \<Rightarrow> True | Holding k n \<Rightarrow> True | _ \<Rightarrow> False))"
| "pool_enabled (Acknowledged i) s = (i < length (rp_puts s) \<and> (case rp_puts s ! i of Holding k n \<Rightarrow> True | _ \<Rightarrow> False))"
| "pool_enabled (Operation_Fails i e) s = (i < length (rp_puts s) \<and> (case rp_puts s ! i of Holding k n \<Rightarrow> True | _ \<Rightarrow> False))"

definition pool_step :: "pool_event \<Rightarrow> relay_pool \<Rightarrow> relay_pool result" where
  "pool_step e s = (case e of
     Begin_Put bytes \<Rightarrow> Inr (begin_put bytes s)
   | Acquire_Round i \<Rightarrow> (case rp_puts s ! i of Waiting n w \<Rightarrow> Inr (acquire_round i n s) | _ \<Rightarrow> Inr s)
   | Resume i r \<Rightarrow> (case rp_puts s ! i of
       Granted k n \<Rightarrow>
         (if rp_failed s \<noteq> None then end_put i k n (Inl (RuntimeError ''cuda_ipc relay failed'')) s
          else case r of Some e \<Rightarrow> end_put i k n (Inl e) s | None \<Rightarrow> Inr (set_put i (Holding k n) s))
     | _ \<Rightarrow> Inr s)
   | Woken_By_Failure i \<Rightarrow> Inr (set_put i (Put_Ended (Inl (RuntimeError ''cuda_ipc relay failed''))) s)
   | Cancel_Put i \<Rightarrow> Inr (set_put i (case rp_puts s ! i of Granted k n \<Rightarrow> Cancelled (Some (k, n)) | Holding k n \<Rightarrow> Cancelled (Some (k, n)) | _ \<Rightarrow> Cancelled None) s)
   | Acknowledged i \<Rightarrow> (case rp_puts s ! i of Holding k n \<Rightarrow> end_put i k n (Inr ()) s | _ \<Rightarrow> Inr s)
   | Operation_Fails i e \<Rightarrow> (case rp_puts s ! i of
       Holding k n \<Rightarrow> Inr (set_put i (Kept k n) (s\<lparr>rp_failed := Some (case rp_failed s of None \<Rightarrow> e | Some x \<Rightarrow> x)\<rparr>))
     | _ \<Rightarrow> Inr s))"

inductive pool_reach :: "slot_pool \<Rightarrow> relay_pool \<Rightarrow> bool" for a where
  Start: "pool_reach a \<lparr>rp_alloc = a, rp_failed = None, rp_puts = []\<rparr>"
| Step: "pool_reach a s \<Longrightarrow> pool_enabled e s \<Longrightarrow> pool_step e s = Inr t \<Longrightarrow> pool_reach a t"

section \<open>The checks of a receiver\<close>

definition check_transfer :: "int \<Rightarrow> int \<Rightarrow> int \<Rightarrow> int \<Rightarrow> int \<Rightarrow> int \<Rightarrow> unit result" where
  "check_transfer pool_bytes dest_bytes bytes offset slot_size num_slots =
     bindE (guardE (offset \<ge> 0) (ValueError ''cuda_ipc transfer offset must be non-negative'')) (\<lambda>_.
     bindE (guardE (slot_size > 0 \<and> num_slots > 0) (ValueError ''cuda_ipc slot_size and num_slots must be positive'')) (\<lambda>_.
     bindE (guardE (offset mod slot_size = 0) (ValueError ''cuda_ipc transfer offset must be slot aligned'')) (\<lambda>_.
     bindE (slots_for_size bytes slot_size) (\<lambda>needed.
     bindE (guardE (needed \<le> num_slots) (ValueError ''cuda_ipc num_slots is too small for transfer size'')) (\<lambda>_.
     bindE (guardE (offset + num_slots * slot_size \<le> pool_bytes) (ValueError ''cuda_ipc allocation range exceeds pool size'')) (\<lambda>_.
     guardE (bytes \<le> dest_bytes) (ValueError ''cuda_ipc destination buffer is too small'')))))))"

end
