(* ===== verification/Slot_Ownership.thy ===== *)
theory Slot_Ownership
  imports Slot_Pool
begin

text \<open>
  Who has which slots of the pool of \<open>Slot_Pool\<close>: the slots that are taken are those of the calls that
  own them, no slot has two owners, and no call sleeps that could go on.
\<close>

section \<open>Who has which slots\<close>

fun slots_of :: "put_phase \<Rightarrow> (nat \<times> nat) option" where
  "slots_of (Granted k n) = Some (k, n)"
| "slots_of (Holding k n) = Some (k, n)"
| "slots_of (Kept k n) = Some (k, n)"
| "slots_of (Cancelled c) = c"
| "slots_of _ = None"

text \<open>A claim (an offset and a number of slots of size \<open>z\<close>) covers slot \<open>j\<close>.\<close>

definition slot_covers :: "nat \<Rightarrow> (nat \<times> nat) option \<Rightarrow> nat \<Rightarrow> bool" where
  "slot_covers z c j \<longleftrightarrow> (case c of None \<Rightarrow> False | Some (offset, n) \<Rightarrow> offset div z \<le> j \<and> j < offset div z + n)"

definition aligned :: "nat \<Rightarrow> nat \<Rightarrow> (nat \<times> nat) option \<Rightarrow> bool" where
  "aligned z m c \<longleftrightarrow> (case c of None \<Rightarrow> True | Some (offset, n) \<Rightarrow> n > 0 \<and> offset mod z = 0 \<and> offset div z + n \<le> m)"

text \<open>A slot is taken exactly when one claim covers it, and no two claims cover one slot.\<close>

definition regions_ok :: "nat \<Rightarrow> bool list \<Rightarrow> (nat \<times> nat) option list \<Rightarrow> bool" where
  "regions_ok z free cs \<longleftrightarrow> z > 0 \<and> (\<forall>i < length cs. aligned z (length free) (cs ! i)) \<and>
     (\<forall>j < length free. free ! j \<longleftrightarrow> (\<forall>i < length cs. \<not> slot_covers z (cs ! i) j)) \<and>
     (\<forall>i < length cs. \<forall>k < length cs. \<forall>j. slot_covers z (cs ! i) j \<longrightarrow> slot_covers z (cs ! k) j \<longrightarrow> i = k)"

text \<open>Nobody sleeps who needs a run that is free.\<close>

definition waiters_ok :: "bool list \<Rightarrow> put_phase list \<Rightarrow> bool" where
  "waiters_ok free ps \<longleftrightarrow> (\<forall>n w. Waiting n w \<in> set ps \<longrightarrow> n > 0 \<and> (w \<or> find_contiguous n free = None))"

definition pool_ok :: "relay_pool \<Rightarrow> bool" where
  "pool_ok s \<longleftrightarrow> regions_ok (al_size (rp_alloc s)) (al_free (rp_alloc s)) (map slots_of (rp_puts s)) \<and>
     waiters_ok (al_free (rp_alloc s)) (rp_puts s) \<and>
     al_free_slots (rp_alloc s) = int (length (filter (\<lambda>b. b) (al_free (rp_alloc s))))"

lemma slot_covers_simps [simp]:
  "\<not> slot_covers z None j" "slot_covers z (Some (offset, n)) j \<longleftrightarrow> offset div z \<le> j \<and> j < offset div z + n"
  by (simp_all add: slot_covers_def)

lemma aligned_simps [simp]:
  "aligned z m None" "aligned z m (Some (offset, n)) \<longleftrightarrow> n > 0 \<and> offset mod z = 0 \<and> offset div z + n \<le> m"
  by (simp_all add: aligned_def)

lemma count_update_bool:
  "m < length fs \<Longrightarrow> int (length (filter (\<lambda>b. b) (fs[m := b]))) =
     int (length (filter (\<lambda>b. b) fs)) - (if fs ! m then 1 else 0) + (if b then 1 else 0)"
proof (induction fs arbitrary: m)
  case (Cons f fs)
  show ?case
  proof (cases m)
    case (Suc k)
    then show ?thesis
      using Cons.IH [of k] Cons.prems by (cases f) simp_all
  qed (use Cons.prems in auto)
qed simp

lemma count_set_range:
  assumes "k + n \<le> length free" and "\<forall>i. k \<le> i \<longrightarrow> i < k + n \<longrightarrow> free ! i = (\<not> b)"
  shows "int (length (filter (\<lambda>b. b) (set_range k n b free))) = int (length (filter (\<lambda>b. b) free)) + (if b then int n else - int n)"
  using assms
proof (induction n)
  case (Suc n)
  let ?fs = "set_range k n b free"
  have e: "set_range k (Suc n) b free = ?fs[k + n := b]"
    by (simp add: set_range_def)
  have l: "k + n < length ?fs" "?fs ! (k + n) = (\<not> b)"
    using Suc.prems by (simp_all add: nth_set_range)
  show ?case
    using Suc count_update_bool [OF l(1), of b] l(2) unfolding e by (cases b) simp_all
qed (auto simp: set_range_def)

lemma regions_grant:
  assumes "regions_ok z free cs" and "i < length cs" and "cs ! i = None" and "free_at k n free" and "n > 0"
  shows "regions_ok z (set_range k n False free) (cs[i := Some (k * z, n)])"
proof -
  have z: "z > 0" and f: "\<And>j. j < length free \<Longrightarrow> free ! j \<longleftrightarrow> (\<forall>i < length cs. \<not> slot_covers z (cs ! i) j)"
    using assms(1) by (auto simp: regions_ok_def)
  have bound: "j < length free" if "x < length cs" "slot_covers z (cs ! x) j" for x j
    using that assms(1) by (cases "cs ! x") (auto simp: regions_ok_def)
  have clash: "\<not> (k \<le> j \<and> j < k + n)" if "x < length cs" "slot_covers z (cs ! x) j" for x j
    using that assms(4) f [of j] bound [OF that] by (auto simp: free_at_def)
  have new: "cs[i := Some (k * z, n)] ! x = (if x = i then Some (k * z, n) else cs ! x)" if "x < length cs" for x
    using that by (simp add: nth_list_update)
  show ?thesis
    unfolding regions_ok_def
  proof (intro conjI allI impI)
    show "z > 0"
      by (rule z)
    fix x
    assume x: "x < length (cs[i := Some (k * z, n)])"
    then show "aligned z (length (set_range k n False free)) (cs[i := Some (k * z, n)] ! x)"
      using assms(1,4,5) z by (simp add: new regions_ok_def free_at_def)
    fix y j
    assume "y < length (cs[i := Some (k * z, n)])" "slot_covers z (cs[i := Some (k * z, n)] ! x) j" "slot_covers z (cs[i := Some (k * z, n)] ! y) j"
    then show "x = y"
      using x clash [of x j] clash [of y j] assms(1) z by (auto simp: new regions_ok_def split: if_splits)
  next
    fix j
    assume j: "j < length (set_range k n False free)"
    show "set_range k n False free ! j \<longleftrightarrow> (\<forall>x < length (cs[i := Some (k * z, n)]). \<not> slot_covers z (cs[i := Some (k * z, n)] ! x) j)"
    proof (cases "k \<le> j \<and> j < k + n")
      case True
      then have "slot_covers z (cs[i := Some (k * z, n)] ! i) j"
        using assms(2) z by simp
      then show ?thesis
        using True j assms(2) by (auto simp: nth_set_range)
    next
      case False
      then have "slot_covers z (cs[i := Some (k * z, n)] ! x) j \<longleftrightarrow> slot_covers z (cs ! x) j" if "x < length cs" for x
        using that assms(3) z by (cases "x = i") (auto simp: new)
      then show ?thesis
        using False j f [of j] by (auto simp: nth_set_range)
    qed
  qed
qed

lemma regions_release:
  assumes "regions_ok z free cs" and "i < length cs" and "cs ! i = Some (offset, n)"
  shows "regions_ok z (set_range (offset div z) n True free) (cs[i := None])"
proof -
  have z: "z > 0" and f: "\<And>j. j < length free \<Longrightarrow> free ! j \<longleftrightarrow> (\<forall>i < length cs. \<not> slot_covers z (cs ! i) j)"
    and u: "\<And>x y j. x < length cs \<Longrightarrow> y < length cs \<Longrightarrow> slot_covers z (cs ! x) j \<Longrightarrow> slot_covers z (cs ! y) j \<Longrightarrow> x = y"
    using assms(1) unfolding regions_ok_def by blast+
  have new: "cs[i := None] ! x = (if x = i then None else cs ! x)" if "x < length cs" for x
    using that by (simp add: nth_list_update)
  show ?thesis
    unfolding regions_ok_def
  proof (intro conjI allI impI)
    show "z > 0"
      by (rule z)
    fix x
    assume x: "x < length (cs[i := None])"
    then show "aligned z (length (set_range (offset div z) n True free)) (cs[i := None] ! x)"
      using assms(1) by (simp add: new regions_ok_def)
    fix y j
    assume "y < length (cs[i := None])" "slot_covers z (cs[i := None] ! x) j" "slot_covers z (cs[i := None] ! y) j"
    then show "x = y"
      using x u by (auto simp: new split: if_splits)
  next
    fix j
    assume j: "j < length (set_range (offset div z) n True free)"
    show "set_range (offset div z) n True free ! j \<longleftrightarrow> (\<forall>x < length (cs[i := None]). \<not> slot_covers z (cs[i := None] ! x) j)"
    proof (cases "slot_covers z (cs ! i) j")
      case True
      then have "\<not> slot_covers z (cs[i := None] ! x) j" if "x < length cs" for x
        using that u [OF assms(2) that] by (cases "x = i") (auto simp: new)
      then show ?thesis
        using True j by (simp add: nth_set_range assms(3))
    next
      case False
      then have "slot_covers z (cs[i := None] ! x) j \<longleftrightarrow> slot_covers z (cs ! x) j" if "x < length cs" for x
        using that by (cases "x = i") (auto simp: new)
      then show ?thesis
        using False j f [of j] by (auto simp: nth_set_range assms(3))
    qed
  qed
qed

lemma free_at_shrinks: "free_at k n (set_range a m False free) \<Longrightarrow> free_at k n free"
  by (auto simp: free_at_def nth_set_range split: if_splits)

lemma waiters_shrink: "waiters_ok free ps \<Longrightarrow> waiters_ok (set_range a m False free) ps"
  unfolding waiters_ok_def using free_at_shrinks by (metis find_contiguous_none)

lemma waiters_set:
  assumes "waiters_ok free ps" and "\<And>n w. p = Waiting n w \<Longrightarrow> n > 0 \<and> (w \<or> find_contiguous n free = None)"
  shows "waiters_ok free (ps[i := p])"
  unfolding waiters_ok_def
proof (intro allI impI)
  fix n w
  assume "Waiting n w \<in> set (ps[i := p])"
  then have "Waiting n w = p \<or> Waiting n w \<in> set ps"
    using set_update_subset_insert [of ps i p] by blast
  then show "n > 0 \<and> (w \<or> find_contiguous n free = None)"
    using assms unfolding waiters_ok_def by metis
qed

lemma slots_wake [simp]: "slots_of (wake p) = slots_of p"
  by (cases p) (simp_all add: wake_def)

lemma waiters_woken: "waiters_ok free ps \<Longrightarrow> waiters_ok free' (map wake ps)"
  unfolding waiters_ok_def
proof (intro allI impI)
  fix n w
  assume h: "\<forall>n w. Waiting n w \<in> set ps \<longrightarrow> n > 0 \<and> (w \<or> find_contiguous n free = None)" and "Waiting n w \<in> set (map wake ps)"
  then obtain p where "p \<in> set ps" "Waiting n w = wake p"
    by auto
  then show "n > 0 \<and> (w \<or> find_contiguous n free' = None)"
    using h by (cases p) (auto simp: wake_def split: put_phase.splits)
qed

lemma same_slots: "i < length ps \<Longrightarrow> slots_of p = slots_of (ps ! i) \<Longrightarrow> map slots_of (ps[i := p]) = map slots_of ps"
  by (simp add: map_update list_update_same_conv)

text \<open>A step that changes a phase but not its slots.\<close>

lemma pool_ok_phase:
  assumes "pool_ok s" and "i < length (rp_puts s)" and "slots_of p = slots_of (rp_puts s ! i)" and "rp_alloc t = rp_alloc s"
    and "rp_puts t = (rp_puts s)[i := p]" and "\<And>n w. p = Waiting n w \<Longrightarrow> n > 0 \<and> (w \<or> find_contiguous n (al_free (rp_alloc s)) = None)"
  shows "pool_ok t"
  using assms(1) waiters_set [OF _ assms(6)] by (simp add: pool_ok_def assms(4,5) same_slots [OF assms(2,3)])

text \<open>Slots that a phase owns can be given back: the allocator raises none of its errors.\<close>

lemma pool_ok_end:
  assumes "pool_ok s" and "i < length (rp_puts s)" and "slots_of (rp_puts s ! i) = Some (offset, n)"
  shows "\<exists>t. end_put i offset n r s = Inr t \<and> pool_ok t \<and> rp_failed t = rp_failed s"
proof -
  let ?a = "rp_alloc s" let ?z = "al_size ?a" let ?k = "offset div ?z" and ?cs = "map slots_of (rp_puts s)"
  have reg: "regions_ok ?z (al_free ?a) ?cs" and w: "waiters_ok (al_free ?a) (rp_puts s)"
    and c: "al_free_slots ?a = int (length (filter (\<lambda>b. b) (al_free ?a)))"
    using assms(1) by (simp_all add: pool_ok_def)
  have i: "i < length ?cs" "?cs ! i = Some (offset, n)"
    using assms(2,3) by simp_all
  have al: "?z > 0" "n > 0" "offset mod ?z = 0" "?k + n \<le> length (al_free ?a)"
    using reg i unfolding regions_ok_def by (metis aligned_simps(2))+
  have taken: "\<not> al_free ?a ! j" if "?k \<le> j" "j < ?k + n" for j
  proof -
    have "slot_covers ?z (?cs ! i) j"
      using that i(2) by simp
    then show ?thesis
      using reg i(1) that al(4) unfolding regions_ok_def by (meson less_le_trans)
  qed
  have ints: "int offset mod int ?z = 0" "int offset div int ?z = int ?k"
    using al(3) by (metis of_nat_0 of_nat_mod, simp add: of_nat_div)
  let ?a' = "?a\<lparr>al_free := set_range ?k n True (al_free ?a), al_free_slots := al_free_slots ?a + int n\<rparr>"
  have rel: "release_slots (int offset) (int n) ?a = Inr ?a'"
    using al taken ints by (simp add: release_slots_def Let_def list_all_iff nat_add_distrib)
  let ?t = "set_put i (Put_Ended r) (s\<lparr>rp_alloc := ?a', rp_puts := map wake (rp_puts s)\<rparr>)"
  have "map slots_of (rp_puts ?t) = ?cs[i := None]"
    by (simp add: set_put_def map_update comp_def)
  then have "regions_ok ?z (set_range ?k n True (al_free ?a)) (map slots_of (rp_puts ?t))"
    using regions_release [OF reg i] by simp
  moreover have "waiters_ok (set_range ?k n True (al_free ?a)) (rp_puts ?t)"
    unfolding set_put_def using waiters_set [OF waiters_woken [OF w], of "Put_Ended r"] by simp
  moreover have "al_free_slots ?a + int n = int (length (filter (\<lambda>b. b) (set_range ?k n True (al_free ?a))))"
    using c count_set_range [OF al(4), of True] taken by simp
  ultimately have "pool_ok ?t"
    by (simp add: pool_ok_def set_put_def)
  then show ?thesis
    by (simp add: end_put_def give_back_def rel set_put_def)
qed

lemma pool_ok_grant:
  assumes "pool_ok s" and "i < length (rp_puts s)" and "rp_puts s ! i = Waiting n w"
  shows "pool_ok (acquire_round i n s)"
proof (cases "find_contiguous n (al_free (rp_alloc s))")
  case None
  have "n > 0"
    using assms nth_mem [OF assms(2)] by (auto simp: pool_ok_def waiters_ok_def)
  then have "pool_ok (set_put i (Waiting n False) s)"
    using None assms(3) by (intro pool_ok_phase [OF assms(1,2)]) (auto simp: set_put_def)
  then show ?thesis
    by (simp add: acquire_round_def acquire_run_def None)
next
  case (Some k)
  let ?a = "rp_alloc s"
  have n: "n > 0"
    using assms nth_mem [OF assms(2)] by (auto simp: pool_ok_def waiters_ok_def)
  have free: "free_at k n (al_free ?a)"
    by (rule find_contiguous_free [OF n Some])
  have "regions_ok (al_size ?a) (set_range k n False (al_free ?a)) ((map slots_of (rp_puts s))[i := Some (k * al_size ?a, n)])"
    using assms free n by (intro regions_grant) (simp_all add: pool_ok_def)
  moreover have "waiters_ok (set_range k n False (al_free ?a)) ((rp_puts s)[i := Granted (k * al_size ?a) n])"
    using assms(1) by (intro waiters_set waiters_shrink) (simp_all add: pool_ok_def)
  moreover have "al_free_slots ?a - int n = int (length (filter (\<lambda>b. b) (set_range k n False (al_free ?a))))"
    using assms(1) free count_set_range [of k n "al_free ?a" False] by (simp add: pool_ok_def free_at_def)
  ultimately show ?thesis
    by (simp add: acquire_round_def acquire_run_def Some pool_ok_def set_put_def map_update)
qed

lemma pool_ok_begin: "pool_ok s \<Longrightarrow> pool_ok (begin_put bytes s)"
proof -
  assume s: "pool_ok s"
  define p where "p = (if rp_failed s \<noteq> None then Put_Ended (Inl (RuntimeError ''cuda_ipc relay failed''))
               else case slots_for_size bytes (int (al_size (rp_alloc s))) of
                 Inl e \<Rightarrow> Put_Ended (Inl e)
               | Inr n \<Rightarrow> (if n > int (length (al_free (rp_alloc s))) then Put_Ended (Inl (ValueError ''Tensor requires more slots than the pool has''))
                   else Waiting (nat n) True))"
  have p: "slots_of p = None" "\<And>n w. p = Waiting n w \<Longrightarrow> n > 0 \<and> w"
    by (auto simp: p_def slots_for_size_def guardE_def split: sum.splits if_splits)
  have "regions_ok z free (cs @ [None])" if "regions_ok z free cs" for z free cs
    using that by (auto simp: regions_ok_def nth_append less_Suc_eq)
  moreover have "waiters_ok free (ps @ [p])" if "waiters_ok free ps" for free ps
    using that p(2) by (auto simp: waiters_ok_def)
  moreover have "begin_put bytes s = s\<lparr>rp_puts := rp_puts s @ [p]\<rparr>"
    by (simp only: begin_put_def Let_def p_def)
  ultimately show ?thesis
    using s p(1) by (simp add: pool_ok_def)
qed

lemma pool_ok_step:
  assumes "pool_ok s" and "pool_enabled e s"
  shows "\<exists>t. pool_step e s = Inr t \<and> pool_ok t"
proof (cases e)
  case (Begin_Put bytes)
  then show ?thesis
    using pool_ok_begin [OF assms(1)] by (simp add: pool_step_def)
next
  case (Acquire_Round i)
  then obtain n w where "i < length (rp_puts s)" "rp_puts s ! i = Waiting n w"
    using assms(2) by (auto split: put_phase.splits)
  then show ?thesis
    using pool_ok_grant [OF assms(1)] Acquire_Round by (simp add: pool_step_def)
next
  case (Resume i r)
  then obtain k n where i: "i < length (rp_puts s)" and p: "rp_puts s ! i = Granted k n"
    using assms(2) by (auto split: put_phase.splits)
  have "pool_ok (set_put i (Holding k n) s)"
    using p by (intro pool_ok_phase [OF assms(1) i, of "Holding k n"]) (simp_all add: set_put_def)
  then show ?thesis
    using pool_ok_end [OF assms(1) i, of k n] p Resume
    by (cases r) (auto simp: pool_step_def split: if_splits)
next
  case (Woken_By_Failure i)
  let ?p = "Put_Ended (Inl (RuntimeError ''cuda_ipc relay failed''))"
  have "i < length (rp_puts s)" "slots_of (rp_puts s ! i) = None"
    using assms(2) Woken_By_Failure by (auto split: put_phase.splits)
  then have "pool_ok (set_put i ?p s)"
    by (intro pool_ok_phase [OF assms(1), of i ?p]) (simp_all add: set_put_def)
  then show ?thesis
    using Woken_By_Failure by (simp add: pool_step_def)
next
  case (Cancel_Put i)
  let ?p = "case rp_puts s ! i of Granted k n \<Rightarrow> Cancelled (Some (k, n)) | Holding k n \<Rightarrow> Cancelled (Some (k, n)) | _ \<Rightarrow> Cancelled None"
  have "i < length (rp_puts s)" "slots_of ?p = slots_of (rp_puts s ! i)" "\<And>n w. ?p \<noteq> Waiting n w"
    using assms(2) Cancel_Put by (auto split: put_phase.splits)
  then have "pool_ok (set_put i ?p s)"
    by (intro pool_ok_phase [OF assms(1), of i ?p]) (auto simp: set_put_def)
  then show ?thesis
    using Cancel_Put by (simp add: pool_step_def)
next
  case (Acknowledged i)
  then obtain k n where i: "i < length (rp_puts s)" and p: "rp_puts s ! i = Holding k n"
    using assms(2) by (auto split: put_phase.splits)
  then show ?thesis
    using pool_ok_end [OF assms(1) i, of k n] Acknowledged by (auto simp: pool_step_def)
next
  case (Operation_Fails i x)
  then obtain k n where i: "i < length (rp_puts s)" and p: "rp_puts s ! i = Holding k n"
    using assms(2) by (auto split: put_phase.splits)
  let ?t = "set_put i (Kept k n) (s\<lparr>rp_failed := Some (case rp_failed s of None \<Rightarrow> x | Some x \<Rightarrow> x)\<rparr>)"
  have "pool_ok ?t"
    using p by (intro pool_ok_phase [OF assms(1) i, of "Kept k n"]) (simp_all add: set_put_def)
  then show ?thesis
    using Operation_Fails p by (simp add: pool_step_def)
qed

lemma pool_ok_new:
  assumes "new_slot_pool count slot_size = Inr a"
  shows "pool_ok \<lparr>rp_alloc = a, rp_failed = None, rp_puts = []\<rparr>"
proof -
  have "length (filter (\<lambda>b. b) (replicate m True)) = m" for m
    by (induction m) simp_all
  then show ?thesis
    using assms by (auto simp: new_slot_pool_def guardE_def pool_ok_def regions_ok_def waiters_ok_def split: if_splits)
qed

lemma pool_reach_ok:
  assumes "new_slot_pool count slot_size = Inr a" and "pool_reach a s"
  shows "pool_ok s"
  using assms(2)
proof induction
  case Start
  show ?case
    by (rule pool_ok_new [OF assms(1)])
next
  case (Step s e t)
  then show ?case
    using pool_ok_step [of s e] by auto
qed

lemma release_shape:
  "release_slots offset n a = Inr b \<Longrightarrow> al_size b = al_size a \<and> length (al_free b) = length (al_free a)"
  by (auto simp: release_slots_def guardE_def Let_def split: if_splits)

lemma end_put_shape:
  assumes "end_put i offset n r s = Inr t"
  shows "al_size (rp_alloc t) = al_size (rp_alloc s) \<and> length (al_free (rp_alloc t)) = length (al_free (rp_alloc s)) \<and>
    rp_puts t = (map wake (rp_puts s))[i := Put_Ended r]"
proof (cases "release_slots (int offset) (int n) (rp_alloc s)")
  case (Inr b)
  then show ?thesis
    using assms release_shape [OF Inr] by (auto simp: end_put_def give_back_def set_put_def)
qed (use assms in \<open>simp add: end_put_def give_back_def\<close>)

lemma acquire_shape:
  "al_size (rp_alloc (acquire_round i n s)) = al_size (rp_alloc s) \<and>
   length (al_free (rp_alloc (acquire_round i n s))) = length (al_free (rp_alloc s)) \<and>
   (\<exists>p. rp_puts (acquire_round i n s) = (rp_puts s)[i := p])"
  by (auto simp: acquire_round_def acquire_run_def set_put_def split: option.split)

lemma begin_shape:
  "rp_alloc (begin_put bytes s) = rp_alloc s \<and> (\<exists>p. rp_puts (begin_put bytes s) = rp_puts s @ [p])"
  by (simp add: begin_put_def Let_def)

lemma pool_step_shape:
  assumes "pool_step e s = Inr t"
  shows "al_size (rp_alloc t) = al_size (rp_alloc s) \<and> length (al_free (rp_alloc t)) = length (al_free (rp_alloc s))"
  using assms begin_shape acquire_shape end_put_shape
  by (cases e) (force simp: pool_step_def set_put_def split: put_phase.splits if_splits option.splits)+

lemma pool_reach_shape:
  assumes "new_slot_pool count slot_size = Inr a" and "pool_reach a s"
  shows "count > 0 \<and> slot_size > 0 \<and> int (al_size (rp_alloc s)) = slot_size \<and> int (length (al_free (rp_alloc s))) = count"
  using assms(2)
proof induction
  case Start
  then show ?case
    using assms(1) by (auto simp: new_slot_pool_def guardE_def split: if_splits)
next
  case (Step s e t)
  then show ?case
    using pool_step_shape [OF Step(3)] by simp
qed

lemma slots_in_order:
  assumes "pool_ok s" and "i < length (rp_puts s)" and "slots_of (rp_puts s ! i) = Some (offset, n)"
  shows "0 < n \<and> offset mod al_size (rp_alloc s) = 0 \<and> offset + n * al_size (rp_alloc s) \<le> length (al_free (rp_alloc s)) * al_size (rp_alloc s) \<and>
    (\<forall>j. offset div al_size (rp_alloc s) \<le> j \<longrightarrow> j < offset div al_size (rp_alloc s) + n \<longrightarrow> \<not> al_free (rp_alloc s) ! j)"
proof -
  let ?a = "rp_alloc s" let ?z = "al_size ?a" and ?cs = "map slots_of (rp_puts s)"
  have reg: "regions_ok ?z (al_free ?a) ?cs"
    using assms(1) by (simp add: pool_ok_def)
  have i: "i < length ?cs" "?cs ! i = Some (offset, n)"
    using assms(2,3) by simp_all
  have al: "?z > 0" "n > 0" "offset mod ?z = 0" "offset div ?z + n \<le> length (al_free ?a)"
    using reg i unfolding regions_ok_def by (metis aligned_simps(2))+
  have "offset = (offset div ?z) * ?z"
    using al(3) by (metis add.right_neutral div_mult_mod_eq)
  then have "offset + n * ?z = (offset div ?z + n) * ?z"
    by (metis add_mult_distrib)
  then have "offset + n * ?z \<le> length (al_free ?a) * ?z"
    using al(4) by (metis mult_le_mono1)
  moreover have "\<not> al_free ?a ! j" if "offset div ?z \<le> j" "j < offset div ?z + n" for j
  proof -
    have "slot_covers ?z (?cs ! i) j"
      using that i(2) by simp
    then show ?thesis
      using reg i(1) that al(4) unfolding regions_ok_def by (meson less_le_trans)
  qed
  ultimately show ?thesis
    using al by blast
qed

lemma slots_apart:
  assumes "pool_ok s" and "i < length (rp_puts s)" and "j < length (rp_puts s)" and "i \<noteq> j"
    and "slots_of (rp_puts s ! i) = Some (o1, n1)" and "slots_of (rp_puts s ! j) = Some (o2, n2)"
  shows "o1 + n1 * al_size (rp_alloc s) \<le> o2 \<or> o2 + n2 * al_size (rp_alloc s) \<le> o1"
proof (rule ccontr)
  let ?z = "al_size (rp_alloc s)" and ?cs = "map slots_of (rp_puts s)"
  assume h: "\<not> ?thesis"
  have reg: "regions_ok ?z (al_free (rp_alloc s)) ?cs"
    using assms(1) by (simp add: pool_ok_def)
  have al: "o1 = (o1 div ?z) * ?z" "o2 = (o2 div ?z) * ?z" "n1 > 0" "n2 > 0"
    using slots_in_order [OF assms(1,2,5)] slots_in_order [OF assms(1,3,6)] by (metis add.right_neutral div_mult_mod_eq)+
  have "o1 + n1 * ?z = (o1 div ?z + n1) * ?z" "o2 + n2 * ?z = (o2 div ?z + n2) * ?z"
    using al(1,2) by (metis add_mult_distrib)+
  then have lt: "o2 div ?z < o1 div ?z + n1" "o1 div ?z < o2 div ?z + n2"
    using h al(1,2) by (metis linorder_not_le mult_less_cancel2)+
  let ?m = "max (o1 div ?z) (o2 div ?z)"
  have "slot_covers ?z (?cs ! i) ?m" "slot_covers ?z (?cs ! j) ?m"
    using assms al lt by simp_all
  moreover have "i < length ?cs" "j < length ?cs"
    using assms(2,3) by simp_all
  ultimately show False
    using reg assms(4) unfolding regions_ok_def by blast
qed

text \<open>A cancelled call is never looked at again.\<close>

lemma cancelled_stays:
  assumes "pool_enabled e s" and "pool_step e s = Inr t" and "i < length (rp_puts s)" and "rp_puts s ! i = Cancelled c"
  shows "i < length (rp_puts t) \<and> rp_puts t ! i = Cancelled c"
proof -
  have upd: "i < length ((rp_puts s)[k := p]) \<and> (rp_puts s)[k := p] ! i = Cancelled c" if "k \<noteq> i" for k p
    using that assms(3,4) by simp
  have woken: "i < length ((map wake (rp_puts s))[k := p]) \<and> (map wake (rp_puts s))[k := p] ! i = Cancelled c" if "k \<noteq> i" for k p
    using that assms(3,4) by (simp add: wake_def)
  show ?thesis
  proof (cases e)
    case (Begin_Put bytes)
    then show ?thesis
      using assms begin_shape [of bytes s] by (auto simp: pool_step_def nth_append)
  next
    case (Acquire_Round k)
    then obtain n w where k: "rp_puts s ! k = Waiting n w"
      using assms(1) by (auto split: put_phase.splits)
    then have "t = acquire_round k n s" "k \<noteq> i"
      using assms(2,4) Acquire_Round by (auto simp: pool_step_def)
    then show ?thesis
      using acquire_shape [of k n s] upd by metis
  next
    case (Resume k r)
    then obtain offset n where k: "rp_puts s ! k = Granted offset n"
      using assms(1) by (auto split: put_phase.splits)
    then have "k \<noteq> i" and "t = set_put k (Holding offset n) s \<or> (\<exists>r. end_put k offset n r s = Inr t)"
      using assms(2,4) Resume by (auto simp: pool_step_def split: if_splits option.splits)
    then show ?thesis
      using end_put_shape [of k offset n _ s t] upd woken by (auto simp: set_put_def)
  next
    case (Acknowledged k)
    then obtain offset n where k: "rp_puts s ! k = Holding offset n"
      using assms(1) by (auto split: put_phase.splits)
    then have "k \<noteq> i" and "end_put k offset n (Inr ()) s = Inr t"
      using assms(2,4) Acknowledged by (auto simp: pool_step_def)
    then show ?thesis
      using end_put_shape [of k offset n _ s t] assms(3,4) by (auto simp: wake_def)
  qed (use assms upd in \<open>auto simp: pool_step_def set_put_def nth_list_update split: put_phase.splits\<close>)
qed

section \<open>What the pool promises\<close>

text \<open>
  C39: at every moment of the relay, the slots of two calls of \<open>put_async\<close> are disjoint byte ranges, each
  non-empty, aligned and inside the pool, whatever the calls, copies, acknowledgements, failures and
  cancellations were before: no copy overwrites data that a receiver may still read.
\<close>

theorem slots_have_one_owner:
  assumes "new_slot_pool count slot_size = Inr a" and "pool_reach a s"
    and "i < length (rp_puts s)" and "slots_of (rp_puts s ! i) = Some (o1, n1)"
    and "j < length (rp_puts s)" and "slots_of (rp_puts s ! j) = Some (o2, n2)" and "i \<noteq> j"
  shows "n1 > 0 \<and> int o1 mod slot_size = 0 \<and> int o1 + int n1 * slot_size \<le> count * slot_size \<and>
    (int o1 + int n1 * slot_size \<le> int o2 \<or> int o2 + int n2 * slot_size \<le> int o1)"
proof -
  have ok: "pool_ok s"
    by (rule pool_reach_ok [OF assms(1,2)])
  have z: "slot_size = int (al_size (rp_alloc s))" "count = int (length (al_free (rp_alloc s)))"
    using pool_reach_shape [OF assms(1,2)] by simp_all
  show ?thesis
    unfolding z using slots_in_order [OF ok assms(3,4)] slots_apart [OF ok assms(3,5,7,4,6)]
    by (simp flip: of_nat_mult of_nat_add of_nat_mod)
qed

text \<open>
  C40: a call that sleeps on the event of the pool could not be served: no run of free slots is long enough for it.
  In particular, once no call owns slots, every call that waits is awake, and its next round is granted.
\<close>

theorem no_put_sleeps_past_room:
  assumes "new_slot_pool count slot_size = Inr a" and "pool_reach a s" and "i < length (rp_puts s)" and "rp_puts s ! i = Waiting n w"
  shows "(\<not> w \<longrightarrow> (\<forall>k. \<not> free_at k n (al_free (rp_alloc s)))) \<and>
    (\<forall>k. free_at k n (al_free (rp_alloc s)) \<longrightarrow>
       (\<exists>t offset. pool_step (Acquire_Round i) s = Inr t \<and> rp_puts t ! i = Granted offset n))"
proof -
  have "Waiting n w \<in> set (rp_puts s)"
    using assms(3,4) nth_mem by metis
  then have n: "n > 0" and w: "w \<or> find_contiguous n (al_free (rp_alloc s)) = None"
    using pool_reach_ok [OF assms(1,2)] by (simp_all add: pool_ok_def waiters_ok_def)
  have "\<exists>t offset. pool_step (Acquire_Round i) s = Inr t \<and> rp_puts t ! i = Granted offset n" if k: "free_at k n (al_free (rp_alloc s))" for k
  proof -
    obtain m where "find_contiguous n (al_free (rp_alloc s)) = Some m"
      using k find_contiguous_none [OF n, of "al_free (rp_alloc s)"] by (cases "find_contiguous n (al_free (rp_alloc s))") auto
    then show ?thesis
      using assms(3,4) by (simp add: pool_step_def acquire_round_def acquire_run_def set_put_def)
  qed
  then show ?thesis
    using w find_contiguous_none [OF n] by blast
qed

text \<open>
  the relay never gives slots back twice or outside the pool: in every reachable state each event that can
  happen succeeds, none raises one of the allocator's errors, and the count of free slots is that of the list.
\<close>

theorem slots_are_released_once:
  assumes "new_slot_pool count slot_size = Inr a" and "pool_reach a s" and "pool_enabled e s"
  shows "\<exists>t. pool_step e s = Inr t \<and> al_free_slots (rp_alloc t) = int (length (filter (\<lambda>b. b) (al_free (rp_alloc t))))"
  using pool_ok_step [OF pool_reach_ok [OF assms(1,2)] assms(3)] by (auto simp: pool_ok_def)

text \<open>
  a call cancelled with its slots granted or in flight never gives them back, and the relay is not marked
  as failed: the cancellation is no \<open>Exception\<close> and passes every handler that would release. The slots stay
  taken in all later states.
\<close>

theorem cancelled_put_keeps_its_slots:
  assumes "new_slot_pool count slot_size = Inr a" and "pool_reach a s" and "i < length (rp_puts s)"
    and "slots_of (rp_puts s ! i) = Some (offset, n)" and "pool_enabled (Cancel_Put i) s"
    and "pool_step (Cancel_Put i) s = Inr t"
  shows "rp_failed t = rp_failed s \<and> rp_puts t ! i = Cancelled (Some (offset, n)) \<and>
    (\<forall>e u. pool_enabled e t \<longrightarrow> pool_step e t = Inr u \<longrightarrow> rp_puts u ! i = Cancelled (Some (offset, n)) \<and>
       (\<forall>j. offset div al_size (rp_alloc u) \<le> j \<longrightarrow> j < offset div al_size (rp_alloc u) + n \<longrightarrow> \<not> al_free (rp_alloc u) ! j))"
proof -
  have t: "rp_failed t = rp_failed s" "i < length (rp_puts t)" "rp_puts t ! i = Cancelled (Some (offset, n))"
    using assms(3-6) by (auto simp: pool_step_def set_put_def split: put_phase.splits)
  have reach: "pool_reach a t"
    by (rule pool_reach.Step [OF assms(2,5,6)])
  have "rp_puts u ! i = Cancelled (Some (offset, n)) \<and>
      (\<forall>j. offset div al_size (rp_alloc u) \<le> j \<longrightarrow> j < offset div al_size (rp_alloc u) + n \<longrightarrow> \<not> al_free (rp_alloc u) ! j)"
    if "pool_enabled e t" "pool_step e t = Inr u" for e u
  proof -
    have u: "i < length (rp_puts u)" "rp_puts u ! i = Cancelled (Some (offset, n))"
      using cancelled_stays [OF that t(2,3)] by simp_all
    have "pool_ok u"
      by (rule pool_reach_ok [OF assms(1) pool_reach.Step [OF reach that]])
    then show ?thesis
      using slots_in_order [of u i offset n] u by simp
  qed
  then show ?thesis
    using t by blast
qed

text \<open>
  a receiver accepts what a sender announces: for a call that holds the slots its size needs, every check of
  \<open>get_async\<close> passes when the destination buffer has the size of the tensor.
\<close>

theorem receiver_accepts_the_transfer:
  assumes "new_slot_pool count slot_size = Inr a" and "pool_reach a s" and "i < length (rp_puts s)"
    and "slots_of (rp_puts s ! i) = Some (offset, n)" and "slots_for_size bytes slot_size = Inr (int n)"
  shows "check_transfer (count * slot_size) bytes bytes (int offset) slot_size (int n) = Inr ()"
proof -
  have ok: "pool_ok s"
    by (rule pool_reach_ok [OF assms(1,2)])
  have z: "slot_size > 0" "slot_size = int (al_size (rp_alloc s))" "count = int (length (al_free (rp_alloc s)))"
    using pool_reach_shape [OF assms(1,2)] by simp_all
  have "n > 0" "int offset mod slot_size = 0" "int offset + int n * slot_size \<le> count * slot_size"
    unfolding z(2,3) using slots_in_order [OF ok assms(3,4)] by (simp_all flip: of_nat_mult of_nat_add of_nat_mod)
  then show ?thesis
    using z(1) assms(5) by (simp add: check_transfer_def guardE_def)
qed

section \<open>Concrete runs\<close>

fun run_pool :: "pool_event list \<Rightarrow> relay_pool \<Rightarrow> relay_pool result" where
  "run_pool [] s = Inr s"
| "run_pool (e # es) s = bindE (guardE (pool_enabled e s) (RuntimeError ''no such step'')) (\<lambda>_. bindE (pool_step e s) (run_pool es))"

lemma run_pool_reach: "run_pool es s = Inr t \<Longrightarrow> pool_reach a s \<Longrightarrow> pool_reach a t"
proof (induction es arbitrary: s)
  case (Cons e es)
  then obtain u where "pool_enabled e s" "pool_step e s = Inr u" "run_pool es u = Inr t"
    by (cases "pool_step e s") (auto simp: guardE_def split: if_splits)
  then show ?case
    using Cons pool_reach.Step by blast
qed simp

text \<open>
  Four slots of 16 bytes; a call of 20 bytes and one of 7 hold slots, a third of 40 bytes sleeps.
\<close>

definition demo_alloc :: slot_pool where
  "demo_alloc = \<lparr>al_size = 16, al_free = [True, True, True, True], al_free_slots = 4\<rparr>"

definition demo_relay :: relay_pool where
  "demo_relay = \<lparr>rp_alloc = \<lparr>al_size = 16, al_free = [False, False, False, True], al_free_slots = 1\<rparr>, rp_failed = None,
     rp_puts = [Holding 0 2, Granted 32 1, Waiting 3 False]\<rparr>"

lemma demo_relay_reached: "new_slot_pool 4 16 = Inr demo_alloc \<and> pool_reach demo_alloc demo_relay"
proof -
  have "run_pool [Begin_Put 20, Begin_Put 7, Begin_Put 40, Acquire_Round 0, Resume 0 None, Acquire_Round 1, Acquire_Round 2]
      \<lparr>rp_alloc = demo_alloc, rp_failed = None, rp_puts = []\<rparr> = Inr demo_relay"
    by code_simp
  moreover have "new_slot_pool 4 16 = Inr demo_alloc"
    by code_simp
  ultimately show ?thesis
    using run_pool_reach [OF _ pool_reach.Start] by blast
qed

theorem slots_have_one_owner_witness: "(0::int) + 2 * 16 \<le> 32 \<and> (2::nat) > 0 \<and> (0::int) + 2 * 16 \<le> 4 * 16"
  using slots_have_one_owner [OF demo_relay_reached [THEN conjunct1] demo_relay_reached [THEN conjunct2], of 0 0 2 1 32 1]
  by (simp add: demo_relay_def)

theorem no_put_sleeps_past_room_witness: "\<not> free_at 0 3 (al_free (rp_alloc demo_relay)) \<and> \<not> free_at 1 3 (al_free (rp_alloc demo_relay))"
  using no_put_sleeps_past_room [OF demo_relay_reached [THEN conjunct1] demo_relay_reached [THEN conjunct2], of 2 3 False]
  by (simp add: demo_relay_def)

theorem slots_are_released_once_witness: "\<exists>t. pool_step (Acknowledged 0) demo_relay = Inr t \<and> al_free_slots (rp_alloc t) = 3"
proof -
  have "pool_enabled (Acknowledged 0) demo_relay"
    by code_simp
  then obtain t where "pool_step (Acknowledged 0) demo_relay = Inr t"
      "al_free_slots (rp_alloc t) = int (length (filter (\<lambda>b. b) (al_free (rp_alloc t))))"
    using slots_are_released_once [OF demo_relay_reached [THEN conjunct1] demo_relay_reached [THEN conjunct2]] by blast
  moreover have "(case pool_step (Acknowledged 0) demo_relay of Inr t \<Rightarrow> al_free (rp_alloc t) = [True, True, False, True] | Inl x \<Rightarrow> False)"
    by code_simp
  ultimately show ?thesis
    by auto
qed

theorem cancelled_put_keeps_its_slots_witness:
  "\<exists>t. pool_step (Cancel_Put 0) demo_relay = Inr t \<and> rp_puts t ! 0 = Cancelled (Some (0, 2)) \<and> rp_failed t = None"
proof -
  have e: "pool_enabled (Cancel_Put 0) demo_relay"
    by code_simp
  obtain t where t: "pool_step (Cancel_Put 0) demo_relay = Inr t"
    by (simp add: pool_step_def)
  have "rp_failed t = rp_failed demo_relay \<and> rp_puts t ! 0 = Cancelled (Some (0, 2))"
    using cancelled_put_keeps_its_slots [OF demo_relay_reached [THEN conjunct1] demo_relay_reached [THEN conjunct2] _ _ e t, of 0 2]
    by (simp add: demo_relay_def)
  then show ?thesis
    using t by (simp add: demo_relay_def)
qed

theorem receiver_accepts_the_transfer_witness: "check_transfer 64 20 20 0 16 2 = Inr ()"
proof -
  have "slots_for_size 20 16 = Inr (int 2)"
    by code_simp
  then show ?thesis
    using receiver_accepts_the_transfer [OF demo_relay_reached [THEN conjunct1] demo_relay_reached [THEN conjunct2], of 0 0 2 20]
    by (simp add: demo_relay_def)
qed

end
