(* ===== verification/Comm_Engine.thy ===== *)
theory Comm_Engine
  imports Prelude "HOL-Library.Sublist"
begin

text \<open>
  The communication engine of a stage, \<open>sglang_omni/comm/engine.py\<close>: one sender per target stage takes
  jobs from its queue, writes each to the relay, announces it on the control plane and leaves the transfer
  to a watcher that waits for the receiver's acknowledgement. A job is a call of \<open>send_payload\<close> or
  \<open>send_stream_chunk\<close> and is named by its number; every stretch between two awaits is one step. What the
  relay's write and the control plane's send end with is part of the event, and it may be any exception,
  \<open>CancelledError\<close> included. A cancelled task is assumed to see its cancellation at the await it stands at
  (no relay swallows it), and callers are not cancelled themselves.
\<close>

section \<open>State\<close>

text \<open>
  Where a job stands: waiting for room in the queue, in the queue, being written, being announced; or its
  future \<open>ready\<close> has the object's id or an exception (\<open>Settled\<close>). \<open>Dropped\<close> is a job that was in the hands
  of a sender when that task died of a cancellation, with the \<open>object_id\<close> it had by then.
\<close>

datatype job_phase = Putting | Queued | Writing | Announcing string | Settled "string result" | Dropped "string option"

record job =
  jb_target :: string
  jb_phase :: job_phase

datatype ack_state = Ack_Pending | Ack_Ok | Ack_Failed py_error | Ack_Cancelled

text \<open>The task of a pending transfer: not started, waiting for the acknowledgement, for the operations.\<close>

datatype watch = Unwatched | Awaiting | Completing | Failing

record transfer =
  tr_ack :: ack_state
  tr_watch :: watch

text \<open>
  The sender task of a target: never created, in its loop, with a cancellation that has not reached it yet,
  or done. A task leaves its loop only by a cancellation.
\<close>

datatype sender_task = No_Task | Running | Cancelling | Ended

text \<open>\<open>ce_sender\<close> is the job in the hands of a target's sender, \<open>ce_task\<close> the sender's task.\<close>

record engine =
  ce_jobs :: "job list"
  ce_queues :: "string \<Rightarrow> nat list"
  ce_sender :: "string \<Rightarrow> nat option"
  ce_task :: "string \<Rightarrow> sender_task"
  ce_pending :: "string \<rightharpoonup> transfer"
  ce_puts :: "(string \<times> nat) list"
  ce_sent :: "(string \<times> nat) list"
  ce_marks :: "(string \<times> bool) list"
  ce_closed :: bool

definition new_engine :: engine where
  "new_engine = \<lparr>ce_jobs = [], ce_queues = (\<lambda>t. []), ce_sender = (\<lambda>t. None), ce_task = (\<lambda>t. No_Task),
     ce_pending = Map.empty, ce_puts = [], ce_sent = [], ce_marks = [], ce_closed = False\<rparr>"

section \<open>Jobs\<close>

definition phase_of :: "engine \<Rightarrow> nat \<Rightarrow> job_phase" where
  "phase_of s i = jb_phase (ce_jobs s ! i)"

definition target_of :: "engine \<Rightarrow> nat \<Rightarrow> string" where
  "target_of s i = jb_target (ce_jobs s ! i)"

definition set_job :: "nat \<Rightarrow> job_phase \<Rightarrow> engine \<Rightarrow> engine" where
  "set_job i p s = s\<lparr>ce_jobs := (ce_jobs s)[i := (ce_jobs s ! i)\<lparr>jb_phase := p\<rparr>]\<rparr>"

text \<open>
  \<open>_send_queue_for\<close> and the start of the call: a closed engine raises; a target without a sender task, or
  with one that is done, gets a new one.
\<close>

definition task_done :: "sender_task \<Rightarrow> bool" where
  "task_done k \<longleftrightarrow> k = Ended"

definition comm_send :: "string \<Rightarrow> engine \<Rightarrow> engine result" where
  "comm_send target s =
     (if ce_closed s then Inl (RuntimeError ''comm engine is closed'')
      else let s = (if ce_task s target = No_Task \<or> task_done (ce_task s target)
                    then s\<lparr>ce_task := (ce_task s)(target := Running)\<rparr> else s)
           in Inr (s\<lparr>ce_jobs := ce_jobs s @ [\<lparr>jb_target = target, jb_phase = Putting\<rparr>]\<rparr>))"

text \<open>\<open>queue.put\<close> returns when there is room.\<close>

definition put_job :: "nat \<Rightarrow> engine \<Rightarrow> engine" where
  "put_job i s =
     (let t = target_of s i in
      set_job i Queued (s\<lparr>ce_queues := (ce_queues s)(t := ce_queues s t @ [i]), ce_puts := ce_puts s @ [(t, i)]\<rparr>))"

text \<open>The sender's \<open>queue.get\<close>.\<close>

definition get_job :: "string \<Rightarrow> engine \<Rightarrow> engine" where
  "get_job t s = (case (ce_sender s t, ce_queues s t) of
     (None, i # is) \<Rightarrow> set_job i Writing (s\<lparr>ce_queues := (ce_queues s)(t := is), ce_sender := (ce_sender s)(t := Some i)\<rparr>)
   | _ \<Rightarrow> s)"

definition settle_job :: "string \<Rightarrow> nat \<Rightarrow> string result \<Rightarrow> engine \<Rightarrow> engine" where
  "settle_job t i r s = set_job i (Settled r) (s\<lparr>ce_sender := (ce_sender s)(t := None)\<rparr>)"

section \<open>Pending transfers\<close>

definition ack_done :: "transfer \<Rightarrow> bool" where
  "ack_done tr \<longleftrightarrow> tr_ack tr \<noteq> Ack_Pending"

definition register_pending :: "string \<Rightarrow> engine \<Rightarrow> engine result" where
  "register_pending oid s =
     (if ce_pending s oid \<noteq> None then Inl (RuntimeError (''duplicate pending transfer '' @ oid))
      else Inr (s\<lparr>ce_pending := (ce_pending s)(oid \<mapsto> \<lparr>tr_ack = Ack_Pending, tr_watch = Unwatched\<rparr>)\<rparr>))"

definition arm_pending :: "string \<Rightarrow> engine \<Rightarrow> engine result" where
  "arm_pending oid s = (case ce_pending s oid of
     None \<Rightarrow> Inl (KeyError oid)
   | Some tr \<Rightarrow>
       (if tr_watch tr \<noteq> Unwatched then Inl (AssertionError [])
        else Inr (s\<lparr>ce_pending := (ce_pending s)(oid \<mapsto> tr\<lparr>tr_watch := Awaiting\<rparr>)\<rparr>)))"

definition failed_transfer :: "py_error \<Rightarrow> transfer \<Rightarrow> transfer" where
  "failed_transfer e tr = tr
     \<lparr>tr_ack := (if ack_done tr then tr_ack tr else Ack_Failed e),
      tr_watch := (if tr_watch tr = Unwatched then Awaiting else tr_watch tr)\<rparr>"

definition fail_pending :: "string \<Rightarrow> py_error \<Rightarrow> engine \<Rightarrow> engine" where
  "fail_pending oid e s = (case ce_pending s oid of
     None \<Rightarrow> s | Some tr \<Rightarrow> s\<lparr>ce_pending := (ce_pending s)(oid \<mapsto> failed_transfer e tr)\<rparr>)"

text \<open>\<open>ack_transfer\<close>, for acknowledgements addressed to this stage.\<close>

definition ack_transfer :: "string \<Rightarrow> string \<Rightarrow> string \<Rightarrow> bool \<Rightarrow> string option \<Rightarrow> engine \<Rightarrow> engine result" where
  "ack_transfer stage to_stage oid success err s =
     (if to_stage \<noteq> stage then Inl (ValueError (''data_ack for '' @ to_stage @ '' delivered to '' @ stage))
      else case ce_pending s oid of
        None \<Rightarrow> Inr s
      | Some tr \<Rightarrow>
          (if success then Inr (if ack_done tr then s else s\<lparr>ce_pending := (ce_pending s)(oid \<mapsto> tr\<lparr>tr_ack := Ack_Ok\<rparr>)\<rparr>)
           else case err of
             None \<Rightarrow> Inl (ValueError ''failed data_ack is missing error'')
           | Some e \<Rightarrow> Inr (if ack_done tr then s
               else s\<lparr>ce_pending := (ce_pending s)(oid \<mapsto> tr\<lparr>tr_ack := Ack_Failed (RuntimeError e)\<rparr>)\<rparr>)))"

section \<open>The sender\<close>

text \<open>
  An exception in the sending of job \<open>i\<close>, \<open>oid\<close> being the value of \<open>object_id\<close>. The handler is
  \<open>except Exception\<close>: it fails the pending transfer of that id, whosever it is, and sets the future.
  \<open>CancelledError\<close> is not an \<open>Exception\<close>: it passes the handler and the loop's \<open>finally\<close> and ends the task.
\<close>

definition is_exception :: "py_error \<Rightarrow> bool" where
  "is_exception e = (case e of CancelledError m \<Rightarrow> False | _ \<Rightarrow> True)"

definition send_raises :: "string \<Rightarrow> nat \<Rightarrow> string option \<Rightarrow> py_error \<Rightarrow> engine \<Rightarrow> engine" where
  "send_raises t i oid e s =
     (if is_exception e
      then settle_job t i (Inl e) (case oid of None \<Rightarrow> s | Some x \<Rightarrow> fail_pending x e s)
      else set_job i (Dropped oid) (s\<lparr>ce_sender := (ce_sender s)(t := None), ce_task := (ce_task s)(t := Ended)\<rparr>))"

text \<open>The write has ended, with an exception or an object id.\<close>

definition write_ends :: "string \<Rightarrow> string result \<Rightarrow> engine \<Rightarrow> engine" where
  "write_ends t r s = (case ce_sender s t of
     Some i \<Rightarrow>
       (if phase_of s i \<noteq> Writing then s
        else case r of
          Inl e \<Rightarrow> send_raises t i None e s
        | Inr oid \<Rightarrow> (case register_pending oid s of
            Inl e \<Rightarrow> send_raises t i (Some oid) e s
          | Inr s' \<Rightarrow> set_job i (Announcing oid) s'))
   | None \<Rightarrow> s)"

text \<open>The control plane's send has ended.\<close>

definition announce_ends :: "string \<Rightarrow> py_error option \<Rightarrow> engine \<Rightarrow> engine" where
  "announce_ends t r s = (case ce_sender s t of
     Some i \<Rightarrow> (case phase_of s i of
         Announcing oid \<Rightarrow> (case r of
             Some e \<Rightarrow> send_raises t i (Some oid) e s
           | None \<Rightarrow>
               (let s = s\<lparr>ce_sent := ce_sent s @ [(t, i)]\<rparr> in
                case arm_pending oid s of
                  Inl e \<Rightarrow> send_raises t i (Some oid) e s
                | Inr s' \<Rightarrow> settle_job t i (Inr oid) s'))
       | _ \<Rightarrow> s)
   | None \<Rightarrow> s)"

text \<open>
  The cancellation of a sender reaches it: where it waits for a job the task ends, where it waits for the
  write or the announcement of a job that await raises \<open>CancelledError\<close>.
\<close>

definition cancel_lands :: "string \<Rightarrow> engine \<Rightarrow> engine" where
  "cancel_lands t s = (case ce_sender s t of
     None \<Rightarrow> s\<lparr>ce_task := (ce_task s)(t := Ended)\<rparr>
   | Some i \<Rightarrow>
       (if phase_of s i = Writing then write_ends t (Inl (CancelledError [])) s
        else announce_ends t (Some (CancelledError [])) s))"

section \<open>The watcher\<close>

definition set_watch :: "string \<Rightarrow> transfer \<Rightarrow> engine \<Rightarrow> engine" where
  "set_watch oid tr s = s\<lparr>ce_pending := (ce_pending s)(oid \<mapsto> tr)\<rparr>"

definition mark :: "string \<Rightarrow> bool \<Rightarrow> engine \<Rightarrow> engine" where
  "mark oid ok s = s\<lparr>ce_marks := ce_marks s @ [(oid, ok)]\<rparr>"

text \<open>
  \<open>wait_for(ack)\<close> ends: the acknowledgement is there, or the time is over and the future cancelled. Then
  the operations are told, and their completion is awaited.
\<close>

definition ack_wait_ends :: "string \<Rightarrow> engine \<Rightarrow> engine" where
  "ack_wait_ends oid s = (case ce_pending s oid of
     Some tr \<Rightarrow>
       (if tr_watch tr \<noteq> Awaiting then s
        else case tr_ack tr of
          Ack_Ok \<Rightarrow> mark oid True (set_watch oid (tr\<lparr>tr_watch := Completing\<rparr>) s)
        | Ack_Pending \<Rightarrow> mark oid False (set_watch oid (tr\<lparr>tr_ack := Ack_Cancelled, tr_watch := Failing\<rparr>) s)
        | _ \<Rightarrow> mark oid False (set_watch oid (tr\<lparr>tr_watch := Failing\<rparr>) s))
   | None \<Rightarrow> s)"

definition completion_ends :: "string \<Rightarrow> bool \<Rightarrow> engine \<Rightarrow> engine" where
  "completion_ends oid ok s = (case ce_pending s oid of
     Some tr \<Rightarrow> (case tr_watch tr of
         Completing \<Rightarrow> (if ok then s\<lparr>ce_pending := (ce_pending s)(oid := None)\<rparr>
                        else mark oid False (set_watch oid (tr\<lparr>tr_watch := Failing\<rparr>) s))
       | Failing \<Rightarrow> s\<lparr>ce_pending := (ce_pending s)(oid := None)\<rparr>
       | _ \<Rightarrow> s)
   | None \<Rightarrow> s)"

section \<open>Closing\<close>

definition is_settled :: "job \<Rightarrow> bool" where
  "is_settled j \<longleftrightarrow> (case jb_phase j of Settled r \<Rightarrow> True | _ \<Rightarrow> False)"

text \<open>
  The senders are cancelled, which they notice on their next turn only, and every pending transfer fails.
  The jobs are not touched. The dictionaries of queues and senders are cleared: no later call gets a queue,
  but a caller that already waits for room still holds the queue object, so the queues stay in the state.
\<close>

definition close :: "engine \<Rightarrow> engine" where
  "close s = s
     \<lparr>ce_closed := True, ce_task := (\<lambda>t. if ce_task s t = Running then Cancelling else ce_task s t),
      ce_pending := (\<lambda>oid. map_option (failed_transfer (RuntimeError ''comm engine closed'')) (ce_pending s oid))\<rparr>"

datatype engine_event =
    Send string
  | Put nat
  | Get string
  | Write_Ends string "string result"
  | Announce_Ends string "py_error option"
  | Ack string string bool "string option"
  | Ack_Wait_Ends string
  | Completion_Ends string bool
  | Close
  | Cancel_Lands string

definition engine_step :: "string \<Rightarrow> engine_event \<Rightarrow> engine \<Rightarrow> engine" where
  "engine_step stage e s = (case e of
     Send t \<Rightarrow> (case comm_send t s of Inl x \<Rightarrow> s | Inr s' \<Rightarrow> s')
   | Put i \<Rightarrow> put_job i s
   | Get t \<Rightarrow> get_job t s
   | Write_Ends t r \<Rightarrow> write_ends t r s
   | Announce_Ends t r \<Rightarrow> announce_ends t r s
   | Ack to oid ok err \<Rightarrow> (case ack_transfer stage to oid ok err s of Inl x \<Rightarrow> s | Inr s' \<Rightarrow> s')
   | Ack_Wait_Ends oid \<Rightarrow> ack_wait_ends oid s
   | Completion_Ends oid ok \<Rightarrow> completion_ends oid ok s
   | Close \<Rightarrow> close s
   | Cancel_Lands t \<Rightarrow> cancel_lands t s)"

text \<open>
  When an event can happen; \<open>n\<close> is the bound of a queue. Only a task in its loop takes jobs and sees the
  outcome of an await; a task with a cancellation pending sees the cancellation.
\<close>

fun engine_enabled :: "nat \<Rightarrow> engine_event \<Rightarrow> engine \<Rightarrow> bool" where
  "engine_enabled n (Put i) s =
     (i < length (ce_jobs s) \<and> phase_of s i = Putting \<and> length (ce_queues s (target_of s i)) < n)"
| "engine_enabled n (Get t) s = (ce_task s t = Running \<and> ce_sender s t = None \<and> ce_queues s t \<noteq> [])"
| "engine_enabled n (Write_Ends t r) s =
     (ce_task s t = Running \<and> (case ce_sender s t of Some i \<Rightarrow> phase_of s i = Writing | None \<Rightarrow> False))"
| "engine_enabled n (Announce_Ends t r) s = (ce_task s t = Running \<and> (case ce_sender s t of
     Some i \<Rightarrow> (case phase_of s i of Announcing oid \<Rightarrow> True | _ \<Rightarrow> False) | None \<Rightarrow> False))"
| "engine_enabled n (Cancel_Lands t) s = (ce_task s t = Cancelling)"
| "engine_enabled n (Ack_Wait_Ends oid) s = (case ce_pending s oid of Some tr \<Rightarrow> tr_watch tr = Awaiting | None \<Rightarrow> False)"
| "engine_enabled n (Completion_Ends oid ok) s = (case ce_pending s oid of
     Some tr \<Rightarrow> tr_watch tr = Completing \<or> tr_watch tr = Failing | None \<Rightarrow> False)"
| "engine_enabled n _ s = True"

inductive engine_run :: "nat \<Rightarrow> string \<Rightarrow> engine \<Rightarrow> engine_event list \<Rightarrow> engine \<Rightarrow> bool" for n stage s where
  Start: "engine_run n stage s [] s"
| Step: "engine_run n stage s es s' \<Longrightarrow> engine_enabled n e s' \<Longrightarrow> engine_run n stage s (es @ [e]) (engine_step stage e s')"

abbreviation engine_reach :: "nat \<Rightarrow> string \<Rightarrow> engine_event list \<Rightarrow> engine \<Rightarrow> bool" where
  "engine_reach n stage \<equiv> engine_run n stage new_engine"

text \<open>Runs can be computed.\<close>

fun all_enabled :: "nat \<Rightarrow> string \<Rightarrow> engine_event list \<Rightarrow> engine \<Rightarrow> bool" where
  "all_enabled n stage [] s = True"
| "all_enabled n stage (e # es) s = (engine_enabled n e s \<and> all_enabled n stage es (engine_step stage e s))"

lemma all_enabled_snoc [simp]:
  "all_enabled n stage (es @ [e]) s \<longleftrightarrow> all_enabled n stage es s \<and> engine_enabled n e (fold (engine_step stage) es s)"
  by (induction es arbitrary: s) auto

lemma engine_run_iff:
  "engine_run n stage s es s' \<longleftrightarrow> all_enabled n stage es s \<and> s' = fold (engine_step stage) es s"
proof
  show "all_enabled n stage es s \<and> s' = fold (engine_step stage) es s" if "engine_run n stage s es s'"
    using that by induction auto
  have "engine_run n stage s es (fold (engine_step stage) es s)" if "all_enabled n stage es s"
    using that by (induction es rule: rev_induct) (auto intro: engine_run.intros)
  then show "engine_run n stage s es s'" if "all_enabled n stage es s \<and> s' = fold (engine_step stage) es s"
    using that by blast
qed

lemma engine_runI: "all_enabled n stage es s \<Longrightarrow> engine_run n stage s es (fold (engine_step stage) es s)"
  by (simp add: engine_run_iff)

section \<open>Where the jobs are\<close>

lemma set_job_frame [simp]:
  "ce_queues (set_job i p s) = ce_queues s" "ce_sender (set_job i p s) = ce_sender s"
  "ce_pending (set_job i p s) = ce_pending s" "ce_puts (set_job i p s) = ce_puts s"
  "ce_sent (set_job i p s) = ce_sent s" "ce_marks (set_job i p s) = ce_marks s"
  "ce_closed (set_job i p s) = ce_closed s" "ce_task (set_job i p s) = ce_task s" "length (ce_jobs (set_job i p s)) = length (ce_jobs s)"
  by (simp_all add: set_job_def)

lemma target_of_set_job [simp]: "target_of (set_job i p s) j = target_of s j"
  by (cases "i < length (ce_jobs s)"; cases "i = j") (simp_all add: set_job_def target_of_def list_update_beyond)

lemma phase_of_set_job [simp]:
  "i < length (ce_jobs s) \<Longrightarrow> phase_of (set_job i p s) j = (if j = i then p else phase_of s j)"
  by (simp add: set_job_def phase_of_def)

lemma phase_target_frame [simp]:
  "phase_of (s\<lparr>ce_queues := q\<rparr>) i = phase_of s i" "target_of (s\<lparr>ce_queues := q\<rparr>) i = target_of s i"
  "phase_of (s\<lparr>ce_sender := f\<rparr>) i = phase_of s i" "target_of (s\<lparr>ce_sender := f\<rparr>) i = target_of s i"
  "phase_of (s\<lparr>ce_task := ts\<rparr>) i = phase_of s i" "target_of (s\<lparr>ce_task := ts\<rparr>) i = target_of s i"
  "phase_of (s\<lparr>ce_pending := m\<rparr>) i = phase_of s i" "target_of (s\<lparr>ce_pending := m\<rparr>) i = target_of s i"
  "phase_of (s\<lparr>ce_puts := ps\<rparr>) i = phase_of s i" "target_of (s\<lparr>ce_puts := ps\<rparr>) i = target_of s i"
  "phase_of (s\<lparr>ce_sent := ps\<rparr>) i = phase_of s i" "target_of (s\<lparr>ce_sent := ps\<rparr>) i = target_of s i"
  "phase_of (s\<lparr>ce_marks := ms\<rparr>) i = phase_of s i" "target_of (s\<lparr>ce_marks := ms\<rparr>) i = target_of s i"
  by (simp_all add: phase_of_def target_of_def)

text \<open>
  A job is in exactly one place: the queue of its target, or the hands of that target's sender, or nowhere
  once its future is set or its sender has died.
\<close>

definition queues_ok :: "engine \<Rightarrow> bool" where
  "queues_ok s \<longleftrightarrow> (\<forall>t. distinct (ce_queues s t) \<and>
     (\<forall>i. i \<in> set (ce_queues s t) \<longleftrightarrow> i < length (ce_jobs s) \<and> target_of s i = t \<and> phase_of s i = Queued))"

definition in_hand :: "job_phase \<Rightarrow> bool" where
  "in_hand p \<longleftrightarrow> p = Writing \<or> (\<exists>oid. p = Announcing oid)"

definition senders_ok :: "engine \<Rightarrow> bool" where
  "senders_ok s \<longleftrightarrow> (\<forall>t i. ce_sender s t = Some i \<longleftrightarrow>
     i < length (ce_jobs s) \<and> target_of s i = t \<and> in_hand (phase_of s i))"

text \<open>
  A job in a sender's hands means that the task is in its loop or about to see a cancellation. The targets
  of calls have had a sender. Cancellations are pending in a closed engine only, and none of its senders is
  in its loop.
\<close>

definition tasks_ok :: "engine \<Rightarrow> bool" where
  "tasks_ok s \<longleftrightarrow> (\<forall>t. ce_sender s t \<noteq> None \<longrightarrow> ce_task s t = Running \<or> ce_task s t = Cancelling) \<and>
     (\<forall>i < length (ce_jobs s). ce_task s (target_of s i) \<noteq> No_Task) \<and>
     (\<forall>t. ce_task s t = Running \<longrightarrow> \<not> ce_closed s) \<and> (\<forall>t. ce_task s t = Cancelling \<longrightarrow> ce_closed s)"

text \<open>
  A transfer without a watcher belongs to a job whose announcement is under way, or was under way when its
  sender died; a closed engine has none.
\<close>

definition announced_as :: "string \<Rightarrow> job_phase \<Rightarrow> bool" where
  "announced_as oid p \<longleftrightarrow> p = Announcing oid \<or> p = Dropped (Some oid)"

definition pending_ok :: "engine \<Rightarrow> bool" where
  "pending_ok s \<longleftrightarrow> (\<forall>oid tr. ce_pending s oid = Some tr \<and> tr_watch tr = Unwatched \<longrightarrow>
     \<not> ce_closed s \<and> (\<exists>i < length (ce_jobs s). announced_as oid (phase_of s i)))"

definition engine_ok :: "engine \<Rightarrow> bool" where
  "engine_ok s \<longleftrightarrow> queues_ok s \<and> senders_ok s \<and> tasks_ok s \<and> pending_ok s"

lemma in_hand_simps [simp]:
  "in_hand Writing" "in_hand (Announcing oid)" "\<not> in_hand Putting" "\<not> in_hand Queued"
  "\<not> in_hand (Settled r)" "\<not> in_hand (Dropped w)"
  by (auto simp: in_hand_def)

lemma announced_as_simps [simp]:
  "announced_as oid (Announcing x) \<longleftrightarrow> x = oid" "announced_as oid (Dropped w) \<longleftrightarrow> w = Some oid"
  "\<not> announced_as oid Putting" "\<not> announced_as oid Queued" "\<not> announced_as oid Writing"
  "\<not> announced_as oid (Settled r)"
  by (auto simp: announced_as_def)

lemma sender_iff:
  "senders_ok s \<Longrightarrow> ce_sender s t = Some i \<longleftrightarrow> i < length (ce_jobs s) \<and> target_of s i = t \<and> in_hand (phase_of s i)"
  by (simp add: senders_ok_def)

lemma senders_okI:
  assumes "\<And>t i. ce_sender s t = Some i \<longleftrightarrow> i < length (ce_jobs s) \<and> target_of s i = t \<and> in_hand (phase_of s i)"
  shows "senders_ok s"
  using assms by (simp add: senders_ok_def)

lemma sender_unique:
  "senders_ok s \<Longrightarrow> ce_sender s t = Some i \<Longrightarrow> j < length (ce_jobs s) \<Longrightarrow> target_of s j = t \<Longrightarrow>
   in_hand (phase_of s j) \<Longrightarrow> j = i"
  unfolding senders_ok_def by (metis option.inject)

lemma new_engine_ok: "engine_ok new_engine"
  by (simp add: engine_ok_def queues_ok_def senders_ok_def tasks_ok_def pending_ok_def new_engine_def)

text \<open>The invariant speaks of the phases and targets through their functions only.\<close>

lemma engine_okI:
  assumes "engine_ok s"
    and "queues_ok s \<Longrightarrow> senders_ok s \<Longrightarrow> queues_ok s'" and "senders_ok s \<Longrightarrow> queues_ok s \<Longrightarrow> senders_ok s'"
    and "tasks_ok s \<Longrightarrow> tasks_ok s'" and "pending_ok s \<Longrightarrow> senders_ok s \<Longrightarrow> pending_ok s'"
  shows "engine_ok s'"
  using assms by (simp add: engine_ok_def)

lemma queued_iff:
  "engine_ok s \<Longrightarrow> i \<in> set (ce_queues s t) \<longleftrightarrow> i < length (ce_jobs s) \<and> target_of s i = t \<and> phase_of s i = Queued"
  by (simp add: engine_ok_def queues_ok_def)

lemma distinct_queue: "engine_ok s \<Longrightarrow> distinct (ce_queues s t)"
  by (simp add: engine_ok_def queues_ok_def)

lemma hand_iff:
  "engine_ok s \<Longrightarrow> ce_sender s t = Some i \<longleftrightarrow> i < length (ce_jobs s) \<and> target_of s i = t \<and> in_hand (phase_of s i)"
  by (simp add: engine_ok_def sender_iff)

lemma pending_okI:
  assumes "pending_ok s" and "ce_closed s' = ce_closed s"
    and "\<And>oid tr. ce_pending s' oid = Some tr \<Longrightarrow> tr_watch tr = Unwatched \<Longrightarrow>
           (\<exists>tr. ce_pending s oid = Some tr \<and> tr_watch tr = Unwatched) \<or>
           \<not> ce_closed s' \<and> (\<exists>i < length (ce_jobs s'). announced_as oid (phase_of s' i))"
    and "\<And>i oid. i < length (ce_jobs s) \<Longrightarrow> announced_as oid (phase_of s i) \<Longrightarrow>
           i < length (ce_jobs s') \<and> announced_as oid (phase_of s' i)"
  shows "pending_ok s'"
  using assms unfolding pending_ok_def by blast

lemma tasks_okI:
  assumes "tasks_ok s" and "ce_closed s' = ce_closed s" and "length (ce_jobs s') = length (ce_jobs s)"
    and "\<And>i. target_of s' i = target_of s i" and "ce_task s' = ce_task s"
    and "\<And>t. ce_sender s' t \<noteq> None \<Longrightarrow> ce_sender s t \<noteq> None \<or> ce_task s t = Running"
  shows "tasks_ok s'"
  using assms unfolding tasks_ok_def by metis

lemma send_ok:
  assumes "engine_ok s" and "comm_send t s = Inr s'"
  shows "engine_ok s'"
proof -
  let ?js = "ce_jobs s @ [\<lparr>jb_target = t, jb_phase = Putting\<rparr>]"
  define ts where "ts = (if ce_task s t = No_Task \<or> ce_task s t = Ended then (ce_task s)(t := Running) else ce_task s)"
  have c: "\<not> ce_closed s" and s': "s' = s\<lparr>ce_jobs := ?js, ce_task := ts\<rparr>"
    using assms by (auto simp: comm_send_def task_done_def ts_def Let_def split: if_splits)
  have f: "ce_closed s' = ce_closed s" "ce_queues s' = ce_queues s" "ce_sender s' = ce_sender s" "ce_task s' = ts"
    "ce_pending s' = ce_pending s" "length (ce_jobs s') = Suc (length (ce_jobs s))"
    "\<And>i. i < length (ce_jobs s) \<Longrightarrow> phase_of s' i = phase_of s i \<and> target_of s' i = target_of s i"
    "phase_of s' (length (ce_jobs s)) = Putting" "target_of s' (length (ce_jobs s)) = t"
    by (simp_all add: s' phase_of_def target_of_def nth_append)
  have ts: "ts u = ce_task s u \<or> (u = t \<and> ts u = Running \<and> (ce_task s u = No_Task \<or> ce_task s u = Ended))" "ts t \<noteq> No_Task" for u
    by (auto simp: ts_def)
  note less_Suc_eq [simp]
  show ?thesis
    using assms(1)
  proof (rule engine_okI)
    show "queues_ok s'" if "queues_ok s"
      using that f by (auto simp: queues_ok_def)
    show "senders_ok s'" if "senders_ok s"
      using that f by (auto simp: senders_ok_def)
    show "tasks_ok s'" if "tasks_ok s"
    proof -
      have "ts (target_of s i) \<noteq> No_Task" if "i < length (ce_jobs s)" for i
        using ts(1) [of "target_of s i"] \<open>tasks_ok s\<close> that by (auto simp: tasks_ok_def)
      moreover have "ts u = Running \<or> ts u = Cancelling" if "ce_sender s u \<noteq> None" for u
        using ts(1) [of u] \<open>tasks_ok s\<close> that by (auto simp: tasks_ok_def)
      moreover have "ts u \<noteq> Cancelling" for u
        using ts(1) [of u] \<open>tasks_ok s\<close> c by (auto simp: tasks_ok_def)
      ultimately show ?thesis
        using f c ts(2) by (auto simp: tasks_ok_def)
    qed
    show "pending_ok s'" if "pending_ok s"
      using that by (rule pending_okI) (use f in auto)
  qed
qed

lemma put_ok:
  assumes "engine_ok s" and "i < length (ce_jobs s)" and "phase_of s i = Putting"
  shows "engine_ok (put_job i s)"
  using assms(1)
proof (rule engine_okI)
  have i: "i \<notin> set (ce_queues s t)" if "queues_ok s" for t
    using that assms by (auto simp: queues_ok_def)
  show "queues_ok (put_job i s)" if "queues_ok s"
    using that i [OF that] assms by (auto simp: queues_ok_def put_job_def Let_def)
  show "senders_ok (put_job i s)" if "senders_ok s"
    using that assms by (auto simp: senders_ok_def put_job_def Let_def)
  show "tasks_ok (put_job i s)" if "tasks_ok s"
    using that by (rule tasks_okI) (simp_all add: put_job_def Let_def)
  show "pending_ok (put_job i s)" if "pending_ok s"
    using that by (rule pending_okI) (use assms(2,3) in \<open>auto simp: put_job_def Let_def\<close>)
qed

lemma get_ok:
  assumes "engine_ok s" and "ce_task s t = Running" and "ce_sender s t = None" and "ce_queues s t \<noteq> []"
  shows "engine_ok (get_job t s)"
proof -
  obtain i js where q: "ce_queues s t = i # js"
    using assms(4) by (auto simp: neq_Nil_conv)
  have i: "i < length (ce_jobs s)" "target_of s i = t" "phase_of s i = Queued" "i \<notin> set js" "distinct js"
    using queued_iff [OF assms(1), of i t] distinct_queue [OF assms(1), of t] q by simp_all
  define s' where "s' = get_job t s"
  have f: "ce_closed s' = ce_closed s" "ce_queues s' = (ce_queues s)(t := js)" "ce_task s' = ce_task s"
    "ce_sender s' = (ce_sender s)(t := Some i)" "ce_pending s' = ce_pending s"
    "length (ce_jobs s') = length (ce_jobs s)" "\<And>j. target_of s' j = target_of s j"
    "\<And>j. phase_of s' j = (if j = i then Writing else phase_of s j)"
    using q i(1) assms(3) by (simp_all add: s'_def get_job_def)
  have "engine_ok s'"
    using assms(1)
  proof (rule engine_okI)
    show "queues_ok s'" if "queues_ok s"
    proof -
      have "j \<in> set js \<longleftrightarrow> j \<noteq> i \<and> j \<in> set (ce_queues s t)" for j
        using i(4) q by auto
      then show ?thesis
        using that f i by (auto simp: queues_ok_def)
    qed
    show "senders_ok s'" if "senders_ok s"
    proof -
      have n: "\<not> (j < length (ce_jobs s) \<and> target_of s j = t \<and> in_hand (phase_of s j))" for j
        using sender_iff [OF that, of t j] assms(3) by simp
      show ?thesis
        by (rule senders_okI) (use n i in \<open>auto simp: f sender_iff [OF that]\<close>)
    qed
    show "tasks_ok s'" if "tasks_ok s"
      using that by (rule tasks_okI) (use f assms(2) in \<open>auto split: if_splits\<close>)
    show "pending_ok s'" if "pending_ok s"
      using that by (rule pending_okI) (use f i in auto)
  qed
  then show ?thesis
    by (simp add: s'_def)
qed

text \<open>
  A job leaves its sender's hands: with its future set and the task in its loop, or with the task ended.
\<close>

lemma leave_ok:
  assumes "engine_ok s" and "ce_sender s t = Some i" and "\<not> in_hand p" and "p \<noteq> Queued"
    and "\<And>oid tr. phase_of s i = Announcing oid \<Longrightarrow> ce_pending s oid = Some tr \<Longrightarrow> tr_watch tr = Unwatched \<Longrightarrow> announced_as oid p"
    and "ts = ce_task s \<or> ts = (ce_task s)(t := Ended)"
  shows "engine_ok (set_job i p (s\<lparr>ce_sender := (ce_sender s)(t := None), ce_task := ts\<rparr>))"
proof -
  define s' where "s' = set_job i p (s\<lparr>ce_sender := (ce_sender s)(t := None), ce_task := ts\<rparr>)"
  have i: "i < length (ce_jobs s)" "target_of s i = t" "in_hand (phase_of s i)"
    using hand_iff [OF assms(1), of t i] assms(2) by simp_all
  have f: "ce_closed s' = ce_closed s" "ce_queues s' = ce_queues s" "ce_task s' = ts"
    "ce_sender s' = (ce_sender s)(t := None)" "ce_pending s' = ce_pending s"
    "length (ce_jobs s') = length (ce_jobs s)" "\<And>j. target_of s' j = target_of s j"
    "\<And>j. phase_of s' j = (if j = i then p else phase_of s j)"
    using i(1) by (simp_all add: s'_def)
  have "engine_ok s'"
    using assms(1)
  proof (rule engine_okI)
    show "queues_ok s'" if "queues_ok s"
      using that f i assms(4) by (auto simp: queues_ok_def)
    show "senders_ok s'" if sd: "senders_ok s"
    proof (rule senders_okI)
      fix u j
      have "j = i" if "j < length (ce_jobs s)" "target_of s j = t" "in_hand (phase_of s j)"
        using sender_unique [OF sd assms(2) that] .
      then have u: "\<not> (j < length (ce_jobs s) \<and> target_of s j = t \<and> in_hand (phase_of s j)) \<or> j = i"
        by blast
      have "ce_sender s' u = Some j \<longleftrightarrow> u \<noteq> t \<and> ce_sender s u = Some j"
        by (simp add: f)
      also have "\<dots> \<longleftrightarrow> j < length (ce_jobs s) \<and> target_of s j = u \<and> j \<noteq> i \<and> in_hand (phase_of s j)"
        using u i(2) unfolding sender_iff [OF sd] by blast
      also have "\<dots> \<longleftrightarrow> j < length (ce_jobs s') \<and> target_of s' j = u \<and> in_hand (phase_of s' j)"
        using assms(3) by (simp add: f)
      finally show "ce_sender s' u = Some j \<longleftrightarrow> j < length (ce_jobs s') \<and> target_of s' j = u \<and> in_hand (phase_of s' j)" .
    qed
    show "tasks_ok s'" if "tasks_ok s"
      using that assms(6) unfolding tasks_ok_def f by (auto split: if_splits)
    show "pending_ok s'" if po: "pending_ok s"
      unfolding pending_ok_def f
    proof (intro allI impI)
      fix oid tr
      assume a: "ce_pending s oid = Some tr \<and> tr_watch tr = Unwatched"
      then obtain j where j: "\<not> ce_closed s" "j < length (ce_jobs s)" "announced_as oid (phase_of s j)"
        using po unfolding pending_ok_def by blast
      have "announced_as oid p" if "j = i"
        using assms(5) [of oid tr] a j(3) i(3) that by (cases "phase_of s i") auto
      then show "\<not> ce_closed s \<and> (\<exists>k < length (ce_jobs s). announced_as oid (if k = i then p else phase_of s k))"
        using j by (intro conjI exI [of _ j]) auto
    qed
  qed
  then show ?thesis
    by (simp add: s'_def)
qed

lemma settle_ok:
  assumes "engine_ok s" and "ce_sender s t = Some i"
    and "\<And>oid tr. phase_of s i = Announcing oid \<Longrightarrow> ce_pending s oid = Some tr \<Longrightarrow> tr_watch tr \<noteq> Unwatched"
  shows "engine_ok (settle_job t i r s)"
  using leave_ok [OF assms(1,2), of "Settled r" "ce_task s"] assms(3) by (simp add: settle_job_def)

text \<open>What touches the pending transfers only.\<close>

lemma pending_only_ok:
  assumes "engine_ok s" and "s' = s\<lparr>ce_pending := ce_pending s', ce_marks := ce_marks s'\<rparr>"
    and "\<And>oid tr. ce_pending s' oid = Some tr \<Longrightarrow> tr_watch tr = Unwatched \<Longrightarrow>
           \<exists>tr. ce_pending s oid = Some tr \<and> tr_watch tr = Unwatched"
  shows "engine_ok s'"
proof -
  have f: "ce_jobs s' = ce_jobs s" "ce_queues s' = ce_queues s" "ce_sender s' = ce_sender s"
    "ce_closed s' = ce_closed s" "ce_task s' = ce_task s"
    by (subst assms(2); simp)+
  then have g: "phase_of s' i = phase_of s i" "target_of s' i = target_of s i" for i
    by (simp_all add: phase_of_def target_of_def)
  show ?thesis
    using assms(1)
  proof (rule engine_okI)
    show "pending_ok s'" if "pending_ok s"
      using that assms(3) unfolding pending_ok_def f g by blast
  qed (use assms(1) f g in \<open>simp_all add: queues_ok_def senders_ok_def tasks_ok_def engine_ok_def\<close>)
qed

lemma failed_transfer_watched [simp]: "tr_watch (failed_transfer e tr) \<noteq> Unwatched"
  by (simp add: failed_transfer_def)

lemma fail_pending_frame [simp]:
  "ce_jobs (fail_pending oid e s) = ce_jobs s" "ce_queues (fail_pending oid e s) = ce_queues s"
  "ce_sender (fail_pending oid e s) = ce_sender s" "ce_closed (fail_pending oid e s) = ce_closed s"
  "ce_puts (fail_pending oid e s) = ce_puts s" "ce_sent (fail_pending oid e s) = ce_sent s"
  "ce_marks (fail_pending oid e s) = ce_marks s" "ce_task (fail_pending oid e s) = ce_task s" "phase_of (fail_pending oid e s) i = phase_of s i"
  "target_of (fail_pending oid e s) i = target_of s i"
  by (simp_all add: fail_pending_def split: option.split)

lemma fail_pending_watched:
  "ce_pending (fail_pending oid e s) oid = Some tr \<Longrightarrow> tr_watch tr \<noteq> Unwatched"
  by (auto simp: fail_pending_def split: option.splits)

lemma fail_pending_ok: "engine_ok s \<Longrightarrow> engine_ok (fail_pending oid e s)"
  by (rule pending_only_ok) (auto simp: fail_pending_def split: option.splits if_splits)

lemma ack_ok:
  assumes "engine_ok s" and "ack_transfer stage to_stage oid ok err s = Inr s'"
  shows "engine_ok s'"
  by (rule pending_only_ok [OF assms(1)])
    (use assms(2) in \<open>auto simp: ack_transfer_def split: if_splits option.splits\<close>)

lemma ack_wait_ok: "engine_ok s \<Longrightarrow> engine_ok (ack_wait_ends oid s)"
  by (rule pending_only_ok)
    (auto simp: ack_wait_ends_def mark_def set_watch_def split: option.splits ack_state.splits if_splits)

lemma completion_ok: "engine_ok s \<Longrightarrow> engine_ok (completion_ends oid ok s)"
  by (rule pending_only_ok)
    (auto simp: completion_ends_def mark_def set_watch_def split: option.splits watch.splits if_splits)

lemma send_raises_ok:
  assumes "engine_ok s" and "ce_sender s t = Some i"
    and "\<And>x tr. phase_of s i = Announcing x \<Longrightarrow> ce_pending s x = Some tr \<Longrightarrow> tr_watch tr = Unwatched \<Longrightarrow> oid = Some x"
  shows "engine_ok (send_raises t i oid e s)"
proof (cases "is_exception e")
  case False
  then show ?thesis
    using leave_ok [OF assms(1,2), of "Dropped oid" "(ce_task s)(t := Ended)"] assms(3) by (simp add: send_raises_def)
next
  case True
  show ?thesis
  proof (cases oid)
    case None
    then show ?thesis
      using True settle_ok [OF assms(1,2)] assms(3) by (force simp: send_raises_def)
  next
    case (Some x)
    have "tr_watch tr \<noteq> Unwatched" if "phase_of s i = Announcing y" "ce_pending (fail_pending x e s) y = Some tr" for y tr
    proof (cases "y = x")
      case True
      then show ?thesis
        using that fail_pending_watched by blast
    next
      case False
      then have "ce_pending s y = Some tr"
        using that(2) by (auto simp: fail_pending_def split: option.splits)
      then show ?thesis
        using assms(3) that(1) Some False by blast
    qed
    then show ?thesis
      using True Some settle_ok [OF fail_pending_ok [OF assms(1)], where t = t and i = i] assms(2) by (simp add: send_raises_def)
  qed
qed

lemma write_ends_ok:
  assumes "engine_ok s" and "ce_task s t = Running \<or> (\<exists>e. r = Inl e)"
  shows "engine_ok (write_ends t r s)"
proof (cases "\<exists>i. ce_sender s t = Some i \<and> phase_of s i = Writing")
  case False
  then show ?thesis
    using assms(1) by (auto simp: write_ends_def split: option.splits)
next
  case True
  then obtain i where t: "ce_sender s t = Some i" and w: "phase_of s i = Writing"
    by blast
  have i: "i < length (ce_jobs s)" "target_of s i = t"
    using hand_iff [OF assms(1), of t i] t by simp_all
  have raises: "engine_ok (send_raises t i oid e s)" for oid e
    using send_raises_ok [OF assms(1) t] w by simp
  show ?thesis
  proof (cases r)
    case (Inl e)
    then show ?thesis
      using raises w t by (simp add: write_ends_def)
  next
    case (Inr oid)
    show ?thesis
    proof (cases "ce_pending s oid")
      case (Some tr)
      then show ?thesis
        using raises w t Inr by (simp add: write_ends_def register_pending_def)
    next
      case None
      define s' where "s' = write_ends t r s"
      have f: "ce_closed s' = ce_closed s" "ce_queues s' = ce_queues s" "ce_sender s' = ce_sender s" "ce_task s' = ce_task s"
        "ce_pending s' = (ce_pending s)(oid \<mapsto> \<lparr>tr_ack = Ack_Pending, tr_watch = Unwatched\<rparr>)"
        "length (ce_jobs s') = length (ce_jobs s)" "\<And>j. target_of s' j = target_of s j"
        "\<And>j. phase_of s' j = (if j = i then Announcing oid else phase_of s j)"
        using i t w None Inr by (simp_all add: s'_def write_ends_def register_pending_def)
      have "\<not> ce_closed s"
        using assms Inr by (auto simp: engine_ok_def tasks_ok_def)
      have "engine_ok s'"
        using assms(1)
      proof (rule engine_okI)
        show "queues_ok s'" if "queues_ok s"
          using that f w by (auto simp: queues_ok_def)
        show "senders_ok s'" if "senders_ok s"
          using that f w by (auto simp: senders_ok_def)
        show "tasks_ok s'" if "tasks_ok s"
          using that by (rule tasks_okI) (use f in auto)
        show "pending_ok s'" if "pending_ok s"
          using that by (rule pending_okI) (use f i w \<open>\<not> ce_closed s\<close> in \<open>auto split: if_splits\<close>)
      qed
      then show ?thesis
        by (simp add: s'_def)
    qed
  qed
qed

lemma arm_pending_ok:
  assumes "engine_ok s" and "arm_pending oid s = Inr s'"
  shows "engine_ok s'" and "\<And>tr. ce_pending s' oid = Some tr \<Longrightarrow> tr_watch tr \<noteq> Unwatched"
    and "ce_sender s' = ce_sender s" and "ce_jobs s' = ce_jobs s"
  by (rule pending_only_ok [OF assms(1)])
    (use assms(2) in \<open>auto simp: arm_pending_def split: option.splits if_splits\<close>)

lemma sent_ok: "engine_ok s \<Longrightarrow> engine_ok (s\<lparr>ce_sent := ps\<rparr>)"
  by (rule engine_okI) (simp_all add: queues_ok_def senders_ok_def tasks_ok_def pending_ok_def)

lemma announce_ends_ok:
  assumes "engine_ok s"
  shows "engine_ok (announce_ends t r s)"
proof (cases "\<exists>i oid. ce_sender s t = Some i \<and> phase_of s i = Announcing oid")
  case False
  then show ?thesis
    using assms by (auto simp: announce_ends_def split: option.splits job_phase.splits)
next
  case True
  then obtain i oid where t: "ce_sender s t = Some i" and w: "phase_of s i = Announcing oid"
    by blast
  let ?s = "s\<lparr>ce_sent := ce_sent s @ [(t, i)]\<rparr>"
  have f: "engine_ok (send_raises t i (Some oid) e s')"
    if "engine_ok s'" "ce_sender s' t = Some i" "phase_of s' i = Announcing oid" for s' e
    using send_raises_ok [OF that(1,2)] that(3) by simp
  show ?thesis
  proof (cases r)
    case (Some e)
    then show ?thesis
      using f [OF assms t w] t w by (simp add: announce_ends_def)
  next
    case None
    show ?thesis
    proof (cases "arm_pending oid ?s")
      case (Inl e)
      then show ?thesis
        using f [OF sent_ok [OF assms]] t w None by (simp add: announce_ends_def)
    next
      case (Inr s')
      note a = arm_pending_ok [OF sent_ok [OF assms] Inr]
      have "engine_ok (settle_job t i (Inr oid) s')"
        using a t w by (intro settle_ok) (auto simp: phase_of_def)
      then show ?thesis
        using t w None Inr by (simp add: announce_ends_def)
    qed
  qed
qed

lemma cancel_lands_ok:
  assumes "engine_ok s"
  shows "engine_ok (cancel_lands t s)"
proof (cases "ce_sender s t")
  case None
  have "tasks_ok (s\<lparr>ce_task := (ce_task s)(t := Ended)\<rparr>)" if "tasks_ok s"
    using that None unfolding tasks_ok_def by (auto split: if_splits)
  then have "engine_ok (s\<lparr>ce_task := (ce_task s)(t := Ended)\<rparr>)"
    using assms by (intro engine_okI [OF assms]) (simp_all add: queues_ok_def senders_ok_def pending_ok_def)
  then show ?thesis
    using None by (simp add: cancel_lands_def)
qed (auto simp: cancel_lands_def intro: write_ends_ok announce_ends_ok assms)

lemma close_frame [simp]:
  "ce_jobs (close s) = ce_jobs s" "ce_queues (close s) = ce_queues s" "ce_sender (close s) = ce_sender s"
  "ce_puts (close s) = ce_puts s" "ce_sent (close s) = ce_sent s" "ce_marks (close s) = ce_marks s"
  "phase_of (close s) i = phase_of s i" "target_of (close s) i = target_of s i" "ce_closed (close s)"
  "ce_task (close s) t = (if ce_task s t = Running then Cancelling else ce_task s t)"
  by (simp_all add: close_def phase_of_def target_of_def)

lemma close_watches: "ce_pending (close s) oid = Some tr \<Longrightarrow> tr_watch tr \<noteq> Unwatched"
  by (auto simp: close_def)

lemma close_ok:
  assumes "engine_ok s"
  shows "engine_ok (close s)"
  using assms
proof (rule engine_okI)
  show "tasks_ok (close s)" if "tasks_ok s"
    using that by (auto simp: tasks_ok_def)
  show "pending_ok (close s)"
    using close_watches [of s] by (auto simp: pending_ok_def)
qed (simp_all add: queues_ok_def senders_ok_def)

section \<open>Every run\<close>

lemma engine_step_ok:
  assumes "engine_ok s" and "engine_enabled n e s"
  shows "engine_ok (engine_step stage e s)"
  using assms by (cases e) (auto simp: engine_step_def put_ok get_ok write_ends_ok announce_ends_ok ack_wait_ok
      completion_ok close_ok cancel_lands_ok split: sum.split dest: send_ok ack_ok)

lemma engine_run_ok: "engine_run n stage s es s' \<Longrightarrow> engine_ok s \<Longrightarrow> engine_ok s'"
  by (induction rule: engine_run.induct) (auto dest: engine_step_ok [rotated])

lemma engine_reach_ok: "engine_reach n stage es s \<Longrightarrow> engine_ok s"
  using engine_run_ok new_engine_ok by blast

text \<open>The events with which a cancellation ends the sender of a target in an open engine.\<close>

fun cancels_sender :: "string \<Rightarrow> engine_event \<Rightarrow> bool" where
  "cancels_sender t (Write_Ends u (Inl e)) \<longleftrightarrow> u = t \<and> \<not> is_exception e"
| "cancels_sender t (Announce_Ends u (Some e)) \<longleftrightarrow> u = t \<and> \<not> is_exception e"
| "cancels_sender t e \<longleftrightarrow> False"

fun cancels_announcement :: "string \<Rightarrow> engine_event \<Rightarrow> bool" where
  "cancels_announcement t (Announce_Ends u (Some e)) \<longleftrightarrow> u = t \<and> \<not> is_exception e"
| "cancels_announcement t e \<longleftrightarrow> False"

lemma cancels_announcement_sender: "cancels_announcement t e \<Longrightarrow> cancels_sender t e"
  by (cases "(t, e)" rule: cancels_announcement.cases) auto

lemma raised_here:
  "register_pending oid s = Inl e \<Longrightarrow> is_exception e" "arm_pending oid s = Inl e \<Longrightarrow> is_exception e"
  by (auto simp: register_pending_def arm_pending_def is_exception_def split: if_splits option.splits)

lemma send_raises_phase:
  assumes "i < length (ce_jobs s)"
  shows "phase_of (send_raises t i oid e s) j =
    (if j = i then if is_exception e then Settled (Inl e) else Dropped oid else phase_of s j)"
  using assms by (auto simp: send_raises_def settle_job_def split: option.split)

lemma send_raises_frame:
  "ce_task (send_raises t i oid e s) = (if is_exception e then ce_task s else (ce_task s)(t := Ended))"
  "length (ce_jobs (send_raises t i oid e s)) = length (ce_jobs s)"
  "target_of (send_raises t i oid e s) j = target_of s j"
  "ce_closed (send_raises t i oid e s) = ce_closed s"
  by (auto simp: send_raises_def settle_job_def split: option.split)

text \<open>What the end of a write or of an announcement does to the phases and the tasks.\<close>

lemma write_ends_phase:
  assumes "ce_sender s t = Some i" and "phase_of s i = Writing" and "i < length (ce_jobs s)"
  obtains p where "\<And>j. phase_of (write_ends t r s) j = (if j = i then p else phase_of s j)"
    and "((\<exists>x. p = Announcing x) \<or> (\<exists>x. p = Settled x)) \<and> r \<noteq> Inl (CancelledError []) \<and> ce_task (write_ends t r s) = ce_task s \<or>
      p = Dropped None \<and> (\<exists>e. r = Inl e \<and> \<not> is_exception e) \<and> ce_task (write_ends t r s) = (ce_task s)(t := Ended)"
proof (cases r)
  case (Inl e)
  show ?thesis
    by (rule that [of "if is_exception e then Settled (Inl e) else Dropped None"])
      (use Inl assms in \<open>auto simp: write_ends_def send_raises_phase send_raises_frame is_exception_def split: if_splits\<close>)
next
  case (Inr oid)
  show ?thesis
  proof (cases "register_pending oid s")
    case (Inl e)
    show ?thesis
      by (rule that [of "Settled (Inl e)"])
        (use Inl \<open>r = Inr oid\<close> assms raised_here(1) [OF Inl] in \<open>auto simp: write_ends_def send_raises_phase send_raises_frame\<close>)
  next
    case (Inr s1)
    have "ce_jobs s1 = ce_jobs s" "ce_task s1 = ce_task s"
      using Inr by (auto simp: register_pending_def split: if_splits)
    then show ?thesis
      by (intro that [of "Announcing oid"])
        (use Inr \<open>r = Inr oid\<close> assms in \<open>auto simp: write_ends_def phase_of_def set_job_def\<close>)
  qed
qed

lemma announce_ends_phase:
  assumes "ce_sender s t = Some i" and "phase_of s i = Announcing oid" and "i < length (ce_jobs s)"
  obtains p where "\<And>j. phase_of (announce_ends t r s) j = (if j = i then p else phase_of s j)"
    and "(\<exists>x. p = Settled x) \<and> r \<noteq> Some (CancelledError []) \<and> ce_task (announce_ends t r s) = ce_task s \<or>
      p = Dropped (Some oid) \<and> (\<exists>e. r = Some e \<and> \<not> is_exception e) \<and> ce_task (announce_ends t r s) = (ce_task s)(t := Ended)"
proof (cases r)
  case (Some e)
  show ?thesis
    by (rule that [of "if is_exception e then Settled (Inl e) else Dropped (Some oid)"])
      (use Some assms in \<open>auto simp: announce_ends_def send_raises_phase send_raises_frame is_exception_def split: if_splits\<close>)
next
  case None
  let ?s = "s\<lparr>ce_sent := ce_sent s @ [(t, i)]\<rparr>"
  show ?thesis
  proof (cases "arm_pending oid ?s")
    case (Inl e)
    show ?thesis
      by (rule that [of "Settled (Inl e)"])
        (use Inl None assms raised_here(2) [OF Inl] in \<open>auto simp: announce_ends_def send_raises_phase send_raises_frame\<close>)
  next
    case (Inr s1)
    have "ce_jobs s1 = ce_jobs s" "ce_task s1 = ce_task s"
      using Inr by (auto simp: arm_pending_def split: if_splits option.splits)
    then show ?thesis
      by (intro that [of "Settled (Inr oid)"])
        (use Inr None assms in \<open>auto simp: announce_ends_def settle_job_def phase_of_def set_job_def\<close>)
  qed
qed

lemma ends_frame [simp]:
  "length (ce_jobs (write_ends t r s)) = length (ce_jobs s)" "target_of (write_ends t r s) j = target_of s j"
  "length (ce_jobs (announce_ends t a s)) = length (ce_jobs s)" "target_of (announce_ends t a s) j = target_of s j"
  "ce_closed (write_ends t r s) = ce_closed s" "ce_closed (announce_ends t a s) = ce_closed s"
  by (auto simp: write_ends_def announce_ends_def send_raises_frame register_pending_def arm_pending_def settle_job_def
      Let_def split: option.split sum.split job_phase.split)

lemma watch_frame [simp]:
  "ce_jobs (ack_wait_ends oid s) = ce_jobs s" "ce_task (ack_wait_ends oid s) = ce_task s"
  "ce_jobs (completion_ends oid ok s) = ce_jobs s" "ce_task (completion_ends oid ok s) = ce_task s"
  "ce_closed (ack_wait_ends oid s) = ce_closed s" "ce_closed (completion_ends oid ok s) = ce_closed s"
  "ce_puts (ack_wait_ends oid s) = ce_puts s" "ce_sent (ack_wait_ends oid s) = ce_sent s"
  "ce_puts (completion_ends oid ok s) = ce_puts s" "ce_sent (completion_ends oid ok s) = ce_sent s"
  "ce_sender (ack_wait_ends oid s) = ce_sender s" "ce_queues (ack_wait_ends oid s) = ce_queues s"
  "ce_sender (completion_ends oid ok s) = ce_sender s" "ce_queues (completion_ends oid ok s) = ce_queues s"
  by (auto simp: ack_wait_ends_def completion_ends_def mark_def set_watch_def split: option.splits ack_state.splits watch.splits)

lemma ack_frame:
  assumes "ack_transfer stage to_stage oid ok err s = Inr s'"
  shows "s' = s\<lparr>ce_pending := ce_pending s'\<rparr>"
  using assms by (auto simp: ack_transfer_def split: if_splits option.splits)

text \<open>An acknowledgement and a watcher touch nothing of the jobs, the queues and the senders.\<close>

fun receiving :: "engine_event \<Rightarrow> bool" where
  "receiving (Ack to_stage oid ok err) = True"
| "receiving (Ack_Wait_Ends oid) = True"
| "receiving (Completion_Ends oid ok) = True"
| "receiving e = False"

lemma receiving_frame:
  assumes "receiving e"
  shows "ce_jobs (engine_step stage e s) = ce_jobs s" "ce_task (engine_step stage e s) = ce_task s"
    "ce_closed (engine_step stage e s) = ce_closed s" "ce_puts (engine_step stage e s) = ce_puts s"
    "ce_sent (engine_step stage e s) = ce_sent s" "ce_sender (engine_step stage e s) = ce_sender s"
    "ce_queues (engine_step stage e s) = ce_queues s"
proof -
  have "ce_jobs s' = ce_jobs s \<and> ce_task s' = ce_task s \<and> ce_closed s' = ce_closed s \<and> ce_puts s' = ce_puts s \<and>
    ce_sent s' = ce_sent s \<and> ce_sender s' = ce_sender s \<and> ce_queues s' = ce_queues s"
    if "ack_transfer stage to_stage oid ok err s = Inr s'" for to_stage oid ok err s'
  proof -
    note m = ack_frame [OF that]
    obtain m where "s' = s\<lparr>ce_pending := m\<rparr>"
      using m by blast
    then show ?thesis
      by simp
  qed
  then show "ce_jobs (engine_step stage e s) = ce_jobs s" "ce_task (engine_step stage e s) = ce_task s"
    "ce_closed (engine_step stage e s) = ce_closed s" "ce_puts (engine_step stage e s) = ce_puts s"
    "ce_sent (engine_step stage e s) = ce_sent s" "ce_sender (engine_step stage e s) = ce_sender s"
    "ce_queues (engine_step stage e s) = ce_queues s"
    using assms by (cases e; auto simp: engine_step_def split: sum.split)+
qed

lemma put_job_phase:
  assumes "i < length (ce_jobs s)"
  shows "phase_of (put_job i s) j = (if j = i then Queued else phase_of s j)"
  using assms by (simp add: put_job_def Let_def)

lemma get_job_phase:
  assumes "ce_sender s t = None" and "ce_queues s t = i # js" and "i < length (ce_jobs s)"
  shows "phase_of (get_job t s) j = (if j = i then Writing else phase_of s j)"
  using assms by (simp add: get_job_def)

lemma moves_frame [simp]:
  "length (ce_jobs (put_job i s)) = length (ce_jobs s)" "target_of (put_job i s) j = target_of s j"
  "ce_task (put_job i s) = ce_task s" "ce_closed (put_job i s) = ce_closed s"
  "length (ce_jobs (get_job t s)) = length (ce_jobs s)" "target_of (get_job t s) j = target_of s j"
  "ce_task (get_job t s) = ce_task s" "ce_closed (get_job t s) = ce_closed s"
  by (auto simp: put_job_def get_job_def Let_def split: option.split list.split)

text \<open>No target changes, and a closed engine stays closed.\<close>

lemma step_frame:
  "length (ce_jobs s) \<le> length (ce_jobs (engine_step stage e s))"
  "i < length (ce_jobs s) \<Longrightarrow> target_of (engine_step stage e s) i = target_of s i"
  "ce_closed s \<Longrightarrow> ce_closed (engine_step stage e s)"
proof -
  have c: "length (ce_jobs (cancel_lands t s)) = length (ce_jobs s)" "target_of (cancel_lands t s) i = target_of s i"
    "ce_closed (cancel_lands t s) = ce_closed s" for t
    by (auto simp: cancel_lands_def split: option.split)
  show "length (ce_jobs s) \<le> length (ce_jobs (engine_step stage e s))"
    using receiving_frame(1) [of e stage s] c by (cases e) (auto simp: engine_step_def comm_send_def Let_def)
  show "i < length (ce_jobs s) \<Longrightarrow> target_of (engine_step stage e s) i = target_of s i"
  proof (cases "receiving e")
    case True
    then show ?thesis
      using receiving_frame(1) [of e stage s] by (simp add: target_of_def)
  next
    case False
    show "target_of (engine_step stage e s) i = target_of s i" if "i < length (ce_jobs s)"
    proof (cases "\<exists>t. e = Send t")
      case True
      then show ?thesis
        using that by (auto simp: engine_step_def comm_send_def Let_def target_of_def nth_append)
    next
      case f: False
      show ?thesis
        using False f c by (cases e) (auto simp: engine_step_def)
    qed
  qed
  show "ce_closed s \<Longrightarrow> ce_closed (engine_step stage e s)"
    using receiving_frame(3) [of e stage s] c by (cases e) (auto simp: engine_step_def comm_send_def)
qed

lemma step_origin:
  assumes "engine_ok s" and "engine_enabled n e s" and "\<not> ce_closed s"
  shows "ce_task (engine_step stage e s) t = Ended \<Longrightarrow> \<not> ce_closed (engine_step stage e s) \<Longrightarrow> ce_task s t = Ended \<or> cancels_sender t e"
    and "i < length (ce_jobs (engine_step stage e s)) \<Longrightarrow> phase_of (engine_step stage e s) i = Dropped w \<Longrightarrow>
      (i < length (ce_jobs s) \<and> phase_of s i = Dropped w) \<or>
      (i < length (ce_jobs s) \<and> cancels_sender (target_of s i) e \<and> (w \<noteq> None \<longrightarrow> cancels_announcement (target_of s i) e))"
proof -
  let ?s' = "engine_step stage e s"
  have "(ce_task ?s' t = Ended \<and> \<not> ce_closed ?s' \<longrightarrow> ce_task s t = Ended \<or> cancels_sender t e) \<and>
    (i < length (ce_jobs ?s') \<and> phase_of ?s' i = Dropped w \<longrightarrow>
      (i < length (ce_jobs s) \<and> phase_of s i = Dropped w) \<or>
      (i < length (ce_jobs s) \<and> cancels_sender (target_of s i) e \<and> (w \<noteq> None \<longrightarrow> cancels_announcement (target_of s i) e)))"
  proof (cases "receiving e")
    case True
    then show ?thesis
      using receiving_frame [OF True, of stage s] by (simp add: phase_of_def)
  next
    case False
    then show ?thesis
    proof (cases e)
      case (Send u)
      then show ?thesis
        using assms(3) by (auto simp: engine_step_def comm_send_def Let_def phase_of_def nth_append less_Suc_eq split: if_splits)
    next
      case (Put j)
      then show ?thesis
        using assms(2) by (auto simp: engine_step_def put_job_phase)
    next
      case (Get u)
      then obtain j js where q: "ce_sender s u = None" "ce_queues s u = j # js"
        using assms by (auto simp: neq_Nil_conv)
      then have "j < length (ce_jobs s)"
        using queued_iff [OF assms(1), of j u] by simp
      then show ?thesis
        using Get get_job_phase [OF q] by (simp add: engine_step_def)
    next
      case (Write_Ends u r)
      then obtain j where q: "ce_sender s u = Some j" "phase_of s j = Writing"
        using assms by (auto split: option.splits)
      then have j: "j < length (ce_jobs s)" "target_of s j = u"
        using hand_iff [OF assms(1), of u j] by simp_all
      from write_ends_phase [OF q j(1), of r] show ?thesis
        by cases (use Write_Ends j in \<open>auto simp: engine_step_def\<close>)
    next
      case (Announce_Ends u r)
      then obtain j oid where q: "ce_sender s u = Some j" "phase_of s j = Announcing oid"
        using assms by (auto split: option.splits job_phase.splits)
      then have j: "j < length (ce_jobs s)" "target_of s j = u"
        using hand_iff [OF assms(1), of u j] by simp_all
      from announce_ends_phase [OF q j(1), of r] show ?thesis
        by cases (use Announce_Ends j in \<open>auto simp: engine_step_def\<close>)
    next
      case (Cancel_Lands u)
      then show ?thesis
        using assms by (auto simp: engine_ok_def tasks_ok_def)
    qed (auto simp: engine_step_def)
  qed
  then show "ce_task ?s' t = Ended \<Longrightarrow> \<not> ce_closed ?s' \<Longrightarrow> ce_task s t = Ended \<or> cancels_sender t e"
    and "i < length (ce_jobs ?s') \<Longrightarrow> phase_of ?s' i = Dropped w \<Longrightarrow>
      (i < length (ce_jobs s) \<and> phase_of s i = Dropped w) \<or>
      (i < length (ce_jobs s) \<and> cancels_sender (target_of s i) e \<and> (w \<noteq> None \<longrightarrow> cancels_announcement (target_of s i) e))"
    by blast+
qed

text \<open>In an open engine a dead sender and a dropped job go back to a cancellation in the run.\<close>

definition origins :: "engine_event list \<Rightarrow> engine \<Rightarrow> bool" where
  "origins es s \<longleftrightarrow> (\<forall>t. ce_task s t = Ended \<longrightarrow> (\<exists>e \<in> set es. cancels_sender t e)) \<and>
     (\<forall>i < length (ce_jobs s). \<forall>w. phase_of s i = Dropped w \<longrightarrow> (\<exists>e \<in> set es. cancels_sender (target_of s i) e) \<and>
        (w \<noteq> None \<longrightarrow> (\<exists>e \<in> set es. cancels_announcement (target_of s i) e)))"

lemma origins_step:
  assumes "engine_ok s" and "engine_enabled n e s" and "\<not> ce_closed (engine_step stage e s)" and "origins es s"
  shows "origins (es @ [e]) (engine_step stage e s)"
proof -
  have c: "\<not> ce_closed s"
    using assms(3) step_frame(3) by blast
  note o = step_origin [OF assms(1,2) c, where stage = stage]
  show ?thesis
    unfolding origins_def
  proof (intro conjI allI impI)
    fix t
    assume "ce_task (engine_step stage e s) t = Ended"
    then show "\<exists>x \<in> set (es @ [e]). cancels_sender t x"
      using o(1) assms(3,4) by (auto simp: origins_def)
  next
    fix i w
    assume i: "i < length (ce_jobs (engine_step stage e s))" "phase_of (engine_step stage e s) i = Dropped w"
    show "\<exists>x \<in> set (es @ [e]). cancels_sender (target_of (engine_step stage e s) i) x"
      using o(2) [OF i] assms(4) step_frame(2) [of i s stage e] by (auto simp: origins_def)
    show "\<exists>x \<in> set (es @ [e]). cancels_announcement (target_of (engine_step stage e s) i) x" if "w \<noteq> None"
      using o(2) [OF i] assms(4) step_frame(2) [of i s stage e] that by (auto simp: origins_def)
  qed
qed

lemma engine_reach_origins:
  assumes "engine_reach n stage es s"
  shows "\<not> ce_closed s \<Longrightarrow> origins es s"
  using assms
proof induction
  case Start
  then show ?case
    by (simp add: origins_def new_engine_def)
next
  case (Step es s e)
  have "\<not> ce_closed s"
    using Step.prems step_frame(3) by blast
  then show ?case
    using Step engine_reach_ok origins_step by blast
qed

text \<open>
  C36: The communication engine leaks no transfer unless an announcement is cancelled: in every reachable
  state each pending transfer has its watcher, or the engine is open and the sender of some target is
  announcing just that object, or was when the control plane's send raised \<open>CancelledError\<close>, which skips the
  handler that would fail the transfer. A closed engine has no transfer without its watcher.
\<close>

theorem no_transfer_is_leaked:
  assumes "engine_reach n stage es s" and "ce_pending s oid = Some tr"
  shows "tr_watch tr \<noteq> Unwatched \<or> (\<not> ce_closed s \<and>
    ((\<exists>t i. ce_sender s t = Some i \<and> phase_of s i = Announcing oid) \<or>
     (\<exists>i < length (ce_jobs s). phase_of s i = Dropped (Some oid) \<and>
        (\<exists>e \<in> set es. cancels_announcement (target_of s i) e))))"
proof (cases "tr_watch tr = Unwatched")
  case True
  have o: "engine_ok s"
    by (rule engine_reach_ok [OF assms(1)])
  then obtain i where c: "\<not> ce_closed s" and i: "i < length (ce_jobs s)" "announced_as oid (phase_of s i)"
    using True assms(2) unfolding engine_ok_def pending_ok_def by blast
  from i(2) consider "phase_of s i = Announcing oid" | "phase_of s i = Dropped (Some oid)"
    by (auto simp: announced_as_def)
  then show ?thesis
  proof cases
    case 1
    then show ?thesis
      using c hand_iff [OF o, of "target_of s i" i] i(1) by auto
  next
    case 2
    then show ?thesis
      using c i(1) engine_reach_origins [OF assms(1) c] by (auto simp: origins_def)
  qed
qed simp

theorem no_transfer_is_leaked_witness:
  "let es = [Send ''b'', Put 0, Get ''b'', Write_Ends ''b'' (Inr ''o1'')]; s = fold (engine_step ''a'') es new_engine in
   engine_reach 4 ''a'' es s \<and> ce_pending s ''o1'' = Some \<lparr>tr_ack = Ack_Pending, tr_watch = Unwatched\<rparr> \<and>
   ce_sender s ''b'' = Some 0"
proof -
  let ?es = "[Send ''b'', Put 0, Get ''b'', Write_Ends ''b'' (Inr ''o1'')]"
  let ?s = "fold (engine_step ''a'') ?es new_engine"
  have r: "engine_reach 4 ''a'' ?es ?s" and p: "ce_pending ?s ''o1'' = Some \<lparr>tr_ack = Ack_Pending, tr_watch = Unwatched\<rparr>"
    and q: "ce_sender ?s ''b'' = Some 0"
    by (simp_all add: engine_run_iff) code_simp+
  show ?thesis
    using no_transfer_is_leaked [OF r p] r p q by simp
qed

section \<open>Progress\<close>

text \<open>
  The work left on a target, and the events of its queue and sender. A job whose future is set, or whose
  sender died with it, needs no more work.
\<close>

fun weight :: "job_phase \<Rightarrow> nat" where
  "weight Putting = 4"
| "weight Queued = 3"
| "weight Writing = 2"
| "weight (Announcing oid) = 1"
| "weight _ = 0"

definition job_work :: "string \<Rightarrow> job \<Rightarrow> nat" where
  "job_work t j = (if jb_target j = t then weight (jb_phase j) else 0)"

definition work_on :: "string \<Rightarrow> engine \<Rightarrow> nat" where
  "work_on t s = sum_list (map (job_work t) (ce_jobs s))"

fun sending :: "string \<Rightarrow> engine_event \<Rightarrow> engine \<Rightarrow> bool" where
  "sending t (Put i) s = (target_of s i = t)"
| "sending t (Get u) s = (u = t)"
| "sending t (Write_Ends u r) s = (u = t)"
| "sending t (Announce_Ends u r) s = (u = t)"
| "sending t _ s = False"

lemma work_on_sum:
  "work_on t s = (\<Sum>i < length (ce_jobs s). if target_of s i = t then weight (phase_of s i) else 0)"
  unfolding work_on_def sum_list_sum_nth by (rule sum.cong) (auto simp: job_work_def target_of_def phase_of_def)

text \<open>Every move of a job lightens its target's work and no other's.\<close>

lemma moves_lighten:
  assumes "i < length (ce_jobs s)" and "target_of s i = t" and "weight p < weight (phase_of s i)"
    and "length (ce_jobs s') = length (ce_jobs s)" and "\<And>j. target_of s' j = target_of s j"
    and "\<And>j. phase_of s' j = (if j = i then p else phase_of s j)"
  shows "work_on t s' < work_on t s" and "u \<noteq> t \<Longrightarrow> work_on u s' = work_on u s"
proof -
  show "work_on t s' < work_on t s"
    unfolding work_on_sum assms(4,5,6) by (rule sum_strict_mono_ex1) (use assms(1-3) in auto)
  show "work_on u s' = work_on u s" if "u \<noteq> t"
    unfolding work_on_sum assms(4,5,6) by (rule sum.cong) (use that assms(2) in auto)
qed

lemma sending_moves:
  assumes "engine_ok s" and "sending t e s" and "engine_enabled n e s"
  obtains i p where "i < length (ce_jobs s)" "target_of s i = t" "weight p < weight (phase_of s i)"
    and "length (ce_jobs (engine_step stage e s)) = length (ce_jobs s)"
    and "\<And>j. target_of (engine_step stage e s) j = target_of s j"
    and "\<And>j. phase_of (engine_step stage e s) j = (if j = i then p else phase_of s j)"
proof (cases e)
  case (Put i)
  show ?thesis
    by (rule that [of i Queued]) (use Put assms(2,3) put_job_phase in \<open>auto simp: engine_step_def\<close>)
next
  case (Get u)
  then obtain i js where q: "ce_sender s t = None" "ce_queues s t = i # js"
    using assms(2,3) by (auto simp: neq_Nil_conv)
  then have i: "i < length (ce_jobs s)" "target_of s i = t" "phase_of s i = Queued"
    using queued_iff [OF assms(1), of i t] by simp_all
  show ?thesis
    by (rule that [of i Writing]) (use Get assms(2) i get_job_phase [OF q i(1)] in \<open>simp_all add: engine_step_def\<close>)
next
  case (Write_Ends u r)
  then obtain i where q: "ce_sender s t = Some i" "phase_of s i = Writing"
    using assms(2,3) by (auto split: option.splits)
  then have i: "i < length (ce_jobs s)" "target_of s i = t"
    using hand_iff [OF assms(1), of t i] by simp_all
  have e: "engine_step stage e s = write_ends t r s"
    using Write_Ends assms(2) by (simp add: engine_step_def)
  from write_ends_phase [OF q i(1), of r] obtain p
    where "\<And>j. phase_of (write_ends t r s) j = (if j = i then p else phase_of s j)" "weight p < 2"
    by cases auto
  then show ?thesis
    using that [of i p] i q e by simp
next
  case (Announce_Ends u r)
  then obtain i oid where q: "ce_sender s t = Some i" "phase_of s i = Announcing oid"
    using assms(2,3) by (auto split: option.splits job_phase.splits)
  then have i: "i < length (ce_jobs s)" "target_of s i = t"
    using hand_iff [OF assms(1), of t i] by simp_all
  have e: "engine_step stage e s = announce_ends t r s"
    using Announce_Ends assms(2) by (simp add: engine_step_def)
  from announce_ends_phase [OF q i(1), of r] obtain p
    where "\<And>j. phase_of (announce_ends t r s) j = (if j = i then p else phase_of s j)" "weight p < 1"
    by cases auto
  then show ?thesis
    using that [of i p] i q e by simp
qed (use assms in auto)

lemma sending_lightens:
  assumes "engine_ok s" and "sending t e s" and "engine_enabled n e s"
  shows "work_on t (engine_step stage e s) < work_on t s" and "u \<noteq> t \<Longrightarrow> work_on u (engine_step stage e s) = work_on u s"
proof -
  obtain i p where m: "i < length (ce_jobs s)" "target_of s i = t" "weight p < weight (phase_of s i)"
    "length (ce_jobs (engine_step stage e s)) = length (ce_jobs s)"
    "\<And>j. target_of (engine_step stage e s) j = target_of s j"
    "\<And>j. phase_of (engine_step stage e s) j = (if j = i then p else phase_of s j)"
    using sending_moves [OF assms, of stage] by blast
  show "work_on t (engine_step stage e s) < work_on t s"
    by (rule moves_lighten(1) [OF m])
  show "u \<noteq> t \<Longrightarrow> work_on u (engine_step stage e s) = work_on u s"
    by (rule moves_lighten(2) [OF m])
qed

text \<open>A target with a sender in its loop can move as long as it has work.\<close>

lemma working_job:
  assumes "work_on t s \<noteq> 0"
  obtains i where "i < length (ce_jobs s)" "target_of s i = t" "weight (phase_of s i) \<noteq> 0"
proof -
  have "\<exists>i < length (ce_jobs s). target_of s i = t \<and> weight (phase_of s i) \<noteq> 0"
  proof (rule ccontr)
    assume "\<not> (\<exists>i < length (ce_jobs s). target_of s i = t \<and> weight (phase_of s i) \<noteq> 0)"
    then have "work_on t s = 0"
      unfolding work_on_sum by (intro sum.neutral) auto
    then show False
      using assms by simp
  qed
  then show ?thesis
    using that by blast
qed

lemma target_can_move:
  assumes "engine_ok s" and "0 < n" and "work_on t s \<noteq> 0" and "ce_task s t = Running"
  shows "\<exists>e. sending t e s \<and> engine_enabled n e s"
proof (cases "ce_sender s t")
  case (Some i)
  then have "in_hand (phase_of s i)"
    using hand_iff [OF assms(1), of t i] by simp
  then consider "phase_of s i = Writing" | oid where "phase_of s i = Announcing oid"
    by (auto simp: in_hand_def)
  then show ?thesis
  proof cases
    case 1
    then show ?thesis
      using Some assms(4) by (intro exI [of _ "Write_Ends t r" for r]) auto
  next
    case 2
    then show ?thesis
      using Some assms(4) by (intro exI [of _ "Announce_Ends t r" for r]) auto
  qed
next
  case None
  show ?thesis
  proof (cases "ce_queues s t = []")
    case False
    then show ?thesis
      using None assms(4) by (intro exI [of _ "Get t"]) auto
  next
    case True
    obtain i where i: "i < length (ce_jobs s)" "target_of s i = t" "weight (phase_of s i) \<noteq> 0"
      using working_job [OF assms(3)] by blast
    have "phase_of s i = Putting"
      using i queued_iff [OF assms(1), of i t] True None hand_iff [OF assms(1), of t i]
      by (cases "phase_of s i") auto
    then show ?thesis
      using i True assms(2) by (intro exI [of _ "Put i"]) auto
  qed
qed

lemma unfinished_work:
  assumes "i < length (ce_jobs s)" and "weight (phase_of s i) \<noteq> 0"
  shows "work_on (target_of s i) s \<noteq> 0"
proof -
  have "weight (phase_of s i) \<le> work_on (target_of s i) s"
    unfolding work_on_sum
    using member_le_sum [of i "{..<length (ce_jobs s)}" "\<lambda>j. if target_of s j = target_of s i then weight (phase_of s j) else 0"]
      assms(1) by simp
  then show ?thesis
    using assms(2) by simp
qed

text \<open>
  C34: A send cannot hang while the engine is open, unless a cancellation kills its sender. In every reachable
  open state: a call starts a sender for its target, or a new one where the old one is done; a target whose
  sender is in its loop has an enabled event of its own queue or sender as long as it has work, whatever the
  other targets do; so has the target of every unanswered call, unless \<open>CancelledError\<close> came out of a write or
  an announcement to that target; and every such event, with whatever outcome the relay and the control plane
  give it, strictly lowers the work left on that target and leaves the other targets' work as it was. So each
  target's calls are answered after finitely many of its events.
\<close>

theorem open_engine_answers_every_send:
  assumes "engine_reach n stage es s" and "\<not> ce_closed s" and "0 < n"
  shows "(\<forall>t. \<exists>s'. comm_send t s = Inr s' \<and> ce_task s' t = Running) \<and>
    (\<forall>t. ce_task s t = Running \<and> work_on t s \<noteq> 0 \<longrightarrow> (\<exists>e. sending t e s \<and> engine_enabled n e s)) \<and>
    (\<forall>i < length (ce_jobs s). \<not> is_settled (ce_jobs s ! i) \<longrightarrow>
      (\<exists>e. sending (target_of s i) e s \<and> engine_enabled n e s) \<or> (\<exists>e \<in> set es. cancels_sender (target_of s i) e)) \<and>
    (\<forall>t e. sending t e s \<and> engine_enabled n e s \<longrightarrow>
      work_on t (engine_step stage e s) < work_on t s \<and> (\<forall>u. u \<noteq> t \<longrightarrow> work_on u (engine_step stage e s) = work_on u s))"
proof -
  have o: "engine_ok s"
    by (rule engine_reach_ok [OF assms(1)])
  have or: "origins es s"
    by (rule engine_reach_origins [OF assms(1,2)])
  have alive: "ce_task s t = Running \<or> ce_task s t = No_Task \<or> ce_task s t = Ended" for t
    using o assms(2) by (cases "ce_task s t") (auto simp: engine_ok_def tasks_ok_def)
  have start: "\<exists>s'. comm_send t s = Inr s' \<and> ce_task s' t = Running" for t
    using alive [of t] assms(2) by (auto simp: comm_send_def task_done_def Let_def)
  have unanswered: "(\<exists>e. sending (target_of s i) e s \<and> engine_enabled n e s) \<or> (\<exists>e \<in> set es. cancels_sender (target_of s i) e)"
    if i: "i < length (ce_jobs s)" "\<not> is_settled (ce_jobs s ! i)" for i
  proof (cases "weight (phase_of s i) = 0")
    case True
    then obtain w where "phase_of s i = Dropped w"
      using i(2) by (cases "phase_of s i") (auto simp: is_settled_def phase_of_def)
    then show ?thesis
      using or i(1) by (auto simp: origins_def)
  next
    case False
    have "ce_task s (target_of s i) \<noteq> No_Task"
      using o i(1) by (simp add: engine_ok_def tasks_ok_def)
    then show ?thesis
      using alive [of "target_of s i"] target_can_move [OF o assms(3) unfinished_work [OF i(1) False]] or
      by (auto simp: origins_def)
  qed
  show ?thesis
    using start unanswered target_can_move [OF o assms(3)] sending_lightens [OF o] by blast
qed

theorem open_engine_answers_every_send_witness:
  "let s = engine_step ''a'' (Send ''b'') new_engine in
   engine_reach 1 ''a'' [Send ''b''] s \<and> \<not> is_settled (ce_jobs s ! 0) \<and>
   (\<exists>e. sending (target_of s 0) e s \<and> engine_enabled 1 e s) \<and> work_on ''b'' (engine_step ''a'' (Put 0) s) < work_on ''b'' s"
proof -
  let ?s = "engine_step ''a'' (Send ''b'') new_engine"
  have r: "engine_reach 1 ''a'' [Send ''b''] ?s"
    by (simp add: engine_run_iff)
  have s: "?s = new_engine\<lparr>ce_jobs := [\<lparr>jb_target = ''b'', jb_phase = Putting\<rparr>], ce_task := (\<lambda>t. if t = ''b'' then Running else No_Task)\<rparr>"
    by (simp add: engine_step_def comm_send_def new_engine_def task_done_def Let_def fun_eq_iff)
  have c: "\<not> ce_closed ?s" "sending ''b'' (Put 0) ?s" "engine_enabled 1 (Put 0) ?s" "\<not> is_settled (ce_jobs ?s ! 0)" "target_of ?s 0 = ''b''"
    unfolding s by (simp_all add: new_engine_def is_settled_def target_of_def phase_of_def)
  show ?thesis
    using open_engine_answers_every_send [OF r c(1)] r c unfolding Let_def by (metis zero_less_one)
qed

section \<open>Order\<close>

definition for_target :: "string \<Rightarrow> (string \<times> nat) list \<Rightarrow> nat list" where
  "for_target t ps = map snd (filter (\<lambda>p. fst p = t) ps)"

lemma for_target_simps [simp]:
  "for_target t [] = []" "for_target t (ps @ qs) = for_target t ps @ for_target t qs"
  "for_target t [(u, i)] = (if u = t then [i] else [])"
  by (simp_all add: for_target_def)

text \<open>
  What was put for a target is what its senders are done with, the job in its hands, and the queue; what was
  announced is a subsequence of the first part.
\<close>

definition hand_of :: "engine \<Rightarrow> string \<Rightarrow> nat list" where
  "hand_of s t = (case ce_sender s t of Some i \<Rightarrow> [i] | None \<Rightarrow> [])"

definition order_ok :: "engine \<Rightarrow> bool" where
  "order_ok s \<longleftrightarrow> (\<forall>t. \<exists>d. for_target t (ce_puts s) = d @ hand_of s t @ ce_queues s t \<and> subseq (for_target t (ce_sent s)) d)"

definition puts_ok :: "engine \<Rightarrow> bool" where
  "puts_ok s \<longleftrightarrow> distinct (ce_puts s) \<and> (\<forall>(t, i) \<in> set (ce_puts s). i < length (ce_jobs s) \<and> phase_of s i \<noteq> Putting)"

lemma order_subseq: "order_ok s \<Longrightarrow> subseq (for_target t (ce_sent s)) (for_target t (ce_puts s))"
  unfolding order_ok_def by (metis subseq_rev_drop_many)

lemma order_same:
  assumes "order_ok s" and "ce_puts s' = ce_puts s" and "ce_sent s' = ce_sent s" and "ce_queues s' = ce_queues s"
    and "ce_sender s' = ce_sender s \<or> ce_sender s' = (ce_sender s)(u := None)"
  shows "order_ok s'"
  unfolding order_ok_def
proof
  fix t
  obtain d where d: "for_target t (ce_puts s) = d @ hand_of s t @ ce_queues s t" "subseq (for_target t (ce_sent s)) d"
    using assms(1) by (auto simp: order_ok_def)
  have "hand_of s' t = hand_of s t \<or> hand_of s' t = []"
    using assms(5) by (auto simp: hand_of_def)
  then show "\<exists>d. for_target t (ce_puts s') = d @ hand_of s' t @ ce_queues s' t \<and> subseq (for_target t (ce_sent s')) d"
    using d assms(2,3,4) by (elim disjE; intro exI [of _ "if hand_of s' t = [] then d @ hand_of s t else d"]) auto
qed

lemma send_raises_order:
  "ce_puts (send_raises t i oid e s) = ce_puts s" "ce_sent (send_raises t i oid e s) = ce_sent s"
  "ce_queues (send_raises t i oid e s) = ce_queues s" "ce_sender (send_raises t i oid e s) = (ce_sender s)(t := None)"
  by (auto simp: send_raises_def settle_job_def split: option.split)

lemma write_ends_order:
  "ce_puts (write_ends t r s) = ce_puts s" "ce_sent (write_ends t r s) = ce_sent s"
  "ce_queues (write_ends t r s) = ce_queues s"
  "ce_sender (write_ends t r s) = ce_sender s \<or> ce_sender (write_ends t r s) = (ce_sender s)(t := None)"
  by (auto simp: write_ends_def send_raises_order register_pending_def split: option.split sum.split)

lemma announce_ends_order:
  assumes "ce_sender s t = Some i" and "phase_of s i = Announcing oid"
  shows "ce_puts (announce_ends t r s) = ce_puts s" "ce_queues (announce_ends t r s) = ce_queues s"
    "ce_sender (announce_ends t r s) = (ce_sender s)(t := None)"
    "ce_sent (announce_ends t r s) = (if r = None then ce_sent s @ [(t, i)] else ce_sent s)"
  using assms
  by (auto simp: announce_ends_def send_raises_order arm_pending_def settle_job_def Let_def split: option.split sum.split)

lemma order_announce:
  assumes "order_ok s" and "ce_sender s t = Some i" and "phase_of s i = Announcing oid"
  shows "order_ok (announce_ends t r s)"
  unfolding order_ok_def
proof
  fix u
  obtain d where d: "for_target u (ce_puts s) = d @ hand_of s u @ ce_queues s u" "subseq (for_target u (ce_sent s)) d"
    using assms(1) by (auto simp: order_ok_def)
  let ?s' = "announce_ends t r s"
  note o = announce_ends_order [OF assms(2,3), of r]
  show "\<exists>d. for_target u (ce_puts ?s') = d @ hand_of ?s' u @ ce_queues ?s' u \<and> subseq (for_target u (ce_sent ?s')) d"
  proof (cases "u = t")
    case True
    have "subseq (for_target u (ce_sent ?s')) (d @ [i])"
      unfolding o(4) using d(2) True by (cases "r = None") (simp_all add: subseq_rev_drop_many)
    moreover have "for_target u (ce_puts ?s') = (d @ [i]) @ hand_of ?s' u @ ce_queues ?s' u"
      using d(1) True assms(2) by (simp add: o(1,2,3) hand_of_def)
    ultimately show ?thesis
      by blast
  next
    case False
    then show ?thesis
      using d by (intro exI [of _ d]) (simp add: o hand_of_def)
  qed
qed

lemma order_cancel:
  assumes "engine_ok s" and "order_ok s"
  shows "order_ok (cancel_lands t s)"
proof (cases "ce_sender s t")
  case None
  then show ?thesis
    using order_same [OF assms(2)] by (simp add: cancel_lands_def)
next
  case (Some i)
  show ?thesis
  proof (cases "phase_of s i = Writing")
    case True
    then show ?thesis
      using Some order_same [OF assms(2) write_ends_order] by (simp add: cancel_lands_def)
  next
    case False
    then obtain oid where "phase_of s i = Announcing oid"
      using hand_iff [OF assms(1), of t i] Some by (auto simp: in_hand_def)
    then show ?thesis
      using Some order_announce [OF assms(2) Some] by (simp add: cancel_lands_def)
  qed
qed

lemma order_step:
  assumes "engine_ok s" and "order_ok s" and "engine_enabled n e s"
  shows "order_ok (engine_step stage e s)"
proof (cases "receiving e")
  case True
  then show ?thesis
    using order_same [OF assms(2)] receiving_frame [OF True, of stage s] by blast
next
  case False
  then show ?thesis
  proof (cases e)
    case (Send t)
    then show ?thesis
      by (auto simp: engine_step_def comm_send_def Let_def intro!: order_same [OF assms(2)])
  next
    case (Put i)
    show ?thesis
      unfolding order_ok_def
    proof
      fix t
      obtain d where "for_target t (ce_puts s) = d @ hand_of s t @ ce_queues s t" "subseq (for_target t (ce_sent s)) d"
        using assms(2) by (auto simp: order_ok_def)
      then show "\<exists>d. for_target t (ce_puts (engine_step stage e s)) = d @ hand_of (engine_step stage e s) t @
          ce_queues (engine_step stage e s) t \<and> subseq (for_target t (ce_sent (engine_step stage e s))) d"
        using Put by (intro exI [of _ d]) (simp add: engine_step_def put_job_def Let_def hand_of_def)
    qed
  next
    case (Get u)
    then obtain i js where q: "ce_sender s u = None" "ce_queues s u = i # js"
      using assms by (auto simp: neq_Nil_conv)
    show ?thesis
      unfolding order_ok_def
    proof
      fix t
      obtain d where "for_target t (ce_puts s) = d @ hand_of s t @ ce_queues s t" "subseq (for_target t (ce_sent s)) d"
        using assms(2) by (auto simp: order_ok_def)
      then show "\<exists>d. for_target t (ce_puts (engine_step stage e s)) = d @ hand_of (engine_step stage e s) t @
          ce_queues (engine_step stage e s) t \<and> subseq (for_target t (ce_sent (engine_step stage e s))) d"
        using Get q by (intro exI [of _ d]) (auto simp: engine_step_def get_job_def hand_of_def)
    qed
  next
    case (Write_Ends u r)
    then show ?thesis
      using order_same [OF assms(2) write_ends_order] by (simp add: engine_step_def)
  next
    case (Announce_Ends u r)
    then obtain i oid where "ce_sender s u = Some i" "phase_of s i = Announcing oid"
      using assms by (auto split: option.splits job_phase.splits)
    then show ?thesis
      using Announce_Ends order_announce [OF assms(2)] by (simp add: engine_step_def)
  next
    case Close
    then show ?thesis
      using order_same [OF assms(2)] by (simp add: engine_step_def)
  next
    case (Cancel_Lands t)
    then show ?thesis
      using order_cancel [OF assms(1,2)] by (simp add: engine_step_def)
  qed auto
qed

text \<open>No event but its own \<open>Put\<close> takes a job out of waiting for room, and none puts one back.\<close>

lemma not_putting:
  assumes "engine_ok s" and "engine_enabled n e s" and "i < length (ce_jobs s)" and "phase_of s i \<noteq> Putting"
  shows "phase_of (engine_step stage e s) i \<noteq> Putting"
proof -
  have w: "phase_of (write_ends t r s) i \<noteq> Putting" if "ce_sender s t = Some j" "phase_of s j = Writing" for t r j
    by (rule write_ends_phase [OF that, of r]) (use assms hand_iff [OF assms(1), of t j] that in auto)
  have a: "phase_of (announce_ends t r s) i \<noteq> Putting" if "ce_sender s t = Some j" "phase_of s j = Announcing oid" for t r j oid
    by (rule announce_ends_phase [OF that, of r]) (use assms hand_iff [OF assms(1), of t j] that in auto)
  show ?thesis
  proof (cases "receiving e")
    case True
    then show ?thesis
      using receiving_frame(1) [OF True, of stage s] assms(4) by (simp add: phase_of_def)
  next
    case False
    then show ?thesis
    proof (cases e)
      case (Send t)
      then show ?thesis
        using assms(3,4) by (auto simp: engine_step_def comm_send_def Let_def phase_of_def nth_append)
    next
      case (Put j)
      then show ?thesis
        using assms by (auto simp: engine_step_def put_job_phase)
    next
      case (Get u)
      then obtain j js where q: "ce_sender s u = None" "ce_queues s u = j # js"
        using assms by (auto simp: neq_Nil_conv)
      then show ?thesis
        using Get get_job_phase [OF q] queued_iff [OF assms(1), of j u] assms(4) by (simp add: engine_step_def)
    next
      case (Write_Ends u r)
      then show ?thesis
        using w assms(2) by (auto simp: engine_step_def split: option.splits)
    next
      case (Announce_Ends u r)
      then show ?thesis
        using a assms(2) by (auto simp: engine_step_def split: option.splits job_phase.splits)
    next
      case Close
      then show ?thesis
        using assms(4) by (simp add: engine_step_def)
    next
      case (Cancel_Lands t)
      show ?thesis
      proof (cases "ce_sender s t")
        case (Some j)
        then have "phase_of s j = Writing \<or> (\<exists>oid. phase_of s j = Announcing oid)"
          using hand_iff [OF assms(1), of t j] by (simp add: in_hand_def)
        then show ?thesis
          using Cancel_Lands Some w a by (auto simp: engine_step_def cancel_lands_def)
      qed (use Cancel_Lands assms(4) in \<open>simp add: engine_step_def cancel_lands_def\<close>)
    qed auto
  qed
qed

lemma puts_step:
  assumes "engine_ok s" and "puts_ok s" and "engine_enabled n e s"
  shows "puts_ok (engine_step stage e s)"
proof (cases "\<exists>i. e = Put i")
  case True
  then show ?thesis
    using assms(2,3) by (auto simp: engine_step_def puts_ok_def put_job_def Let_def split: if_splits)
next
  case False
  have "ce_puts (engine_step stage e s) = ce_puts s"
  proof (cases "receiving e")
    case True
    then show ?thesis
      using receiving_frame(4) by blast
  next
    case False
    have a: "ce_puts (announce_ends u r s) = ce_puts s" for u r
      by (auto simp: announce_ends_def send_raises_order arm_pending_def settle_job_def Let_def
          split: option.split sum.split job_phase.split)
    show ?thesis
      using False \<open>\<not> (\<exists>i. e = Put i)\<close> write_ends_order(1) a
      by (cases e) (auto simp: engine_step_def comm_send_def get_job_def cancel_lands_def Let_def split: option.split list.split)
  qed
  then show ?thesis
    using assms(2) not_putting [OF assms(1,3), of _ stage] step_frame(1) [of s stage e] by (fastforce simp: puts_ok_def)
qed

lemma engine_reach_ordered:
  assumes "engine_reach n stage es s"
  shows "order_ok s \<and> puts_ok s"
  using assms
proof induction
  case Start
  then show ?case
    by (simp add: order_ok_def puts_ok_def hand_of_def new_engine_def)
next
  case (Step es s e)
  then show ?case
    using engine_reach_ok [OF Step.hyps(1)] order_step puts_step by blast
qed

text \<open>
  C35: To each target the engine announces in the order the calls entered the queue: what was announced is a
  subsequence of what was put, every call at most once, over every interleaving of callers, senders, watchers
  and closing.
\<close>

theorem announced_in_call_order:
  assumes "engine_reach n stage es s"
  shows "subseq (for_target t (ce_sent s)) (for_target t (ce_puts s)) \<and> distinct (for_target t (ce_sent s))"
proof -
  have d: "distinct (ce_puts s)" and q: "subseq (for_target t (ce_sent s)) (for_target t (ce_puts s))"
    using engine_reach_ordered [OF assms] order_subseq by (auto simp: puts_ok_def)
  have "distinct (for_target t (ce_puts s))"
    using d unfolding for_target_def by (auto simp: distinct_map inj_on_def)
  then show ?thesis
    using q by (auto simp: subseq_conv_nths intro: distinct_nthsI)
qed

theorem announced_in_call_order_witness:
  "let es = [Send ''b'', Send ''b'', Put 1, Put 0, Get ''b'', Write_Ends ''b'' (Inl (RuntimeError ''full'')), Get ''b'',
       Write_Ends ''b'' (Inr ''o0''), Announce_Ends ''b'' None]; s = fold (engine_step ''a'') es new_engine in
   engine_reach 2 ''a'' es s \<and> for_target ''b'' (ce_puts s) = [1, 0] \<and> for_target ''b'' (ce_sent s) = [0] \<and>
   subseq (for_target ''b'' (ce_sent s)) [1, 0]"
proof -
  let ?es = "[Send ''b'', Send ''b'', Put 1, Put 0, Get ''b'', Write_Ends ''b'' (Inl (RuntimeError ''full'')), Get ''b'',
       Write_Ends ''b'' (Inr ''o0''), Announce_Ends ''b'' None]"
  let ?s = "fold (engine_step ''a'') ?es new_engine"
  have r: "engine_reach 2 ''a'' ?es ?s"
    by (rule engine_runI, code_simp)
  have "for_target ''b'' (ce_puts ?s) = [1, 0]" "for_target ''b'' (ce_sent ?s) = [0]"
    by code_simp+
  then show ?thesis
    using announced_in_call_order [OF r, of "''b''"] r by (simp only: Let_def)
qed

section \<open>Acknowledgements\<close>

text \<open>How often the receiver of an object was reported done, is about to be, and acknowledged it.\<close>

definition told :: "string \<Rightarrow> engine \<Rightarrow> nat" where
  "told oid s = length (filter (\<lambda>m. m = (oid, True)) (ce_marks s))"

definition due :: "string \<Rightarrow> engine \<Rightarrow> nat" where
  "due oid s = (case ce_pending s oid of
     Some tr \<Rightarrow> (if tr_ack tr = Ack_Ok \<and> (tr_watch tr = Unwatched \<or> tr_watch tr = Awaiting) then 1 else 0) | None \<Rightarrow> 0)"

fun acks :: "string \<Rightarrow> engine_event \<Rightarrow> nat" where
  "acks oid (Ack to oid' ok err) = (if oid' = oid \<and> ok then 1 else 0)"
| "acks oid _ = 0"

lemma told_due_frame:
  "ce_marks s' = ce_marks s \<Longrightarrow> ce_pending s' = ce_pending s \<Longrightarrow> told oid s' + due oid s' = told oid s + due oid s"
  by (simp add: told_def due_def)

lemma told_due_simps [simp]:
  "told oid (set_job i p s) = told oid s" "due oid (set_job i p s) = due oid s"
  "told oid (s\<lparr>ce_sender := f\<rparr>) = told oid s" "due oid (s\<lparr>ce_sender := f\<rparr>) = due oid s"
  "told oid (s\<lparr>ce_sent := f'\<rparr>) = told oid s" "due oid (s\<lparr>ce_sent := f'\<rparr>) = due oid s"
  "told oid (settle_job t i r s) = told oid s" "due oid (settle_job t i r s) = due oid s"
  by (simp_all add: told_def due_def settle_job_def)

lemma fail_pending_told: "told oid (fail_pending o' e s) = told oid s" "due oid (fail_pending o' e s) \<le> due oid s"
  by (auto simp: told_def due_def fail_pending_def failed_transfer_def ack_done_def split: option.split)

lemma send_raises_told: "told oid (send_raises t i x e s) = told oid s" "due oid (send_raises t i x e s) \<le> due oid s"
  by (auto simp: send_raises_def fail_pending_told split: option.split) (auto simp: told_def due_def)

lemma write_ends_told: "told oid (write_ends t r s) = told oid s" "due oid (write_ends t r s) \<le> due oid s"
  by (auto simp: write_ends_def send_raises_told register_pending_def split: option.split sum.split)
    (auto simp: told_def due_def)

lemma arm_pending_told:
  "arm_pending o' s = Inr s' \<Longrightarrow> told oid s' = told oid s" "arm_pending o' s = Inr s' \<Longrightarrow> due oid s' \<le> due oid s"
  by (auto simp: told_def due_def arm_pending_def split: option.splits if_splits)

lemma announce_ends_told: "told oid (announce_ends t r s) = told oid s" "due oid (announce_ends t r s) \<le> due oid s"
  using send_raises_told arm_pending_told
  by (auto simp: announce_ends_def Let_def split: option.split job_phase.split sum.split)
    (metis told_due_simps(5,6) order_trans)+

lemma acks_step: "told oid (engine_step stage e s) + due oid (engine_step stage e s) \<le> told oid s + due oid s + acks oid e"
proof (cases e)
  case (Write_Ends t r)
  then show ?thesis
    using write_ends_told [of oid t r s] by (simp add: engine_step_def)
next
  case (Announce_Ends t r)
  then show ?thesis
    using announce_ends_told [of oid t r s] by (simp add: engine_step_def)
next
  case (Get t)
  then show ?thesis
    by (auto simp: engine_step_def get_job_def told_def due_def split: option.split list.split)
next
  case (Ack to o' ok err)
  then show ?thesis
    by (auto simp: engine_step_def ack_transfer_def told_def due_def split: option.split)
next
  case (Ack_Wait_Ends o')
  then show ?thesis
    by (auto simp: engine_step_def ack_wait_ends_def told_def due_def mark_def set_watch_def split: option.split ack_state.split)
next
  case (Completion_Ends o' ok)
  then show ?thesis
    by (auto simp: engine_step_def completion_ends_def told_def due_def mark_def set_watch_def split: option.split watch.split)
next
  case (Cancel_Lands t)
  have "told oid (s\<lparr>ce_task := k\<rparr>) = told oid s" "due oid (s\<lparr>ce_task := k\<rparr>) = due oid s" for k
    by (simp_all add: told_def due_def)
  then show ?thesis
    using Cancel_Lands write_ends_told [of oid t "Inl (CancelledError [])" s] announce_ends_told [of oid t "Some (CancelledError [])" s]
    by (auto simp: engine_step_def cancel_lands_def split: option.split)
next
  case Close
  then show ?thesis
    by (auto simp: engine_step_def close_def told_def due_def failed_transfer_def ack_done_def split: option.split)
qed (auto simp: engine_step_def comm_send_def put_job_def Let_def told_def due_def)

text \<open>
  The relay is told that the receiver is done at most as often as the receiver acknowledged: over every
  interleaving, the operations of an object are marked done no more often than successful acknowledgements
  for that object arrived, whatever timeouts, failures, duplicate acknowledgements and closing do.
\<close>

theorem done_only_after_acknowledgement:
  assumes "engine_reach n stage es s"
  shows "told oid s \<le> sum_list (map (acks oid) es)"
proof -
  have "told oid s + due oid s \<le> sum_list (map (acks oid) es)"
    using assms
  proof induction
    case (Step es s e)
    then show ?case
      using acks_step [of oid stage e s] by simp
  qed (simp add: told_def due_def new_engine_def)
  then show ?thesis
    by simp
qed

theorem done_only_after_acknowledgement_witness:
  "let es = [Send ''b'', Put 0, Get ''b'', Write_Ends ''b'' (Inr ''o0''), Announce_Ends ''b'' None,
       Ack ''a'' ''o0'' True None, Ack_Wait_Ends ''o0'', Completion_Ends ''o0'' True]; s = fold (engine_step ''a'') es new_engine in
   engine_reach 2 ''a'' es s \<and> told ''o0'' s = 1 \<and> told ''o0'' s \<le> sum_list (map (acks ''o0'') es)"
proof -
  let ?es = "[Send ''b'', Put 0, Get ''b'', Write_Ends ''b'' (Inr ''o0''), Announce_Ends ''b'' None,
       Ack ''a'' ''o0'' True None, Ack_Wait_Ends ''o0'', Completion_Ends ''o0'' True]"
  let ?s = "fold (engine_step ''a'') ?es new_engine"
  have r: "engine_reach 2 ''a'' ?es ?s"
    by (rule engine_runI, code_simp)
  have "told ''o0'' ?s = 1"
    by code_simp
  then show ?thesis
    using done_only_after_acknowledgement [OF r, of "''o0''"] r by (simp only: Let_def)
qed

section \<open>Closing strands the callers\<close>

lemma settled_phase: "i < length (ce_jobs s) \<Longrightarrow> is_settled (ce_jobs s ! i) \<longleftrightarrow> (\<exists>r. phase_of s i = Settled r)"
  by (auto simp: is_settled_def phase_of_def split: job_phase.splits)

text \<open>A cancellation that reaches a sender does not settle its job, and no other sender of a closed engine moves.\<close>

lemma cancel_settles_nothing:
  assumes "engine_ok s" and "phase_of (cancel_lands t s) i = Settled r"
  shows "phase_of s i = Settled r"
proof (cases "ce_sender s t")
  case None
  then show ?thesis
    using assms(2) by (simp add: cancel_lands_def)
next
  case (Some j)
  have j: "j < length (ce_jobs s)" "phase_of s j = Writing \<or> (\<exists>oid. phase_of s j = Announcing oid)"
    using hand_iff [OF assms(1), of t j] Some by (simp_all add: in_hand_def)
  then show ?thesis
    using assms(2) Some
    by (auto simp: cancel_lands_def write_ends_def announce_ends_def send_raises_phase is_exception_def split: if_splits)
qed

lemma closed_settles_nothing:
  assumes "engine_ok s" and "engine_enabled n e s" and "ce_closed s" and "phase_of (engine_step stage e s) i = Settled r"
  shows "phase_of s i = Settled r"
proof (cases "receiving e")
  case True
  then show ?thesis
    using receiving_frame(1) [OF True, of stage s] assms(4) by (simp add: phase_of_def)
next
  case False
  have n: "ce_task s t \<noteq> Running" for t
    using assms(1,3) by (auto simp: engine_ok_def tasks_ok_def)
  show ?thesis
    using False assms n cancel_settles_nothing [OF assms(1)]
    by (cases e) (auto simp: engine_step_def comm_send_def put_job_phase split: if_splits)
qed

lemma closed_run:
  assumes "engine_run n stage s es s'" and "engine_ok s" and "ce_closed s" and "i < length (ce_jobs s)"
    and "\<not> is_settled (ce_jobs s ! i)"
  shows "engine_ok s' \<and> ce_closed s' \<and> i < length (ce_jobs s') \<and> \<not> is_settled (ce_jobs s' ! i)"
  using assms
proof induction
  case (Step es s' e)
  then have h: "engine_ok s'" "ce_closed s'" "i < length (ce_jobs s')" "\<not> is_settled (ce_jobs s' ! i)"
    by simp_all
  have i: "i < length (ce_jobs (engine_step stage e s'))"
    using h(3) step_frame(1) [of s' stage e] by simp
  then show ?case
    using engine_step_ok [OF h(1) Step.hyps(2)] step_frame(3) [OF h(2)] h(3,4)
      closed_settles_nothing [OF h(1) Step.hyps(2) h(2), of stage i] by (auto simp: settled_phase)
qed simp

text \<open>
  C37: \<open>close\<close> strands its callers. Whatever reachable state the engine is closed in, a call whose future is
  not set by then (waiting for room, queued, being written or announced) is never answered: in no run that
  follows is its future set, with a result or with an exception. The senders end by the cancellation, which
  passes the handler that would set the future, and no later call starts a new one.
\<close>

theorem close_strands_callers:
  assumes "engine_reach n stage es s" and "i < length (ce_jobs s)" and "\<not> is_settled (ce_jobs s ! i)"
    and "engine_run n stage (engine_step stage Close s) es' s'"
  shows "i < length (ce_jobs s') \<and> \<not> is_settled (ce_jobs s' ! i)"
  using closed_run [OF assms(4), of i] close_ok [OF engine_reach_ok [OF assms(1)]] assms(2,3) by (simp add: engine_step_def)

theorem close_strands_callers_witness:
  "let es = [Send ''b'', Put 0, Get ''b'']; s = fold (engine_step ''a'') es new_engine;
       s' = fold (engine_step ''a'') [Send ''b'', Cancel_Lands ''b''] (engine_step ''a'' Close s) in
   engine_reach 2 ''a'' es s \<and> engine_run 2 ''a'' (engine_step ''a'' Close s) [Send ''b'', Cancel_Lands ''b''] s' \<and>
   \<not> is_settled (ce_jobs s' ! 0) \<and> ce_task s' ''b'' = Ended"
proof -
  let ?s = "fold (engine_step ''a'') [Send ''b'', Put 0, Get ''b''] new_engine"
  let ?s' = "fold (engine_step ''a'') [Send ''b'', Cancel_Lands ''b''] (engine_step ''a'' Close ?s)"
  have r: "engine_reach 2 ''a'' [Send ''b'', Put 0, Get ''b''] ?s"
    "engine_run 2 ''a'' (engine_step ''a'' Close ?s) [Send ''b'', Cancel_Lands ''b''] ?s'"
    by (rule engine_runI, code_simp)+
  have j: "0 < length (ce_jobs ?s)" "\<not> is_settled (ce_jobs ?s ! 0)" "ce_task ?s' ''b'' = Ended"
    by code_simp+
  have "\<not> is_settled (ce_jobs ?s' ! 0)"
    using close_strands_callers [OF r(1) j(1,2) r(2)] by blast
  then show ?thesis
    using r j(3) unfolding Let_def by blast
qed

end
