(* ===== verification/Prepared_Queue.thy ===== *)
theory Prepared_Queue
  imports Prelude
begin

text \<open>
  The handoff from preprocessing to the generation engine:
  \<open>sglang_omni/scheduling/prepared_request_queue.py\<close>. Every method runs under one lock, so any
  interleaving of threads is a sequence of these operations.
\<close>

section \<open>State and operations\<close>

record ('c, 'p) prepared_queue =
  pq_context :: "'c option"
  pq_prepared :: "string \<rightharpoonup> 'p"
  pq_inflight :: "string set"
  pq_aborted :: "string set"

definition new_queue :: "('c, 'p) prepared_queue" where
  "new_queue = \<lparr>pq_context = None, pq_prepared = Map.empty, pq_inflight = {}, pq_aborted = {}\<rparr>"

definition snapshot :: "('c, 'p) prepared_queue \<Rightarrow> 'c option \<times> string set \<times> string set \<times> string set" where
  "snapshot q = (pq_context q, dom (pq_prepared q), pq_inflight q, pq_aborted q)"

definition set_context :: "'c \<Rightarrow> ('c, 'p) prepared_queue \<Rightarrow> ('c, 'p) prepared_queue" where
  "set_context c q = \<lparr>pq_context = Some c, pq_prepared = Map.empty, pq_inflight = {}, pq_aborted = {}\<rparr>"

definition clear_context :: "('c, 'p) prepared_queue \<Rightarrow> ('c, 'p) prepared_queue" where
  "clear_context q = \<lparr>pq_context = None, pq_prepared = Map.empty, pq_inflight = {}, pq_aborted = {}\<rparr>"

definition begin_request :: "string \<Rightarrow> ('c, 'p) prepared_queue \<Rightarrow> 'c option \<times> ('c, 'p) prepared_queue" where
  "begin_request rid q =
     (pq_context q, if pq_context q \<noteq> None then q\<lparr>pq_inflight := insert rid (pq_inflight q)\<rparr> else q)"

definition fail_inflight :: "string \<Rightarrow> ('c, 'p) prepared_queue \<Rightarrow> ('c, 'p) prepared_queue" where
  "fail_inflight rid q = q\<lparr>pq_inflight := pq_inflight q - {rid}, pq_aborted := pq_aborted q - {rid}\<rparr>"

definition publish :: "string \<Rightarrow> 'p \<Rightarrow> ('c, 'p) prepared_queue \<Rightarrow> bool \<times> ('c, 'p) prepared_queue" where
  "publish rid p q =
     (let q' = q\<lparr>pq_inflight := pq_inflight q - {rid}, pq_aborted := pq_aborted q - {rid}\<rparr> in
      if rid \<in> pq_inflight q \<and> rid \<notin> pq_aborted q
      then (True, q'\<lparr>pq_prepared := (pq_prepared q')(rid \<mapsto> p)\<rparr>) else (False, q'))"

definition abort_prepared :: "string \<Rightarrow> ('c, 'p) prepared_queue \<Rightarrow> ('c, 'p) prepared_queue" where
  "abort_prepared rid q =
     (if pq_prepared q rid \<noteq> None then q\<lparr>pq_prepared := (pq_prepared q)(rid := None)\<rparr>
      else if rid \<in> pq_inflight q then q\<lparr>pq_aborted := insert rid (pq_aborted q)\<rparr> else q)"

definition pop_prepared :: "string \<Rightarrow> ('c, 'p) prepared_queue \<Rightarrow> 'p option \<times> ('c, 'p) prepared_queue" where
  "pop_prepared rid q = (pq_prepared q rid, q\<lparr>pq_prepared := (pq_prepared q)(rid := None)\<rparr>)"

datatype ('c, 'p) queue_op =
    Set_Context 'c | Clear_Context | Begin string | Fail string | Publish string 'p | Abort string | Pop string

fun queue_step :: "('c, 'p) queue_op \<Rightarrow> ('c, 'p) prepared_queue \<Rightarrow> ('c, 'p) prepared_queue" where
  "queue_step (Set_Context c) q = set_context c q"
| "queue_step Clear_Context q = clear_context q"
| "queue_step (Begin rid) q = snd (begin_request rid q)"
| "queue_step (Fail rid) q = fail_inflight rid q"
| "queue_step (Publish rid p) q = snd (publish rid p q)"
| "queue_step (Abort rid) q = abort_prepared rid q"
| "queue_step (Pop rid) q = snd (pop_prepared rid q)"

abbreviation queue_run :: "('c, 'p) queue_op list \<Rightarrow> ('c, 'p) prepared_queue \<Rightarrow> ('c, 'p) prepared_queue" where
  "queue_run ops q \<equiv> fold queue_step ops q"

lemmas queue_defs = set_context_def clear_context_def begin_request_def fail_inflight_def publish_def
  abort_prepared_def pop_prepared_def Let_def

section \<open>The specification, request by request\<close>

text \<open>
  What the three tables say of one request: being preprocessed, being preprocessed but aborted, or
  neither; and the prepared payload that waits, if any.
\<close>

datatype work_state = Resting | Working | Doomed

definition view :: "string \<Rightarrow> ('c, 'p) prepared_queue \<Rightarrow> work_state \<times> 'p option" where
  "view rid q = (if rid \<notin> pq_inflight q then Resting else if rid \<in> pq_aborted q then Doomed else Working,
     pq_prepared q rid)"

fun spec_step :: "bool \<Rightarrow> string \<Rightarrow> ('c, 'p) queue_op \<Rightarrow> work_state \<times> 'p option \<Rightarrow> work_state \<times> 'p option" where
  "spec_step ctx rid (Set_Context c) v = (Resting, None)"
| "spec_step ctx rid Clear_Context v = (Resting, None)"
| "spec_step ctx rid (Begin r) (w, p) = (if r = rid \<and> ctx \<and> w = Resting then (Working, p) else (w, p))"
| "spec_step ctx rid (Fail r) (w, p) = (if r = rid then (Resting, p) else (w, p))"
| "spec_step ctx rid (Publish r x) (w, p) =
     (if r = rid then (Resting, if w = Working then Some x else p) else (w, p))"
| "spec_step ctx rid (Abort r) (w, p) =
     (if r \<noteq> rid then (w, p) else if p \<noteq> None then (w, None) else (if w = Working then Doomed else w, None))"
| "spec_step ctx rid (Pop r) (w, p) = (if r = rid then (w, None) else (w, p))"

definition tombstones_ok :: "('c, 'p) prepared_queue \<Rightarrow> bool" where
  "tombstones_ok q \<longleftrightarrow> pq_aborted q \<subseteq> pq_inflight q"

lemma tombstones_step: "tombstones_ok q \<Longrightarrow> tombstones_ok (queue_step e q)"
  by (cases e) (auto simp: tombstones_ok_def queue_defs)

lemma tombstones_run: "tombstones_ok q \<Longrightarrow> tombstones_ok (queue_run ops q)"
  by (induction ops arbitrary: q) (auto intro: tombstones_step)

lemma queue_step_view:
  "tombstones_ok q \<Longrightarrow> view rid (queue_step e q) = spec_step (pq_context q \<noteq> None) rid e (view rid q)"
  by (cases e) (auto simp: view_def tombstones_ok_def queue_defs)

section \<open>Aborted requests are not handed over\<close>

definition begins :: "string \<Rightarrow> ('c, 'p) queue_op list \<Rightarrow> nat" where
  "begins rid ops = length (filter (\<lambda>e. e = Begin rid) ops)"

lemma begins_simps [simp]:
  "begins rid [] = 0" "begins rid (e # ops) = (if e = Begin rid then 1 else 0) + begins rid ops"
  by (auto simp: begins_def)

lemma spec_gone:
  "fst v \<noteq> Working \<Longrightarrow> snd v = None \<Longrightarrow> e \<noteq> Begin rid \<Longrightarrow>
     fst (spec_step ctx rid e v) \<noteq> Working \<and> snd (spec_step ctx rid e v) = None"
  by (cases v; cases e) auto

lemma aborted_run:
  "tombstones_ok q \<Longrightarrow> fst (view rid q) \<noteq> Working \<Longrightarrow> snd (view rid q) = None \<Longrightarrow> begins rid ops = 0 \<Longrightarrow>
     snd (view rid (queue_run ops q)) = None"
proof (induction ops arbitrary: q)
  case (Cons e ops)
  from Cons.prems(4) have e: "e \<noteq> Begin rid" "begins rid ops = 0" by (auto split: if_splits)
  from spec_gone [OF Cons.prems(2,3) e(1)] Cons.IH [OF tombstones_step [OF Cons.prems(1)] _ _ e(2)]
  show ?case by (simp add: queue_step_view [OF Cons.prems(1)])
qed simp

text \<open>With one \<open>begin\<close> a request is never both being preprocessed and prepared.\<close>

lemma spec_single:
  "e \<noteq> Begin rid \<Longrightarrow> fst v = Resting \<or> snd v = None \<Longrightarrow>
     fst (spec_step ctx rid e v) = Resting \<or> snd (spec_step ctx rid e v) = None"
  "e \<noteq> Begin rid \<Longrightarrow> fst v = Resting \<Longrightarrow> fst (spec_step ctx rid e v) = Resting"
  "e \<noteq> Begin rid \<Longrightarrow> fst v = Resting \<Longrightarrow> snd v = None \<Longrightarrow> snd (spec_step ctx rid e v) = None"
  by (cases v; cases e; auto)+

lemma single_run:
  assumes "tombstones_ok q" "begins rid ops = 0" "fst (view rid q) = Resting \<or> snd (view rid q) = None"
  shows "fst (view rid (queue_run ops q)) = Resting \<or> snd (view rid (queue_run ops q)) = None"
  using assms
proof (induction ops arbitrary: q)
  case (Cons e ops)
  from Cons.prems(2) have e: "e \<noteq> Begin rid" "begins rid ops = 0" by (auto split: if_splits)
  from Cons.IH [OF tombstones_step [OF Cons.prems(1)] e(2)] spec_single(1) [OF e(1) Cons.prems(3)]
  show ?case by (simp add: queue_step_view [OF Cons.prems(1)])
qed simp

lemma once_run:
  assumes "tombstones_ok q" "begins rid ops \<le> 1" "fst (view rid q) = Resting" "snd (view rid q) = None"
  shows "fst (view rid (queue_run ops q)) = Resting \<or> snd (view rid (queue_run ops q)) = None"
  using assms
proof (induction ops arbitrary: q)
  case (Cons e ops)
  note t = tombstones_step [OF Cons.prems(1), of e]
  have v: "view rid (queue_step e q) = spec_step (pq_context q \<noteq> None) rid e (view rid q)"
    by (rule queue_step_view [OF Cons.prems(1)])
  show ?case
  proof (cases "e = Begin rid")
    case True
    have "snd (view rid (queue_step e q)) = None"
      unfolding v using True Cons.prems(4) by (cases "view rid q") auto
    moreover have "begins rid ops = 0" using True Cons.prems(2) by simp
    ultimately show ?thesis using single_run [OF t] by simp
  next
    case False
    have "begins rid ops \<le> 1" using False Cons.prems(2) by simp
    with Cons.IH [OF t] spec_single(2,3) [OF False] Cons.prems(3,4) show ?thesis by (simp add: v)
  qed
qed simp

text \<open>
  C38: A request begun at most once, and not begun again after its abort, is not handed to the engine: \<open>pop\<close>
  does not return it, whether the abort came during its preprocessing or after it was published, and whatever
  other threads do to other requests, to the context and to this request's publication and failure.
  An abort of a request that is not in flight leaves nothing behind: a begin after it starts anew, so
  \<open>begins rid after = 0\<close> is needed.
\<close>

theorem aborted_request_is_not_handed_over:
  assumes "begins rid before \<le> 1" and "begins rid after = 0"
  shows "fst (pop_prepared rid (queue_run (before @ Abort rid # after) new_queue)) = None"
proof -
  have t0: "tombstones_ok new_queue" by (simp add: tombstones_ok_def new_queue_def)
  let ?q = "queue_run before new_queue"
  note t = tombstones_run [OF t0, of before]
  have "fst (view rid ?q) = Resting \<or> snd (view rid ?q) = None"
    by (rule once_run [OF t0 assms(1)]) (simp_all add: view_def new_queue_def)
  then have "fst (view rid (queue_step (Abort rid) ?q)) \<noteq> Working \<and> snd (view rid (queue_step (Abort rid) ?q)) = None"
    unfolding queue_step_view [OF t] by (cases "view rid ?q") auto
  then have "snd (view rid (queue_run after (queue_step (Abort rid) ?q))) = None"
    using aborted_run [OF tombstones_step [OF t] _ _ assms(2)] by blast
  then show ?thesis by (simp add: pop_prepared_def view_def)
qed

lemma aborted_request_is_not_handed_over_witness:
  "fst (pop_prepared ''r'' (queue_run ([Set_Context (7 :: nat), Begin ''r''] @ Abort ''r'' # [Publish ''r'' True, Begin ''s'']) new_queue)) = None"
  by (rule aborted_request_is_not_handed_over) simp_all

text \<open>
  A request that nothing aborts, fails, pops or resets is handed over exactly as it was published.
\<close>

definition concerns :: "string \<Rightarrow> ('c, 'p) queue_op \<Rightarrow> bool" where
  "concerns rid e \<longleftrightarrow> (case e of
     Set_Context c \<Rightarrow> True | Clear_Context \<Rightarrow> True | Begin r \<Rightarrow> r = rid | Fail r \<Rightarrow> r = rid
   | Publish r x \<Rightarrow> r = rid | Abort r \<Rightarrow> r = rid | Pop r \<Rightarrow> r = rid)"

lemma view_other_run:
  "tombstones_ok q \<Longrightarrow> \<forall>e \<in> set ops. \<not> concerns rid e \<Longrightarrow> view rid (queue_run ops q) = view rid q"
proof (induction ops arbitrary: q)
  case (Cons e ops)
  have "spec_step ctx rid e v = v" for ctx v
    using Cons.prems(2) by (cases v; cases e) (auto simp: concerns_def)
  with Cons.IH [OF tombstones_step [OF Cons.prems(1)]] Cons.prems show ?case by (simp add: queue_step_view)
qed simp

lemma published_request_is_handed_over:
  assumes "tombstones_ok q" "pq_context q \<noteq> None" "view rid q = (Resting, None)"
    "\<forall>e \<in> set during. \<not> concerns rid e" "\<forall>e \<in> set after. \<not> concerns rid e"
  shows "fst (pop_prepared rid (queue_run (Begin rid # during @ Publish rid p # after) q)) = Some p"
proof -
  note t1 = tombstones_step [OF assms(1), of "Begin rid"]
  have v1: "view rid (queue_step (Begin rid) q) = (Working, None)"
    unfolding queue_step_view [OF assms(1)] assms(3) using assms(2) by simp
  let ?q2 = "queue_run during (queue_step (Begin rid) q)"
  have v2: "view rid ?q2 = (Working, None)" using view_other_run [OF t1 assms(4)] v1 by simp
  note t2 = tombstones_run [OF t1, of during]
  have v3: "view rid (queue_step (Publish rid p) ?q2) = (Resting, Some p)"
    unfolding queue_step_view [OF t2] v2 by simp
  have "view rid (queue_run after (queue_step (Publish rid p) ?q2)) = (Resting, Some p)"
    by (simp only: view_other_run [OF tombstones_step [OF t2] assms(5)] v3)
  then show ?thesis by (simp add: pop_prepared_def view_def)
qed

end
