(* ===== verification/Batch_Policy.thy ===== *)
theory Batch_Policy
  imports Prelude
begin

text \<open>
  Batch sizes of the generation stages: \<open>sglang_omni/scheduling/generation_batch_policy.py\<close>, the
  overrides a stage builds and the validation of the server arguments that result.
\<close>

section \<open>Values\<close>

text \<open>\<open>int(x)\<close>; strings and other objects are converted by the argument \<open>other\<close>.\<close>

definition py_int :: "(pyval \<Rightarrow> int result) \<Rightarrow> pyval \<Rightarrow> int result" where
  "py_int other v = (case v of
     PInt i \<Rightarrow> Inr i
   | PBool b \<Rightarrow> Inr (if b then 1 else 0)
   | PStr s \<Rightarrow> other v
   | PObj c i b \<Rightarrow> other v
   | _ \<Rightarrow> Inl (TypeError ''int() argument must be a string, a bytes-like object or a real number''))"

text \<open>\<open>range(a, b, step)\<close> for a positive step.\<close>

definition py_range :: "int \<Rightarrow> int \<Rightarrow> int \<Rightarrow> int list" where
  "py_range a b d = map (\<lambda>k. a + int k * d) [0..<nat ((b - a + d - 1) div d)]"

section \<open>Building the overrides\<close>

definition default_sizes :: "int \<Rightarrow> int list" where
  "default_sizes max_bs = filter (\<lambda>bs. bs \<le> max_bs)
     ([1, 2, 4, 8, 12] @ py_range 16 257 8 @ py_range 272 512 16 @ py_range 512 (max_bs + 1) 32)"

definition build_default_cuda_graph_bs :: "int \<Rightarrow> int list result" where
  "build_default_cuda_graph_bs max_bs =
     bindE (guardE (\<not> max_bs < 1) (ValueError ''max_bs must be >= 1'')) (\<lambda>_.
     let values = default_sizes max_bs in Inr (if values = [] \<or> last values \<noteq> max_bs then values @ [max_bs] else values))"

definition normalize_positive_int :: "(pyval \<Rightarrow> int result) \<Rightarrow> string \<Rightarrow> pyval \<Rightarrow> int result" where
  "normalize_positive_int other field v = (case py_int other v of
     Inl (TypeError e) \<Rightarrow> Inl (ValueError (field @ '' must be an integer''))
   | Inl (ValueError e) \<Rightarrow> Inl (ValueError (field @ '' must be an integer''))
   | Inl e \<Rightarrow> Inl e
   | Inr n \<Rightarrow> if n < 1 then Inl (ValueError (field @ '' must be >= 1'')) else Inr n)"

text \<open>\<open>d.pop(k, default)\<close> on a dictionary, and \<open>{**a, **b}\<close>.\<close>

definition dpop :: "pydict \<Rightarrow> string \<Rightarrow> pyval \<Rightarrow> pyval \<times> pydict" where
  "dpop d k v = (dget_default d k v, AList.delete k d)"

definition dmerge :: "pydict \<Rightarrow> pydict \<Rightarrow> pydict" where
  "dmerge a b = foldl (\<lambda>d (k, v). dset d k v) a b"

definition build_generation_batch_overrides ::
    "(pyval \<Rightarrow> int result) \<Rightarrow> pyval \<Rightarrow> pyval \<Rightarrow> pyval \<Rightarrow> pydict \<Rightarrow> pydict \<Rightarrow> pydict result" where
  "build_generation_batch_overrides other max_running graph_max compile_max server_args stage_defaults =
     (let (v, incoming) = dpop server_args ''max_running_requests'' max_running in
      bindE (normalize_positive_int other ''max_running_requests'' v) (\<lambda>running.
      let (v, incoming) = dpop incoming ''cuda_graph_max_bs'' (if graph_max = PNone then PInt running else graph_max) in
      bindE (normalize_positive_int other ''cuda_graph_max_bs'' v) (\<lambda>graph.
      let (v, incoming) = dpop incoming ''torch_compile_max_bs'' (if compile_max = PNone then PInt running else compile_max) in
      bindE (normalize_positive_int other ''torch_compile_max_bs'' v) (\<lambda>compile.
      let graph_bs = map_of incoming ''cuda_graph_bs'';
          incoming = AList.delete ''cuda_graph_bs'' incoming;
          overrides = dset (dset (dset (dmerge stage_defaults incoming)
            ''max_running_requests'' (PInt running)) ''cuda_graph_max_bs'' (PInt graph)) ''torch_compile_max_bs'' (PInt compile)
      in case graph_bs of
           None \<Rightarrow> bindE (build_default_cuda_graph_bs graph) (\<lambda>bs.
             Inr (dset overrides ''cuda_graph_bs'' (PList (map PInt bs))))
         | Some v \<Rightarrow> Inr (dset overrides ''cuda_graph_bs'' v)))))"

section \<open>Validation\<close>

record server_args =
  sa_max_running :: pyval
  sa_disable_cuda_graph :: bool
  sa_cuda_graph_max_bs :: pyval
  sa_cuda_graph_bs :: pyval
  sa_enable_torch_compile :: bool
  sa_torch_compile_max_bs :: pyval

text \<open>The checks append to a list of messages, which they return with their result.\<close>

definition validate_positive_int ::
    "(pyval \<Rightarrow> int result) \<Rightarrow> string \<Rightarrow> pyval \<Rightarrow> bool \<Rightarrow> int option \<times> string list" where
  "validate_positive_int other field v required =
     (if v = PNone then (None, if required then [field @ '' must be explicit''] else [])
      else case py_int other v of
        Inl e \<Rightarrow> (None, [field @ '' must be an integer''])
      | Inr n \<Rightarrow> if n < 1 then (None, [field @ '' must be >= 1'']) else (Some n, []))"

text \<open>What iterating over a value gives; iterating over anything else raises.\<close>

definition iterated :: "pyval \<Rightarrow> pyval list option" where
  "iterated v = (case v of PList xs \<Rightarrow> Some xs | PDict d \<Rightarrow> Some (map (\<lambda>kv. PStr (fst kv)) d) | _ \<Rightarrow> None)"

definition normalize_cuda_graph_bs :: "(pyval \<Rightarrow> int result) \<Rightarrow> pyval \<Rightarrow> int list option \<times> string list" where
  "normalize_cuda_graph_bs other v = (case iterated v of
     Some xs \<Rightarrow> (case mapE (py_int other) xs of
         Inl e \<Rightarrow> (None, [''cuda_graph_bs must be a sequence of positive integers''])
       | Inr ns \<Rightarrow>
           (if ns = [] then (None, [''cuda_graph_bs must be non-empty''])
            else if list_ex (\<lambda>n. n < 1) ns then (None, [''cuda_graph_bs values must be >= 1''])
            else if sorted_list_of_set (set ns) \<noteq> ns then (None, [''cuda_graph_bs must be strictly increasing''])
            else (Some ns, [])))
   | None \<Rightarrow> (None, [''cuda_graph_bs must be a sequence of positive integers'']))"

definition covers :: "string \<Rightarrow> int option \<Rightarrow> int option \<Rightarrow> string list" where
  "covers field running n = (case (running, n) of
     (Some r, Some b) \<Rightarrow> if b < r
       then [field @ '' must cover max_running_requests ('' @ decimal b @ '' < '' @ decimal r @ '')''] else []
   | _ \<Rightarrow> [])"

definition graph_errors :: "(pyval \<Rightarrow> int result) \<Rightarrow> server_args \<Rightarrow> int option \<Rightarrow> string list" where
  "graph_errors other a running =
     (let (graph, e1) = validate_positive_int other ''cuda_graph_max_bs'' (sa_cuda_graph_max_bs a) True;
          (bs, e2) = (if sa_cuda_graph_bs a = PNone
            then (None, [''cuda_graph_bs must be explicit when CUDA graph is enabled''])
            else normalize_cuda_graph_bs other (sa_cuda_graph_bs a));
          e3 = (case (graph, bs) of
            (Some g, Some ns) \<Rightarrow> if Max (set ns) \<noteq> g
              then [''max(cuda_graph_bs) must match cuda_graph_max_bs ('' @ decimal (Max (set ns)) @ '' != '' @ decimal g @ '')'']
              else []
          | _ \<Rightarrow> [])
      in e1 @ e2 @ e3 @ covers ''cuda_graph_max_bs'' running graph)"

definition buffer_errors :: "int option \<Rightarrow> int option \<Rightarrow> string list" where
  "buffer_errors running buffer = (case buffer of
     None \<Rightarrow> []
   | Some n \<Rightarrow> (if n < 1 then [''model_buffer_bs must be >= 1''] else []) @ covers ''model_buffer_bs'' running (Some n))"

definition batch_policy_errors :: "(pyval \<Rightarrow> int result) \<Rightarrow> server_args \<Rightarrow> int option \<Rightarrow> string list" where
  "batch_policy_errors other a buffer =
     (let (running, e1) = validate_positive_int other ''max_running_requests'' (sa_max_running a) True;
          e2 = (if sa_disable_cuda_graph a then [] else graph_errors other a running);
          (compile, e3) = validate_positive_int other ''torch_compile_max_bs'' (sa_torch_compile_max_bs a) (sa_enable_torch_compile a);
          e4 = (if sa_enable_torch_compile a then covers ''torch_compile_max_bs'' running compile else [])
      in e1 @ e2 @ e3 @ e4 @ buffer_errors running buffer)"

fun join :: "string \<Rightarrow> string list \<Rightarrow> string" where
  "join sep [] = []"
| "join sep [s] = s"
| "join sep (s # ss) = s @ sep @ join sep ss"

definition validate_generation_batch_policy ::
    "(pyval \<Rightarrow> int result) \<Rightarrow> string \<Rightarrow> server_args \<Rightarrow> int option \<Rightarrow> unit result" where
  "validate_generation_batch_policy other model a buffer =
     (let errors = batch_policy_errors other a buffer in
      if errors = [] then Inr ()
      else Inl (ValueError (model @ '' invalid generation batch policy: '' @ join ''; '' errors)))"

section \<open>The default list\<close>

lemma py_range_sorted: "0 < d \<Longrightarrow> sorted_wrt (<) (py_range a b d)"
  unfolding py_range_def by (simp add: sorted_wrt_map sorted_wrt_iff_nth_less)

lemma py_range_bounds: "0 < d \<Longrightarrow> x \<in> set (py_range a b d) \<Longrightarrow> a \<le> x \<and> x < b"
proof -
  assume d: "0 < d" and "x \<in> set (py_range a b d)"
  then obtain k where k: "x = a + int k * d" "k < nat ((b - a + d - 1) div d)" by (auto simp: py_range_def)
  then have "int k + 1 \<le> (b - a + d - 1) div d" by linarith
  then have "(int k + 1) * d \<le> (b - a + d - 1) div d * d" using d by (intro mult_right_mono) auto
  also have "\<dots> \<le> b - a + d - 1"
    using pos_mod_sign [OF d, of "b - a + d - 1"] by (simp add: minus_mod_eq_div_mult [symmetric])
  finally show ?thesis using k(1) d by (simp add: algebra_simps)
qed

lemma sorted_append_last:
  "sorted_wrt (<) xs \<Longrightarrow> \<forall>x \<in> set xs. x \<le> n \<Longrightarrow> xs = [] \<or> last xs \<noteq> n \<Longrightarrow> sorted_wrt (<) (xs @ [n :: int])"
proof (cases xs rule: rev_cases)
  case (snoc ys y)
  assume "sorted_wrt (<) xs" "\<forall>x \<in> set xs. x \<le> n" "xs = [] \<or> last xs \<noteq> n"
  with snoc show ?thesis by (auto simp: sorted_wrt_append intro: order.strict_trans)
qed simp

lemma default_list:
  assumes "build_default_cuda_graph_bs n = Inr bs"
  shows "sorted_wrt (<) bs" "\<forall>b \<in> set bs. 1 \<le> b \<and> b \<le> n" "bs \<noteq> []" "last bs = n"
proof -
  let ?all = "[1, 2, 4, 8, 12] @ py_range 16 257 8 @ py_range 272 512 16 @ py_range 512 (n + 1) 32"
  note r = py_range_bounds [of 8 _ 16 257, OF zero_less_numeral] py_range_bounds [of 16 _ 272 512, OF zero_less_numeral]
    py_range_bounds [of 32 _ 512 "n + 1", OF zero_less_numeral]
  have sorted: "sorted_wrt (<) ?all"
    using r by (auto simp: sorted_wrt_append py_range_sorted) (force dest: r)+
  have vs: "sorted_wrt (<) (default_sizes n)" unfolding default_sizes_def by (rule sorted_wrt_filter [OF sorted])
  have "1 \<le> x" if "x \<in> set ?all" for x using that by (auto dest: r)
  then have all: "1 \<le> x \<and> x \<le> n" if "x \<in> set (default_sizes n)" for x
    using that unfolding default_sizes_def set_filter by blast
  from assms have n: "1 \<le> n" and bs: "bs = (if default_sizes n = [] \<or> last (default_sizes n) \<noteq> n then default_sizes n @ [n] else default_sizes n)"
    by (auto simp: build_default_cuda_graph_bs_def Let_def)
  show "sorted_wrt (<) bs" unfolding bs using sorted_append_last [OF vs, of n] vs all by auto
  show "\<forall>b \<in> set bs. 1 \<le> b \<and> b \<le> n" unfolding bs using all n by auto
  show "bs \<noteq> []" "last bs = n" unfolding bs by auto
qed

section \<open>What validation accepts\<close>

lemma sorted_strict_list: "sorted_wrt (<) (xs :: int list) \<longleftrightarrow> sorted_list_of_set (set xs) = xs"
proof
  assume "sorted_wrt (<) xs"
  then show "sorted_list_of_set (set xs) = xs"
    by (intro sorted_list_of_set.idem_if_sorted_distinct) (auto simp: strict_sorted_iff)
next
  assume "sorted_list_of_set (set xs) = xs"
  then show "sorted_wrt (<) xs"
    by (metis strict_sorted_iff sorted_list_of_set.sorted_sorted_key_list_of_set sorted_list_of_set.distinct_sorted_key_list_of_set)
qed

lemma mapE_py_int: "mapE (py_int other) (map PInt ns) = Inr ns"
  by (induction ns) (simp_all add: py_int_def)

lemma normalize_ok:
  "normalize_cuda_graph_bs other (PList (map PInt ns)) =
     (if ns = [] then (None, [''cuda_graph_bs must be non-empty''])
      else if \<exists>n \<in> set ns. n < 1 then (None, [''cuda_graph_bs values must be >= 1''])
      else if \<not> sorted_wrt (<) ns then (None, [''cuda_graph_bs must be strictly increasing''])
      else (Some ns, []))"
  by (auto simp: normalize_cuda_graph_bs_def iterated_def mapE_py_int sorted_strict_list list_ex_iff)

lemma last_is_Max: "sorted_wrt (<) (xs :: int list) \<Longrightarrow> xs \<noteq> [] \<Longrightarrow> Max (set xs) = last xs"
proof (cases xs rule: rev_cases)
  case (snoc ys y)
  assume "sorted_wrt (<) xs"
  with snoc show ?thesis by (auto simp: sorted_wrt_append intro!: Max_eqI)
qed simp

lemma validate_int [simp]:
  "validate_positive_int other f (PInt n) req = (if n < 1 then (None, [f @ '' must be >= 1'']) else (Some n, []))"
  by (simp add: validate_positive_int_def py_int_def)

lemma covers_Nil [simp]: "covers f (Some r) (Some b) = [] \<longleftrightarrow> r \<le> b" "covers f None b' = []" "covers f r' None = []"
  by (auto simp: covers_def split: option.splits)

section \<open>Built overrides are valid\<close>

lemma normalized_positive: "normalize_positive_int other f v = Inr n \<Longrightarrow> 1 \<le> n"
  by (auto simp: normalize_positive_int_def split: sum.splits py_error.splits if_splits)

text \<open>The server arguments a stage starts with, read from its overrides.\<close>

definition args_of :: "pydict \<Rightarrow> bool \<Rightarrow> bool \<Rightarrow> server_args" where
  "args_of d disable_graph compile =
     \<lparr>sa_max_running = dget d ''max_running_requests'', sa_disable_cuda_graph = disable_graph,
      sa_cuda_graph_max_bs = dget d ''cuda_graph_max_bs'', sa_cuda_graph_bs = dget d ''cuda_graph_bs'',
      sa_enable_torch_compile = compile, sa_torch_compile_max_bs = dget d ''torch_compile_max_bs''\<rparr>"

lemma built_values:
  assumes "build_generation_batch_overrides other m g t sa defs = Inr d" "\<not> dhas sa ''cuda_graph_bs''"
  shows "\<exists>r gm tm bs. dget d ''max_running_requests'' = PInt r \<and> dget d ''cuda_graph_max_bs'' = PInt gm \<and>
    dget d ''torch_compile_max_bs'' = PInt tm \<and> dget d ''cuda_graph_bs'' = PList (map PInt bs) \<and>
    1 \<le> r \<and> 1 \<le> gm \<and> 1 \<le> tm \<and> build_default_cuda_graph_bs gm = Inr bs"
proof -
  have none: "map_of (AList.delete ''torch_compile_max_bs'' (AList.delete ''cuda_graph_max_bs'' (AList.delete ''max_running_requests'' sa))) ''cuda_graph_bs'' = None"
    using assms(2) by (simp add: delete_conv' dhas_def)
  from assms(1) none obtain r gm tm bs where v:
    "normalize_positive_int other ''max_running_requests'' (dget_default sa ''max_running_requests'' m) = Inr r"
    "1 \<le> r" "1 \<le> gm" "1 \<le> tm" "build_default_cuda_graph_bs gm = Inr bs"
    "d = dset (dset (dset (dset (dmerge defs (AList.delete ''cuda_graph_bs'' (AList.delete ''torch_compile_max_bs''
       (AList.delete ''cuda_graph_max_bs'' (AList.delete ''max_running_requests'' sa))))) ''max_running_requests'' (PInt r))
       ''cuda_graph_max_bs'' (PInt gm)) ''torch_compile_max_bs'' (PInt tm)) ''cuda_graph_bs'' (PList (map PInt bs))"
    by (auto simp: build_generation_batch_overrides_def dpop_def Let_def) (blast dest: normalized_positive)
  then show ?thesis by (auto simp: dget_def dget_default_def map_of_dset)
qed

text \<open>
  Overrides that a stage builds are valid up to coverage. Unless the caller fixes the list of graph
  sizes, server arguments with the built values pass validation exactly when the batch sizes for CUDA
  graphs, for compilation and of the model's buffers, where they are in use, reach the number of running
  requests.
\<close>

theorem built_policy_validates:
  assumes "build_generation_batch_overrides other m g t sa defs = Inr d" and "\<not> dhas sa ''cuda_graph_bs''"
    and "a = args_of d disable_graph compile"
  shows "\<exists>running graph comp. sa_max_running a = PInt running \<and> sa_cuda_graph_max_bs a = PInt graph \<and> sa_torch_compile_max_bs a = PInt comp \<and>
    (validate_generation_batch_policy other model a buffer = Inr () \<longleftrightarrow>
       (\<not> disable_graph \<longrightarrow> running \<le> graph) \<and> (compile \<longrightarrow> running \<le> comp) \<and>
       (\<forall>n. buffer = Some n \<longrightarrow> running \<le> n))"
proof -
  from built_values [OF assms(1,2)] obtain r gm tm bs where v:
    "dget d ''max_running_requests'' = PInt r" "dget d ''cuda_graph_max_bs'' = PInt gm"
    "dget d ''torch_compile_max_bs'' = PInt tm" "dget d ''cuda_graph_bs'' = PList (map PInt bs)"
    "1 \<le> r" "1 \<le> gm" "1 \<le> tm" "build_default_cuda_graph_bs gm = Inr bs" by blast
  note bs = default_list [OF v(8)]
  have "\<not> (\<exists>n \<in> set bs. n < 1)" using bs(2) by force
  then have norm: "normalize_cuda_graph_bs other (PList (map PInt bs)) = (Some bs, [])" "Max (set bs) = gm"
    using bs last_is_Max [OF bs(1,3)] by (simp_all add: normalize_ok)
  have graph: "graph_errors other x (Some r) = [] \<longleftrightarrow> r \<le> gm"
    if "sa_cuda_graph_max_bs x = PInt gm" "sa_cuda_graph_bs x = PList (map PInt bs)" for x
    using v(5,6) norm that by (simp add: graph_errors_def)
  have buf: "buffer_errors (Some r) buffer = [] \<longleftrightarrow> (\<forall>n. buffer = Some n \<longrightarrow> r \<le> n)"
    using v(5) by (auto simp: buffer_errors_def split: option.splits)
  have "batch_policy_errors other a buffer = [] \<longleftrightarrow>
      (\<not> disable_graph \<longrightarrow> r \<le> gm) \<and> (compile \<longrightarrow> r \<le> tm) \<and> (\<forall>n. buffer = Some n \<longrightarrow> r \<le> n)"
    using v graph buf by (simp add: batch_policy_errors_def assms(3) args_of_def)
  then have "validate_generation_batch_policy other model a buffer = Inr () \<longleftrightarrow>
      (\<not> disable_graph \<longrightarrow> r \<le> gm) \<and> (compile \<longrightarrow> r \<le> tm) \<and> (\<forall>n. buffer = Some n \<longrightarrow> r \<le> n)"
    by (simp add: validate_generation_batch_policy_def Let_def)
  then show ?thesis using v by (auto simp: assms(3) args_of_def)
qed

lemma built_policy_validates_witness:
  "\<exists>d. build_generation_batch_overrides (\<lambda>v. Inl (ValueError [])) (PInt 20) PNone (PInt 8) [] [] = Inr d \<and>
     validate_generation_batch_policy (\<lambda>v. Inl (ValueError [])) ''tts'' (args_of d False True) (Some 32) \<noteq> Inr () \<and>
     validate_generation_batch_policy (\<lambda>v. Inl (ValueError [])) ''tts'' (args_of d False False) (Some 32) = Inr ()"
proof -
  obtain d where d: "build_generation_batch_overrides (\<lambda>v. Inl (ValueError [])) (PInt 20) PNone (PInt 8) [] [] = Inr d"
    "dget d ''max_running_requests'' = PInt 20" "dget d ''cuda_graph_max_bs'' = PInt 20" "dget d ''torch_compile_max_bs'' = PInt 8"
    by (simp add: build_generation_batch_overrides_def dpop_def Let_def dget_default_def normalize_positive_int_def py_int_def
        dmerge_def build_default_cuda_graph_bs_def dget_def map_of_dset)
  show ?thesis
    using built_policy_validates [OF d(1) _ refl, of False True "''tts''" "Some 32"]
      built_policy_validates [OF d(1) _ refl, of False False "''tts''" "Some 32"] d
    by (auto simp: args_of_def dhas_def)
qed

end
