(* ===== verification/Streaming_Scheduler.thy ===== *)
theory Streaming_Scheduler
  imports Prelude
begin

text \<open>
  The scheduler of simple stages that also process streamed chunks, such as vocoders:
  \<open>sglang_omni/scheduling/streaming_simple_scheduler.py\<close>. Its loop runs in one thread; aborts come from
  others and are a script of lists, one list consumed at every look at the set of aborted requests. The
  messages that can be had before a batch is closed are a number given to each round.
\<close>

section \<open>Configuration and state\<close>

text \<open>A chunk is \<open>None\<close> when its data is not a \<open>StreamItem\<close>.\<close>

datatype ('p, 'i) stream_message =
    New_Request string 'p
  | Stream_Chunk string "'i option"
  | Stream_Done string
  | Odd_Message string string

fun message_id :: "('p, 'i) stream_message \<Rightarrow> string" where
  "message_id (New_Request rid p) = rid"
| "message_id (Stream_Chunk rid i) = rid"
| "message_id (Stream_Done rid) = rid"
| "message_id (Odd_Message rid ty) = rid"

datatype 'o sched_output = Out_Result string 'o | Out_Error string py_error | Out_Stream string 'o

text \<open>
  The functions and hooks a stage supplies; hooks work on a state of their own. Without a subclass the
  hooks return nothing; \<open>on_stream_chunk_batch\<close> is the base class's.
\<close>

record ('p, 'i, 'o, 'h) streaming_config =
  sc_fn :: "('p \<Rightarrow> 'o result) option"
  sc_batch_fn :: "('p list \<Rightarrow> 'o list result) option"
  sc_max_batch :: nat
  sc_cost_fn :: "('p \<Rightarrow> int result) option"
  sc_max_cost :: "int option"
  sc_batch_chunks :: bool
  sc_chunk_max :: nat
  sc_chunk_distinct :: bool
  sc_is_streaming :: "'p \<Rightarrow> bool result"
  sc_validate :: "'p \<Rightarrow> unit result"
  sc_on_new :: "string \<Rightarrow> 'p \<Rightarrow> ('h, unit) oper"
  sc_on_chunk :: "string \<Rightarrow> 'i \<Rightarrow> ('h, 'o sched_output list) oper"
  sc_on_done :: "string \<Rightarrow> ('h, 'o sched_output list) oper"
  sc_clear :: "string \<Rightarrow> 'h \<Rightarrow> 'h"
  sc_order :: "string set \<Rightarrow> string list"

record ('p, 'i, 'o, 'h) streaming =
  sr_inbox :: "('p, 'i) stream_message list"
  sr_pending :: "('p, 'i) stream_message list"
  sr_done :: "string set"
  sr_payloads :: "string \<rightharpoonup> 'p"
  sr_aborted :: "string set"
  sr_completed :: "string set"
  sr_hooks :: 'h
  sr_outbox :: "'o sched_output list"
  sr_cleanups :: "string list"
  sr_script :: "string list list"

definition new_streaming :: "'h \<Rightarrow> ('p, 'i, 'o, 'h) streaming" where
  "new_streaming h = \<lparr>sr_inbox = [], sr_pending = [], sr_done = {}, sr_payloads = Map.empty, sr_aborted = {},
     sr_completed = {}, sr_hooks = h, sr_outbox = [], sr_cleanups = [], sr_script = []\<rparr>"

section \<open>Aborts and clean-up\<close>

definition record_aborted_id ::
    "('p, 'i, 'o, 'h) streaming_config \<Rightarrow> string \<Rightarrow> ('p, 'i, 'o, 'h) streaming \<Rightarrow> ('p, 'i, 'o, 'h) streaming" where
  "record_aborted_id c rid s = s\<lparr>sr_aborted := cap_set (sc_order c) 10000 5000 (insert rid (sr_aborted s))\<rparr>"

definition clear_stream_request ::
    "('p, 'i, 'o, 'h) streaming_config \<Rightarrow> bool \<Rightarrow> string \<Rightarrow> ('p, 'i, 'o, 'h) streaming \<Rightarrow> ('p, 'i, 'o, 'h) streaming" where
  "clear_stream_request c keep_aborted rid s = s
     \<lparr>sr_payloads := (sr_payloads s)(rid := None), sr_done := sr_done s - {rid}, sr_hooks := sc_clear c rid (sr_hooks s),
      sr_aborted := (if keep_aborted then sr_aborted s else sr_aborted s - {rid})\<rparr>"

definition record_completed ::
    "('p, 'i, 'o, 'h) streaming_config \<Rightarrow> string \<Rightarrow> ('p, 'i, 'o, 'h) streaming \<Rightarrow> ('p, 'i, 'o, 'h) streaming" where
  "record_completed c rid s = s\<lparr>sr_completed := cap_set (sc_order c) 10000 5000 (insert rid (sr_completed s))\<rparr>"

definition abort_stream ::
    "('p, 'i, 'o, 'h) streaming_config \<Rightarrow> string \<Rightarrow> ('p, 'i, 'o, 'h) streaming \<Rightarrow> ('p, 'i, 'o, 'h) streaming" where
  "abort_stream c rid s =
     (let s = clear_stream_request c True rid (record_aborted_id c rid s) in s\<lparr>sr_cleanups := sr_cleanups s @ [rid]\<rparr>)"

type_synonym ('p, 'i, 'o, 'h, 'a) streaming_op = "(('p, 'i, 'o, 'h) streaming, 'a) oper"

definition others_abort ::
    "('p, 'i, 'o, 'h) streaming_config \<Rightarrow> ('p, 'i, 'o, 'h) streaming \<Rightarrow> ('p, 'i, 'o, 'h) streaming" where
  "others_abort c s = (case sr_script s of
     [] \<Rightarrow> s | rs # rest \<Rightarrow> fold (abort_stream c) rs (s\<lparr>sr_script := rest\<rparr>))"

definition is_aborted :: "('p, 'i, 'o, 'h) streaming_config \<Rightarrow> string \<Rightarrow> ('p, 'i, 'o, 'h, bool) streaming_op" where
  "is_aborted c rid s = (let s' = others_abort c s in (Inr (rid \<in> sr_aborted s'), s'))"

definition put_out :: "'o sched_output \<Rightarrow> ('p, 'i, 'o, 'h, unit) streaming_op" where
  "put_out m = modify (\<lambda>s. s\<lparr>sr_outbox := sr_outbox s @ [m]\<rparr>)"

text \<open>What every handler of an exception does: an error for the request, then its abort.\<close>

definition fail_stream_request ::
    "('p, 'i, 'o, 'h) streaming_config \<Rightarrow> string \<Rightarrow> py_error \<Rightarrow> ('p, 'i, 'o, 'h, unit) streaming_op" where
  "fail_stream_request c rid e = andthen (put_out (Out_Error rid e)) (\<lambda>_. modify (abort_stream c rid))"

definition run_hook :: "('h, 'a) oper \<Rightarrow> ('p, 'i, 'o, 'h, 'a) streaming_op" where
  "run_hook h s = (case h (sr_hooks s) of (r, h') \<Rightarrow> (r, s\<lparr>sr_hooks := h'\<rparr>))"

section \<open>Collecting\<close>

definition stream_cost :: "('p, 'i, 'o, 'h) streaming_config \<Rightarrow> 'p \<Rightarrow> int result" where
  "stream_cost c p = (case sc_cost_fn c of None \<Rightarrow> Inr 0 | Some f \<Rightarrow> bindE (f p) (\<lambda>k. Inr (max k 0)))"

text \<open>The loop of \<open>_collect_new_request_batch\<close>, where \<open>avail\<close> messages can be had before the deadline.\<close>

fun collect_new ::
    "('p, 'i, 'o, 'h) streaming_config \<Rightarrow> nat \<Rightarrow> (string \<times> 'p) list \<Rightarrow> int \<Rightarrow>
     ('p, 'i, 'o, 'h, (string \<times> 'p) list) streaming_op" where
  "collect_new c 0 batch cost s = ret batch s"
| "collect_new c (Suc avail) batch cost s =
     (if length batch \<ge> sc_max_batch c then ret batch s
      else case sr_inbox s of
        [] \<Rightarrow> ret batch s
      | m # rest \<Rightarrow> andthen (is_aborted c (message_id m)) (\<lambda>gone.
          if gone then collect_new c avail batch cost
          else case m of
            New_Request rid p \<Rightarrow> (case sc_is_streaming c p of
                Inl e \<Rightarrow> andthen (fail_stream_request c rid e) (\<lambda>_. collect_new c avail batch cost)
              | Inr True \<Rightarrow> andthen (modify (\<lambda>s. s\<lparr>sr_pending := sr_pending s @ [m]\<rparr>)) (\<lambda>_. ret batch)
              | Inr False \<Rightarrow> (case sc_max_cost c of
                  None \<Rightarrow> collect_new c avail (batch @ [(rid, p)]) cost
                | Some limit \<Rightarrow> (case stream_cost c p of
                    Inl e \<Rightarrow> andthen (fail_stream_request c rid e) (\<lambda>_. collect_new c avail batch cost)
                  | Inr k \<Rightarrow>
                      (if cost + k > limit then andthen (modify (\<lambda>s. s\<lparr>sr_pending := m # sr_pending s\<rparr>)) (\<lambda>_. ret batch)
                       else collect_new c avail (batch @ [(rid, p)]) (cost + k)))))
          | _ \<Rightarrow> andthen (modify (\<lambda>s. s\<lparr>sr_pending := sr_pending s @ [m]\<rparr>)) (\<lambda>_. ret batch))
          (s\<lparr>sr_inbox := rest\<rparr>))"

definition collect_new_request_batch ::
    "('p, 'i, 'o, 'h) streaming_config \<Rightarrow> nat \<Rightarrow> string \<times> 'p \<Rightarrow> ('p, 'i, 'o, 'h, (string \<times> 'p) list) streaming_op" where
  "collect_new_request_batch c avail first =
     (if sc_batch_fn c = None \<or> sc_max_batch c \<le> 1 then ret [first]
      else andthen (lift (sc_is_streaming c (snd first))) (\<lambda>streaming.
        if streaming then ret [first]
        else andthen (lift (stream_cost c (snd first))) (\<lambda>k. collect_new c avail [first] k)))"

text \<open>The loop of \<open>_collect_stream_chunk_batch\<close>, which never waits.\<close>

fun collect_chunks ::
    "('p, 'i, 'o, 'h) streaming_config \<Rightarrow> nat \<Rightarrow> nat \<Rightarrow> (string \<times> 'i option) list \<Rightarrow>
     ('p, 'i, 'o, 'h, (string \<times> 'i option) list) streaming_op" where
  "collect_chunks c cap 0 batch s = ret batch s"
| "collect_chunks c cap (Suc avail) batch s =
     (if length batch \<ge> cap then ret batch s
      else case sr_inbox s of
        [] \<Rightarrow> ret batch s
      | m # rest \<Rightarrow> (case m of
            Stream_Chunk rid i \<Rightarrow> andthen (is_aborted c rid) (\<lambda>gone.
              if gone then collect_chunks c cap avail batch
              else if sc_chunk_distinct c \<and> rid \<in> fst ` set batch
              then andthen (modify (\<lambda>s. s\<lparr>sr_pending := m # sr_pending s\<rparr>)) (\<lambda>_. ret batch)
              else collect_chunks c cap avail (batch @ [(rid, i)]))
          | _ \<Rightarrow> andthen (modify (\<lambda>s. s\<lparr>sr_pending := m # sr_pending s\<rparr>)) (\<lambda>_. ret batch))
          (s\<lparr>sr_inbox := rest\<rparr>))"

definition collect_stream_chunk_batch ::
    "('p, 'i, 'o, 'h) streaming_config \<Rightarrow> nat \<Rightarrow> string \<times> 'i option \<Rightarrow>
     ('p, 'i, 'o, 'h, (string \<times> 'i option) list) streaming_op" where
  "collect_stream_chunk_batch c avail first =
     (let cap = (if sc_chunk_max c \<noteq> 0 then sc_chunk_max c else max (sc_max_batch c) 1) in
      if cap \<le> 1 then ret [first] else collect_chunks c cap avail [first])"

section \<open>Requests without a stream\<close>

text \<open>The members of a batch that are not aborted when they are looked at.\<close>

fun live_members ::
    "('p, 'i, 'o, 'h) streaming_config \<Rightarrow> (string \<times> 'x) list \<Rightarrow> ('p, 'i, 'o, 'h, (string \<times> 'x) list) streaming_op" where
  "live_members c [] = ret []"
| "live_members c ((rid, x) # xs) =
     andthen (is_aborted c rid) (\<lambda>gone. andthen (live_members c xs) (\<lambda>ys. ret (if gone then ys else (rid, x) # ys)))"

fun valid_members ::
    "('p, 'i, 'o, 'h) streaming_config \<Rightarrow> (string \<times> 'p) list \<Rightarrow> ('p, 'i, 'o, 'h, (string \<times> 'p) list) streaming_op" where
  "valid_members c [] = ret []"
| "valid_members c ((rid, p) # xs) = (case sc_validate c p of
     Inl e \<Rightarrow> andthen (put_out (Out_Error rid e)) (\<lambda>_. andthen (modify (record_completed c rid)) (\<lambda>_. valid_members c xs))
   | Inr u \<Rightarrow> andthen (valid_members c xs) (\<lambda>ys. ret ((rid, p) # ys)))"

definition run_compute :: "('p, 'i, 'o, 'h) streaming_config \<Rightarrow> 'p \<Rightarrow> 'o result" where
  "run_compute c p = (case sc_fn c of
     None \<Rightarrow> Inl (RuntimeError ''StreamingSimpleScheduler does not support non-streaming compute'') | Some f \<Rightarrow> f p)"

definition answer_unless_aborted ::
    "('p, 'i, 'o, 'h) streaming_config \<Rightarrow> string \<Rightarrow> 'o result \<Rightarrow> ('p, 'i, 'o, 'h, unit) streaming_op" where
  "answer_unless_aborted c rid r =
     andthen (is_aborted c rid) (\<lambda>gone.
     if gone then ret ()
     else andthen (put_out (case r of Inl e \<Rightarrow> Out_Error rid e | Inr x \<Rightarrow> Out_Result rid x)) (\<lambda>_.
          modify (record_completed c rid)))"

definition compute_one ::
    "('p, 'i, 'o, 'h) streaming_config \<Rightarrow> string \<times> 'p \<Rightarrow> ('p, 'i, 'o, 'h, unit) streaming_op" where
  "compute_one c m =
     andthen (is_aborted c (fst m)) (\<lambda>gone.
     if gone then ret () else answer_unless_aborted c (fst m) (run_compute c (snd m)))"

definition run_non_streaming_batch ::
    "('p, 'i, 'o, 'h) streaming_config \<Rightarrow> (string \<times> 'p) list \<Rightarrow> ('p, 'i, 'o, 'h, unit) streaming_op" where
  "run_non_streaming_batch c batch =
     andthen (live_members c batch) (\<lambda>active.
     if active = [] then ret ()
     else andthen (modify (\<lambda>s. s\<lparr>sr_done := sr_done s - fst ` set active\<rparr>)) (\<lambda>_.
          andthen (valid_members c active) (\<lambda>valid.
          if valid = [] then ret ()
          else case sc_batch_fn c of
            None \<Rightarrow> for_each (compute_one c) valid
          | Some f \<Rightarrow>
              (if length valid \<le> 1 then for_each (compute_one c) valid
               else case f (map snd valid) of
                 Inl e \<Rightarrow> for_each (\<lambda>m. answer_unless_aborted c (fst m) (Inl e)) valid
               | Inr results \<Rightarrow>
                   (if length results \<noteq> length valid
                    then for_each (\<lambda>m. answer_unless_aborted c (fst m) (Inl (ValueError (''batch_compute_fn returned '' @
                      decimal (int (length results)) @ '' results for '' @ decimal (int (length valid)) @ '' requests'')))) valid
                    else for_each (\<lambda>(m, r). answer_unless_aborted c (fst m) (Inr r)) (zip valid results))))))"

section \<open>Streams\<close>

definition put_unless_aborted ::
    "('p, 'i, 'o, 'h) streaming_config \<Rightarrow> string \<Rightarrow> 'o sched_output \<Rightarrow> ('p, 'i, 'o, 'h, unit) streaming_op" where
  "put_unless_aborted c rid m = andthen (is_aborted c rid) (\<lambda>gone. if gone then ret () else put_out m)"

definition handle_stream_done ::
    "('p, 'i, 'o, 'h) streaming_config \<Rightarrow> string \<Rightarrow> ('p, 'i, 'o, 'h, unit) streaming_op" where
  "handle_stream_done c rid = with_state (\<lambda>s.
     if sr_payloads s rid = None
     then (if rid \<in> sr_completed s then ret () else modify (\<lambda>s. s\<lparr>sr_done := insert rid (sr_done s)\<rparr>))
     else andthen (run_hook (sc_on_done c rid)) (\<lambda>outs.
          andthen (for_each (put_unless_aborted c rid) outs) (\<lambda>_.
          andthen (is_aborted c rid) (\<lambda>gone.
          if gone then ret () else modify (clear_stream_request c False rid)))))"

text \<open>Between the caller's look and the first line another thread may abort.\<close>

definition handle_streaming_new_request ::
    "('p, 'i, 'o, 'h) streaming_config \<Rightarrow> string \<Rightarrow> 'p \<Rightarrow> ('p, 'i, 'o, 'h, unit) streaming_op" where
  "handle_streaming_new_request c rid p =
     andthen (modify (others_abort c)) (\<lambda>_.
     andthen (modify (\<lambda>s. s\<lparr>sr_aborted := sr_aborted s - {rid}, sr_completed := sr_completed s - {rid},
       sr_payloads := (sr_payloads s)(rid \<mapsto> p)\<rparr>)) (\<lambda>_.
     andthen (run_hook (sc_on_new c rid p)) (\<lambda>_. with_state (\<lambda>s.
     if rid \<in> sr_done s
     then andthen (modify (\<lambda>s. s\<lparr>sr_done := sr_done s - {rid}\<rparr>)) (\<lambda>_. handle_stream_done c rid)
     else ret ()))))"

definition handle_stream_chunk ::
    "('p, 'i, 'o, 'h) streaming_config \<Rightarrow> string \<Rightarrow> 'i option \<Rightarrow> ('p, 'i, 'o, 'h, unit) streaming_op" where
  "handle_stream_chunk c rid item = (case item of
     None \<Rightarrow> raise (TypeError ''expected StreamItem'')
   | Some i \<Rightarrow> andthen (run_hook (sc_on_chunk c rid i)) (\<lambda>outs. for_each (put_unless_aborted c rid) outs))"

fun valid_items ::
    "('p, 'i, 'o, 'h) streaming_config \<Rightarrow> (string \<times> 'i option) list \<Rightarrow> ('p, 'i, 'o, 'h, (string \<times> 'i option) list) streaming_op" where
  "valid_items c [] = ret []"
| "valid_items c ((rid, item) # xs) =
     andthen (is_aborted c rid) (\<lambda>gone.
     if gone then valid_items c xs
     else case item of
       None \<Rightarrow> andthen (fail_stream_request c rid (TypeError ''expected StreamItem'')) (\<lambda>_. valid_items c xs)
     | Some i \<Rightarrow> andthen (valid_items c xs) (\<lambda>ys. ret ((rid, item) # ys)))"

definition chunk_of_batch ::
    "('p, 'i, 'o, 'h) streaming_config \<Rightarrow> string \<times> 'i option \<Rightarrow> ('p, 'i, 'o, 'h, unit) streaming_op" where
  "chunk_of_batch c m =
     andthen (is_aborted c (fst m)) (\<lambda>gone.
     if gone then ret () else catch (handle_stream_chunk c (fst m) (snd m)) (fail_stream_request c (fst m)))"

definition handle_stream_chunk_batch ::
    "('p, 'i, 'o, 'h) streaming_config \<Rightarrow> (string \<times> 'i option) list \<Rightarrow> ('p, 'i, 'o, 'h, unit) streaming_op" where
  "handle_stream_chunk_batch c batch =
     andthen (valid_items c batch) (\<lambda>items. andthen (live_members c items) (\<lambda>items. for_each (chunk_of_batch c) items))"

section \<open>The loop\<close>

fun split_streaming ::
    "('p, 'i, 'o, 'h) streaming_config \<Rightarrow> (string \<times> 'p) list \<Rightarrow>
     ('p, 'i, 'o, 'h, (string \<times> 'p) list \<times> (string \<times> 'p) list) streaming_op" where
  "split_streaming c [] = ret ([], [])"
| "split_streaming c ((rid, p) # xs) = (case sc_is_streaming c p of
     Inl e \<Rightarrow> andthen (fail_stream_request c rid e) (\<lambda>_. split_streaming c xs)
   | Inr b \<Rightarrow> andthen (split_streaming c xs) (\<lambda>(st, ns). ret (if b then ((rid, p) # st, ns) else (st, (rid, p) # ns))))"

definition handle_new_request_batch ::
    "('p, 'i, 'o, 'h) streaming_config \<Rightarrow> (string \<times> 'p) list \<Rightarrow> ('p, 'i, 'o, 'h, unit) streaming_op" where
  "handle_new_request_batch c batch =
     andthen (split_streaming c batch) (\<lambda>(streaming, non_streaming).
     andthen (for_each (\<lambda>m. andthen (is_aborted c (fst m)) (\<lambda>gone.
       if gone then ret () else handle_streaming_new_request c (fst m) (snd m))) streaming) (\<lambda>_.
     if non_streaming \<noteq> [] then run_non_streaming_batch c non_streaming else ret ()))"

definition handle_stream_message ::
    "('p, 'i, 'o, 'h) streaming_config \<Rightarrow> nat \<Rightarrow> ('p, 'i) stream_message \<Rightarrow> ('p, 'i, 'o, 'h, unit) streaming_op" where
  "handle_stream_message c avail m = (case m of
     New_Request rid p \<Rightarrow> andthen (collect_new_request_batch c avail (rid, p)) (handle_new_request_batch c)
   | Stream_Chunk rid i \<Rightarrow>
       (if sc_batch_chunks c then andthen (collect_stream_chunk_batch c avail (rid, i)) (handle_stream_chunk_batch c)
        else handle_stream_chunk c rid i)
   | Stream_Done rid \<Rightarrow> handle_stream_done c rid
   | Odd_Message rid ty \<Rightarrow> raise (ValueError (''Unsupported streaming scheduler message type: '' @ ty)))"

definition take_message ::
    "('p, 'i, 'o, 'h) streaming_config \<Rightarrow> nat \<Rightarrow> ('p, 'i) stream_message \<Rightarrow> ('p, 'i, 'o, 'h, unit) streaming_op" where
  "take_message c avail m =
     andthen (is_aborted c (message_id m)) (\<lambda>gone.
     if gone then ret () else catch (handle_stream_message c avail m) (fail_stream_request c (message_id m)))"

definition stream_round ::
    "('p, 'i, 'o, 'h) streaming_config \<Rightarrow> nat \<Rightarrow> ('p, 'i, 'o, 'h) streaming \<Rightarrow> ('p, 'i, 'o, 'h) streaming" where
  "stream_round c avail s = (case sr_pending s of
     m # rest \<Rightarrow> snd (take_message c avail m (s\<lparr>sr_pending := rest\<rparr>))
   | [] \<Rightarrow> (case sr_inbox s of
       m # rest \<Rightarrow> snd (take_message c avail m (s\<lparr>sr_inbox := rest\<rparr>)) | [] \<Rightarrow> s))"

abbreviation stream_rounds ::
    "('p, 'i, 'o, 'h) streaming_config \<Rightarrow> nat list \<Rightarrow> ('p, 'i, 'o, 'h) streaming \<Rightarrow> ('p, 'i, 'o, 'h) streaming" where
  "stream_rounds c \<equiv> fold (stream_round c)"

section \<open>One message at a time\<close>

text \<open>
  The reference: every message is handled alone, as it comes, and nothing is collected.
\<close>

definition handle_alone ::
    "('p, 'i, 'o, 'h) streaming_config \<Rightarrow> ('p, 'i) stream_message \<Rightarrow> ('p, 'i, 'o, 'h, unit) streaming_op" where
  "handle_alone c m =
     andthen (is_aborted c (message_id m)) (\<lambda>gone.
     if gone then ret ()
     else case m of
       New_Request rid p \<Rightarrow>
         (if sc_is_streaming c p = Inr True then catch (handle_streaming_new_request c rid p) (fail_stream_request c rid)
          else andthen (modify (\<lambda>s. s\<lparr>sr_done := sr_done s - {rid}\<rparr>)) (\<lambda>_. answer_unless_aborted c rid (run_compute c p)))
     | Stream_Chunk rid i \<Rightarrow> catch (handle_stream_chunk c rid i) (fail_stream_request c rid)
     | Stream_Done rid \<Rightarrow> catch (handle_stream_done c rid) (fail_stream_request c rid)
     | Odd_Message rid ty \<Rightarrow> fail_stream_request c rid (ValueError (''Unsupported streaming scheduler message type: '' @ ty)))"

definition alone ::
    "('p, 'i, 'o, 'h) streaming_config \<Rightarrow> ('p, 'i) stream_message \<Rightarrow> ('p, 'i, 'o, 'h) streaming \<Rightarrow> ('p, 'i, 'o, 'h) streaming" where
  "alone c m s = snd (handle_alone c m s)"

section \<open>What does not look at the queues\<close>

definition with_queues ::
    "('p, 'i) stream_message list \<Rightarrow> ('p, 'i) stream_message list \<Rightarrow> ('p, 'i, 'o, 'h) streaming \<Rightarrow> ('p, 'i, 'o, 'h) streaming" where
  "with_queues i p s = s\<lparr>sr_inbox := i, sr_pending := p\<rparr>"

definition blind :: "('p, 'i, 'o, 'h, 'a) streaming_op \<Rightarrow> bool" where
  "blind m \<longleftrightarrow> (\<forall>i p s. m (with_queues i p s) = (fst (m s), with_queues i p (snd (m s))))"

named_theorems blind_intros \<open>structural rules for \<^const>\<open>blind\<close>\<close>

lemma with_queues_simps [simp]:
  "sr_inbox (with_queues i p s) = i" "sr_pending (with_queues i p s) = p" "sr_done (with_queues i p s) = sr_done s"
  "sr_payloads (with_queues i p s) = sr_payloads s" "sr_aborted (with_queues i p s) = sr_aborted s"
  "sr_completed (with_queues i p s) = sr_completed s" "sr_hooks (with_queues i p s) = sr_hooks s"
  "sr_outbox (with_queues i p s) = sr_outbox s" "sr_cleanups (with_queues i p s) = sr_cleanups s"
  "sr_script (with_queues i p s) = sr_script s" "with_queues i p (with_queues i' p' s) = with_queues i p s"
  by (simp_all add: with_queues_def)

lemma with_queues_update [simp]:
  "with_queues i p s\<lparr>sr_done := d\<rparr> = with_queues i p (s\<lparr>sr_done := d\<rparr>)"
  "with_queues i p s\<lparr>sr_payloads := m\<rparr> = with_queues i p (s\<lparr>sr_payloads := m\<rparr>)"
  "with_queues i p s\<lparr>sr_aborted := d\<rparr> = with_queues i p (s\<lparr>sr_aborted := d\<rparr>)"
  "with_queues i p s\<lparr>sr_completed := d\<rparr> = with_queues i p (s\<lparr>sr_completed := d\<rparr>)"
  "with_queues i p s\<lparr>sr_hooks := h\<rparr> = with_queues i p (s\<lparr>sr_hooks := h\<rparr>)"
  "with_queues i p s\<lparr>sr_outbox := out\<rparr> = with_queues i p (s\<lparr>sr_outbox := out\<rparr>)"
  "with_queues i p s\<lparr>sr_cleanups := cs\<rparr> = with_queues i p (s\<lparr>sr_cleanups := cs\<rparr>)"
  "with_queues i p s\<lparr>sr_script := rs\<rparr> = with_queues i p (s\<lparr>sr_script := rs\<rparr>)"
  by (simp_all add: with_queues_def)

lemma blindD: "blind m \<Longrightarrow> m (with_queues i p s) = (fst (m s), with_queues i p (snd (m s)))"
  by (simp add: blind_def)

lemma blind_prim [blind_intros]:
  "blind (ret x)" "blind (raise e)" "blind (lift r)"
  "(\<And>i p s. f (with_queues i p s) = with_queues i p (f s)) \<Longrightarrow> blind (modify f)"
  by (simp_all add: blind_def)

lemma blind_andthen [blind_intros]:
  assumes "blind m" and "\<And>x. blind (f x)"
  shows "blind (andthen m f)"
  unfolding blind_def
proof (intro allI)
  fix i p s
  show "andthen m f (with_queues i p s) = (fst (andthen m f s), with_queues i p (snd (andthen m f s)))"
    using blindD [OF assms(1), of i p s] blindD [OF assms(2)]
    by (cases "m s"; cases "fst (m s)") (simp_all add: andthen_def)
qed

lemma blind_catch [blind_intros]:
  assumes "blind m" and "\<And>x. blind (f x)"
  shows "blind (catch m f)"
  unfolding blind_def
proof (intro allI)
  fix i p s
  show "catch m f (with_queues i p s) = (fst (catch m f s), with_queues i p (snd (catch m f s)))"
    using blindD [OF assms(1), of i p s] blindD [OF assms(2)]
    by (cases "m s"; cases "fst (m s)") (simp_all add: catch_def)
qed

lemma blind_for_each [blind_intros]: "(\<And>x. blind (f x)) \<Longrightarrow> blind (for_each f xs)"
  by (induction xs) (auto intro: blind_intros)

lemma blind_if [blind_intros]: "(b \<Longrightarrow> blind m) \<Longrightarrow> (\<not> b \<Longrightarrow> blind m') \<Longrightarrow> blind (if b then m else m')"
  by simp

lemma blind_run_hook [blind_intros]: "blind (run_hook h)"
  by (auto simp: blind_def run_hook_def split: prod.split)

lemma abort_stream_queues [simp]: "abort_stream c rid (with_queues i p s) = with_queues i p (abort_stream c rid s)"
  by (simp add: abort_stream_def clear_stream_request_def record_aborted_id_def Let_def)

lemma abort_streams_queues: "fold (abort_stream c) rs (with_queues i p s) = with_queues i p (fold (abort_stream c) rs s)"
  by (induction rs arbitrary: s) simp_all

lemma others_abort_queues [simp]: "others_abort c (with_queues i p s) = with_queues i p (others_abort c s)"
  by (cases "sr_script s") (simp_all add: others_abort_def abort_streams_queues)

lemma blind_is_aborted [blind_intros]: "blind (is_aborted c rid)"
  by (simp add: blind_def is_aborted_def Let_def)

lemma blind_steps [blind_intros]:
  "blind (put_out x)" "blind (fail_stream_request c rid e)" "blind (answer_unless_aborted c rid r)" "blind (put_unless_aborted c rid x)"
  unfolding put_out_def fail_stream_request_def answer_unless_aborted_def put_unless_aborted_def
  by (auto intro!: blind_intros simp: record_completed_def)

lemma blind_with_state [blind_intros]:
  "(\<And>s. blind (f s)) \<Longrightarrow> (\<And>i p s. f (with_queues i p s) = f s) \<Longrightarrow> blind (with_state f)"
  by (simp add: blind_def)

lemma blind_done [blind_intros]: "blind (handle_stream_done c rid)"
  unfolding handle_stream_done_def by (auto intro!: blind_intros simp: clear_stream_request_def)

lemma blind_new [blind_intros]: "blind (handle_streaming_new_request c rid p)"
  unfolding handle_streaming_new_request_def by (auto intro!: blind_intros)

lemma blind_chunk [blind_intros]: "blind (handle_stream_chunk c rid i)"
  unfolding handle_stream_chunk_def by (cases i) (auto intro: blind_intros)

lemma blind_alone: "blind (handle_alone c m)"
  unfolding handle_alone_def
  by (cases m) (auto intro!: blind_intros)

lemma alone_queues: "alone c m (with_queues i p s) = with_queues i p (alone c m s)"
  by (simp add: alone_def blindD [OF blind_alone])

lemma alones_queues: "fold (alone c) ms (with_queues i p s) = with_queues i p (fold (alone c) ms s)"
  by (induction ms arbitrary: s) (simp_all add: alone_queues)

section \<open>What happens to the aborted requests\<close>

text \<open>No thread interferes, the ids of \<open>A\<close> are aborted, and at most \<open>n\<close> ids are.\<close>

definition tame :: "string set \<Rightarrow> nat \<Rightarrow> ('p, 'i, 'o, 'h) streaming \<Rightarrow> bool" where
  "tame A n s \<longleftrightarrow> sr_script s = [] \<and> finite (sr_aborted s) \<and> A \<subseteq> sr_aborted s \<and> card (sr_aborted s) \<le> n"

lemma calm_look [simp]: "sr_script s = [] \<Longrightarrow> is_aborted c rid s = (Inr (rid \<in> sr_aborted s), s)"
  by (simp add: is_aborted_def others_abort_def)

lemma tame_look [keeps_intros]: "keeps (tame A n) (is_aborted c rid)"
  by (auto simp: keeps_def tame_def)

lemma tame_hook [keeps_intros]: "keeps (tame A n) (run_hook h)"
  by (auto simp: keeps_def tame_def run_hook_def split: prod.split)

lemma tame_remove: "finite S \<Longrightarrow> card S \<le> n \<Longrightarrow> card (S - {x}) \<le> n"
  using card_mono [of S "S - {x}"] by (simp add: subset_iff)

lemma tame_steps [keeps_intros]:
  "keeps (tame A n) (put_out x)" "keeps (tame A n) (answer_unless_aborted c rid r)" "keeps (tame A n) (put_unless_aborted c rid x)"
  unfolding put_out_def answer_unless_aborted_def put_unless_aborted_def
  by (auto intro!: keeps_intros simp: tame_def record_completed_def)

lemma tame_chunk [keeps_intros]: "keeps (tame A n) (handle_stream_chunk c rid i)"
  unfolding handle_stream_chunk_def by (cases i) (auto intro!: keeps_intros)

lemma tame_done [keeps_intros]: "rid \<notin> A \<Longrightarrow> keeps (tame A n) (handle_stream_done c rid)"
  unfolding handle_stream_done_def
  by (auto intro!: keeps_intros simp: tame_def clear_stream_request_def tame_remove)

lemma tame_new [keeps_intros]: "rid \<notin> A \<Longrightarrow> keeps (tame A n) (handle_streaming_new_request c rid p)"
  unfolding handle_streaming_new_request_def
  by (auto intro!: keeps_intros simp: tame_def tame_remove others_abort_def)

lemma tame_fail:
  assumes "tame A n s" and "n < 10000"
  shows "tame A (Suc n) (snd (fail_stream_request c rid e s))"
proof -
  have "card (insert rid (sr_aborted s)) \<le> Suc n"
    using assms(1) by (simp add: tame_def card_insert_if)
  moreover then have "cap_set (sc_order c) 10000 5000 (insert rid (sr_aborted s)) = insert rid (sr_aborted s)"
    using assms(2) by (simp add: cap_set_def)
  ultimately show ?thesis
    using assms(1)
    by (auto simp: tame_def fail_stream_request_def put_out_def abort_stream_def clear_stream_request_def record_aborted_id_def)
qed

lemma tame_mono: "tame A n s \<Longrightarrow> tame A (Suc n) s"
  by (simp add: tame_def)

lemma tame_catch:
  assumes "keeps (tame A n) m" and "tame A n s" and "n < 10000"
  shows "tame A (Suc n) (snd (catch m (fail_stream_request c rid) s))"
  using keepsD [OF assms(1,2)] tame_fail [OF _ assms(3)] tame_mono
  by (cases "m s"; cases "fst (m s)") (auto simp: catch_def)

lemma tame_alone:
  assumes "tame A n s" and "n < 10000"
  shows "tame A (Suc n) (alone c m s)"
proof (cases "message_id m \<in> sr_aborted s")
  case True
  then show ?thesis
    using assms tame_mono by (simp add: alone_def handle_alone_def tame_def)
next
  case False
  have c: "is_aborted c (message_id m) s = (Inr False, s)"
    using assms(1) False by (simp add: tame_def)
  have n: "message_id m \<notin> A"
    using assms(1) False by (auto simp: tame_def)
  show ?thesis
  proof (cases m)
    case (New_Request rid p)
    show ?thesis
    proof (cases "sc_is_streaming c p = Inr True")
      case True
      have "keeps (tame A n) (handle_streaming_new_request c rid p)"
        using n New_Request by (intro keeps_intros) simp
      moreover have "alone c m s = snd (catch (handle_streaming_new_request c rid p) (fail_stream_request c rid) s)"
        using c New_Request True by (simp add: alone_def handle_alone_def andthen_def)
      ultimately show ?thesis
        using tame_catch [OF _ assms] by simp
    next
      case False
      have "keeps (tame A n) (answer_unless_aborted c rid (run_compute c p))"
        by (intro keeps_intros)
      moreover have "tame A n (s\<lparr>sr_done := sr_done s - {rid}\<rparr>)"
        using assms(1) by (simp add: tame_def)
      ultimately have "tame A n (snd (answer_unless_aborted c rid (run_compute c p) (s\<lparr>sr_done := sr_done s - {rid}\<rparr>)))"
        by (rule keepsD)
      moreover have "alone c m s = snd (answer_unless_aborted c rid (run_compute c p) (s\<lparr>sr_done := sr_done s - {rid}\<rparr>))"
        using c New_Request False by (simp add: alone_def handle_alone_def andthen_def)
      ultimately show ?thesis
        using tame_mono by simp
    qed
  next
    case (Stream_Chunk rid i)
    then show ?thesis
      using c tame_catch [OF tame_chunk assms] by (simp add: alone_def handle_alone_def andthen_def)
  next
    case (Stream_Done rid)
    then show ?thesis
      using c n tame_catch [OF tame_done assms] by (simp add: alone_def handle_alone_def andthen_def)
  next
    case (Odd_Message rid ty)
    then show ?thesis
      using c tame_fail [OF assms] by (simp add: alone_def handle_alone_def andthen_def)
  qed
qed

text \<open>A message of an aborted request is passed over.\<close>

lemma alone_gone: "sr_script s = [] \<Longrightarrow> message_id m \<in> sr_aborted s \<Longrightarrow> alone c m s = s"
  by (simp add: alone_def handle_alone_def)

lemma alones_skip:
  assumes "tame A n s" and "n + length ms \<le> 10000"
  shows "fold (alone c) ms s = fold (alone c) (filter (\<lambda>m. message_id m \<notin> A) ms) s"
  using assms
proof (induction ms arbitrary: n s)
  case (Cons m ms)
  show ?case
  proof (cases "message_id m \<in> A")
    case True
    then have "alone c m s = s"
      using Cons.prems(1) by (intro alone_gone) (auto simp: tame_def)
    then show ?thesis
      using True Cons.IH [OF Cons.prems(1)] Cons.prems(2) by simp
  next
    case False
    then show ?thesis
      using Cons.IH [OF tame_alone [OF Cons.prems(1)]] Cons.prems(2) by simp
  qed
qed simp

lemma tame_alones:
  assumes "tame A n s" and "n + length ms \<le> 10000"
  shows "tame A (n + length ms) (fold (alone c) ms s)"
  using assms
proof (induction ms arbitrary: n s)
  case (Cons m ms)
  have "tame A (Suc n + length ms) (fold (alone c) ms (alone c m s))"
    using Cons.prems by (intro Cons.IH tame_alone) simp_all
  then show ?case by simp
qed simp

section \<open>What a collection takes\<close>

text \<open>
  A stage is honest if its tests, validation and costs do not raise and its batch function, if it has one,
  is its single function on every member.
\<close>

definition honest_stage :: "('p, 'i, 'o, 'h) streaming_config \<Rightarrow> bool" where
  "honest_stage c \<longleftrightarrow> (\<forall>p. is_ok (sc_is_streaming c p)) \<and> (\<forall>p. sc_validate c p = Inr ()) \<and>
     (\<forall>f p. sc_cost_fn c = Some f \<longrightarrow> is_ok (f p)) \<and>
     (\<forall>f. sc_batch_fn c = Some f \<longrightarrow> (\<exists>g. sc_fn c = Some (\<lambda>p. Inr (g p)) \<and> f = (\<lambda>ps. Inr (map g ps))))"

lemma honest_cost: "honest_stage c \<Longrightarrow> \<exists>k. stream_cost c p = Inr k"
  by (auto simp: honest_stage_def stream_cost_def is_ok_iff bindE_eq_Inr split: option.split)

lemma honest_streaming: "honest_stage c \<Longrightarrow> \<exists>b. sc_is_streaming c p = Inr b"
  by (auto simp: honest_stage_def is_ok_iff)

text \<open>
  \<open>takes c s xs i p f\<close>: of the inbox, a first part was taken, of which the members of requests not aborted
  are \<open>xs\<close>; the rest is in the queues, at most one message of it pending.
\<close>

definition takes ::
    "('p, 'i, 'o, 'h) streaming \<Rightarrow> ('p, 'i) stream_message list \<Rightarrow> ('p, 'i) stream_message list \<Rightarrow> ('p, 'i) stream_message list \<Rightarrow> bool" where
  "takes s xs i p \<longleftrightarrow> length p \<le> 1 \<and>
     (\<exists>pre. sr_inbox s = pre @ p @ i \<and> xs = filter (\<lambda>m. message_id m \<notin> sr_aborted s) pre)"

lemma takes_none: "length (sr_pending s) \<le> 1 \<Longrightarrow> sr_pending s = [] \<Longrightarrow> takes s [] (sr_inbox s) (sr_pending s)"
  by (simp add: takes_def)

lemma takes_more:
  assumes "takes (with_queues rest [] s) xs i p" and "sr_inbox s = m # rest"
  shows "takes s (if message_id m \<in> sr_aborted s then xs else m # xs) i p"
  using assms by (auto simp: takes_def intro: exI [of _ "m # pre" for pre])

lemma takes_live: "takes s xs i p \<Longrightarrow> x \<in> set xs \<Longrightarrow> message_id x \<notin> sr_aborted s \<and> x \<in> set (sr_inbox s)"
  by (auto simp: takes_def)

lemma takes_back: "sr_inbox s = m # rest \<Longrightarrow> takes s [] rest [m]"
  by (auto simp: takes_def)

abbreviation new_of :: "string \<times> 'p \<Rightarrow> ('p, 'i) stream_message" where
  "new_of m \<equiv> New_Request (fst m) (snd m)"

lemma pending_queues [simp]: "with_queues i p s\<lparr>sr_pending := q\<rparr> = with_queues i q s"
  by (simp add: with_queues_def)

lemma inbox_queues: "sr_pending s = [] \<Longrightarrow> s\<lparr>sr_inbox := rest\<rparr> = with_queues rest [] s"
  by (cases s) (simp add: with_queues_def)

lemma collect_new_takes:
  fixes s :: "('p, 'i, 'o, 'h) streaming"
  assumes "honest_stage c" and "sr_script s = []" and "sr_pending s = []"
  shows "\<exists>b i p. collect_new c avail batch cost s = (Inr (batch @ b), with_queues i p s) \<and>
    takes s (map new_of b) i p \<and> (\<forall>m \<in> set b. sc_is_streaming c (snd m) = Inr False)"
  using assms(2,3)
proof (induction avail arbitrary: batch cost s)
  case 0
  then show ?case
    by (intro exI [of _ "[]"] exI [of _ "sr_inbox s"]) (auto simp: takes_def with_queues_def)
next
  case (Suc avail)
  show ?case
  proof (cases "length batch \<ge> sc_max_batch c \<or> sr_inbox s = []")
    case True
    then show ?thesis
      using Suc.prems by (intro exI [of _ "[]"] exI [of _ "sr_inbox s"] exI [of _ "[]"]) (auto simp: takes_def with_queues_def)
  next
    case False
    then obtain m rest where i: "sr_inbox s = m # rest" and short: "\<not> sc_max_batch c \<le> length batch"
      by (cases "sr_inbox s") auto
    let ?s = "with_queues rest [] s"
    have go: "collect_new c (Suc avail) batch cost s = (
       if message_id m \<in> sr_aborted s then collect_new c avail batch cost ?s
       else (case m of
            New_Request rid p \<Rightarrow> (case sc_is_streaming c p of
                Inl e \<Rightarrow> andthen (fail_stream_request c rid e) (\<lambda>_. collect_new c avail batch cost)
              | Inr True \<Rightarrow> andthen (modify (\<lambda>s. s\<lparr>sr_pending := sr_pending s @ [m]\<rparr>)) (\<lambda>_. ret batch)
              | Inr False \<Rightarrow> (case sc_max_cost c of
                  None \<Rightarrow> collect_new c avail (batch @ [(rid, p)]) cost
                | Some limit \<Rightarrow> (case stream_cost c p of
                    Inl e \<Rightarrow> andthen (fail_stream_request c rid e) (\<lambda>_. collect_new c avail batch cost)
                  | Inr k \<Rightarrow>
                      (if cost + k > limit then andthen (modify (\<lambda>s. s\<lparr>sr_pending := m # sr_pending s\<rparr>)) (\<lambda>_. ret batch)
                       else collect_new c avail (batch @ [(rid, p)]) (cost + k)))))
          | _ \<Rightarrow> andthen (modify (\<lambda>s. s\<lparr>sr_pending := sr_pending s @ [m]\<rparr>)) (\<lambda>_. ret batch)) ?s)"
      using i short Suc.prems(1) by (simp flip: inbox_queues [OF Suc.prems(2), of rest])
    have more: "\<exists>b i p. collect_new c avail batch' cost' ?s = (Inr (batch' @ b), with_queues i p s) \<and>
      takes ?s (map new_of b) i p \<and> (\<forall>m \<in> set b. sc_is_streaming c (snd m) = Inr False)" for batch' cost'
      using Suc.IH [of ?s batch' cost'] Suc.prems(1) by simp
    have stop: "\<exists>b i p. (Inr batch, with_queues rest [m] s) = (Inr (batch @ b) :: (string \<times> 'p) list result, with_queues i p s) \<and>
      takes s (map new_of b) i p \<and> (\<forall>m \<in> set b. sc_is_streaming c (snd m) = Inr False)"
      using takes_back [OF i] by (intro exI [of _ "[]"] exI [of _ rest] exI [of _ "[m]"]) simp
    show ?thesis
    proof (cases "message_id m \<in> sr_aborted s")
      case True
      then show ?thesis
        using more [of batch cost] takes_more [OF _ i] unfolding go by fastforce
    next
      case gone: False
      show ?thesis
      proof (cases m)
        case (New_Request rid p)
        obtain b where b: "sc_is_streaming c p = Inr b"
          using honest_streaming [OF assms(1)] by blast
        obtain k where k: "stream_cost c p = Inr k"
          using honest_cost [OF assms(1)] by blast
        have add: "\<exists>b' i p'. collect_new c avail (batch @ [(rid, p)]) cost' ?s = (Inr (batch @ b'), with_queues i p' s) \<and>
          takes s (map new_of b') i p' \<and> (\<forall>m \<in> set b'. sc_is_streaming c (snd m) = Inr False)"
          if "\<not> b" for cost'
        proof -
          obtain b' i' p' where "collect_new c avail (batch @ [(rid, p)]) cost' ?s = (Inr ((batch @ [(rid, p)]) @ b'), with_queues i' p' s)"
            "takes ?s (map new_of b') i' p'" "\<forall>m \<in> set b'. sc_is_streaming c (snd m) = Inr False"
            using more [of "batch @ [(rid, p)]" cost'] by blast
          then show ?thesis
            using takes_more [OF _ i, of "map new_of b'" i' p'] gone New_Request b that
            by (intro exI [of _ "(rid, p) # b'"] exI [of _ i'] exI [of _ p']) auto
        qed
        show ?thesis
          using gone b k add stop unfolding go
          by (cases b; cases "sc_max_cost c") (simp_all add: New_Request)
      qed (use gone stop go in simp_all)
    qed
  qed
qed

abbreviation chunk_of :: "string \<times> 'i option \<Rightarrow> ('p, 'i) stream_message" where
  "chunk_of m \<equiv> Stream_Chunk (fst m) (snd m)"

lemma collect_chunks_takes:
  fixes s :: "('p, 'i, 'o, 'h) streaming"
  assumes "sr_script s = []" and "sr_pending s = []"
  shows "\<exists>b i p. collect_chunks c cap avail batch s = (Inr (batch @ b), with_queues i p s) \<and> takes s (map chunk_of b) i p"
  using assms
proof (induction avail arbitrary: batch s)
  case 0
  then show ?case
    by (intro exI [of _ "[]"] exI [of _ "sr_inbox s"]) (auto simp: takes_def with_queues_def)
next
  case (Suc avail)
  show ?case
  proof (cases "length batch \<ge> cap \<or> sr_inbox s = []")
    case True
    then show ?thesis
      using Suc.prems by (intro exI [of _ "[]"] exI [of _ "sr_inbox s"] exI [of _ "[]"]) (auto simp: takes_def with_queues_def)
  next
    case False
    then obtain m rest where i: "sr_inbox s = m # rest" and short: "\<not> cap \<le> length batch"
      by (cases "sr_inbox s") auto
    let ?s = "with_queues rest [] s"
    have more: "\<exists>b i p. collect_chunks c cap avail batch' ?s = (Inr (batch' @ b), with_queues i p s) \<and>
      takes ?s (map chunk_of b) i p" for batch'
      using Suc.IH [of ?s batch'] Suc.prems(1) by simp
    have stop: "\<exists>b i p. (Inr batch, with_queues rest [m] s) = (Inr (batch @ b) :: (string \<times> 'i option) list result, with_queues i p s) \<and>
      takes s (map chunk_of b) i p"
      using takes_back [OF i] by (intro exI [of _ "[]"] exI [of _ rest] exI [of _ "[m]"]) simp
    show ?thesis
    proof (cases m)
      case (Stream_Chunk rid item)
      have go: "collect_chunks c cap (Suc avail) batch s = (
        if rid \<in> sr_aborted s then collect_chunks c cap avail batch ?s
        else if sc_chunk_distinct c \<and> rid \<in> fst ` set batch then (Inr batch, with_queues rest [m] s)
        else collect_chunks c cap avail (batch @ [(rid, item)]) ?s)"
        using i short Suc.prems by (simp add: Stream_Chunk inbox_queues)
      show ?thesis
      proof (cases "rid \<in> sr_aborted s")
        case True
        then show ?thesis
          using more [of batch] takes_more [OF _ i] Stream_Chunk unfolding go by fastforce
      next
        case False
        obtain b' i' p' where b: "collect_chunks c cap avail (batch @ [(rid, item)]) ?s = (Inr ((batch @ [(rid, item)]) @ b'), with_queues i' p' s)"
          "takes ?s (map chunk_of b') i' p'"
          using more [of "batch @ [(rid, item)]"] by blast
        then have "takes s (map chunk_of ((rid, item) # b')) i' p'"
          using takes_more [OF b(2) i] False Stream_Chunk by simp
        then show ?thesis
          using b(1) stop False unfolding go
          by (cases "sc_chunk_distinct c \<and> rid \<in> fst ` set batch") (auto intro!: exI [of _ "(rid, item) # b'"])
      qed
    qed (use i short Suc.prems stop in \<open>simp_all add: inbox_queues\<close>)
  qed
qed

section \<open>A batch is its members one by one\<close>

definition answered ::
    "('p, 'i, 'o, 'h) streaming_config \<Rightarrow> string \<times> 'p \<Rightarrow> ('p, 'i, 'o, 'h) streaming \<Rightarrow> ('p, 'i, 'o, 'h) streaming" where
  "answered c m s = snd (answer_unless_aborted c (fst m) (run_compute c (snd m)) s)"

lemma answer_calm:
  assumes "sr_script s = []" and "rid \<notin> sr_aborted s"
  shows "answer_unless_aborted c rid r s = (Inr (), record_completed c rid
    (s\<lparr>sr_outbox := sr_outbox s @ [case r of Inl e \<Rightarrow> Out_Error rid e | Inr x \<Rightarrow> Out_Result rid x]\<rparr>))"
  using assms by (simp add: answer_unless_aborted_def put_out_def)

lemma answered_frame:
  assumes "sr_script s = []" and "fst m \<notin> sr_aborted s"
  shows "sr_script (answered c m s) = []" and "sr_aborted (answered c m s) = sr_aborted s"
    and "sr_done (answered c m s) = sr_done s" and "answered c m (s\<lparr>sr_done := d\<rparr>) = (answered c m s)\<lparr>sr_done := d\<rparr>"
  using assms by (simp_all add: answered_def answer_calm record_completed_def)

lemma alone_new:
  assumes "sr_script s = []" and "fst m \<notin> sr_aborted s" and "sc_is_streaming c (snd m) = Inr False"
  shows "alone c (new_of m) s = answered c m (s\<lparr>sr_done := sr_done s - {fst m}\<rparr>)"
  using assms by (simp add: alone_def handle_alone_def answered_def)

lemma answered_all:
  fixes s :: "('p, 'i, 'o, 'h) streaming"
  assumes "sr_script s = []" and "\<forall>m \<in> set batch. fst m \<notin> sr_aborted s \<and> sc_is_streaming c (snd m) = Inr False"
  shows "fold (answered c) batch (s\<lparr>sr_done := sr_done s - fst ` set batch\<rparr>) = fold (alone c) (map new_of batch) s"
  using assms
proof (induction batch arbitrary: s)
  case (Cons m batch)
  let ?t = "alone c (new_of m) s"
  have m: "fst m \<notin> sr_aborted s" "sc_is_streaming c (snd m) = Inr False"
    using Cons.prems(2) by auto
  have e: "answered c m (s\<lparr>sr_done := d\<rparr>) = (answered c m s)\<lparr>sr_done := d\<rparr>" for d
    by (rule answered_frame(4) [OF Cons.prems(1) m(1)])
  have t: "?t = (answered c m s)\<lparr>sr_done := sr_done s - {fst m}\<rparr>"
    unfolding e [symmetric] by (rule alone_new [OF Cons.prems(1) m])
  have f: "sr_script ?t = []" "sr_aborted ?t = sr_aborted s" "sr_done ?t = sr_done s - {fst m}"
    using answered_frame(1,2) [OF Cons.prems(1) m(1)] by (simp_all add: t)
  have d: "sr_done s - fst ` set (m # batch) = sr_done ?t - fst ` set batch"
    unfolding f(3) by auto
  have over: "(answered c m s)\<lparr>sr_done := d\<rparr> = ?t\<lparr>sr_done := d\<rparr>" for d
    unfolding t by simp
  have "fold (answered c) batch (?t\<lparr>sr_done := sr_done ?t - fst ` set batch\<rparr>) = fold (alone c) (map new_of batch) ?t"
    using Cons.prems(2) f(2) by (intro Cons.IH f(1)) simp
  then show ?case
    by (simp only: fold_Cons o_apply list.map d e over)
qed simp

lemma answer_each:
  assumes "sr_script s = []" and "\<forall>m \<in> set batch. fst m \<notin> sr_aborted s"
  shows "for_each (\<lambda>m. answer_unless_aborted c (fst m) (run_compute c (snd m))) batch s = (Inr (), fold (answered c) batch s)"
  using assms
proof (induction batch arbitrary: s)
  case (Cons m batch)
  have m: "fst m \<notin> sr_aborted s"
    using Cons.prems(2) by simp
  have a: "answer_unless_aborted c (fst m) (run_compute c (snd m)) s = (Inr (), answered c m s)"
    using answer_calm [OF Cons.prems(1) m] by (simp add: answered_def)
  show ?case
    using a Cons.IH [of "answered c m s"] answered_frame(1,2) [OF Cons.prems(1) m] Cons.prems(2) by simp
qed simp

lemma compute_each:
  assumes "sr_script s = []" and "\<forall>m \<in> set batch. fst m \<notin> sr_aborted s"
  shows "for_each (compute_one c) batch s = (Inr (), fold (answered c) batch s)"
  using assms
proof (induction batch arbitrary: s)
  case (Cons m batch)
  have m: "fst m \<notin> sr_aborted s"
    using Cons.prems(2) by simp
  have a: "compute_one c m s = (Inr (), answered c m s)"
    using answer_calm [OF Cons.prems(1) m] Cons.prems(1) m by (simp add: answered_def compute_one_def)
  show ?case
    using a Cons.IH [of "answered c m s"] answered_frame(1,2) [OF Cons.prems(1) m] Cons.prems(2) by simp
qed simp

lemma live_calm:
  "sr_script s = [] \<Longrightarrow> \<forall>m \<in> set batch. fst m \<notin> sr_aborted s \<Longrightarrow> live_members c batch s = (Inr batch, s)"
  by (induction batch) auto

lemma valid_calm: "honest_stage c \<Longrightarrow> valid_members c batch s = (Inr batch, s)"
  by (induction batch) (auto simp: honest_stage_def)

lemma split_calm:
  "\<forall>m \<in> set batch. sc_is_streaming c (snd m) = Inr False \<Longrightarrow> split_streaming c batch s = (Inr ([], batch), s)"
  by (induction batch) auto

lemma new_batch_alone:
  assumes "honest_stage c" and "sr_script s = []" and "batch \<noteq> []"
    and "\<forall>m \<in> set batch. fst m \<notin> sr_aborted s \<and> sc_is_streaming c (snd m) = Inr False"
  shows "handle_new_request_batch c batch s = (Inr (), fold (alone c) (map new_of batch) s)"
proof -
  let ?s = "s\<lparr>sr_done := sr_done s - fst ` set batch\<rparr>"
  have live: "sr_script ?s = []" "\<forall>m \<in> set batch. fst m \<notin> sr_aborted ?s"
    using assms(2,4) by auto
  note each = answer_each [OF live] compute_each [OF live]
  have "run_non_streaming_batch c batch s = (Inr (), fold (answered c) batch ?s)"
  proof (cases "sc_batch_fn c")
    case None
    then show ?thesis
      using assms each by (simp add: run_non_streaming_batch_def live_calm valid_calm)
  next
    case (Some f)
    then obtain g where g: "sc_fn c = Some (\<lambda>p. Inr (g p))" "f = (\<lambda>ps. Inr (map g ps))"
      using assms(1) by (auto simp: honest_stage_def)
    have z: "for_each (\<lambda>(m, r). answer_unless_aborted c (fst m) (Inr r)) (zip xs (map g (map snd xs))) =
        for_each (\<lambda>m. answer_unless_aborted c (fst m) (run_compute c (snd m))) xs" for xs
      by (induction xs) (simp_all add: run_compute_def g(1))
    show ?thesis
      using assms each Some by (simp add: run_non_streaming_batch_def live_calm valid_calm g(2) z [simplified])
  qed
  then show ?thesis
    using assms answered_all [OF assms(2,4)] by (simp add: handle_new_request_batch_def split_calm)
qed

lemma fail_stream_request_ends [simp]: "fst (fail_stream_request c rid e s) = Inr ()"
  by (simp add: fail_stream_request_def put_out_def)

lemma catch_fail_ends [simp]: "fst (catch m (fail_stream_request c rid) s) = Inr ()"
  by (cases "m s"; cases "fst (m s)") (auto simp: catch_def)

lemma chunk_alone: "chunk_of_batch c m s = (Inr (), alone c (chunk_of m) s)"
proof -
  have "fst (chunk_of_batch c m s) = Inr ()"
    by (simp add: chunk_of_batch_def is_aborted_def andthen_def Let_def)
  moreover have "snd (chunk_of_batch c m s) = alone c (chunk_of m) s"
    by (simp add: chunk_of_batch_def alone_def handle_alone_def cong: if_cong)
  ultimately show ?thesis
    by (simp add: prod_eq_iff)
qed

lemma items_calm:
  "sr_script s = [] \<Longrightarrow> \<forall>m \<in> set batch. fst m \<notin> sr_aborted s \<and> snd m \<noteq> None \<Longrightarrow> valid_items c batch s = (Inr batch, s)"
  by (induction batch) auto

lemma chunk_batch_alone:
  assumes "sr_script s = []" and "\<forall>m \<in> set batch. fst m \<notin> sr_aborted s \<and> snd m \<noteq> None"
  shows "handle_stream_chunk_batch c batch s = (Inr (), fold (alone c) (map chunk_of batch) s)"
proof -
  have "for_each (chunk_of_batch c) xs t = (Inr (), fold (alone c) (map chunk_of xs) t)" for xs t
    by (induction xs arbitrary: t) (simp_all add: chunk_alone)
  then show ?thesis
    using assms by (simp add: handle_stream_chunk_batch_def items_calm live_calm)
qed

section \<open>A round is messages one by one\<close>

lemma take_nothing: "sr_pending s = [] \<Longrightarrow> s = with_queues (sr_inbox s) [] s \<and> takes s [] (sr_inbox s) []"
  by (auto simp: with_queues_def takes_def)

lemma collect_first_takes:
  assumes "honest_stage c" and "sr_script s = []" and "sr_pending s = []"
  shows "\<exists>b i q. collect_new_request_batch c avail (rid, p) s = (Inr ((rid, p) # b), with_queues i q s) \<and>
    takes s (map new_of b) i q \<and> (\<forall>m \<in> set b. sc_is_streaming c (snd m) = Inr False) \<and>
    (sc_is_streaming c p = Inr True \<longrightarrow> b = [])"
proof -
  obtain b where b: "sc_is_streaming c p = Inr b"
    using honest_streaming [OF assms(1)] by blast
  obtain k where k: "stream_cost c p = Inr k"
    using honest_cost [OF assms(1)] by blast
  show ?thesis
  proof (cases "sc_batch_fn c = None \<or> sc_max_batch c \<le> 1 \<or> b")
    case True
    then have "collect_new_request_batch c avail (rid, p) s = (Inr [(rid, p)], s)"
      using b by (auto simp: collect_new_request_batch_def)
    then show ?thesis
      using take_nothing [OF assms(3)] by (intro exI [of _ "[]"] exI [of _ "sr_inbox s"]) simp
  next
    case False
    then obtain f where "sc_batch_fn c = Some f" "\<not> sc_max_batch c \<le> 1" "sc_is_streaming c p = Inr False"
      using b by auto
    then have "collect_new_request_batch c avail (rid, p) s = collect_new c avail [(rid, p)] k s"
      using k by (simp add: collect_new_request_batch_def andthen_def)
    then show ?thesis
      using collect_new_takes [OF assms, of avail "[(rid, p)]" k] b False by simp
  qed
qed

lemma stream_one:
  assumes "sc_is_streaming c p = Inr True" and "sr_script s = []" and "rid \<notin> sr_aborted s"
  shows "catch (handle_new_request_batch c [(rid, p)]) (fail_stream_request c rid) s = (Inr (), alone c (New_Request rid p) s)"
proof -
  have "snd (catch (handle_new_request_batch c [(rid, p)]) (fail_stream_request c rid) s) = alone c (New_Request rid p) s"
    using assms by (cases "handle_streaming_new_request c rid p s"; cases "fst (handle_streaming_new_request c rid p s)")
      (auto simp: handle_new_request_batch_def alone_def handle_alone_def catch_def andthen_def)
  then show ?thesis
    by (simp add: prod_eq_iff)
qed

text \<open>What the rounds rely on: no interference, room for new aborted ids, chunks that are chunks.\<close>

definition sound_item :: "('p, 'i) stream_message \<Rightarrow> bool" where
  "sound_item m \<longleftrightarrow> (\<forall>rid. m \<noteq> Stream_Chunk rid None)"

definition waiting_messages :: "('p, 'i, 'o, 'h) streaming \<Rightarrow> ('p, 'i) stream_message list" where
  "waiting_messages s = sr_pending s @ sr_inbox s"

lemma waiting_queues [simp]: "waiting_messages (with_queues i p s) = p @ i"
  by (simp add: waiting_messages_def)

definition calm_stage :: "('p, 'i, 'o, 'h) streaming \<Rightarrow> bool" where
  "calm_stage s \<longleftrightarrow> sr_script s = [] \<and> finite (sr_aborted s) \<and> length (sr_pending s) \<le> 1 \<and>
     card (sr_aborted s) + length (waiting_messages s) \<le> 10000 \<and> (\<forall>m \<in> set (waiting_messages s). sound_item m)"

lemma batch_handled:
  assumes "takes s ms i q" and "sr_script s = []" and "finite (sr_aborted s)" and "message_id m \<notin> sr_aborted s"
    and "card (sr_aborted s) + Suc (length (sr_inbox s)) \<le> 10000"
  shows "\<exists>pre. sr_inbox s = pre @ q @ i \<and> length q \<le> 1 \<and> fold (alone c) (m # pre) s = fold (alone c) (m # ms) s"
proof -
  obtain pre where p: "sr_inbox s = pre @ q @ i" "ms = filter (\<lambda>m. message_id m \<notin> sr_aborted s) pre" "length q \<le> 1"
    using assms(1) by (auto simp: takes_def)
  have t: "tame (sr_aborted s) (card (sr_aborted s)) s"
    using assms(2,3) by (simp add: tame_def)
  have "fold (alone c) (m # pre) s = fold (alone c) (filter (\<lambda>m. message_id m \<notin> sr_aborted s) (m # pre)) s"
    using assms(5) p(1) by (intro alones_skip [OF t]) simp
  then show ?thesis
    using p assms(4) by auto
qed

lemma take_message_alone:
  fixes s :: "('p, 'i, 'o, 'h) streaming"
  assumes "honest_stage c" and "sr_script s = []" and "finite (sr_aborted s)" and "sr_pending s = []"
    and "card (sr_aborted s) + Suc (length (sr_inbox s)) \<le> 10000" and "\<forall>x \<in> set (m # sr_inbox s). sound_item x"
  shows "\<exists>pre i q. snd (take_message c avail m s) = with_queues i q (fold (alone c) (m # pre) s) \<and>
    sr_inbox s = pre @ q @ i \<and> length q \<le> 1"
proof -
  have one: ?thesis if "snd (take_message c avail m s) = alone c m s"
  proof -
    have "with_queues (sr_inbox s) [] (alone c m s) = alone c m s"
      using alone_queues [of c m "sr_inbox s" "[]" s] take_nothing [OF assms(4)] by simp
    then show ?thesis
      using that by (intro exI [of _ "[]"] exI [of _ "sr_inbox s"]) simp
  qed
  have many: ?thesis if "snd (take_message c avail m s) = with_queues i q (fold (alone c) (m # ms) s)"
    "takes s ms i q" "message_id m \<notin> sr_aborted s" for i q ms
    using batch_handled [OF that(2) assms(2,3) that(3) assms(5), of c] that(1) by metis
  show ?thesis
  proof (cases "message_id m \<in> sr_aborted s")
    case True
    then have "take_message c avail m s = (Inr (), s)"
      using assms(2) by (simp add: take_message_def)
    then show ?thesis
      using one alone_gone [OF assms(2) True, of c] by simp
  next
    case False
    have t: "take_message c avail m s = catch (handle_stream_message c avail m) (fail_stream_request c (message_id m)) s"
      using assms(2) False by (simp add: take_message_def)
    show ?thesis
    proof (cases m)
      case (New_Request rid p)
      obtain b i q where b: "collect_new_request_batch c avail (rid, p) s = (Inr ((rid, p) # b), with_queues i q s)"
        "takes s (map new_of b) i q" "\<forall>m \<in> set b. sc_is_streaming c (snd m) = Inr False"
        "sc_is_streaming c p = Inr True \<longrightarrow> b = []"
        using collect_first_takes [OF assms(1,2,4)] by blast
      have m: "handle_stream_message c avail m s = handle_new_request_batch c ((rid, p) # b) (with_queues i q s)"
        using b(1) New_Request by (simp add: handle_stream_message_def)
      have "take_message c avail m s = (Inr (), with_queues i q (fold (alone c) (m # map new_of b) s))"
      proof (cases "sc_is_streaming c p = Inr True")
        case True
        have "catch (handle_stream_message c avail m) (fail_stream_request c rid) s =
            catch (handle_new_request_batch c [(rid, p)]) (fail_stream_request c rid) (with_queues i q s)"
          using m b(4) True by (simp add: catch_def)
        then show ?thesis
          using t stream_one [OF True, of "with_queues i q s" rid] assms(2) False New_Request b(4) True
          by (simp add: alone_queues)
      next
        case f: False
        then have s: "sc_is_streaming c p = Inr False"
          using honest_streaming [OF assms(1), of p] by (metis (full_types))
        have l: "\<forall>m \<in> set ((rid, p) # b). fst m \<notin> sr_aborted (with_queues i q s) \<and> sc_is_streaming c (snd m) = Inr False"
        proof -
          have "fst x \<notin> sr_aborted s" if "x \<in> set b" for x
            using takes_live [OF b(2), of "new_of x"] that by auto
          then show ?thesis
            using False New_Request s b(3) by auto
        qed
        have "handle_stream_message c avail m s = (Inr (), fold (alone c) (map new_of ((rid, p) # b)) (with_queues i q s))"
          unfolding m using assms(2) by (intro new_batch_alone [OF assms(1) _ _ l]) simp_all
        then show ?thesis
          using t New_Request by (simp add: catch_def alones_queues alone_queues)
      qed
      then show ?thesis
        using many [OF _ b(2)] False by simp
    next
      case (Stream_Chunk rid item)
      show ?thesis
      proof (cases "sc_batch_chunks c")
        case True
        have "\<exists>b i q. collect_stream_chunk_batch c avail (rid, item) s = (Inr ((rid, item) # b), with_queues i q s) \<and> takes s (map chunk_of b) i q"
          using collect_chunks_takes [OF assms(2,4), of c _ avail "[(rid, item)]"] take_nothing [OF assms(4)]
          by (auto simp: collect_stream_chunk_batch_def Let_def)
        then obtain b i q where b: "collect_stream_chunk_batch c avail (rid, item) s = (Inr ((rid, item) # b), with_queues i q s)"
          "takes s (map chunk_of b) i q"
          by blast
        have "fst x \<notin> sr_aborted s \<and> sound_item (chunk_of x :: ('p, 'i) stream_message)" if "x \<in> set b" for x
          using takes_live [OF b(2), of "chunk_of x"] that assms(6) by auto
        then have l: "\<forall>m \<in> set ((rid, item) # b). fst m \<notin> sr_aborted (with_queues i q s) \<and> snd m \<noteq> None"
          using False Stream_Chunk assms(6) by (auto simp: sound_item_def)
        have "handle_stream_message c avail m s = (Inr (), fold (alone c) (map chunk_of ((rid, item) # b)) (with_queues i q s))"
          using b(1) Stream_Chunk True chunk_batch_alone [OF _ l, of c] assms(2) by (simp add: handle_stream_message_def)
        then have "take_message c avail m s = (Inr (), with_queues i q (fold (alone c) (m # map chunk_of b) s))"
          using t Stream_Chunk by (simp add: catch_def alones_queues alone_queues)
        then show ?thesis
          using many [OF _ b(2)] False by simp
      next
        case f: False
        then show ?thesis
          using one t Stream_Chunk False assms(2) by (simp add: alone_def handle_alone_def handle_stream_message_def catch_def)
      qed
    next
      case (Stream_Done rid)
      then show ?thesis
        using one t False assms(2) by (simp add: alone_def handle_alone_def handle_stream_message_def catch_def)
    next
      case (Odd_Message rid ty)
      then show ?thesis
        using one t False assms(2) by (simp add: alone_def handle_alone_def handle_stream_message_def catch_def)
    qed
  qed
qed

lemma stream_round_alone:
  assumes "honest_stage c" and "calm_stage s" and "waiting_messages s = m # rest"
  shows "\<exists>handled i q. handled \<noteq> [] \<and> waiting_messages s = handled @ q @ i \<and> length q \<le> 1 \<and>
    stream_round c avail s = with_queues i q (fold (alone c) handled s)"
proof -
  have rest: "\<exists>i. stream_round c avail s = snd (take_message c avail m (with_queues i [] s)) \<and> i = rest"
  proof (cases "sr_pending s")
    case Nil
    then show ?thesis
      using assms(3) Nil by (simp add: waiting_messages_def stream_round_def inbox_queues [OF Nil])
  next
    case (Cons x xs)
    then have c: "xs = []" "x = m" "sr_inbox s = rest"
      using assms(2,3) by (auto simp: waiting_messages_def calm_stage_def)
    then have "s\<lparr>sr_pending := xs\<rparr> = with_queues rest [] s"
      by (simp add: with_queues_def)
    then show ?thesis
      using Cons c(2) by (simp add: stream_round_def)
  qed
  let ?s = "with_queues rest [] s"
  have "\<exists>pre i q. snd (take_message c avail m ?s) = with_queues i q (fold (alone c) (m # pre) ?s) \<and>
      sr_inbox ?s = pre @ q @ i \<and> length q \<le> 1"
    using assms(2,3) by (intro take_message_alone [OF assms(1)]) (simp_all add: calm_stage_def)
  then obtain pre i q where p: "snd (take_message c avail m ?s) = with_queues i q (fold (alone c) (m # pre) ?s)"
    "rest = pre @ q @ i" "length q \<le> 1"
    by auto
  have "stream_round c avail s = with_queues i q (fold (alone c) (m # pre) s)"
    using rest p(1) alones_queues [of c "m # pre" rest "[]" s] by simp
  then show ?thesis
    using p assms(3) by (intro exI [of _ "m # pre"] exI [of _ i] exI [of _ q]) simp
qed

lemma calm_round:
  assumes "calm_stage s" and "waiting_messages s = handled @ q @ i" and "length q \<le> 1"
  shows "calm_stage (with_queues i q (fold (alone c) handled s))"
proof -
  have "tame {} (card (sr_aborted s) + length handled) (fold (alone c) handled s)"
    using assms by (intro tame_alones) (auto simp: tame_def calm_stage_def)
  then show ?thesis
    using assms by (auto simp: tame_def calm_stage_def)
qed

text \<open>
  C14: For an honest stage left undisturbed, batching is invisible. The hypotheses: the stage's streaming
  test, validation and cost function do not raise, and its batch function, if it has one, is its single
  function on every member, which does not raise either (\<open>honest_stage\<close>); no request is aborted
  meanwhile, every chunk message carries an item, at most one message is pending, and the aborted
  ids and waiting messages together stay below the cap of 10000 aborted ids (\<open>calm_stage\<close>). The stream
  hooks may raise. Then, whatever the collections of each round find in the queue, the rounds of the
  streaming scheduler handle the waiting messages one by one in the order they arrived: the state they reach
  is the state after handling a first part of the messages alone, the rest still waits in its order, and
  every round handles at least one message. (A validation that fails inside a batch is reported before
  the results of the batch's earlier members, so the first hypothesis is needed.)
\<close>

theorem stream_batching_is_invisible:
  assumes "honest_stage c" and "calm_stage s" and "s' = stream_rounds c avails s"
  shows "\<exists>handled. waiting_messages s = handled @ waiting_messages s' \<and>
    s' = with_queues (sr_inbox s') (sr_pending s') (fold (alone c) handled s) \<and>
    min (length avails) (length (waiting_messages s)) \<le> length handled"
  using assms(2,3)
proof (induction avails arbitrary: s)
  case Nil
  then show ?case
    by (simp add: with_queues_def)
next
  case (Cons avail avails)
  show ?case
  proof (cases "waiting_messages s")
    case Nil
    then have "stream_round c avail s = s"
      by (simp add: waiting_messages_def stream_round_def)
    moreover obtain h where "waiting_messages s = h @ waiting_messages s'"
      "s' = with_queues (sr_inbox s') (sr_pending s') (fold (alone c) h s)"
      using Cons.IH [OF Cons.prems(1)] Cons.prems(2) calculation by auto
    ultimately show ?thesis
      using Nil by (intro exI [of _ h]) simp
  next
    case (Cons m rest)
    obtain h i q where h: "h \<noteq> []" "waiting_messages s = h @ q @ i" "length q \<le> 1"
      "stream_round c avail s = with_queues i q (fold (alone c) h s)"
      using stream_round_alone [OF assms(1) Cons.prems(1) Cons] by blast
    let ?t = "with_queues i q (fold (alone c) h s)"
    have w: "waiting_messages ?t = q @ i"
      by simp
    have e: "s' = stream_rounds c avails ?t"
      using Cons.prems(2) h(4) by simp
    obtain h' where h': "waiting_messages ?t = h' @ waiting_messages s'"
      "s' = with_queues (sr_inbox s') (sr_pending s') (fold (alone c) h' ?t)"
      "min (length avails) (length (waiting_messages ?t)) \<le> length h'"
      using Cons.IH [OF calm_round [OF Cons.prems(1) h(2,3), of c] e] by blast
    have "s' = with_queues (sr_inbox s') (sr_pending s') (fold (alone c) (h @ h') s)"
      using h'(2) by (simp add: alones_queues)
    moreover have "waiting_messages s = (h @ h') @ waiting_messages s'"
      using h(2) h'(1) w by simp
    moreover obtain k where "length h = Suc k" "length (waiting_messages s) = length h + length (waiting_messages ?t)"
      using h(1,2) w by (cases h) simp_all
    then have "min (length (avail # avails)) (length (waiting_messages s)) \<le> length (h @ h')"
      using h'(3) unfolding min_le_iff_disj by auto
    ultimately show ?thesis
      by blast
  qed
qed

section \<open>Streams\<close>

text \<open>
  The end of a stream may overtake its request. For a fresh streaming request the order in which the
  payload and the end of the stream arrive does not matter: the scheduler reaches the same state, with the
  same output, hook calls and tables, also when a hook raises.
\<close>

theorem stream_done_may_come_first:
  assumes "sc_is_streaming c p = Inr True" and "sr_script s = []" and "finite (sr_aborted s)" and "card (sr_aborted s) < 10000"
    and "rid \<notin> sr_aborted s" "rid \<notin> sr_completed s" "rid \<notin> sr_done s" "sr_payloads s rid = None"
  shows "fold (alone c) [Stream_Done rid, New_Request rid p] s = fold (alone c) [New_Request rid p, Stream_Done rid] s"
proof -
  let ?s = "s\<lparr>sr_payloads := (sr_payloads s)(rid \<mapsto> p)\<rparr>"
  obtain r h where h: "sc_on_new c rid p (sr_hooks s) = (r, h)"
    by fastforce
  have gone: "cap_set (sc_order c) 10000 5000 (insert rid (sr_aborted s)) = insert rid (sr_aborted s)"
    using assms(3-5) by (simp add: cap_set_def)
  have first: "alone c (Stream_Done rid) s = s\<lparr>sr_done := insert rid (sr_done s)\<rparr>"
    using assms by (simp add: alone_def handle_alone_def handle_stream_done_def catch_def)
  show ?thesis
  proof (cases r)
    case (Inl e)
    then show ?thesis
      using assms h gone first
      by (simp add: alone_def handle_alone_def catch_def handle_streaming_new_request_def run_hook_def others_abort_def
          fail_stream_request_def put_out_def abort_stream_def clear_stream_request_def record_aborted_id_def Let_def)
  next
    case (Inr u)
    let ?t = "s\<lparr>sr_payloads := (sr_payloads s)(rid \<mapsto> p), sr_hooks := h\<rparr>"
    have "alone c (New_Request rid p) (s\<lparr>sr_done := insert rid (sr_done s)\<rparr>) = snd (catch (handle_stream_done c rid) (fail_stream_request c rid) ?t)"
      using assms h Inr
      by (simp add: alone_def handle_alone_def catch_def handle_streaming_new_request_def run_hook_def others_abort_def)
    moreover have "alone c (New_Request rid p) s = ?t"
      using assms h Inr
      by (simp add: alone_def handle_alone_def catch_def handle_streaming_new_request_def run_hook_def others_abort_def)
    moreover have "alone c (Stream_Done rid) ?t = snd (catch (handle_stream_done c rid) (fail_stream_request c rid) ?t)"
      using assms by (simp add: alone_def handle_alone_def)
    ultimately show ?thesis
      using first by simp
  qed
qed

text \<open>
  C15: An abort can be lost. When another thread aborts a request between the scheduler's last look and the
  first line of \<open>_handle_streaming_new_request\<close>, that line erases the abort: its clean-up has run, but the
  request is set up and the scheduler no longer knows that it was aborted.
\<close>

theorem abort_of_starting_stream_is_lost:
  assumes "sc_is_streaming c p = Inr True" and "sr_script s = [[], [], [rid]]" and "rid \<notin> sr_aborted s"
    and "\<And>h. fst (sc_on_new c rid p h) = Inr ()" and "rid \<notin> sr_done s" and "s' = snd (take_message c n (New_Request rid p) s)"
  shows "sr_payloads s' rid = Some p \<and> rid \<notin> sr_aborted s' \<and> sr_cleanups s' = sr_cleanups s @ [rid]"
proof -
  have look: "is_aborted c rid (s\<lparr>sr_script := [] # rest\<rparr>) = (Inr False, s\<lparr>sr_script := rest\<rparr>)" for rest
    using assms(3) by (simp add: is_aborted_def others_abort_def)
  have s: "s = s\<lparr>sr_script := [[], [], [rid]]\<rparr>"
    using assms(2) by simp
  have "collect_new_request_batch c n (rid, p) (s\<lparr>sr_script := [[], [rid]]\<rparr>) = (Inr [(rid, p)], s\<lparr>sr_script := [[], [rid]]\<rparr>)"
    using assms(1) by (simp add: collect_new_request_batch_def)
  then have t: "s' = snd (catch (handle_streaming_new_request c rid p) (fail_stream_request c rid) (s\<lparr>sr_script := [[rid]]\<rparr>))"
    using assms(1) unfolding assms(6)
    by (subst s) (auto simp: take_message_def look handle_stream_message_def handle_new_request_batch_def catch_def andthen_def
        split: prod.splits sum.splits)
  obtain h where "sc_on_new c rid p (sc_clear c rid (sr_hooks s)) = (Inr (), h)"
    using assms(4) by (metis prod.collapse)
  then show ?thesis
    unfolding t using assms(5)
    by (simp add: catch_def handle_streaming_new_request_def others_abort_def run_hook_def abort_stream_def
        clear_stream_request_def record_aborted_id_def Let_def)
qed

text \<open>
  The set of aborted requests forgets in the order of a Python set, so it can forget the abort just recorded.
\<close>

lemma fresh_abort_can_be_forgotten:
  assumes "finite S" and "card S = 10000" and "rid \<notin> S"
  shows "\<exists>ord. set_order ord \<and> rid \<notin> cap_set ord 10000 5000 (insert rid S)"
proof -
  have "\<forall>T. \<exists>xs. finite T \<longrightarrow> set xs = T \<and> distinct xs"
    using finite_distinct_list by blast
  then obtain f where f: "finite T \<Longrightarrow> set (f T) = T \<and> distinct (f T)" for T :: "'a set"
    by metis
  let ?ord = "\<lambda>T. if T = insert rid S then rid # f S else f T"
  have "set_order ?ord"
    using assms f by (auto simp: set_order_def)
  moreover have "rid \<notin> cap_set ?ord 10000 5000 (insert rid S)"
    using assms by (simp add: cap_set_def)
  ultimately show ?thesis
    by blast
qed

section \<open>Concrete instances\<close>

definition demo_streaming :: "(int, int, int, int) streaming_config" where
  "demo_streaming = \<lparr>sc_fn = Some (\<lambda>p. Inr (p + 1)), sc_batch_fn = Some (\<lambda>ps. Inr (map (\<lambda>p. p + 1) ps)), sc_max_batch = 4,
     sc_cost_fn = None, sc_max_cost = None, sc_batch_chunks = True, sc_chunk_max = 8, sc_chunk_distinct = False,
     sc_is_streaming = (\<lambda>p. Inr (p = 0)), sc_validate = (\<lambda>p. Inr ()), sc_on_new = (\<lambda>rid p. ret ()),
     sc_on_chunk = (\<lambda>rid i h. (Inr [Out_Stream rid i], h + i)), sc_on_done = (\<lambda>rid h. (Inr [Out_Result rid h], h)),
     sc_clear = (\<lambda>rid h. h), sc_order = (\<lambda>S. [])\<rparr>"

theorem stream_batching_is_invisible_witness:
  "let s = (new_streaming 0)\<lparr>sr_inbox := [New_Request ''a'' 1, New_Request ''b'' 2, New_Request ''c'' 0,
         Stream_Chunk ''c'' (Some 5), Stream_Done ''c'']\<rparr>; s' = stream_rounds demo_streaming [9, 9, 9] s in
   \<exists>handled. waiting_messages s = handled @ waiting_messages s' \<and>
     s' = with_queues (sr_inbox s') (sr_pending s') (fold (alone demo_streaming) handled s) \<and>
     min (length [9, 9, 9 :: nat]) (length (waiting_messages s)) \<le> length handled"
proof -
  let ?s = "(new_streaming 0)\<lparr>sr_inbox := [New_Request ''a'' 1, New_Request ''b'' 2, New_Request ''c'' 0,
         Stream_Chunk ''c'' (Some 5), Stream_Done ''c'']\<rparr> :: (int, int, int, int) streaming"
  have "honest_stage demo_streaming" "calm_stage ?s"
    by (auto simp: honest_stage_def demo_streaming_def is_ok_iff calm_stage_def new_streaming_def waiting_messages_def sound_item_def)
  then show ?thesis
    unfolding Let_def by (intro stream_batching_is_invisible refl)
qed

theorem stream_done_may_come_first_witness:
  "let s = new_streaming 0 :: (int, int, int, int) streaming in
   fold (alone demo_streaming) [Stream_Done ''c'', New_Request ''c'' 0] s = fold (alone demo_streaming) [New_Request ''c'' 0, Stream_Done ''c''] s"
  unfolding Let_def by (rule stream_done_may_come_first) (simp_all add: demo_streaming_def new_streaming_def)

theorem abort_of_starting_stream_is_lost_witness:
  "let s' = snd (take_message demo_streaming 0 (New_Request ''c'' 0) ((new_streaming 0)\<lparr>sr_script := [[], [], [''c'']]\<rparr>)) in
   sr_payloads s' ''c'' = Some 0 \<and> ''c'' \<notin> sr_aborted s' \<and> sr_cleanups s' = [''c'']"
proof -
  let ?s = "(new_streaming 0)\<lparr>sr_script := [[], [], [''c'']]\<rparr> :: (int, int, int, int) streaming"
  have "sc_is_streaming demo_streaming 0 = Inr True" "sr_script ?s = [[], [], [''c'']]" "''c'' \<notin> sr_aborted ?s"
    "\<And>h. fst (sc_on_new demo_streaming ''c'' 0 h) = Inr ()" "''c'' \<notin> sr_done ?s"
    by (simp_all add: demo_streaming_def new_streaming_def)
  from abort_of_starting_stream_is_lost [OF this refl, of 0] show ?thesis
    by (simp add: Let_def new_streaming_def)
qed

end
