(* ===== verification/Spec2Isabelle.thy ===== *)
theory Spec2Isabelle
  imports Coordinator_Correct Stage_System Simple_Scheduler Stage_IO Stage_Cache Router_Broadcast Process_Plan Slot_Ownership
    Comm_Engine Prepared_Queue Batch_Policy Streaming_Scheduler
begin

text \<open>
  SGLang-Omni serves multi-stage speech and multi-modal models. A \<^emph>\<open>coordinator\<close> accepts requests from
  clients and submits them to the entry stage of a pipeline; each \<^emph>\<open>stage\<close> receives payloads and streamed
  chunks, runs them through its \<^emph>\<open>scheduler\<close> and routes results to the next stages or back to the
  coordinator. Control messages travel over sockets, tensors over a \<^emph>\<open>relay\<close>, driven by the stage's
  \<^emph>\<open>communication engine\<close>. Which processes and GPUs the stages live on is computed from the configuration
  before anything starts. In front of several such servers stands an external HTTP \<^emph>\<open>router\<close>. All paths
  below are under \<open>src/\<close>.

  \<^bold>\<open>Modelling.\<close> Classes and dataclasses are records, enumerations and unions datatypes, with the fields and
  constructors of the source. A method is a function from its object's record to the new record; one that
  may raise returns \<open>'a result\<close>, whose left side is a Python exception (\<open>py_error\<close> of \<open>Prelude\<close>; messages
  are shortened). Untyped Python values, the dictionaries of the wire and of JSON, are \<open>pyval\<close>.
  Python's integers are \<open>int\<close> or, where they cannot be negative, \<open>nat\<close>; no fixed-width arithmetic occurs
  in the modelled code. A coroutine is cut at its awaits: each stretch between two awaits is one step, and the
  interleavings are inductive relations (\<open>cstep\<close>, \<open>sys_step\<close>, \<open>px_reach\<close>, \<open>admin_run\<close>, \<open>engine_run\<close>,
  \<open>pool_reach\<close>) or runs over a list of events (\<open>stage_run\<close>). Threads are interleaved in the same way, a method
  under a lock being one step. Callbacks, third-party libraries, the operating system and the GPU are
  arguments, or outcomes carried by the events; what is assumed of them is a hypothesis of the theorem.

  \<^bold>\<open>Theories, sources and what the lemmas show.\<close>

  \<^item> \<open>Prelude\<close>: results and their sequencing, \<open>pyval\<close> with its accessors, lemmas on maps and lists.
  \<^item> \<open>Messages\<close>: \<open>sglang_omni/proto\<close>. One encoder and one decoder per message class (\<open>submit_to_dict\<close>,
    \<open>submit_from_dict\<close> and so on) and the dispatch \<open>parse_message\<close>. The locale \<open>wire_codec\<close> states what a
    codec promises; it is interpreted on every message class, and round trips follow.
  \<^item> \<open>Coordinator\<close>, \<open>Coordinator_Steps\<close>, \<open>Coordinator_Correct\<close>: \<open>pipeline/coordinator.py\<close>. The record
    \<open>coord\<close> holds the request table, partial results, futures and stream queues; \<open>submit_begin\<close>,
    \<open>submit_finish\<close>, \<open>abort_begin\<close> and so on are the stretches of \<open>_submit_request\<close>, \<open>abort\<close>,
    \<open>_handle_completion\<close> and their neighbours. \<open>cstep\<close> interleaves clients, cancellations (the future is
    cancelled in one step, the \<open>finally\<close> clause runs in a later one), aborts and the completion loop. Shown: the tables agree with
    each other, no wake-up is lost, the merge of several terminal stages does not depend on order, the
    first failure ends a request, and which client a refused stream orphans.
  \<^item> \<open>Stage_Input\<close>, \<open>Stream_Queue\<close>, \<open>Payload_Isolation\<close>, \<open>Receive_Lanes\<close>, \<open>Stage_State\<close>, \<open>Stage_Route\<close>,
    \<open>Stage_Tables\<close>, \<open>Stage_Paths\<close>, \<open>Stage_System\<close>: \<open>pipeline/stage\<close> (\<open>input.py\<close>, \<open>stream_queue.py\<close>,
    \<open>runtime.py\<close>). \<open>Stage_State\<close> has the record \<open>stage\<close> and the receiving half of \<open>Stage\<close>, \<open>Stage_Route\<close>
    the sending half, \<open>Receive_Lanes\<close> the tails of \<open>_schedule_receive_task\<close>. The locales \<open>input_handler\<close>
    and \<open>stage_invariant\<close> collect the laws of fan-in and of an invariant of the stage's primitives. Shown:
    no table mentions a request that is over, an aborted request is inert, lanes progress, chunks enter in
    arrival order and leave consecutively numbered.
  \<^item> \<open>Simple_Scheduler\<close>, \<open>Streaming_Scheduler\<close>, \<open>Prepared_Queue\<close>, \<open>Batch_Policy\<close>, \<open>Stage_Cache\<close>:
    \<open>scheduling/simple_scheduler.py\<close>, \<open>streaming_simple_scheduler.py\<close>, \<open>prepared_request_queue.py\<close>,
    \<open>generation_batch_policy.py\<close>, \<open>stage_cache.py\<close> and \<open>speaker_cache.py\<close>. Shown: answers in order and none
    forgotten, batching invisible, aborts that are lost, no hand-over after an abort, a cache that refines a
    dictionary.
  \<^item> \<open>Data_Ref\<close>, \<open>Tensor_Packing\<close>, \<open>Stage_IO\<close>, \<open>Comm_Router\<close>, \<open>Comm_Engine\<close>: \<open>comm/data_ref.py\<close>,
    \<open>stage_io.py\<close>, \<open>router.py\<close>, \<open>engine.py\<close>. Shown: the decoder of references is an exact type check and
    inverts the encoder, tensors come back as they left, the packing is aligned and disjoint; the engine
    starts and restarts the sender of a target, announces in call order, leaks no transfer, and strands its
    callers when it is closed (\<open>CancelledError\<close> passes \<open>except Exception\<close>).
  \<^item> \<open>Slot_Pool\<close>, \<open>Slot_Ownership\<close>: the sender-side pool of \<open>relay/cuda_ipc.py\<close>. Shown: every slot has one
    owner, and no call sleeps that could be served.
  \<^item> \<open>Config_Schema\<close>, \<open>Config_Placement\<close>, \<open>Config_Topology\<close>, \<open>Process_Plan\<close>: \<open>config/schema.py\<close>,
    \<open>placement.py\<close>, \<open>runtime.py\<close>, \<open>topology.py\<close>. Shown: what an accepted placement and an accepted
    topology guarantee, that the union-find computes the components, and that the builder returns.
  \<^item> \<open>Json_Scanner\<close>, \<open>Route_Metadata\<close>, \<open>Router_Worker\<close>, \<open>Router_Proxy\<close>, \<open>Router_Admin\<close>,
    \<open>Router_Broadcast\<close>: \<open>sglang_omni_router\<close> (\<open>route_metadata.py\<close>, \<open>worker.py\<close>, \<open>selector.py\<close>,
    \<open>health.py\<close>, \<open>proxy.py\<close>, \<open>app.py\<close>). Shown: the byte scanner returns and agrees with the parser on what
    \<open>json.dumps\<close> writes, routing honours headers, admission is exact in every interleaving, and what an
    administrative broadcast guarantees and what it loses.

  The components meet where the code's do: \<open>Stage_State\<close> uses \<open>Stage_Input\<close>, \<open>Stream_Queue\<close>,
  \<open>Payload_Isolation\<close> and the messages; \<open>Stage_IO\<close> the references and the packing; the proxy the
  metadata and the workers; the broadcasts the proxy's steps. The scheduler, the communication engine and the
  coordinator are joined to the stage by messages only, which appear as events on one side and as entries
  of a log of sent messages on the other.

  \<^bold>\<open>Bounds and fuel.\<close> The scanner's mutually recursive skips run on fuel; \<open>2 * length body + 1\<close> is enough for
  every body (\<open>scanner_returns\<close>). Its second argument is the room on the interpreter's stack: where it is
  used up the code raises \<open>RecursionError\<close>, and so does the model. The searches of the topology builder are
  partial functions, so that a loop that does not end is \<open>None\<close>, and \<open>topology_builder_returns\<close> excludes
  that value. Everything else terminates by structure or by a measure. The size of a send queue, the
  admission bound, the health thresholds and the cache's budgets are parameters; the cap of 10000 aborted
  requests is the code's.

  \<^bold>\<open>Not modelled.\<close> GPU copies, kernels and events, RDMA, shared memory and sockets, of which the steps carry the
  outcomes; hence the other relay backends, the model runner, the batches and the KV cache of
  \<open>omni_scheduler.py\<close> (built on a library that is not in the tree) and \<open>sglang_omni/models\<close>. The HTTP
  server, FastAPI and pydantic, whose parsed values are inputs. Operating-system processes
  (\<open>mp_runner.py\<close>, \<open>tp_control.py\<close>, the launchers). The client library and the OpenAI front end, which
  reformat requests around the coordinator. Floating-point numbers, where they occur (memory fractions,
  costs), are opaque values with the comparisons and sums the code uses. Logging, traces, profiling and the
  exact texts of errors.
\<close>

end
